(* ===== verification/Prelude.thy ===== *)
theory Prelude
  imports Main "HOL-Library.Word"
begin

text \<open>
  Shared material of the xv6 development: the C integer types at their widths, the
  result type in which a kernel panic is a value, little-endian encodings of integers in
  byte arrays, and the generic lemmas on words, lists and options that the component
  theories use.

  Conventions.  A C function that may call \<^verbatim>\<open>panic\<close> (which never returns) has a result
  in \<open>fault + 'a\<close>; \<open>Inl (Panic msg)\<close> carries the message of the source.  Stateful code
  takes the state and returns it beside the value.  \<open>ebind\<close> is sequencing.
\<close>

unbundle bit_operations_syntax

section \<open>C integer types\<close>

type_synonym uint8 = "8 word"
type_synonym uint16 = "16 word"
type_synonym uint32 = "32 word"
type_synonym uint64 = "64 word"
type_synonym byte = "8 word"

section \<open>Results\<close>

text \<open>
  \<open>Panic msg\<close> is a call of \<^verbatim>\<open>panic(msg)\<close>; \<open>Undef what\<close> marks an execution that leaves the
  C language (an access outside an array, a null dereference), so that a theorem that an
  operation returns \<open>Inr\<close> also says it has no such access.
\<close>

datatype fault = Panic string | Undef string

type_synonym 'a result = "fault + 'a"

definition ebind :: "'e + 'a \<Rightarrow> ('a \<Rightarrow> 'e + 'b) \<Rightarrow> 'e + 'b" where
  "ebind m f = (case m of Inl e \<Rightarrow> Inl e | Inr x \<Rightarrow> f x)"

definition panic :: "string \<Rightarrow> 'a result" where
  "panic msg = Inl (Panic msg)"

definition undef :: "string \<Rightarrow> 'a result" where
  "undef what = Inl (Undef what)"

named_theorems result_simps \<open>evaluation of results\<close>
named_theorems word_simps \<open>word arithmetic moved to nat\<close>

lemma ebind_Inl [simp, result_simps]: "ebind (Inl e) f = Inl e"
  by (simp add: ebind_def)

lemma ebind_Inr [simp, result_simps]: "ebind (Inr x) f = f x"
  by (simp add: ebind_def)

lemma ebind_panic [simp, result_simps]: "ebind (panic msg) f = panic msg"
  by (simp add: panic_def)

lemma ebind_undef [simp, result_simps]: "ebind (undef msg) f = undef msg"
  by (simp add: undef_def)

lemma panic_neq_Inr [simp, result_simps]:
  "panic msg \<noteq> Inr x" "Inr x \<noteq> panic msg" "undef msg \<noteq> Inr x" "Inr x \<noteq> undef msg"
  by (simp_all add: panic_def undef_def)

lemma ebind_Inr_iff: "ebind m f = Inr y \<longleftrightarrow> (\<exists>x. m = Inr x \<and> f x = Inr y)"
  by (cases m) auto

lemma ebind_InrE [elim]:
  assumes "ebind m f = Inr y"
  obtains x where "m = Inr x" and "f x = Inr y"
  using assms by (auto simp: ebind_Inr_iff)

lemma ebind_assoc: "ebind (ebind m f) g = ebind m (\<lambda>x. ebind (f x) g)"
  by (cases m) auto

lemma ebind_cong [fundef_cong]:
  "m = m' \<Longrightarrow> (\<And>x. m' = Inr x \<Longrightarrow> f x = f' x) \<Longrightarrow> ebind m f = ebind m' f'"
  by (cases m') auto

section \<open>Calls that may wait\<close>

text \<open>
  A call that may have to wait for another process, or that may loop for ever, has an \<open>outcome\<close>: \<open>None\<close> if
  it does not return from the given state, otherwise its result.
\<close>

type_synonym 'a outcome = "'a result option"

definition rbind :: "'a outcome \<Rightarrow> ('a \<Rightarrow> 'b outcome) \<Rightarrow> 'b outcome" where
  "rbind m f = (case m of None \<Rightarrow> None | Some (Inl e) \<Rightarrow> Some (Inl e) | Some (Inr x) \<Rightarrow> f x)"

definition ret :: "'a \<Rightarrow> 'a outcome" where
  "ret x = Some (Inr x)"

definition halt :: "string \<Rightarrow> 'a outcome" where
  "halt msg = Some (panic msg)"

lemma rbind_simps [simp, result_simps]:
  "rbind None f = None" "rbind (Some (Inl e)) f = Some (Inl e)" "rbind (Some (Inr x)) f = f x"
  "rbind (ret x) f = f x" "rbind (halt msg) f = halt msg"
  by (simp_all add: rbind_def ret_def halt_def panic_def)

lemma ret_eq [simp]: "ret x = ret y \<longleftrightarrow> x = y" "ret x \<noteq> None" "halt msg \<noteq> ret x" "ret x \<noteq> halt msg"
  by (simp_all add: ret_def halt_def)

lemma rbind_assoc: "rbind (rbind m f) g = rbind m (\<lambda>x. rbind (f x) g)"
  by (auto simp: rbind_def split: option.splits sum.splits)

lemma rbind_cong [fundef_cong]:
  "m = m' \<Longrightarrow> (\<And>x. m' = Some (Inr x) \<Longrightarrow> f x = f' x) \<Longrightarrow> rbind m f = rbind m' f'"
  by (auto simp: rbind_def split: option.splits sum.splits)

text \<open>\<open>yields m Q\<close>: the call returns without a fault, and its value satisfies \<open>Q\<close>.\<close>

definition yields :: "'a outcome \<Rightarrow> ('a \<Rightarrow> bool) \<Rightarrow> bool" where
  "yields m Q \<longleftrightarrow> (\<exists>x. m = ret x \<and> Q x)"

lemma yields_simps [simp]:
  "yields (ret x) Q = Q x" "yields (rbind m f) Q = yields m (\<lambda>x. yields (f x) Q)"
  "\<not> yields None Q" "\<not> yields (halt msg) Q" "\<not> yields (Some (undef msg)) Q"
  by (cases m; auto simp: yields_def rbind_def ret_def halt_def undef_def panic_def split: sum.splits)+

lemma yields_mono: "yields m P \<Longrightarrow> (\<And>x. P x \<Longrightarrow> Q x) \<Longrightarrow> yields m Q"
  by (auto simp: yields_def)

section \<open>Signed 32-bit truncation\<close>

text \<open>The value of a C \<^verbatim>\<open>int\<close> after a wider value is assigned to it.\<close>

definition to_int32 :: "int \<Rightarrow> int" where
  "to_int32 x = (x + 2 ^ 31) mod 2 ^ 32 - 2 ^ 31"

lemma to_int32_id [simp]: "- (2 ^ 31) \<le> x \<Longrightarrow> x < 2 ^ 31 \<Longrightarrow> to_int32 x = x"
  by (simp add: to_int32_def)

section \<open>Little-endian encodings\<close>

text \<open>
  RISC-V stores integers in little-endian byte order.  On-disk structures (log header,
  inode, directory entry) are arrays of bytes that the code casts to structs.
\<close>

definition le16 :: "uint16 \<Rightarrow> byte list" where
  "le16 w = [ucast w, ucast (drop_bit 8 w)]"

definition le32 :: "uint32 \<Rightarrow> byte list" where
  "le32 w = [ucast w, ucast (drop_bit 8 w), ucast (drop_bit 16 w), ucast (drop_bit 24 w)]"

definition rd16 :: "byte list \<Rightarrow> nat \<Rightarrow> uint16" where
  "rd16 bs i = ucast (bs ! i) OR push_bit 8 (ucast (bs ! (i + 1)))"

definition rd32 :: "byte list \<Rightarrow> nat \<Rightarrow> uint32" where
  "rd32 bs i = ucast (bs ! i) OR push_bit 8 (ucast (bs ! (i + 1)))
     OR push_bit 16 (ucast (bs ! (i + 2))) OR push_bit 24 (ucast (bs ! (i + 3)))"

text \<open>Overwriting a run of an array from offset \<open>i\<close>.\<close>

definition overwrite :: "'a list \<Rightarrow> nat \<Rightarrow> 'a list \<Rightarrow> 'a list" where
  "overwrite xs i ys = take i xs @ ys @ drop (i + length ys) xs"

lemma length_overwrite [simp]: "i + length ys \<le> length xs \<Longrightarrow> length (overwrite xs i ys) = length xs"
  by (simp add: overwrite_def)

lemma nth_overwrite:
  assumes "i + length ys \<le> length xs" and "j < length xs"
  shows "overwrite xs i ys ! j = (if i \<le> j \<and> j < i + length ys then ys ! (j - i) else xs ! j)"
  using assms by (auto simp: overwrite_def nth_append min_def)

lemma take_drop_overwrite [simp]:
  "i + length ys \<le> length xs \<Longrightarrow> take (length ys) (drop i (overwrite xs i ys)) = ys"
  by (simp add: overwrite_def)

lemma length_le16 [simp]: "length (le16 w) = 2"
  by (simp add: le16_def)

lemma length_le32 [simp]: "length (le32 w) = 4"
  by (simp add: le32_def)

lemma ucast_split16: "ucast (ucast (w::uint16) :: byte) OR push_bit 8 (ucast (ucast (drop_bit 8 w) :: byte)) = w"
  by (rule bit_word_eqI) (auto simp: bit_simps)

lemma ucast_split32:
  "ucast (ucast (w::uint32) :: byte) OR push_bit 8 (ucast (ucast (drop_bit 8 w) :: byte))
     OR push_bit 16 (ucast (ucast (drop_bit 16 w) :: byte))
     OR push_bit 24 (ucast (ucast (drop_bit 24 w) :: byte)) = w"
proof (rule bit_word_eqI)
  fix n
  assume "n < LENGTH(32)"
  then consider "n < 8" | "8 \<le> n" "n < 16" | "16 \<le> n" "n < 24" | "24 \<le> n" "n < 32"
    by fastforce
  then show "bit (ucast (ucast w :: byte) OR push_bit 8 (ucast (ucast (drop_bit 8 w) :: byte))
     OR push_bit 16 (ucast (ucast (drop_bit 16 w) :: byte))
     OR push_bit 24 (ucast (ucast (drop_bit 24 w) :: byte)) :: uint32) n = bit w n"
    by cases (auto simp: bit_simps)
qed

lemma rd16_le16: "i + 2 \<le> length bs \<Longrightarrow> rd16 (overwrite bs i (le16 w)) i = w"
  by (simp add: rd16_def nth_overwrite le16_def ucast_split16)

lemma rd32_le32: "i + 4 \<le> length bs \<Longrightarrow> rd32 (overwrite bs i (le32 w)) i = w"
  by (simp add: rd32_def nth_overwrite le32_def ucast_split32)

lemma rd32_overwrite_other:
  "i + length ys \<le> length bs \<Longrightarrow> j + 4 \<le> length bs \<Longrightarrow> j + 4 \<le> i \<or> i + length ys \<le> j \<Longrightarrow>
   rd32 (overwrite bs i ys) j = rd32 bs j"
  by (auto simp: rd32_def nth_overwrite)

end
