(* ===== verification/ListC.thy ===== *)
theory ListC
  imports Prelude
begin

text \<open>
  \<^verbatim>\<open>kernel/list.c\<close>: the circular doubly-linked lists of the buddy allocator.

  A \<^verbatim>\<open>struct list\<close> is a pair of pointers at an address.  The heap of such cells is a pair of
  functions from addresses to addresses, and every operation is the sequence of pointer
  assignments of the source.  \<open>dlist h l xs\<close> says that the list with header cell \<open>l\<close>
  holds the cells \<open>xs\<close>, in order.  The locale \<open>list_store\<close> is the contract the allocator
  relies on: what each operation does to the list it is given, and that it leaves every
  separate list alone.
\<close>

section \<open>Cells and operations\<close>

type_synonym addr = nat

record list_heap =
  "next" :: "addr \<Rightarrow> addr"
  prev :: "addr \<Rightarrow> addr"

definition lst_init :: "list_heap \<Rightarrow> addr \<Rightarrow> list_heap" where
  "lst_init h lst = h\<lparr>next := (next h)(lst := lst), prev := (prev h)(lst := lst)\<rparr>"

definition lst_empty :: "list_heap \<Rightarrow> addr \<Rightarrow> bool" where
  "lst_empty h lst \<longleftrightarrow> next h lst = lst"

definition lst_remove :: "list_heap \<Rightarrow> addr \<Rightarrow> list_heap" where
  "lst_remove h e =
     (let h1 = h\<lparr>next := (next h)(prev h e := next h e)\<rparr>
      in h1\<lparr>prev := (prev h1)(next h1 e := prev h1 e)\<rparr>)"

definition lst_pop :: "list_heap \<Rightarrow> addr \<Rightarrow> (addr \<times> list_heap) result" where
  "lst_pop h lst =
     (if next h lst = lst then panic ''lst_pop''
      else let p = next h lst in Inr (p, lst_remove h p))"

definition lst_push :: "list_heap \<Rightarrow> addr \<Rightarrow> addr \<Rightarrow> list_heap" where
  "lst_push h lst p =
     (let e = p;
          h1 = h\<lparr>next := (next h)(e := next h lst)\<rparr>;
          h2 = h1\<lparr>prev := (prev h1)(e := lst)\<rparr>;
          h3 = h2\<lparr>prev := (prev h2)(next h2 lst := p)\<rparr>
      in h3\<lparr>next := (next h3)(lst := e)\<rparr>)"

text \<open>The loop of \<^verbatim>\<open>lst_print\<close>; the result is the sequence of pointers it prints.\<close>

partial_function (option) lst_print_from :: "list_heap \<Rightarrow> addr \<Rightarrow> addr \<Rightarrow> addr list option" where
  "lst_print_from h lst p =
     (if p = lst then Some []
      else Option.bind (lst_print_from h lst (next h p)) (\<lambda>ps. Some (p # ps)))"

declare lst_print_from.simps [code]

definition lst_print :: "list_heap \<Rightarrow> addr \<Rightarrow> addr list option" where
  "lst_print h lst = lst_print_from h lst (next h lst)"

section \<open>What a list holds\<close>

fun seg :: "list_heap \<Rightarrow> addr \<Rightarrow> addr list \<Rightarrow> addr \<Rightarrow> bool" where
  "seg h a [] b \<longleftrightarrow> next h a = b \<and> prev h b = a"
| "seg h a (x # xs) b \<longleftrightarrow> next h a = x \<and> prev h x = a \<and> seg h x xs b"

definition dlist :: "list_heap \<Rightarrow> addr \<Rightarrow> addr list \<Rightarrow> bool" where
  "dlist h l xs \<longleftrightarrow> distinct (l # xs) \<and> seg h l xs l"

lemma seg_append: "seg h a (xs @ y # ys) b \<longleftrightarrow> seg h a xs y \<and> seg h y ys b"
  by (induction xs arbitrary: a) auto

lemma seg_frame:
  assumes "\<And>x. x \<in> insert a (set xs) \<Longrightarrow> next h' x = next h x"
    and "\<And>x. x \<in> insert b (set xs) \<Longrightarrow> prev h' x = prev h x"
  shows "seg h' a xs b = seg h a xs b"
  using assms by (induction xs arbitrary: a) auto

lemma seg_next_first: "seg h a xs b \<Longrightarrow> next h a = hd (xs @ [b])"
  by (cases xs) auto

lemma seg_prev_last: "seg h a xs b \<Longrightarrow> prev h b = last (a # xs)"
  by (induction xs arbitrary: a) auto

lemma dlist_init: "dlist (lst_init h l) l []"
  by (simp add: dlist_def lst_init_def)

lemma dlist_empty_iff: "dlist h l xs \<Longrightarrow> lst_empty h l \<longleftrightarrow> xs = []"
  by (cases xs) (auto simp: dlist_def lst_empty_def)

lemma dlist_frame:
  assumes "dlist h l xs"
    and "\<And>x. x \<in> set (l # xs) \<Longrightarrow> next h' x = next h x \<and> prev h' x = prev h x"
  shows "dlist h' l xs"
  using assms seg_frame [of l xs h' h l] by (auto simp: dlist_def)

lemma dlist_push:
  assumes "dlist h l xs" and "e \<notin> set (l # xs)"
  shows "dlist (lst_push h l e) l (e # xs)"
proof (cases xs)
  case Nil
  then show ?thesis using assms by (auto simp: dlist_def lst_push_def Let_def)
next
  case (Cons y ys)
  let ?h = "lst_push h l e"
  have "seg h y ys l" and "y \<notin> set ys" and "l \<notin> set (y # ys)"
    using assms Cons by (auto simp: dlist_def)
  moreover have "seg ?h y ys l = seg h y ys l"
    using assms Cons by (intro seg_frame) (auto simp: dlist_def lst_push_def Let_def)
  ultimately show ?thesis
    using assms Cons by (auto simp: dlist_def lst_push_def Let_def)
qed

lemma dlist_split_removed:
  assumes "dlist h l (xs @ e # ys)"
  shows "dlist (lst_remove h e) l (xs @ ys)"
proof -
  let ?a = "last (l # xs)" and ?b = "hd (ys @ [l])"
  have sx: "seg h l xs e" and sy: "seg h e ys l" and d: "distinct (l # xs @ e # ys)"
    using assms by (auto simp: dlist_def seg_append)
  have pe: "prev h e = ?a" and ne: "next h e = ?b"
    using seg_prev_last [OF sx] seg_next_first [OF sy] by auto
  have nx: "next (lst_remove h e) = (next h)(?a := ?b)"
    and pv: "prev (lst_remove h e) = (prev h)(?b := ?a)"
    using pe ne d by (auto simp: lst_remove_def Let_def last_in_set split: if_splits)
  have la: "?a \<notin> set ys"
    using last_in_set [of "l # xs"] d by (auto simp del: last.simps)
  have *: "seg h' l xs c" if "seg h l xs e" and "distinct (l # xs)" and "c \<notin> set xs"
    and "next h' = (next h)(last (l # xs) := c)" and "\<And>x. x \<in> set xs \<Longrightarrow> prev h' x = prev h x"
    and "prev h' c = last (l # xs)"
    for h' c l
    using that
  proof (induction xs arbitrary: l)
    case Nil
    then show ?case by simp
  next
    case (Cons x xs)
    have "seg h' x xs c"
      using Cons.prems by (intro Cons.IH) auto
    then show ?case using Cons.prems by (auto split: if_splits)
  qed
  show ?thesis
  proof (cases ys)
    case Nil
    then have "seg (lst_remove h e) l xs l"
      using d nx pv Nil by (intro * [OF sx]) auto
    then show ?thesis using Nil d by (simp add: dlist_def)
  next
    case (Cons y zs)
    have "seg (lst_remove h e) l xs y"
      using d nx pv Cons by (intro * [OF sx]) auto
    moreover have "seg (lst_remove h e) y zs l = seg h y zs l"
      using d nx pv la Cons by (intro seg_frame) (auto simp del: last.simps)
    moreover have "seg h y zs l" using sy Cons by simp
    ultimately show ?thesis using Cons d by (simp add: dlist_def seg_append)
  qed
qed

lemma dlist_remove:
  assumes "dlist h l xs" and "e \<in> set xs"
  shows "dlist (lst_remove h e) l (remove1 e xs)"
proof -
  obtain ys zs where xs: "xs = ys @ e # zs" and "e \<notin> set ys"
    using split_list_first [OF assms(2)] by blast
  then have "remove1 e xs = ys @ zs" by (simp add: remove1_append)
  then show ?thesis using dlist_split_removed assms(1) xs by simp
qed

lemma dlist_pop:
  assumes "dlist h l (x # xs)"
  shows "lst_pop h l = Inr (x, lst_remove h x) \<and> dlist (lst_remove h x) l xs"
  using assms dlist_split_removed [of h l "[]" x xs] by (auto simp: lst_pop_def dlist_def)

lemma dlist_pop_empty: "dlist h l [] \<Longrightarrow> lst_pop h l = panic ''lst_pop''"
  by (simp add: lst_pop_def dlist_def)

lemma dlist_mem_links:
  assumes "dlist h l xs" and "x \<in> set xs"
  shows "next h x \<in> set (l # xs) \<and> prev h x \<in> set (l # xs)"
proof -
  obtain ys zs where xs: "xs = ys @ x # zs"
    using split_list [OF assms(2)] by blast
  then have "seg h l ys x" and "seg h x zs l"
    using assms(1) by (auto simp: dlist_def seg_append)
  then have "prev h x = last (l # ys)" and "next h x = hd (zs @ [l])"
    by (auto dest: seg_prev_last seg_next_first)
  then show ?thesis using xs by (cases ys; cases zs) (auto simp: last_in_set)
qed

lemma dlist_push_frame:
  assumes "dlist h l xs" and "dlist h l' ys" and "e \<notin> set (l' # ys)"
    and "set (l # xs) \<inter> set (l' # ys) = {}"
  shows "dlist (lst_push h l e) l' ys"
proof -
  have "next h l \<in> set (l # xs)"
    using assms(1) by (cases xs) (auto simp: dlist_def)
  then show ?thesis
    using assms by (intro dlist_frame [OF assms(2)]) (auto simp: lst_push_def Let_def)
qed

lemma dlist_remove_frame:
  assumes "dlist h l xs" and "e \<in> set xs" and "dlist h l' ys"
    and "set (l # xs) \<inter> set (l' # ys) = {}"
  shows "dlist (lst_remove h e) l' ys"
  using assms dlist_mem_links [OF assms(1,2)]
  by (intro dlist_frame [OF assms(3)]) (auto simp: lst_remove_def Let_def)

lemma lst_print_from_seg:
  "seg h a xs l \<Longrightarrow> l \<notin> set xs \<Longrightarrow> lst_print_from h l (next h a) = Some xs"
proof (induction xs arbitrary: a)
  case Nil
  then show ?case by (simp add: lst_print_from.simps)
next
  case (Cons x xs)
  then show ?case by (simp add: lst_print_from.simps [of h l x])
qed

section \<open>The contract of the list module\<close>

text \<open>
  \<open>R h l xs\<close> relates a heap, a header and the cells on the list.  The client keeps one
  list per index \<open>k < n\<close>, with headers \<open>H k\<close>, pairwise separate.
\<close>

locale list_store =
  fixes push :: "'h \<Rightarrow> addr \<Rightarrow> addr \<Rightarrow> 'h"
    and pop :: "'h \<Rightarrow> addr \<Rightarrow> (addr \<times> 'h) result"
    and rem :: "'h \<Rightarrow> addr \<Rightarrow> 'h"
    and emptyp :: "'h \<Rightarrow> addr \<Rightarrow> bool"
    and R :: "'h \<Rightarrow> addr \<Rightarrow> addr list \<Rightarrow> bool"
  assumes emptyp_iff: "R h l xs \<Longrightarrow> emptyp h l \<longleftrightarrow> xs = []"
    and push_on: "R h l xs \<Longrightarrow> e \<notin> set (l # xs) \<Longrightarrow> R (push h l e) l (e # xs)"
    and push_off: "R h l xs \<Longrightarrow> R h l' ys \<Longrightarrow> e \<notin> set (l' # ys) \<Longrightarrow>
      set (l # xs) \<inter> set (l' # ys) = {} \<Longrightarrow> R (push h l e) l' ys"
    and pop_eq: "R h l (x # xs) \<Longrightarrow> pop h l = Inr (x, rem h x)"
    and pop_nil: "R h l [] \<Longrightarrow> pop h l = panic ''lst_pop''"
    and rem_on: "R h l xs \<Longrightarrow> e \<in> set xs \<Longrightarrow> R (rem h e) l (remove1 e xs)"
    and rem_off: "R h l xs \<Longrightarrow> e \<in> set xs \<Longrightarrow> R h l' ys \<Longrightarrow>
      set (l # xs) \<inter> set (l' # ys) = {} \<Longrightarrow> R (rem h e) l' ys"
    and R_distinct: "R h l xs \<Longrightarrow> distinct (l # xs)"
begin

definition lists :: "'h \<Rightarrow> (nat \<Rightarrow> addr) \<Rightarrow> nat \<Rightarrow> (nat \<Rightarrow> addr list) \<Rightarrow> bool" where
  "lists h H n fl \<longleftrightarrow> (\<forall>k<n. R h (H k) (fl k)) \<and>
     (\<forall>j<n. \<forall>k<n. j \<noteq> k \<longrightarrow> set (H j # fl j) \<inter> set (H k # fl k) = {})"

lemma listsD: "lists h H n fl \<Longrightarrow> k < n \<Longrightarrow> R h (H k) (fl k)"
  by (simp add: lists_def)

lemma lists_disjoint:
  "lists h H n fl \<Longrightarrow> j < n \<Longrightarrow> k < n \<Longrightarrow> j \<noteq> k \<Longrightarrow> set (H j # fl j) \<inter> set (H k # fl k) = {}"
  unfolding lists_def by blast

lemma lists_empty: "lists h H n fl \<Longrightarrow> k < n \<Longrightarrow> emptyp h (H k) \<longleftrightarrow> fl k = []"
  using emptyp_iff listsD by blast

lemma lists_push:
  assumes L: "lists h H n fl" and k: "k < n"
    and e: "\<And>j. j < n \<Longrightarrow> e \<notin> set (H j # fl j)"
  shows "lists (push h (H k) e) H n (fl(k := e # fl k))"
  unfolding lists_def
proof (intro conjI allI impI)
  fix j assume j: "j < n"
  show "R (push h (H k) e) (H j) ((fl(k := e # fl k)) j)"
  proof (cases "j = k")
    case True
    then show ?thesis using push_on [OF listsD [OF L k]] e k by simp
  next
    case False
    then show ?thesis
      using push_off [OF listsD [OF L k] listsD [OF L j] e [OF j]]
        lists_disjoint [OF L k j] by simp
  qed
next
  fix i j assume ij: "i < n" "j < n" "i \<noteq> j"
  then show "set (H i # (fl(k := e # fl k)) i) \<inter> set (H j # (fl(k := e # fl k)) j) = {}"
    using lists_disjoint [OF L ij] e [OF ij(1)] e [OF ij(2)] by auto
qed

lemma lists_rem:
  assumes L: "lists h H n fl" and k: "k < n" and e: "e \<in> set (fl k)"
  shows "lists (rem h e) H n (fl(k := remove1 e (fl k)))"
  unfolding lists_def
proof (intro conjI allI impI)
  fix j assume j: "j < n"
  show "R (rem h e) (H j) ((fl(k := remove1 e (fl k))) j)"
  proof (cases "j = k")
    case True
    then show ?thesis using rem_on [OF listsD [OF L k] e] by simp
  next
    case False
    then show ?thesis
      using rem_off [OF listsD [OF L k] e listsD [OF L j]] lists_disjoint [OF L k j] by simp
  qed
next
  fix i j assume ij: "i < n" "j < n" "i \<noteq> j"
  then show "set (H i # (fl(k := remove1 e (fl k))) i) \<inter>
      set (H j # (fl(k := remove1 e (fl k))) j) = {}"
    using lists_disjoint [OF L ij] set_remove1_subset [of e "fl k"] by auto
qed

lemma lists_pop:
  assumes L: "lists h H n fl" and k: "k < n" and ne: "fl k = x # xs"
  shows "pop h (H k) = Inr (x, rem h x) \<and> lists (rem h x) H n (fl(k := xs))"
proof -
  have "R h (H k) (x # xs)" using listsD [OF L k] ne by simp
  then show ?thesis using pop_eq lists_rem [OF L k, of x] ne by fastforce
qed

end

interpretation dl: list_store lst_push lst_pop lst_remove lst_empty dlist
proof unfold_locales
  show "dlist h l xs \<Longrightarrow> lst_empty h l \<longleftrightarrow> xs = []" for h l xs
    by (rule dlist_empty_iff)
  show "dlist h l xs \<Longrightarrow> e \<notin> set (l # xs) \<Longrightarrow> dlist (lst_push h l e) l (e # xs)" for h l xs e
    by (rule dlist_push)
  show "dlist h l xs \<Longrightarrow> dlist h l' ys \<Longrightarrow> e \<notin> set (l' # ys) \<Longrightarrow>
      set (l # xs) \<inter> set (l' # ys) = {} \<Longrightarrow> dlist (lst_push h l e) l' ys" for h l xs l' ys e
    by (rule dlist_push_frame)
  show "dlist h l (x # xs) \<Longrightarrow> lst_pop h l = Inr (x, lst_remove h x)" for h l x xs
    using dlist_pop by blast
  show "dlist h l [] \<Longrightarrow> lst_pop h l = panic ''lst_pop''" for h l
    by (rule dlist_pop_empty)
  show "dlist h l xs \<Longrightarrow> e \<in> set xs \<Longrightarrow> dlist (lst_remove h e) l (remove1 e xs)" for h l xs e
    by (rule dlist_remove)
  show "dlist h l xs \<Longrightarrow> e \<in> set xs \<Longrightarrow> dlist h l' ys \<Longrightarrow>
      set (l # xs) \<inter> set (l' # ys) = {} \<Longrightarrow> dlist (lst_remove h e) l' ys" for h l xs e l' ys
    by (rule dlist_remove_frame)
  show "dlist h l xs \<Longrightarrow> distinct (l # xs)" for h l xs
    by (simp add: dlist_def)
qed

end
