(* ===== verification/Buddy.thy ===== *)
theory Buddy
  imports ListC
begin

text \<open>
  \<^verbatim>\<open>kernel/buddy.c\<close>: the buddy allocator.

  The allocator manages \<open>16 * 2 ^ MAXSIZE\<close> bytes from \<open>bd_base\<close>.  For each size \<open>k\<close> it keeps
  a free list (cells inside the free blocks themselves, header inside \<open>bd_sizes[k]\<close>) and two
  bit arrays, \<open>alloc\<close> and \<open>split\<close>, with one bit per block.  The record \<open>bd\<close> holds these; the
  arrays are byte lists, addressed as in the source, and the free lists are cells of the
  list heap of \<open>ListC\<close>.

  The invariant \<open>bd_inv\<close> says that the split bits form a binary tree of blocks, that the
  alloc bit of a block of that tree is clear exactly when the block is on its free list,
  and that two buddies are never both free.  \<open>used\<close> is the set of blocks handed out.
\<close>

section \<open>Data\<close>

record sz_info =
  alloc :: "byte list"
  split :: "byte list"

record bd =
  nsizes :: nat
  bd_base :: addr
  bd_sizes :: addr
  sz :: "sz_info list"
  heap :: list_heap

definition LEAF_SIZE :: nat where
  "LEAF_SIZE = 16"

definition MAXSIZE :: "bd \<Rightarrow> nat" where
  "MAXSIZE s = nsizes s - 1"

definition BLK_SIZE :: "nat \<Rightarrow> nat" where
  "BLK_SIZE k = 2 ^ k * LEAF_SIZE"

definition HEAP_SIZE :: "bd \<Rightarrow> nat" where
  "HEAP_SIZE s = BLK_SIZE (MAXSIZE s)"

definition NBLK :: "bd \<Rightarrow> nat \<Rightarrow> nat" where
  "NBLK s k = 2 ^ (MAXSIZE s - k)"

text \<open>The macro \<^verbatim>\<open>ROUNDUP\<close>; its arguments are positive where the source uses it.\<close>

definition ROUNDUP :: "nat \<Rightarrow> nat \<Rightarrow> nat" where
  "ROUNDUP n m = ((n - 1) div m + 1) * m"

text \<open>\<open>sizeof(Sz_info)\<close>: a list header and two pointers.\<close>

definition SZ_INFO_BYTES :: nat where
  "SZ_INFO_BYTES = 32"

text \<open>The address \<^verbatim>\<open>&bd_sizes[k].free\<close>.\<close>

definition free_list :: "bd \<Rightarrow> nat \<Rightarrow> addr" where
  "free_list s k = bd_sizes s + SZ_INFO_BYTES * k"

section \<open>Bit arrays\<close>

definition bit_isset :: "byte list \<Rightarrow> nat \<Rightarrow> bool" where
  "bit_isset array index =
     (let b = array ! (index div 8); m = push_bit (index mod 8) 1 in b AND m = m)"

definition bit_set :: "byte list \<Rightarrow> nat \<Rightarrow> byte list" where
  "bit_set array index =
     (let b = array ! (index div 8); m = push_bit (index mod 8) 1
      in array[index div 8 := b OR m])"

definition bit_clear :: "byte list \<Rightarrow> nat \<Rightarrow> byte list" where
  "bit_clear array index =
     (let b = array ! (index div 8); m = push_bit (index mod 8) 1
      in array[index div 8 := b AND NOT m])"

definition alloc_isset :: "bd \<Rightarrow> nat \<Rightarrow> nat \<Rightarrow> bool" where
  "alloc_isset s k i = bit_isset (alloc (sz s ! k)) i"

definition split_isset :: "bd \<Rightarrow> nat \<Rightarrow> nat \<Rightarrow> bool" where
  "split_isset s k i = bit_isset (split (sz s ! k)) i"

definition alloc_set :: "bd \<Rightarrow> nat \<Rightarrow> nat \<Rightarrow> bd" where
  "alloc_set s k i = s\<lparr>sz := (sz s)[k := (sz s ! k)\<lparr>alloc := bit_set (alloc (sz s ! k)) i\<rparr>]\<rparr>"

definition alloc_clear :: "bd \<Rightarrow> nat \<Rightarrow> nat \<Rightarrow> bd" where
  "alloc_clear s k i = s\<lparr>sz := (sz s)[k := (sz s ! k)\<lparr>alloc := bit_clear (alloc (sz s ! k)) i\<rparr>]\<rparr>"

definition split_set :: "bd \<Rightarrow> nat \<Rightarrow> nat \<Rightarrow> bd" where
  "split_set s k i = s\<lparr>sz := (sz s)[k := (sz s ! k)\<lparr>split := bit_set (split (sz s ! k)) i\<rparr>]\<rparr>"

definition split_clear :: "bd \<Rightarrow> nat \<Rightarrow> nat \<Rightarrow> bd" where
  "split_clear s k i = s\<lparr>sz := (sz s)[k := (sz s ! k)\<lparr>split := bit_clear (split (sz s ! k)) i\<rparr>]\<rparr>"

text \<open>
  \<^verbatim>\<open>bd_print_vector\<close>: the ranges it prints.  The loop variables are \<^verbatim>\<open>last\<close> (here \<open>lst\<close>, the value of the
  current run) and \<open>lb\<close> (where the run started).
\<close>

function print_vector_loop ::
    "byte list \<Rightarrow> nat \<Rightarrow> nat \<Rightarrow> bool \<Rightarrow> nat \<Rightarrow> (nat \<times> nat) list" where
  "print_vector_loop vec len b lst lb =
     (if b < len then
        if lst = bit_isset vec b then print_vector_loop vec len (b + 1) lst lb
        else (if lst then [(lb, b)] else []) @
          print_vector_loop vec len (b + 1) (bit_isset vec b) b
      else if lb = 0 \<or> lst then [(lb, len)] else [])"
  by pat_completeness auto
termination
  by (relation "measure (\<lambda>(vec, len, b, lst, lb). len - b)") auto

declare print_vector_loop.simps [simp del]

definition bd_print_vector :: "byte list \<Rightarrow> nat \<Rightarrow> (nat \<times> nat) list" where
  "bd_print_vector vec len = print_vector_loop vec len 0 True 0"

text \<open>
  \<^verbatim>\<open>bd_print\<close>: one line per size, with the free list and the ranges of the alloc and, above size 0,
  the split bits.  \<open>None\<close>: the walk over a free list does not end.
\<close>

type_synonym print_line =
  "nat \<times> nat \<times> nat \<times> addr list \<times> (nat \<times> nat) list \<times> (nat \<times> nat) list option"

fun print_sizes :: "bd \<Rightarrow> nat \<Rightarrow> print_line list option" where
  "print_sizes s 0 = Some []"
| "print_sizes s (Suc k) =
     Option.bind (print_sizes s k) (\<lambda>ls.
       Option.bind (lst_print (heap s) (free_list s k)) (\<lambda>fl.
         Some (ls @ [(k, BLK_SIZE k, NBLK s k, fl, bd_print_vector (alloc (sz s ! k)) (NBLK s k),
           if k > 0 then Some (bd_print_vector (split (sz s ! k)) (NBLK s k)) else None)])))"

definition bd_print :: "bd \<Rightarrow> print_line list option" where
  "bd_print s = print_sizes s (nsizes s)"

section \<open>Sizes and addresses\<close>

text \<open>
  \<^verbatim>\<open>firstk\<close> doubles a 64-bit size until it reaches \<open>n\<close>.  The loop need not end, so the result
  is an option.
\<close>

partial_function (option) firstk_loop :: "uint64 \<Rightarrow> uint64 \<Rightarrow> nat \<Rightarrow> nat option" where
  "firstk_loop n bsz k = (if bsz < n then firstk_loop n (bsz * 2) (k + 1) else Some k)"

declare firstk_loop.simps [code]

definition firstk :: "uint64 \<Rightarrow> nat option" where
  "firstk n = firstk_loop n 16 0"

text \<open>
  The offsets below are C \<^verbatim>\<open>int\<close>s: the pointer difference and the product are truncated to
  32 bits.  An address below \<open>bd_base\<close> has no block.
\<close>

definition blk_index :: "bd \<Rightarrow> nat \<Rightarrow> addr \<Rightarrow> nat" where
  "blk_index s k p = nat (to_int32 (int p - int (bd_base s)) div int (BLK_SIZE k))"

definition addr :: "bd \<Rightarrow> nat \<Rightarrow> nat \<Rightarrow> addr" where
  "addr s k bi = nat (int (bd_base s) + to_int32 (int bi * int (BLK_SIZE k)))"

definition blk_index_next :: "bd \<Rightarrow> nat \<Rightarrow> addr \<Rightarrow> nat" where
  "blk_index_next s k p =
     (let n = (p - bd_base s) div BLK_SIZE k
      in if (p - bd_base s) mod BLK_SIZE k \<noteq> 0 then n + 1 else n)"

function log2_loop :: "uint64 \<Rightarrow> nat \<Rightarrow> nat" where
  "log2_loop n k = (if n > 1 then log2_loop (drop_bit 1 n) (k + 1) else k)"
  by pat_completeness auto
termination
proof (relation "measure (\<lambda>(n, k). unat n)")
  fix n :: uint64 and k :: nat
  assume "n > 1"
  then have "0 < unat n" by (simp add: word_less_nat_alt)
  then show "((drop_bit 1 n, k + 1), n, k) \<in> measure (\<lambda>(n, k). unat n)"
    by (simp add: drop_bit_eq_div unat_div)
qed simp

declare log2_loop.simps [simp del]

definition log2_int :: "uint64 \<Rightarrow> nat" where
  "log2_int n = log2_loop n 0"

section \<open>Allocation\<close>

function find_free :: "bd \<Rightarrow> nat \<Rightarrow> nat" where
  "find_free s k =
     (if k < nsizes s \<and> lst_empty (heap s) (free_list s k) then find_free s (k + 1) else k)"
  by pat_completeness auto
termination
  by (relation "measure (\<lambda>(s, k). nsizes s - k)") auto

declare find_free.simps [simp del]

text \<open>The body and the loop that split a block down to size \<open>fk\<close>.\<close>

definition split_step :: "bd \<Rightarrow> addr \<Rightarrow> nat \<Rightarrow> bd" where
  "split_step s p k =
     (let q = p + BLK_SIZE (k - 1);
          s1 = split_set s k (blk_index s k p);
          s2 = alloc_set s1 (k - 1) (blk_index s1 (k - 1) p)
      in s2\<lparr>heap := lst_push (heap s2) (free_list s2 (k - 1)) q\<rparr>)"

fun split_loop :: "bd \<Rightarrow> addr \<Rightarrow> nat \<Rightarrow> nat \<Rightarrow> bd" where
  "split_loop s p fk k = (if k > fk then split_loop (split_step s p k) p fk (k - 1) else s)"

declare split_loop.simps [simp del]

text \<open>
  \<^verbatim>\<open>bd_malloc\<close>: the address 0 is the null result.  \<open>None\<close>: the call does not return.
\<close>

definition malloc_at :: "bd \<Rightarrow> nat \<Rightarrow> (addr \<times> bd) result" where
  "malloc_at s fk =
     (let k = find_free s fk
      in if k \<ge> nsizes s then Inr (0, s)
         else ebind (lst_pop (heap s) (free_list s k)) (\<lambda>(p, h).
           let s1 = s\<lparr>heap := h\<rparr>;
               s2 = alloc_set s1 k (blk_index s1 k p)
           in Inr (p, split_loop s2 p fk k)))"

definition bd_malloc :: "bd \<Rightarrow> uint64 \<Rightarrow> (addr \<times> bd) result option" where
  "bd_malloc s nbytes = map_option (malloc_at s) (firstk nbytes)"

section \<open>Freeing\<close>

text \<open>
  \<^verbatim>\<open>size\<close> reads the split bit one size up; its last iteration (\<open>k = nsizes - 1\<close>) reads
  \<^verbatim>\<open>bd_sizes[nsizes]\<close>, which is outside the array.
\<close>

function size_from :: "bd \<Rightarrow> addr \<Rightarrow> nat \<Rightarrow> nat result" where
  "size_from s p k =
     (if k < nsizes s then
        if k + 1 \<ge> nsizes s then undef ''bd_sizes[nsizes]''
        else if split_isset s (k + 1) (blk_index s (k + 1) p) then Inr k
        else size_from s p (k + 1)
      else Inr 0)"
  by pat_completeness auto
termination
  by (relation "measure (\<lambda>(s, p, k). nsizes s - k)") auto

declare size_from.simps [simp del]

definition bd_size :: "bd \<Rightarrow> addr \<Rightarrow> nat result" where
  "bd_size s p = size_from s p 0"

definition buddy_of :: "nat \<Rightarrow> nat" where
  "buddy_of bi = (if bi mod 2 = 0 then bi + 1 else bi - 1)"

text \<open>One merge of \<^verbatim>\<open>bd_free\<close>'s loop, after the alloc bit of \<open>p\<close> has been cleared.\<close>

definition merge_step :: "bd \<Rightarrow> nat \<Rightarrow> addr \<Rightarrow> nat \<Rightarrow> addr \<times> bd" where
  "merge_step s k p buddy =
     (let q = addr s k buddy;
          s1 = s\<lparr>heap := lst_remove (heap s) q\<rparr>;
          p1 = (if buddy mod 2 = 0 then q else p)
      in (p1, split_clear s1 (k + 1) (blk_index s1 (k + 1) p1)))"

function free_loop :: "bd \<Rightarrow> addr \<Rightarrow> nat \<Rightarrow> addr \<times> nat \<times> bd" where
  "free_loop s p k =
     (if k < MAXSIZE s then
        let bi = blk_index s k p;
            buddy = buddy_of bi;
            s1 = alloc_clear s k bi
        in if alloc_isset s1 k buddy then (p, k, s1)
           else (case merge_step s1 k p buddy of (p2, s2) \<Rightarrow> free_loop s2 p2 (k + 1))
      else (p, k, s))"
  by pat_completeness auto
termination
  by (relation "measure (\<lambda>(s, p, k). MAXSIZE s - k)")
    (auto simp: merge_step_def alloc_clear_def split_clear_def MAXSIZE_def Let_def)

declare free_loop.simps [simp del]

definition bd_free :: "bd \<Rightarrow> addr \<Rightarrow> bd result" where
  "bd_free s p =
     ebind (bd_size s p) (\<lambda>k0.
       case free_loop s p k0 of (p1, k, s1) \<Rightarrow>
         Inr (s1\<lparr>heap := lst_push (heap s1) (free_list s1 k) p1\<rparr>))"

section \<open>Initialisation\<close>

function mark_blocks :: "bd \<Rightarrow> nat \<Rightarrow> nat \<Rightarrow> nat \<Rightarrow> bd" where
  "mark_blocks s k bi bj =
     (if bi < bj then
        let s1 = (if k > 0 then split_set s k bi else s)
        in mark_blocks (alloc_set s1 k bi) k (bi + 1) bj
      else s)"
  by pat_completeness auto
termination
  by (relation "measure (\<lambda>(s, k, bi, bj). bj - bi)") auto

declare mark_blocks.simps [simp del]

function mark_sizes :: "bd \<Rightarrow> nat \<Rightarrow> addr \<Rightarrow> addr \<Rightarrow> bd" where
  "mark_sizes s k start stop =
     (if k < nsizes s then
        mark_sizes (mark_blocks s k (blk_index s k start) (blk_index_next s k stop))
          (k + 1) start stop
      else s)"
  by pat_completeness auto

lemma nsizes_bit_ops [simp]:
  "nsizes (alloc_set s k i) = nsizes s" "nsizes (split_set s k i) = nsizes s"
  "nsizes (alloc_clear s k i) = nsizes s" "nsizes (split_clear s k i) = nsizes s"
  by (simp_all add: alloc_set_def split_set_def alloc_clear_def split_clear_def)

lemma nsizes_mark_blocks [simp]: "nsizes (mark_blocks s k bi bj) = nsizes s"
proof (induction s k bi bj rule: mark_blocks.induct)
  case (1 s k bi bj)
  then show ?case by (subst mark_blocks.simps) (auto simp: Let_def)
qed

termination mark_sizes
  by (relation "measure (\<lambda>(s, k, start, stop). nsizes s - k)") auto

declare mark_sizes.simps [simp del]

definition bd_mark :: "bd \<Rightarrow> addr \<Rightarrow> addr \<Rightarrow> bd result" where
  "bd_mark s start stop =
     (if start mod LEAF_SIZE \<noteq> 0 \<or> stop mod LEAF_SIZE \<noteq> 0 then panic ''bd_mark''
      else Inr (mark_sizes s 0 start stop))"

text \<open>
  \<^verbatim>\<open>bd_initfree_pair\<close> is called with indices past the last block when the managed range ends
  at the heap's end; the bit it then reads may be outside the array.
\<close>

definition alloc_in_range :: "bd \<Rightarrow> nat \<Rightarrow> nat \<Rightarrow> bool" where
  "alloc_in_range s k i \<longleftrightarrow> i div 8 < length (alloc (sz s ! k))"

definition bd_initfree_pair :: "bd \<Rightarrow> nat \<Rightarrow> nat \<Rightarrow> (nat \<times> bd) result" where
  "bd_initfree_pair s k bi =
     (let buddy = buddy_of bi
      in if \<not> alloc_in_range s k bi \<or> \<not> alloc_in_range s k buddy
         then undef ''bd_sizes[k].alloc''
         else if alloc_isset s k bi \<noteq> alloc_isset s k buddy then
           Inr (BLK_SIZE k,
             if alloc_isset s k bi
             then s\<lparr>heap := lst_push (heap s) (free_list s k) (addr s k buddy)\<rparr>
             else s\<lparr>heap := lst_push (heap s) (free_list s k) (addr s k bi)\<rparr>)
         else Inr (0, s))"

lemma nsizes_initfree_pair: "bd_initfree_pair s k bi = Inr (f, t) \<Longrightarrow> nsizes t = nsizes s"
  by (auto simp: bd_initfree_pair_def Let_def split: if_splits)

function initfree_loop :: "bd \<Rightarrow> nat \<Rightarrow> addr \<Rightarrow> addr \<Rightarrow> nat \<Rightarrow> (nat \<times> bd) result" where
  "initfree_loop s k bd_left bd_right free =
     (if k < MAXSIZE s then
        let left = blk_index_next s k bd_left;
            right = blk_index s k bd_right
        in ebind (bd_initfree_pair s k left) (\<lambda>(f1, s1).
             if right \<le> left then initfree_loop s1 (k + 1) bd_left bd_right (free + f1)
             else ebind (bd_initfree_pair s1 k right) (\<lambda>(f2, s2).
               initfree_loop s2 (k + 1) bd_left bd_right (free + f1 + f2)))
      else Inr (free, s))"
  by pat_completeness auto
termination
  by (relation "measure (\<lambda>(s, k, l, r, f). MAXSIZE s - k)")
    (auto simp: MAXSIZE_def dest!: nsizes_initfree_pair)

declare initfree_loop.simps [simp del]

definition bd_initfree :: "bd \<Rightarrow> addr \<Rightarrow> addr \<Rightarrow> (nat \<times> bd) result" where
  "bd_initfree s bd_left bd_right = initfree_loop s 0 bd_left bd_right 0"

definition bd_mark_data_structures :: "bd \<Rightarrow> addr \<Rightarrow> (nat \<times> bd) result" where
  "bd_mark_data_structures s p =
     (let meta = p - bd_base s
      in ebind (bd_mark s (bd_base s) p) (\<lambda>s1. Inr (meta, s1)))"

definition bd_mark_unavailable :: "bd \<Rightarrow> addr \<Rightarrow> (nat \<times> bd) result" where
  "bd_mark_unavailable s end =
     (let unavailable0 = BLK_SIZE (MAXSIZE s) - (end - bd_base s);
          unavailable = (if unavailable0 > 0 then ROUNDUP unavailable0 LEAF_SIZE else unavailable0);
          bd_end = bd_base s + BLK_SIZE (MAXSIZE s) - unavailable
      in ebind (bd_mark s bd_end (bd_base s + BLK_SIZE (MAXSIZE s))) (\<lambda>s1.
           Inr (unavailable, s1)))"

text \<open>
  The two loops that lay out the arrays after \<^verbatim>\<open>bd_sizes\<close>.  \<open>vec_bytes\<close> is the length of the
  array of size \<open>k\<close>; the arrays come zeroed.
\<close>

definition vec_bytes :: "nat \<Rightarrow> nat \<Rightarrow> nat" where
  "vec_bytes maxsize k = ROUNDUP (2 ^ (maxsize - k)) 8 div 8"

fun init_lists :: "list_heap \<Rightarrow> addr \<Rightarrow> nat \<Rightarrow> list_heap" where
  "init_lists h sizes 0 = h"
| "init_lists h sizes (Suc k) = lst_init (init_lists h sizes k) (sizes + SZ_INFO_BYTES * k)"

definition bd_init :: "list_heap \<Rightarrow> addr \<Rightarrow> addr \<Rightarrow> bd result" where
  "bd_init h base end =
     (let p0 = ROUNDUP base LEAF_SIZE;
          n1 = log2_int (of_nat ((end - p0) div LEAF_SIZE)) + 1;
          n = (if end - p0 > BLK_SIZE (n1 - 1) then n1 + 1 else n1);
          s0 = \<lparr>nsizes = n, bd_base = p0, bd_sizes = p0,
                 sz = map (\<lambda>k. \<lparr>alloc = replicate (vec_bytes (n - 1) k) 0,
                                split = replicate (if k = 0 then 0 else vec_bytes (n - 1) k) 0\<rparr>) [0..<n],
                 heap = init_lists h p0 n\<rparr>;
          p1 = p0 + SZ_INFO_BYTES * n + sum_list (map (vec_bytes (n - 1)) [0..<n])
                 + sum_list (map (vec_bytes (n - 1)) [1..<n]);
          p = ROUNDUP p1 LEAF_SIZE
      in ebind (bd_mark_data_structures s0 p) (\<lambda>(meta, s1).
         ebind (bd_mark_unavailable s1 end) (\<lambda>(unavailable, s2).
         let bd_end = bd_base s2 + BLK_SIZE (MAXSIZE s2) - unavailable
         in ebind (bd_initfree s2 p bd_end) (\<lambda>(free, s3).
              if free \<noteq> BLK_SIZE (MAXSIZE s3) - meta - unavailable
              then panic ''bd_init: free mem'' else Inr s3))))"

end
