(* ===== verification/BuddyInv.thy ===== *)
theory BuddyInv
  imports Buddy
begin

text \<open>
  Correctness of the buddy allocator of \<open>Buddy\<close>: the invariant \<open>bd_inv\<close> and that every
  operation keeps it, what \<^verbatim>\<open>bd_malloc\<close> and \<^verbatim>\<open>bd_free\<close> do to the set of blocks in use, that
  blocks in use never overlap, and that free buddies are always merged.
\<close>

section \<open>Bit arrays\<close>

lemma and_single_bit: "n < 8 \<Longrightarrow> ((b::byte) AND 2 ^ n = 2 ^ n) = bit b n"
proof
  assume n: "n < 8" and "b AND 2 ^ n = 2 ^ n"
  then have "bit (b AND 2 ^ n) n" by (simp add: bit_simps)
  then show "bit b n" by (simp add: bit_simps)
next
  assume "n < 8" and "bit b n"
  then show "b AND 2 ^ n = 2 ^ n"
    by (intro bit_word_eqI) (auto simp: bit_simps)
qed

lemma bit_isset_iff: "bit_isset a i = bit (a ! (i div 8)) (i mod 8)"
  by (simp add: bit_isset_def Let_def and_single_bit)

lemma div_mod_8_eq: "i div 8 = j div 8 \<Longrightarrow> i mod 8 = j mod 8 \<longleftrightarrow> i = (j::nat)"
  by (metis mod_div_decomp)

lemma bit_isset_set:
  assumes "i div 8 < length a"
  shows "bit_isset (bit_set a i) j \<longleftrightarrow> i = j \<or> bit_isset a j"
  using assms div_mod_8_eq [of i j]
  by (cases "i div 8 = j div 8") (auto simp: bit_isset_iff bit_set_def Let_def bit_simps nth_list_update)

lemma bit_isset_clear:
  assumes "i div 8 < length a"
  shows "bit_isset (bit_clear a i) j \<longleftrightarrow> i \<noteq> j \<and> bit_isset a j"
  using assms div_mod_8_eq [of i j]
  by (cases "i div 8 = j div 8") (auto simp: bit_isset_iff bit_clear_def Let_def bit_simps nth_list_update)

lemma length_bit_ops [simp]:
  "length (bit_set a i) = length a" "length (bit_clear a i) = length a"
  by (simp_all add: bit_set_def bit_clear_def Let_def)

section \<open>The shape of the state\<close>

definition bd_wf :: "bd \<Rightarrow> bool" where
  "bd_wf s \<longleftrightarrow> 2 \<le> nsizes s \<and> nsizes s \<le> 28 \<and> 0 < bd_base s \<and> length (sz s) = nsizes s \<and>
     (\<forall>k<nsizes s. NBLK s k \<le> 8 * length (alloc (sz s ! k)) \<and>
        (0 < k \<longrightarrow> NBLK s k \<le> 8 * length (split (sz s ! k))))"

definition is_split :: "bd \<Rightarrow> nat \<Rightarrow> nat \<Rightarrow> bool" where
  "is_split s k i \<longleftrightarrow> 0 < k \<and> split_isset s k i"

lemma bd_wf_alloc: "bd_wf s \<Longrightarrow> k \<le> MAXSIZE s \<Longrightarrow> i < NBLK s k \<Longrightarrow>
    k < length (sz s) \<and> i div 8 < length (alloc (sz s ! k))"
  by (auto simp: bd_wf_def MAXSIZE_def less_mult_imp_div_less mult.commute
      dest!: spec [of _ k] intro!: less_mult_imp_div_less)

lemma bd_wf_split: "bd_wf s \<Longrightarrow> 0 < k \<Longrightarrow> k \<le> MAXSIZE s \<Longrightarrow> i < NBLK s k \<Longrightarrow>
    k < length (sz s) \<and> i div 8 < length (split (sz s ! k))"
  by (auto simp: bd_wf_def MAXSIZE_def less_mult_imp_div_less mult.commute
      dest!: spec [of _ k] intro!: less_mult_imp_div_less)

text \<open>Fields the bit operations leave alone.\<close>

lemma bit_ops_fields [simp]:
  "bd_base (alloc_set s k i) = bd_base s" "bd_base (alloc_clear s k i) = bd_base s"
  "bd_base (split_set s k i) = bd_base s" "bd_base (split_clear s k i) = bd_base s"
  "bd_sizes (alloc_set s k i) = bd_sizes s" "bd_sizes (alloc_clear s k i) = bd_sizes s"
  "bd_sizes (split_set s k i) = bd_sizes s" "bd_sizes (split_clear s k i) = bd_sizes s"
  "heap (alloc_set s k i) = heap s" "heap (alloc_clear s k i) = heap s"
  "heap (split_set s k i) = heap s" "heap (split_clear s k i) = heap s"
  by (simp_all add: alloc_set_def alloc_clear_def split_set_def split_clear_def)

lemma derived_fields [simp]:
  "MAXSIZE (alloc_set s k i) = MAXSIZE s" "MAXSIZE (alloc_clear s k i) = MAXSIZE s"
  "MAXSIZE (split_set s k i) = MAXSIZE s" "MAXSIZE (split_clear s k i) = MAXSIZE s"
  "MAXSIZE (s\<lparr>heap := h\<rparr>) = MAXSIZE s" "NBLK (s\<lparr>heap := h\<rparr>) = NBLK s"
  "NBLK (alloc_set s k i) = NBLK s" "NBLK (alloc_clear s k i) = NBLK s"
  "NBLK (split_set s k i) = NBLK s" "NBLK (split_clear s k i) = NBLK s"
  "free_list (alloc_set s k i) = free_list s" "free_list (alloc_clear s k i) = free_list s"
  "free_list (split_set s k i) = free_list s" "free_list (split_clear s k i) = free_list s"
  "free_list (s\<lparr>heap := h\<rparr>) = free_list s"
  by (simp_all add: MAXSIZE_def NBLK_def free_list_def fun_eq_iff)

lemma blk_index_fields [simp]:
  "blk_index (alloc_set s k i) = blk_index s" "blk_index (alloc_clear s k i) = blk_index s"
  "blk_index (split_set s k i) = blk_index s" "blk_index (split_clear s k i) = blk_index s"
  "blk_index (s\<lparr>heap := h\<rparr>) = blk_index s"
  by (simp_all add: blk_index_def fun_eq_iff)

lemma addr_fields [simp]:
  "addr (alloc_set s k i) = addr s" "addr (alloc_clear s k i) = addr s"
  "addr (split_set s k i) = addr s" "addr (split_clear s k i) = addr s"
  "addr (s\<lparr>heap := h\<rparr>) = addr s"
  by (simp_all add: addr_def fun_eq_iff)

lemma isset_heap [simp]:
  "alloc_isset (s\<lparr>heap := h\<rparr>) = alloc_isset s" "split_isset (s\<lparr>heap := h\<rparr>) = split_isset s"
  "is_split (s\<lparr>heap := h\<rparr>) = is_split s"
  by (simp_all add: alloc_isset_def split_isset_def is_split_def fun_eq_iff)

lemma nth_update_field: "f y = f (xs ! k) \<Longrightarrow> f (xs[k := y] ! j) = f (xs ! j)"
  by (cases "k < length xs"; cases "j = k") (auto simp: nth_list_update list_update_beyond)

lemma split_isset_alloc [simp]:
  "split_isset (alloc_set s k i) j m = split_isset s j m"
  "split_isset (alloc_clear s k i) j m = split_isset s j m"
  "is_split (alloc_set s k i) j m = is_split s j m"
  "is_split (alloc_clear s k i) j m = is_split s j m"
  by (simp_all add: is_split_def split_isset_def alloc_set_def alloc_clear_def
      nth_update_field [where f = split])

lemma alloc_isset_split [simp]:
  "alloc_isset (split_set s k i) j m = alloc_isset s j m"
  "alloc_isset (split_clear s k i) j m = alloc_isset s j m"
  by (simp_all add: alloc_isset_def split_set_def split_clear_def nth_update_field [where f = alloc])

lemma alloc_isset_upd:
  assumes "bd_wf s" and "k \<le> MAXSIZE s" and "i < NBLK s k"
  shows "alloc_isset (alloc_set s k i) j m \<longleftrightarrow> (j = k \<and> m = i) \<or> alloc_isset s j m"
    and "alloc_isset (alloc_clear s k i) j m \<longleftrightarrow> \<not> (j = k \<and> m = i) \<and> alloc_isset s j m"
  using bd_wf_alloc [OF assms]
  by (auto simp: alloc_isset_def alloc_set_def alloc_clear_def nth_list_update
      bit_isset_set bit_isset_clear)

lemma is_split_upd:
  assumes "bd_wf s" and "0 < k" and "k \<le> MAXSIZE s" and "i < NBLK s k"
  shows "is_split (split_set s k i) j m \<longleftrightarrow> (j = k \<and> m = i) \<or> is_split s j m"
    and "is_split (split_clear s k i) j m \<longleftrightarrow> \<not> (j = k \<and> m = i) \<and> is_split s j m"
  using bd_wf_split [OF assms] assms(2)
  by (auto simp: is_split_def split_isset_def split_set_def split_clear_def nth_list_update
      bit_isset_set bit_isset_clear)

lemma bd_wf_upd [simp]:
  "bd_wf (alloc_set s k i) = bd_wf s" "bd_wf (alloc_clear s k i) = bd_wf s"
  "bd_wf (split_set s k i) = bd_wf s" "bd_wf (split_clear s k i) = bd_wf s"
  "bd_wf (s\<lparr>heap := h\<rparr>) = bd_wf s"
  by (simp_all add: bd_wf_def alloc_set_def alloc_clear_def split_set_def split_clear_def
      NBLK_def MAXSIZE_def nth_update_field [where f = "\<lambda>x. length (alloc x)"]
      nth_update_field [where f = "\<lambda>x. length (split x)"])

section \<open>Blocks and their addresses\<close>

definition baddr :: "bd \<Rightarrow> nat \<Rightarrow> nat \<Rightarrow> addr" where
  "baddr s k i = bd_base s + i * BLK_SIZE k"

definition blk_range :: "bd \<Rightarrow> nat \<Rightarrow> nat \<Rightarrow> addr set" where
  "blk_range s k i = {baddr s k i ..< baddr s k i + BLK_SIZE k}"

lemma BLK_SIZE_pos [simp]: "0 < BLK_SIZE k"
  by (simp add: BLK_SIZE_def LEAF_SIZE_def)

lemma BLK_SIZE_add: "BLK_SIZE (j + d) = BLK_SIZE j * 2 ^ d"
  by (simp add: BLK_SIZE_def power_add)

lemma NBLK_heap: "k \<le> MAXSIZE s \<Longrightarrow> NBLK s k * BLK_SIZE k = BLK_SIZE (MAXSIZE s)"
  by (simp add: NBLK_def BLK_SIZE_def power_add [symmetric])

lemma NBLK_div: "i < NBLK s j \<Longrightarrow> j + d \<le> MAXSIZE s \<Longrightarrow> i div 2 ^ d < NBLK s (j + d)"
  by (simp add: NBLK_def less_mult_imp_div_less power_add [symmetric])

lemma heap_bound: "bd_wf s \<Longrightarrow> BLK_SIZE (MAXSIZE s) \<le> 2 ^ 31"
proof -
  assume "bd_wf s"
  then have "MAXSIZE s \<le> 27" by (auto simp: bd_wf_def MAXSIZE_def)
  then have "(2::nat) ^ MAXSIZE s \<le> 2 ^ 27" by (rule power_increasing) simp
  then show ?thesis by (simp add: BLK_SIZE_def LEAF_SIZE_def)
qed

lemma baddr_in_heap:
  assumes "k \<le> MAXSIZE s" and "i < NBLK s k"
  shows "i * BLK_SIZE k + BLK_SIZE k \<le> BLK_SIZE (MAXSIZE s)"
proof -
  have "(i + 1) * BLK_SIZE k \<le> NBLK s k * BLK_SIZE k"
    using assms(2) by (intro mult_le_mono1) simp
  then show ?thesis using NBLK_heap [OF assms(1)] by simp
qed

lemma addr_eq: "bd_wf s \<Longrightarrow> k \<le> MAXSIZE s \<Longrightarrow> i < NBLK s k \<Longrightarrow> addr s k i = baddr s k i"
proof -
  assume s: "bd_wf s" and k: "k \<le> MAXSIZE s" and i: "i < NBLK s k"
  have "i * BLK_SIZE k < 2 ^ 31"
    using heap_bound [OF s] baddr_in_heap [OF k i] BLK_SIZE_pos [of k] by linarith
  then have "to_int32 (int (i * BLK_SIZE k)) = int (i * BLK_SIZE k)"
    by (intro to_int32_id) (simp_all del: of_nat_mult)
  then show ?thesis by (simp add: addr_def baddr_def nat_add_distrib nat_mult_distrib)
qed

lemma blk_index_eq:
  assumes "bd_wf s" and "p < BLK_SIZE (MAXSIZE s)"
  shows "blk_index s k (bd_base s + p) = p div BLK_SIZE k"
proof -
  have "p < 2 ^ 31" using assms heap_bound by fastforce
  then have "to_int32 (int p) = int p" by (intro to_int32_id) simp_all
  then show ?thesis
    by (simp add: blk_index_def zdiv_int [symmetric])
qed

lemma div_BLK_SIZE: "j \<le> k \<Longrightarrow> x div BLK_SIZE k = x div BLK_SIZE j div 2 ^ (k - j)"
  using BLK_SIZE_add [of j "k - j"] by (simp add: div_mult2_eq)

lemma blk_index_up:
  assumes "bd_wf s" and "j \<le> k" and "k \<le> MAXSIZE s" and "i < NBLK s j"
  shows "blk_index s k (baddr s j i) = i div 2 ^ (k - j)"
proof -
  have "i * BLK_SIZE j < BLK_SIZE (MAXSIZE s)"
    using baddr_in_heap [of j s i] assms(2-4) BLK_SIZE_pos [of j] by linarith
  then show ?thesis
    using assms(1,2) by (simp add: baddr_def blk_index_eq div_BLK_SIZE [of j k])
qed

lemma blk_index_down:
  assumes "bd_wf s" and "0 < k" and "k \<le> MAXSIZE s" and "i < NBLK s k"
  shows "blk_index s (k - 1) (baddr s k i) = 2 * i"
proof -
  have "i * BLK_SIZE k < BLK_SIZE (MAXSIZE s)"
    using baddr_in_heap [of k s i] assms(2-4) BLK_SIZE_pos [of k] by linarith
  moreover have "BLK_SIZE k = 2 * BLK_SIZE (k - 1)"
    using BLK_SIZE_add [of "k - 1" 1] assms(2) by simp
  ultimately show ?thesis
    using assms(1) BLK_SIZE_pos [of "k - 1"]
    by (simp add: baddr_def blk_index_eq del: BLK_SIZE_pos)
qed

lemma baddr_children:
  assumes "0 < k"
  shows "baddr s (k - 1) (2 * i) = baddr s k i"
    and "baddr s (k - 1) (2 * i + 1) = baddr s k i + BLK_SIZE (k - 1)"
  using BLK_SIZE_add [of "k - 1" 1] assms by (simp_all add: baddr_def)

lemma in_blk_range: "x \<in> blk_range s k i \<longleftrightarrow> bd_base s \<le> x \<and> (x - bd_base s) div BLK_SIZE k = i"
proof
  assume "x \<in> blk_range s k i"
  then have x: "bd_base s + i * BLK_SIZE k \<le> x" "x < bd_base s + i * BLK_SIZE k + BLK_SIZE k"
    by (auto simp: blk_range_def baddr_def)
  then have "(x - bd_base s) div BLK_SIZE k = i"
    by (intro div_nat_eqI) (auto simp: mult.commute)
  with x show "bd_base s \<le> x \<and> (x - bd_base s) div BLK_SIZE k = i" by simp
next
  assume x: "bd_base s \<le> x \<and> (x - bd_base s) div BLK_SIZE k = i"
  have "i * BLK_SIZE k \<le> x - bd_base s" and "x - bd_base s < i * BLK_SIZE k + BLK_SIZE k"
    using x div_times_less_eq_dividend [of "x - bd_base s" "BLK_SIZE k"]
      dividend_less_div_times [of "BLK_SIZE k" "x - bd_base s"] by auto
  with x show "x \<in> blk_range s k i"
    unfolding blk_range_def baddr_def atLeastLessThan_iff by linarith
qed

lemma baddr_in_range [simp]: "baddr s k i \<in> blk_range s k i"
  by (simp add: blk_range_def)

lemma baddr_inj: "baddr s k i = baddr s k j \<longleftrightarrow> i = j"
  using BLK_SIZE_pos [of k] by (auto simp: baddr_def simp del: BLK_SIZE_pos)

lemma range_up:
  assumes "x \<in> blk_range s j i" and "x \<in> blk_range s k l" and "j \<le> k"
  shows "l = i div 2 ^ (k - j)"
  using assms div_BLK_SIZE by (auto simp: in_blk_range)

section \<open>The invariant\<close>

text \<open>A block is present when it is the whole heap or its parent is split.\<close>

definition present :: "bd \<Rightarrow> nat \<Rightarrow> nat \<Rightarrow> bool" where
  "present s k i \<longleftrightarrow> k \<le> MAXSIZE s \<and> i < NBLK s k \<and>
     (k < MAXSIZE s \<longrightarrow> is_split s (k + 1) (i div 2))"

definition leaf :: "bd \<Rightarrow> nat \<Rightarrow> nat \<Rightarrow> bool" where
  "leaf s k i \<longleftrightarrow> present s k i \<and> \<not> is_split s k i"

definition free_blk :: "bd \<Rightarrow> nat \<Rightarrow> nat \<Rightarrow> bool" where
  "free_blk s k i \<longleftrightarrow> present s k i \<and> \<not> alloc_isset s k i"

definition used :: "bd \<Rightarrow> (nat \<times> nat) set" where
  "used s = {(k, i). present s k i \<and> alloc_isset s k i \<and> \<not> is_split s k i}"

definition tree_ok :: "bd \<Rightarrow> bool" where
  "tree_ok s \<longleftrightarrow> (\<forall>k\<le>MAXSIZE s. \<forall>i<NBLK s k.
     (is_split s k i \<longrightarrow> alloc_isset s k i) \<and> (alloc_isset s k i \<longrightarrow> present s k i))"

definition lists_ok :: "bd \<Rightarrow> bool" where
  "lists_ok s \<longleftrightarrow> (\<exists>fl. dl.lists (heap s) (free_list s) (nsizes s) fl \<and>
     (\<forall>k<nsizes s. set (fl k) = baddr s k ` {i. free_blk s k i}))"

definition coalesced :: "bd \<Rightarrow> bool" where
  "coalesced s \<longleftrightarrow> (\<forall>k<MAXSIZE s. \<forall>i. present s k i \<longrightarrow>
     alloc_isset s k i \<or> alloc_isset s k (buddy_of i))"

text \<open>
  The first \<open>M\<close> leaves hold the allocator's own data, among it the list headers; they are
  allocated for ever.
\<close>

definition reserved :: "nat \<Rightarrow> bd \<Rightarrow> bool" where
  "reserved M s \<longleftrightarrow> 2 * nsizes s \<le> M \<and> M \<le> NBLK s 0 \<and> bd_sizes s = bd_base s \<and>
     (\<forall>i<M. alloc_isset s 0 i)"

definition bd_inv :: "nat \<Rightarrow> bd \<Rightarrow> bool" where
  "bd_inv M s \<longleftrightarrow> bd_wf s \<and> tree_ok s \<and> lists_ok s \<and> coalesced s \<and> reserved M s"

lemma present_bounds: "present s k i \<Longrightarrow> k \<le> MAXSIZE s \<and> i < NBLK s k"
  by (simp add: present_def)

lemma is_split_alloc:
  "tree_ok s \<Longrightarrow> k \<le> MAXSIZE s \<Longrightarrow> i < NBLK s k \<Longrightarrow> is_split s k i \<Longrightarrow> alloc_isset s k i"
  by (simp add: tree_ok_def)

lemma alloc_present:
  "tree_ok s \<Longrightarrow> k \<le> MAXSIZE s \<Longrightarrow> i < NBLK s k \<Longrightarrow> alloc_isset s k i \<Longrightarrow> present s k i"
  by (simp add: tree_ok_def)

lemma present_ancestors:
  assumes "tree_ok s" and "present s j i" and "j + Suc d \<le> MAXSIZE s"
  shows "is_split s (j + Suc d) (i div 2 ^ Suc d)"
  using assms(3)
proof (induction d)
  case 0
  then show ?case using assms(2) by (simp add: present_def)
next
  case (Suc d)
  have i: "i < NBLK s j" using assms(2) by (simp add: present_def)
  have "is_split s (j + Suc d) (i div 2 ^ Suc d)" using Suc by simp
  then have "present s (j + Suc d) (i div 2 ^ Suc d)"
    using assms(1) Suc.prems NBLK_div [OF i, of "Suc d"]
    by (intro alloc_present is_split_alloc) auto
  then show ?case
    using Suc.prems by (simp add: present_def div_mult2_eq [symmetric] mult.commute)
qed

lemma leaf_unique:
  assumes t: "tree_ok s" and "leaf s j i" and "leaf s k l"
    and "x \<in> blk_range s j i" and "x \<in> blk_range s k l"
  shows "j = k \<and> i = l"
proof -
  have *: "j' = k' \<and> i' = l'" if lj: "leaf s j' i'" and lk: "leaf s k' l'"
    and xj: "x \<in> blk_range s j' i'" and xk: "x \<in> blk_range s k' l'" and le: "j' \<le> k'"
    for j' i' k' l'
  proof (cases "j' = k'")
    case True
    then show ?thesis using range_up [OF xj xk] by simp
  next
    case False
    then obtain d where d: "k' = j' + Suc d"
      using le less_imp_Suc_add by force
    have "is_split s k' (i' div 2 ^ Suc d)"
      using present_ancestors [OF t, of j' i' d] lj lk d by (simp add: leaf_def present_def)
    moreover have "l' = i' div 2 ^ Suc d"
      using range_up [OF xj xk le] d by simp
    ultimately show ?thesis using lk by (simp add: leaf_def)
  qed
  show ?thesis using *[of j i k l] *[of k l j i] assms(2-5) by (cases "j \<le> k") auto
qed

lemma used_leaf: "(k, i) \<in> used s \<Longrightarrow> leaf s k i"
  by (simp add: used_def leaf_def)

lemma free_leaf: "tree_ok s \<Longrightarrow> free_blk s k i \<Longrightarrow> leaf s k i"
  by (auto simp: free_blk_def leaf_def dest: present_bounds is_split_alloc)

lemma used_bounds: "(k, i) \<in> used s \<Longrightarrow> k \<le> MAXSIZE s \<and> i < NBLK s k"
  by (simp add: used_def present_def)

lemma reserved_used: "bd_inv M s \<Longrightarrow> i < M \<Longrightarrow> (0, i) \<in> used s"
  by (auto simp: bd_inv_def reserved_def used_def is_split_def intro: alloc_present)

text \<open>The header of the list of size \<open>k\<close> lies in a reserved leaf.\<close>

lemma free_list_in_reserved:
  assumes "bd_inv M s" and "k < nsizes s"
  shows "free_list s k \<in> blk_range s 0 (2 * k)" and "(0, 2 * k) \<in> used s"
proof -
  have "free_list s k = baddr s 0 (2 * k)"
    using assms(1) by (simp add: bd_inv_def reserved_def free_list_def baddr_def
        SZ_INFO_BYTES_def BLK_SIZE_def LEAF_SIZE_def)
  then show "free_list s k \<in> blk_range s 0 (2 * k)" by simp
  have "2 * k < M" using assms by (simp add: bd_inv_def reserved_def)
  then show "(0, 2 * k) \<in> used s" using reserved_used [OF assms(1)] by simp
qed

lemma nsizes_MAXSIZE: "bd_wf s \<Longrightarrow> k < nsizes s \<longleftrightarrow> k \<le> MAXSIZE s"
  by (auto simp: bd_wf_def MAXSIZE_def)

text \<open>An address inside a block in use is no cell and no header of a free list.\<close>

lemma used_not_listed:
  assumes inv: "bd_inv M s" and u: "(k, i) \<in> used s" and x: "x \<in> blk_range s k i"
    and nr: "k = 0 \<Longrightarrow> M \<le> i" and j: "j < nsizes s"
    and fl: "set (fl j) = baddr s j ` {i. free_blk s j i}"
  shows "x \<notin> set (free_list s j # fl j)"
proof -
  have t: "tree_ok s" using inv by (simp add: bd_inv_def)
  have "x \<noteq> free_list s j"
  proof
    assume "x = free_list s j"
    then have "k = 0 \<and> i = 2 * j"
      using leaf_unique [OF t used_leaf [OF u] used_leaf [OF free_list_in_reserved(2) [OF inv j]] x]
        free_list_in_reserved(1) [OF inv j] by simp
    then show False using nr inv j by (simp add: bd_inv_def reserved_def)
  qed
  moreover have "x \<notin> set (fl j)"
  proof
    assume "x \<in> set (fl j)"
    then obtain l where l: "free_blk s j l" and "x = baddr s j l" using fl by auto
    then have "k = j \<and> i = l"
      using leaf_unique [OF t used_leaf [OF u] free_leaf [OF t l] x] by simp
    then show False using u l by (simp add: used_def free_blk_def)
  qed
  ultimately show ?thesis by simp
qed

section \<open>Buddies\<close>

lemma buddy_simps [simp]:
  "buddy_of (buddy_of i) = i" "buddy_of i div 2 = i div 2" "buddy_of i \<noteq> i" "i \<noteq> buddy_of i"
  by (auto simp: buddy_of_def; presburger)+

lemma buddy_child [simp]: "buddy_of (Suc (2 * i)) = 2 * i"
  by (simp add: buddy_of_def)

lemma same_parent: "l div 2 = i div 2 \<longleftrightarrow> l = i \<or> l = buddy_of i"
  by (auto simp: buddy_of_def; presburger)

lemma NBLK_even: "k < MAXSIZE s \<Longrightarrow> NBLK s k = 2 * NBLK s (k + 1)"
  by (simp add: NBLK_def power_Suc [symmetric] Suc_diff_Suc del: power_Suc)

lemma buddy_bound: "k < MAXSIZE s \<Longrightarrow> i < NBLK s k \<Longrightarrow> buddy_of i < NBLK s k"
  using NBLK_even [of k s] by (auto simp: buddy_of_def; presburger)

section \<open>Steps of the operations keep the invariant\<close>

text \<open>Rules to rebuild the parts of the invariant after a change of bits and lists.\<close>

lemma tree_okI:
  assumes "\<And>k i. k \<le> MAXSIZE s \<Longrightarrow> i < NBLK s k \<Longrightarrow> is_split s k i \<Longrightarrow> alloc_isset s k i"
    and "\<And>k i. k \<le> MAXSIZE s \<Longrightarrow> i < NBLK s k \<Longrightarrow> alloc_isset s k i \<Longrightarrow> present s k i"
  shows "tree_ok s"
  using assms by (simp add: tree_ok_def)

lemma coalescedI:
  assumes "\<And>k i. k < MAXSIZE s \<Longrightarrow> present s k i \<Longrightarrow>
    alloc_isset s k i \<or> alloc_isset s k (buddy_of i)"
  shows "coalesced s"
  using assms by (simp add: coalesced_def)

lemma bd_invD:
  assumes "bd_inv M s"
  shows "bd_wf s" "tree_ok s" "lists_ok s" "coalesced s" "reserved M s"
  using assms by (simp_all add: bd_inv_def)

text \<open>Taking a block off its free list and marking it.\<close>

lemma take_block_inv:
  assumes inv: "bd_inv M s" and k: "k \<le> MAXSIZE s"
    and L: "dl.lists (heap s) (free_list s) (nsizes s) fl"
    and F: "\<forall>k<nsizes s. set (fl k) = baddr s k ` {i. free_blk s k i}"
    and i: "free_blk s k i" and hd: "fl k = baddr s k i # rest"
  defines "t \<equiv> alloc_set (s\<lparr>heap := lst_remove (heap s) (baddr s k i)\<rparr>) k i"
  shows "bd_inv M t" and "used t = insert (k, i) (used s)" and "(k, i) \<notin> used s"
proof -
  note wf = bd_invD(1) [OF inv] and tr = bd_invD(2) [OF inv]
  have kn: "k < nsizes s" using k wf nsizes_MAXSIZE by blast
  have ib: "i < NBLK s k" using i by (simp add: free_blk_def present_def)
  have al: "alloc_isset t j l \<longleftrightarrow> (j = k \<and> l = i) \<or> alloc_isset s j l" for j l
    unfolding t_def by (subst alloc_isset_upd(1)) (use wf k ib in simp_all)
  have sp: "is_split t = is_split s" by (simp add: t_def fun_eq_iff)
  have eqs: "MAXSIZE t = MAXSIZE s" "NBLK t = NBLK s" "free_list t = free_list s"
    "nsizes t = nsizes s" "bd_base t = bd_base s" "bd_sizes t = bd_sizes s"
    by (simp_all add: t_def)
  have ba: "baddr t = baddr s" by (simp add: baddr_def eqs fun_eq_iff)
  have pr: "present t = present s" by (simp add: present_def eqs sp fun_eq_iff)
  have fr: "free_blk t j l \<longleftrightarrow> free_blk s j l \<and> \<not> (j = k \<and> l = i)" for j l
    by (auto simp: free_blk_def pr al)
  have nsp: "\<not> is_split s k i" using i k ib tr by (auto simp: free_blk_def dest: is_split_alloc)
  have hp: "heap t = lst_remove (heap s) (baddr s k i)" by (simp add: t_def)
  have "dl.lists (heap t) (free_list s) (nsizes s) (fl(k := rest))"
    using dl.lists_pop [OF L kn hd] hp by simp
  moreover have "set ((fl(k := rest)) j) = baddr t j ` {l. free_blk t j l}" if j: "j < nsizes s" for j
  proof (cases "j = k")
    case True
    have "distinct (fl k)" using dl.R_distinct [OF dl.listsD [OF L kn]] by simp
    then have "set rest = set (fl k) - {baddr s k i}" using hd by auto
    then show ?thesis using True F j by (auto simp: fr ba baddr_inj)
  qed (use F j in \<open>simp add: fr ba\<close>)
  ultimately have lo: "lists_ok t" by (auto simp: lists_ok_def eqs simp del: fun_upd_apply)
  have "tree_ok t"
    by (rule tree_okI) (use tr i in \<open>auto simp: eqs sp al pr free_blk_def dest: is_split_alloc alloc_present\<close>)
  moreover have "coalesced t"
    by (rule coalescedI) (use bd_invD(4) [OF inv] in \<open>auto simp: coalesced_def eqs pr al\<close>)
  moreover have "reserved M t"
    using bd_invD(5) [OF inv] by (auto simp: reserved_def eqs al)
  moreover have "bd_wf t" using wf by (simp add: t_def)
  ultimately show "bd_inv M t" using lo by (simp add: bd_inv_def)
  show "used t = insert (k, i) (used s)"
    using i nsp by (auto simp: used_def pr al sp free_blk_def)
  show "(k, i) \<notin> used s" using i by (simp add: used_def free_blk_def)
qed

text \<open>Splitting a block in use.\<close>

lemma split_step_inv:
  assumes inv: "bd_inv M s" and u: "(k, i) \<in> used s" and k0: "0 < k"
  defines "t \<equiv> split_step s (baddr s k i) k"
  shows "bd_inv M t" and "used t = insert (k - 1, 2 * i) (used s - {(k, i)})"
    and "bd_base t = bd_base s" and "nsizes t = nsizes s"
proof -
  note wf = bd_invD(1) [OF inv] and tr = bd_invD(2) [OF inv]
  have k: "k \<le> MAXSIZE s" and ib: "i < NBLK s k" using used_bounds [OF u] by auto
  have c: "2 * i + 1 < NBLK s (k - 1)" using NBLK_even [of "k - 1" s] k0 k ib by simp
  let ?q = "baddr s (k - 1) (2 * i + 1)"
  have t: "t = (alloc_set (split_set s k i) (k - 1) (2 * i))
      \<lparr>heap := lst_push (heap s) (free_list s (k - 1)) ?q\<rparr>"
    using blk_index_up [OF wf le_refl k ib] blk_index_down [OF wf k0 k ib] baddr_children(2) [OF k0]
    by (simp add: t_def split_step_def Let_def)
  have al: "alloc_isset t j l \<longleftrightarrow> (j = k - 1 \<and> l = 2 * i) \<or> alloc_isset s j l" for j l
    unfolding t using wf k c by (simp add: alloc_isset_upd)
  have sp: "is_split t j l \<longleftrightarrow> (j = k \<and> l = i) \<or> is_split s j l" for j l
    unfolding t using wf k k0 ib by (simp add: is_split_upd)
  have eqs: "MAXSIZE t = MAXSIZE s" "NBLK t = NBLK s" "free_list t = free_list s"
    "nsizes t = nsizes s" "bd_base t = bd_base s" "bd_sizes t = bd_sizes s"
    by (simp_all add: t)
  have ba: "baddr t = baddr s" by (simp add: baddr_def eqs fun_eq_iff)
  have pr: "present t j l \<longleftrightarrow> present s j l \<or> (j = k - 1 \<and> (l = 2 * i \<or> l = 2 * i + 1))" for j l
    using k k0 c by (auto simp: present_def eqs sp)
  have np: "\<not> present s (k - 1) l" if "l div 2 = i" for l
    using that u k0 k by (auto simp: used_def present_def)
  have na: "\<not> alloc_isset s (k - 1) (2 * i + 1)"
    using np [of "2 * i + 1"] alloc_present [OF tr le_trans [OF diff_le_self k] c] by auto
  have fr: "free_blk t j l \<longleftrightarrow> free_blk s j l \<or> (j = k - 1 \<and> l = 2 * i + 1)" for j l
    using np [of "2 * i"] na by (auto simp: free_blk_def pr al)
  obtain fl where L: "dl.lists (heap s) (free_list s) (nsizes s) fl"
    and F: "\<forall>k<nsizes s. set (fl k) = baddr s k ` {i. free_blk s k i}"
    using bd_invD(3) [OF inv] by (auto simp: lists_ok_def)
  have kn: "k - 1 < nsizes s" using k wf by (simp add: nsizes_MAXSIZE)
  have q: "?q \<in> blk_range s k i"
    using baddr_children(2) [OF k0, of s i] BLK_SIZE_add [of "k - 1" 1] k0 by (simp add: blk_range_def)
  have nl: "?q \<notin> set (free_list s j # fl j)" if "j < nsizes s" for j
    using used_not_listed [OF inv u q _ that, of fl] F that k0 by blast
  have "dl.lists (heap t) (free_list s) (nsizes s) (fl(k - 1 := ?q # fl (k - 1)))"
    using dl.lists_push [OF L kn nl] by (simp add: t)
  moreover have "set ((fl(k - 1 := ?q # fl (k - 1))) j) = baddr t j ` {l. free_blk t j l}"
    if "j < nsizes s" for j
    using F that by (auto simp: fr ba)
  ultimately have "lists_ok t" by (auto simp: lists_ok_def eqs simp del: fun_upd_apply)
  moreover have "tree_ok t"
    by (rule tree_okI)
      (use tr u in \<open>auto simp: eqs sp al pr used_def dest: is_split_alloc alloc_present\<close>)
  moreover have "coalesced t"
    by (rule coalescedI)
      (use bd_invD(4) [OF inv] in \<open>auto simp: coalesced_def eqs pr al\<close>)
  moreover have "reserved M t"
    using bd_invD(5) [OF inv] by (auto simp: reserved_def eqs al)
  moreover have "bd_wf t" using wf by (simp add: t)
  ultimately show "bd_inv M t" by (simp add: bd_inv_def)
  have "\<not> is_split s (k - 1) (2 * i)"
    using np [of "2 * i"] is_split_alloc [OF tr, of "k - 1" "2 * i"]
      alloc_present [OF tr, of "k - 1" "2 * i"] le_trans [OF diff_le_self [of k 1] k] c by auto
  then show "used t = insert (k - 1, 2 * i) (used s - {(k, i)})"
    using np na k0 by (auto simp: used_def pr al sp)
  show "bd_base t = bd_base s" "nsizes t = nsizes s" by (simp_all add: eqs)
qed

text \<open>Giving up a block in use whose buddy is allocated.\<close>

lemma release_block_inv:
  assumes inv: "bd_inv M s" and u: "(k, i) \<in> used s" and nr: "k = 0 \<Longrightarrow> M \<le> i"
    and km: "k < MAXSIZE s" and b: "alloc_isset s k (buddy_of i)"
  defines "t \<equiv> (alloc_clear s k i)\<lparr>heap := lst_push (heap s) (free_list s k) (baddr s k i)\<rparr>"
  shows "bd_inv M t" and "used t = used s - {(k, i)}"
proof -
  note wf = bd_invD(1) [OF inv] and tr = bd_invD(2) [OF inv]
  have k: "k \<le> MAXSIZE s" and ib: "i < NBLK s k" using used_bounds [OF u] by auto
  have kn: "k < nsizes s" using k wf by (simp add: nsizes_MAXSIZE)
  have al: "alloc_isset t j l \<longleftrightarrow> \<not> (j = k \<and> l = i) \<and> alloc_isset s j l" for j l
    unfolding t_def using wf k ib by (simp add: alloc_isset_upd)
  have sp: "is_split t = is_split s" by (simp add: t_def fun_eq_iff)
  have eqs: "MAXSIZE t = MAXSIZE s" "NBLK t = NBLK s" "free_list t = free_list s"
    "nsizes t = nsizes s" "bd_base t = bd_base s" "bd_sizes t = bd_sizes s"
    by (simp_all add: t_def)
  have ba: "baddr t = baddr s" by (simp add: baddr_def eqs fun_eq_iff)
  have pr: "present t = present s" by (simp add: present_def eqs sp fun_eq_iff)
  have fr: "free_blk t j l \<longleftrightarrow> free_blk s j l \<or> (j = k \<and> l = i)" for j l
    using u by (auto simp: free_blk_def pr al used_def)
  obtain fl where L: "dl.lists (heap s) (free_list s) (nsizes s) fl"
    and F: "\<forall>k<nsizes s. set (fl k) = baddr s k ` {i. free_blk s k i}"
    using bd_invD(3) [OF inv] by (auto simp: lists_ok_def)
  have nl: "baddr s k i \<notin> set (free_list s j # fl j)" if "j < nsizes s" for j
    using used_not_listed [OF inv u baddr_in_range nr that, of fl] F that by blast
  have "dl.lists (heap t) (free_list s) (nsizes s) (fl(k := baddr s k i # fl k))"
    using dl.lists_push [OF L kn nl] by (simp add: t_def)
  moreover have "set ((fl(k := baddr s k i # fl k)) j) = baddr t j ` {l. free_blk t j l}"
    if "j < nsizes s" for j
    using F that by (auto simp: fr ba)
  ultimately have "lists_ok t" by (auto simp: lists_ok_def eqs simp del: fun_upd_apply)
  moreover have "tree_ok t"
    by (rule tree_okI)
      (use tr u in \<open>auto simp: eqs sp al pr used_def dest: is_split_alloc alloc_present\<close>)
  moreover have "coalesced t"
    by (rule coalescedI)
      (use bd_invD(4) [OF inv] b in \<open>auto simp: coalesced_def eqs pr al\<close>)
  moreover have "reserved M t"
    using bd_invD(5) [OF inv] nr by (auto simp: reserved_def eqs al)
  moreover have "bd_wf t" using wf by (simp add: t_def)
  ultimately show "bd_inv M t" by (simp add: bd_inv_def)
  show "used t = used s - {(k, i)}" by (auto simp: used_def pr al sp)
qed

text \<open>Merging a block in use with its free buddy.\<close>

lemma merge_inv:
  assumes inv: "bd_inv M s" and u: "(k, i) \<in> used s" and nr: "k = 0 \<Longrightarrow> M \<le> i"
    and km: "k < MAXSIZE s" and b: "\<not> alloc_isset s k (buddy_of i)"
  defines "t \<equiv> split_clear ((alloc_clear s k i)
      \<lparr>heap := lst_remove (heap s) (baddr s k (buddy_of i))\<rparr>) (k + 1) (i div 2)"
  shows "bd_inv M t" and "used t = insert (k + 1, i div 2) (used s - {(k, i)})"
    and "bd_base t = bd_base s" and "nsizes t = nsizes s"
proof -
  note wf = bd_invD(1) [OF inv] and tr = bd_invD(2) [OF inv]
  have k: "k \<le> MAXSIZE s" and ib: "i < NBLK s k" using used_bounds [OF u] by auto
  have kn: "k < nsizes s" using k wf by (simp add: nsizes_MAXSIZE)
  have bb: "buddy_of i < NBLK s k" by (rule buddy_bound [OF km ib])
  have pb: "i div 2 < NBLK s (k + 1)" using NBLK_even [OF km] ib by simp
  have spp: "is_split s (k + 1) (i div 2)" using u km by (simp add: used_def present_def)
  have fb: "free_blk s k (buddy_of i)" using b spp k bb by (simp add: free_blk_def present_def)
  have nsp: "\<not> is_split s k l" if "l div 2 = i div 2" for l
    using that u b is_split_alloc [OF tr k bb] by (auto simp: same_parent used_def)
  have al: "alloc_isset t j l \<longleftrightarrow> \<not> (j = k \<and> l = i) \<and> alloc_isset s j l" for j l
    unfolding t_def using wf k ib by (simp add: alloc_isset_upd)
  have sp: "is_split t j l \<longleftrightarrow> \<not> (j = k + 1 \<and> l = i div 2) \<and> is_split s j l" for j l
    unfolding t_def using wf km pb by (simp add: is_split_upd)
  have eqs: "MAXSIZE t = MAXSIZE s" "NBLK t = NBLK s" "free_list t = free_list s"
    "nsizes t = nsizes s" "bd_base t = bd_base s" "bd_sizes t = bd_sizes s"
    by (simp_all add: t_def)
  have ba: "baddr t = baddr s" by (simp add: baddr_def eqs fun_eq_iff)
  have pr: "present t j l \<longleftrightarrow> present s j l \<and> \<not> (j = k \<and> l div 2 = i div 2)" for j l
    using km by (auto simp: present_def eqs sp)
  have fr: "free_blk t j l \<longleftrightarrow> free_blk s j l \<and> \<not> (j = k \<and> l = buddy_of i)" for j l
    using u by (auto simp: free_blk_def pr al used_def same_parent)
  obtain fl where L: "dl.lists (heap s) (free_list s) (nsizes s) fl"
    and F: "\<forall>k<nsizes s. set (fl k) = baddr s k ` {i. free_blk s k i}"
    using bd_invD(3) [OF inv] by (auto simp: lists_ok_def)
  let ?q = "baddr s k (buddy_of i)"
  have q: "?q \<in> set (fl k)" using F kn fb by auto
  have "dl.lists (heap t) (free_list s) (nsizes s) (fl(k := remove1 ?q (fl k)))"
    using dl.lists_rem [OF L kn q] by (simp add: t_def)
  moreover have "set ((fl(k := remove1 ?q (fl k))) j) = baddr t j ` {l. free_blk t j l}"
    if "j < nsizes s" for j
    using F that dl.R_distinct [OF dl.listsD [OF L kn]] by (auto simp: fr ba baddr_inj)
  ultimately have "lists_ok t" by (auto simp: lists_ok_def eqs simp del: fun_upd_apply)
  moreover have "tree_ok t"
    by (rule tree_okI)
      (use tr u b nsp in \<open>auto simp: eqs sp al pr used_def same_parent dest: is_split_alloc alloc_present\<close>)
  moreover have "coalesced t"
    by (rule coalescedI)
      (use bd_invD(4) [OF inv] in \<open>auto simp: coalesced_def eqs pr al same_parent\<close>)
  moreover have "reserved M t"
    using bd_invD(5) [OF inv] nr by (auto simp: reserved_def eqs al)
  moreover have "bd_wf t" using wf by (simp add: t_def)
  ultimately show "bd_inv M t" by (simp add: bd_inv_def)
  have ap: "alloc_isset s (k + 1) (i div 2)"
    using is_split_alloc [OF tr _ pb spp] km by simp
  have pp: "present s (k + 1) (i div 2)"
    using alloc_present [OF tr _ pb ap] km by simp
  show "used t = insert (k + 1, i div 2) (used s - {(k, i)})"
    using ap pp nsp b by (auto simp: used_def pr al sp same_parent)
  show "bd_base t = bd_base s" "nsizes t = nsizes s" by (simp_all add: eqs)
qed

end
