(* ===== verification/BuddyCorrect.thy ===== *)
theory BuddyCorrect
  imports BuddyInv
begin

text \<open>
  The operations of \<^verbatim>\<open>kernel/buddy.c\<close> against their contract: what \<^verbatim>\<open>bd_malloc\<close> and \<^verbatim>\<open>bd_free\<close> do
  to the set of blocks in use, that blocks in use never overlap, and where \<^verbatim>\<open>firstk\<close> and
  \<^verbatim>\<open>bd_init\<close> stop being defined.
\<close>

section \<open>The loops\<close>

lemma find_free_spec:
  assumes "dl.lists (heap s) (free_list s) (nsizes s) fl"
  shows "k \<le> find_free s k \<and> (find_free s k < nsizes s \<longrightarrow> fl (find_free s k) \<noteq> []) \<and>
    (\<forall>j. k \<le> j \<and> j < find_free s k \<and> j < nsizes s \<longrightarrow> fl j = [])"
  using assms
proof (induction s k rule: find_free.induct)
  case (1 s k)
  note e = dl.lists_empty [OF 1(2)]
  show ?case
  proof (cases "k < nsizes s \<and> lst_empty (heap s) (free_list s k)")
    case True
    then have f: "find_free s k = find_free s (k + 1)" by (simp add: find_free.simps [of s k])
    have "fl k = []" using True e by blast
    then show ?thesis
      unfolding f using 1(1) [OF True 1(2)] by (metis Suc_eq_plus1 Suc_leI le_neq_implies_less le_trans lessI less_imp_le)
  next
    case False
    then have "find_free s k = k" by (subst find_free.simps) (simp only: if_False)
    then show ?thesis using False e by auto
  qed
qed

lemma split_loop_done [simp]: "split_loop s p k k = s"
  by (simp add: split_loop.simps)

lemma split_loop_inv:
  "bd_inv M s \<Longrightarrow> (k, i) \<in> used s \<Longrightarrow> fk \<le> k \<Longrightarrow>
   bd_inv M (split_loop s (baddr s k i) fk k) \<and>
   used (split_loop s (baddr s k i) fk k) = insert (fk, i * 2 ^ (k - fk)) (used s - {(k, i)}) \<and>
   bd_base (split_loop s (baddr s k i) fk k) = bd_base s \<and>
   nsizes (split_loop s (baddr s k i) fk k) = nsizes s"
proof (induction k arbitrary: s i)
  case 0
  then show ?case by (simp add: insert_absorb)
next
  case (Suc k)
  show ?case
  proof (cases "fk \<le> k")
    case False
    then have "fk = Suc k" using Suc.prems(3) by simp
    then show ?thesis using Suc.prems by (simp add: insert_absorb)
  next
    case True
    let ?t = "split_step s (baddr s (Suc k) i) (Suc k)"
    note st = split_step_inv [OF Suc.prems(1,2), simplified]
    have b: "baddr ?t k (2 * i) = baddr s (Suc k) i"
      using baddr_children(1) [of "Suc k" s i] st(3) by (simp add: baddr_def)
    have "(k, 2 * i) \<notin> used s"
    proof
      assume "(k, 2 * i) \<in> used s"
      then show False
        using leaf_unique [OF bd_invD(2) [OF Suc.prems(1)] used_leaf [OF Suc.prems(2)] used_leaf,
            of k "2 * i" "baddr s (Suc k) i"] baddr_children(1) [of "Suc k" s i]
          baddr_in_range [of s k "2 * i"] by simp
    qed
    then have "used ?t - {(k, 2 * i)} = used s - {(Suc k, i)}" using st(2) by auto
    moreover have e: "i * 2 ^ (Suc k - fk) = 2 * i * 2 ^ (k - fk)" using True by (simp add: Suc_diff_le)
    ultimately show ?thesis
      unfolding e using Suc.IH [OF st(1), of "2 * i"] st(2,3,4) True b
      by (simp add: split_loop.simps [of s _ fk "Suc k"])
  qed
qed

lemma used_not_root: "bd_inv M s \<Longrightarrow> (k, i) \<in> used s \<Longrightarrow> k < MAXSIZE s"
proof (rule ccontr)
  assume inv: "bd_inv M s" and u: "(k, i) \<in> used s" and "\<not> k < MAXSIZE s"
  then have k: "k = MAXSIZE s" and i: "i = 0" using used_bounds [OF u] by (auto simp: NBLK_def)
  have "(0, 0) \<in> used s"
    using inv by (intro reserved_used) (auto simp: bd_inv_def reserved_def bd_wf_def)
  moreover have "baddr s 0 0 \<in> blk_range s k i"
    by (simp add: blk_range_def baddr_def i)
  ultimately have "k = 0"
    using leaf_unique [OF bd_invD(2) [OF inv] used_leaf used_leaf [OF u]] baddr_in_range by fastforce
  then show False using k bd_invD(1) [OF inv] by (simp add: bd_wf_def MAXSIZE_def)
qed

lemma blk_index_below:
  assumes "bd_wf s" and "j \<le> k" and "k \<le> MAXSIZE s" and "i < NBLK s k"
  shows "blk_index s j (baddr s k i) = i * 2 ^ (k - j)"
proof -
  have "i * BLK_SIZE k < BLK_SIZE (MAXSIZE s)"
    using baddr_in_heap [OF assms(3,4)] BLK_SIZE_pos [of k] by linarith
  moreover have "BLK_SIZE k = BLK_SIZE j * 2 ^ (k - j)"
    using BLK_SIZE_add [of j "k - j"] assms(2) by simp
  ultimately show ?thesis
    using assms(1) BLK_SIZE_pos [of j]
    by (simp add: baddr_def blk_index_eq mult.left_commute del: BLK_SIZE_pos)
qed

lemma size_from_used:
  assumes inv: "bd_inv M s" and u: "(k, i) \<in> used s" and "j \<le> k"
  shows "size_from s (baddr s k i) j = Inr k"
  using assms(3)
proof (induction "k - j" arbitrary: j)
  case 0
  then have j: "j = k" by simp
  have km: "k < MAXSIZE s" by (rule used_not_root [OF inv u])
  then have "blk_index s (k + 1) (baddr s k i) = i div 2"
    using blk_index_up [OF bd_invD(1) [OF inv], of k "k + 1" i] used_bounds [OF u] by simp
  then show ?case
    using j km u by (subst size_from.simps) (auto simp: used_def present_def is_split_def MAXSIZE_def)
next
  case (Suc d)
  note wf = bd_invD(1) [OF inv] and tr = bd_invD(2) [OF inv]
  have jk: "j + 1 \<le> k" and km: "k < MAXSIZE s" using Suc.hyps(2) used_not_root [OF inv u] by auto
  have ib: "i < NBLK s k" using used_bounds [OF u] by simp
  let ?b = "i * 2 ^ (k - (j + 1))"
  have bi: "blk_index s (j + 1) (baddr s k i) = ?b"
    using blk_index_below [OF wf jk _ ib] km by simp
  have "NBLK s (j + 1) = NBLK s k * 2 ^ (k - (j + 1))"
    using jk km by (simp add: NBLK_def power_add [symmetric])
  then have bb: "?b < NBLK s (j + 1)" using ib by simp
  have "\<not> is_split s (j + 1) ?b"
  proof
    assume sp: "is_split s (j + 1) ?b"
    then have "present s (j + 1) ?b"
      using is_split_alloc [OF tr _ bb] alloc_present [OF tr _ bb] jk km by auto
    moreover have "is_split s k i" if jk': "j + 1 < k"
    proof -
      obtain d where d: "k = j + 1 + Suc d" using less_imp_Suc_add [OF jk'] by auto
      then show ?thesis using present_ancestors [OF tr calculation, of d] km by simp
    qed
    ultimately show False using sp u jk by (cases "j + 1 = k") (auto simp: used_def)
  qed
  then have "size_from s (baddr s k i) j = size_from s (baddr s k i) (j + 1)"
    using bi jk km by (subst size_from.simps) (auto simp: is_split_def MAXSIZE_def)
  then show ?case using Suc.hyps(1) [of "j + 1"] Suc.hyps(2) jk by simp
qed

lemma bd_size_used: "bd_inv M s \<Longrightarrow> (k, i) \<in> used s \<Longrightarrow> bd_size s (baddr s k i) = Inr k"
  by (simp add: bd_size_def size_from_used)

text \<open>\<open>bd_free\<close> without the size lookup.\<close>

definition free_at :: "bd \<Rightarrow> addr \<Rightarrow> nat \<Rightarrow> bd" where
  "free_at s p k = (case free_loop s p k of (p1, k1, s1) \<Rightarrow>
     s1\<lparr>heap := lst_push (heap s1) (free_list s1 k1) p1\<rparr>)"

lemma merge_step_eq:
  assumes wf: "bd_wf s" and km: "k < MAXSIZE s" and i: "i < NBLK s k"
  shows "merge_step (alloc_clear s k i) k (baddr s k i) (buddy_of i) =
    (baddr s (k + 1) (i div 2), split_clear ((alloc_clear s k i)
      \<lparr>heap := lst_remove (heap s) (baddr s k (buddy_of i))\<rparr>) (k + 1) (i div 2))"
proof -
  have a: "addr s k (buddy_of i) = baddr s k (buddy_of i)"
    using wf km by (intro addr_eq buddy_bound i) simp_all
  have p: "(if buddy_of i mod 2 = 0 then baddr s k (buddy_of i) else baddr s k i) =
      baddr s (k + 1) (i div 2)"
  proof -
    have "(if buddy_of i mod 2 = 0 then buddy_of i else i) = 2 * (i div 2)"
      by (auto simp: buddy_of_def; presburger)
    then have "(if buddy_of i mod 2 = 0 then baddr s k (buddy_of i) else baddr s k i) =
        baddr s k (2 * (i div 2))" by (metis (full_types))
    then show ?thesis using baddr_children(1) [of "k + 1" s "i div 2"] by simp
  qed
  have "2 * (i div 2) < NBLK s k" using i by linarith
  then have "blk_index s (k + 1) (baddr s (k + 1) (i div 2)) = i div 2"
    using blk_index_up [OF wf, of "k + 1" "k + 1" "i div 2"] NBLK_even [OF km] km by simp
  then show ?thesis
    by (simp add: merge_step_def Let_def a p)
qed

lemma free_at_inv:
  "bd_inv M s \<Longrightarrow> (k, i) \<in> used s \<Longrightarrow> (k = 0 \<longrightarrow> M \<le> i) \<Longrightarrow>
   bd_inv M (free_at s (baddr s k i) k) \<and> used (free_at s (baddr s k i) k) = used s - {(k, i)} \<and>
   bd_base (free_at s (baddr s k i) k) = bd_base s \<and> nsizes (free_at s (baddr s k i) k) = nsizes s"
proof (induction "MAXSIZE s - k" arbitrary: s k i)
  case 0
  then show ?case using used_not_root [OF "0.prems"(1,2)] by simp
next
  case (Suc d)
  note inv = Suc.prems(1) and u = Suc.prems(2)
  note wf = bd_invD(1) [OF inv]
  have km: "k < MAXSIZE s" and i: "i < NBLK s k"
    using used_not_root [OF inv u] used_bounds [OF u] by auto
  have bi: "blk_index s k (baddr s k i) = i" using blk_index_up [OF wf, of k k i] km i by simp
  have ab: "alloc_isset (alloc_clear s k i) k (buddy_of i) = alloc_isset s k (buddy_of i)"
    using alloc_isset_upd(2) [OF wf _ i] km by simp
  have nr: "k = 0 \<Longrightarrow> M \<le> i" using Suc.prems(3) by simp
  show ?case
  proof (cases "alloc_isset s k (buddy_of i)")
    case True
    then have "free_at s (baddr s k i) k =
        (alloc_clear s k i)\<lparr>heap := lst_push (heap s) (free_list s k) (baddr s k i)\<rparr>"
      using km by (simp add: free_at_def free_loop.simps [of s] bi ab Let_def)
    then show ?thesis using release_block_inv [OF inv u nr km True] by simp
  next
    case False
    let ?t = "split_clear ((alloc_clear s k i)
      \<lparr>heap := lst_remove (heap s) (baddr s k (buddy_of i))\<rparr>) (k + 1) (i div 2)"
    have fa: "free_at s (baddr s k i) k = free_at ?t (baddr s (k + 1) (i div 2)) (k + 1)"
      using km False
      by (simp add: free_at_def free_loop.simps [of s] bi ab Let_def merge_step_eq [OF wf km i])
    have b: "baddr ?t = baddr s" by (simp add: baddr_def fun_eq_iff)
    note m = merge_inv [OF inv u nr km False]
    have "(k + 1, i div 2) \<notin> used s"
      using u km by (auto simp: used_def present_def)
    then have "used ?t - {(k + 1, i div 2)} = used s - {(k, i)}" using m(2) by auto
    then show ?thesis
      using Suc.hyps(1) [of ?t "k + 1" "i div 2"] Suc.hyps(2) m fa b by simp
  qed
qed

lemma bd_free_used:
  assumes "bd_inv M s" and "(k, i) \<in> used s" and "k = 0 \<longrightarrow> M \<le> i"
  shows "\<exists>t. bd_free s (baddr s k i) = Inr t \<and> bd_inv M t \<and> used t = used s - {(k, i)} \<and>
    bd_base t = bd_base s \<and> nsizes t = nsizes s"
  using free_at_inv [OF assms] bd_size_used [OF assms(1,2)]
  by (auto simp: bd_free_def free_at_def split: prod.splits)

section \<open>The search for a size\<close>

lemma unat_pow2: "m < 64 \<Longrightarrow> unat ((2::uint64) ^ m) = 2 ^ m"
  using unat_of_nat [where 'a = 64, of "2 ^ m"] power_strict_increasing [of m 64 "2::nat"] by simp

lemma firstk_loop_ok:
  assumes "unat n \<le> 2 ^ 63" and "k \<le> 59"
  shows "\<exists>r. firstk_loop n (2 ^ (k + 4)) k = Some r \<and> k \<le> r \<and> r \<le> 59 \<and> unat n \<le> BLK_SIZE r \<and>
    (\<forall>j. k \<le> j \<and> j < r \<longrightarrow> BLK_SIZE j < unat n)"
  using assms(2)
proof (induction "59 - k" arbitrary: k)
  case 0
  then have "k = 59" by simp
  moreover have "\<not> (2::uint64) ^ 63 < n" using assms(1) by (simp add: word_less_nat_alt unat_pow2)
  ultimately show ?case
    using assms(1) by (subst firstk_loop.simps) (auto simp: BLK_SIZE_def LEAF_SIZE_def)
next
  case (Suc d)
  have u: "unat ((2::uint64) ^ (k + 4)) = BLK_SIZE k"
    using Suc.hyps(2) by (subst unat_pow2) (simp_all add: BLK_SIZE_def LEAF_SIZE_def power_add)
  show ?case
  proof (cases "(2::uint64) ^ (k + 4) < n")
    case True
    then have "firstk_loop n (2 ^ (k + 4)) k = firstk_loop n (2 ^ (k + 1 + 4)) (k + 1)"
      by (subst firstk_loop.simps) (simp add: power_add)
    moreover obtain r where "firstk_loop n (2 ^ (k + 1 + 4)) (k + 1) = Some r" "k + 1 \<le> r" "r \<le> 59"
      "unat n \<le> BLK_SIZE r" and m: "\<forall>j. k + 1 \<le> j \<and> j < r \<longrightarrow> BLK_SIZE j < unat n"
      using Suc.hyps(1) [of "k + 1"] Suc.hyps(2) by fastforce
    moreover have "BLK_SIZE j < unat n" if "k \<le> j" "j < r" for j
      using that m True u by (cases "j = k") (auto simp: word_less_nat_alt)
    ultimately show ?thesis by auto
  next
    case False
    then have "firstk_loop n (2 ^ (k + 4)) k = Some k" by (subst firstk_loop.simps) simp
    moreover have "unat n \<le> BLK_SIZE k" using False u by (simp add: word_less_nat_alt)
    ultimately show ?thesis using Suc.prems by auto
  qed
qed

lemma firstk_ok:
  "unat n \<le> 2 ^ 63 \<Longrightarrow> \<exists>k. firstk n = Some k \<and> unat n \<le> BLK_SIZE k \<and> (\<forall>j<k. BLK_SIZE j < unat n)"
  using firstk_loop_ok [of n 0] by (auto simp: firstk_def)

lemma pow2_wraps: "m < 64 \<Longrightarrow> (2::uint64) ^ m * 2 = 0 \<or> (\<exists>l<64. (2::uint64) ^ m * 2 = 2 ^ l)"
proof (cases "m = 63")
  case False
  assume "m < 64"
  with False have "Suc m < 64" by simp
  then show ?thesis by (metis power_Suc2)
qed simp

abbreviation pow2_or_0 :: "uint64 \<Rightarrow> bool" where
  "pow2_or_0 bsz \<equiv> bsz = 0 \<or> (\<exists>m<64. bsz = 2 ^ m)"

lemma firstk_loop_bound:
  assumes "firstk_loop n bsz k = Some r"
  shows "pow2_or_0 bsz \<longrightarrow> unat n \<le> 2 ^ 63"
proof (rule firstk_loop.raw_induct [where P = "\<lambda>n bsz k r. pow2_or_0 bsz \<longrightarrow> unat n \<le> 2 ^ 63",
      OF _ assms])
  fix f :: "uint64 \<Rightarrow> uint64 \<Rightarrow> nat \<Rightarrow> nat option" and n bsz :: uint64 and k r :: nat
  assume IH: "\<And>n bsz k y. f n bsz k = Some y \<Longrightarrow> pow2_or_0 bsz \<longrightarrow> unat n \<le> 2 ^ 63"
    and eq: "(if bsz < n then f n (bsz * 2) (k + 1) else Some k) = Some r"
  show "pow2_or_0 bsz \<longrightarrow> unat n \<le> 2 ^ 63"
  proof (cases "bsz < n")
    case True
    then have "pow2_or_0 (bsz * 2) \<longrightarrow> unat n \<le> 2 ^ 63" by (intro IH) (use eq in simp)
    moreover have "pow2_or_0 bsz \<longrightarrow> pow2_or_0 (bsz * 2)" using pow2_wraps by fastforce
    ultimately show ?thesis by blast
  next
    case False
    then have "unat n \<le> unat bsz" by (simp add: word_less_nat_alt)
    moreover have "pow2_or_0 bsz \<longrightarrow> unat bsz \<le> 2 ^ 63"
      using power_increasing [of _ 63 "2::nat"] by (auto simp: unat_pow2)
    ultimately show ?thesis using le_trans by blast
  qed
qed

lemma firstk_diverges: "2 ^ 63 < unat n \<Longrightarrow> firstk n = None"
proof (rule ccontr)
  assume n: "2 ^ 63 < unat n" and "firstk n \<noteq> None"
  then obtain r where "firstk_loop n 16 0 = Some r" by (auto simp: firstk_def)
  then have "unat n \<le> 2 ^ 63"
    by (rule firstk_loop_bound [THEN mp]) (intro disjI2 exI [of _ 4], simp)
  then show False using n by simp
qed

section \<open>Allocation\<close>

lemma malloc_at_full:
  assumes "bd_inv M s" and "\<forall>j\<ge>k. \<forall>i. \<not> free_blk s j i"
  shows "malloc_at s k = Inr (0, s)"
proof -
  obtain fl where L: "dl.lists (heap s) (free_list s) (nsizes s) fl"
    and F: "\<forall>k<nsizes s. set (fl k) = baddr s k ` {i. free_blk s k i}"
    using bd_invD(3) [OF assms(1)] by (auto simp: lists_ok_def)
  have "\<not> find_free s k < nsizes s"
    using find_free_spec [OF L, of k] F assms(2) by fastforce
  then show ?thesis by (simp add: malloc_at_def Let_def)
qed

lemma malloc_at_ok:
  assumes inv: "bd_inv M s" and free: "free_blk s j l" and kj: "k \<le> j"
  shows "\<exists>i t. malloc_at s k = Inr (baddr s k i, t) \<and> bd_inv M t \<and> used t = insert (k, i) (used s) \<and>
    (k, i) \<notin> used s \<and> bd_base t = bd_base s \<and> nsizes t = nsizes s"
proof -
  note wf = bd_invD(1) [OF inv] and tr = bd_invD(2) [OF inv]
  obtain fl where L: "dl.lists (heap s) (free_list s) (nsizes s) fl"
    and F: "\<forall>k<nsizes s. set (fl k) = baddr s k ` {i. free_blk s k i}"
    using bd_invD(3) [OF inv] by (auto simp: lists_ok_def)
  define m where "m = find_free s k"
  have j: "j < nsizes s" using free nsizes_MAXSIZE [OF wf] by (simp add: free_blk_def present_def)
  then have "baddr s j l \<in> set (fl j)" using F free by blast
  then have je: "fl j \<noteq> []" by auto
  note ff = find_free_spec [OF L, of k, folded m_def]
  have mj: "m \<le> j" using ff je j kj by (meson not_le)
  then have km: "k \<le> m" and ne: "fl m \<noteq> []" using ff j by simp_all
  have mn: "m < nsizes s" and mm: "m \<le> MAXSIZE s" using j mj nsizes_MAXSIZE [OF wf, of m] by simp_all
  obtain p rest where hd: "fl m = p # rest" using ne by (cases "fl m") auto
  then obtain i where i: "free_blk s m i" and p: "p = baddr s m i"
    using F mn by (metis (mono_tags, lifting) imageE list.set_intros(1) mem_Collect_eq)
  have ib: "i < NBLK s m" using i by (simp add: free_blk_def present_def)
  let ?s2 = "alloc_set (s\<lparr>heap := lst_remove (heap s) p\<rparr>) m i"
  have pop: "lst_pop (heap s) (free_list s m) = Inr (p, lst_remove (heap s) p)"
    using dl.lists_pop [OF L mn hd] by simp
  have bi: "blk_index s m p = i" using blk_index_up [OF wf, of m m i] mm ib p by simp
  have eq: "malloc_at s k = Inr (p, split_loop ?s2 p k m)"
    using mn pop bi by (simp add: malloc_at_def m_def [symmetric] Let_def)
  note tk = take_block_inv [OF inv mm L F i hd [unfolded p], folded p]
  have b: "baddr ?s2 = baddr s" by (simp add: baddr_def fun_eq_iff)
  note sl = split_loop_inv [OF tk(1), of m i k]
  have "(m, i) \<in> used ?s2" using tk(2) by simp
  then have "bd_inv M (split_loop ?s2 p k m)"
    "used (split_loop ?s2 p k m) = insert (k, i * 2 ^ (m - k)) (used s)"
    "bd_base (split_loop ?s2 p k m) = bd_base s" "nsizes (split_loop ?s2 p k m) = nsizes s"
    using sl km tk(2,3) b p by auto
  moreover have "p = baddr s k (i * 2 ^ (m - k))"
    using BLK_SIZE_add [of k "m - k"] km p by (simp add: baddr_def mult.commute)
  moreover have "(k, i * 2 ^ (m - k)) \<notin> used s"
  proof
    assume "(k, i * 2 ^ (m - k)) \<in> used s"
    then have "k = m \<and> i * 2 ^ (m - k) = i"
      using leaf_unique [OF tr used_leaf free_leaf [OF tr i], of k "i * 2 ^ (m - k)" p]
        calculation(5) p baddr_in_range [of s m i] baddr_in_range [of s k "i * 2 ^ (m - k)"] by simp
    then show False using \<open>(k, i * 2 ^ (m - k)) \<in> used s\<close> tk(3) by simp
  qed
  ultimately show ?thesis using eq by blast
qed

end
