(* ===== verification/BuddyInit.thy ===== *)
theory BuddyInit
  imports BuddyCorrect
begin

text \<open>
  \<^verbatim>\<open>bd_init\<close> establishes the invariant: the marking loops set exactly the bits of the blocks
  that touch the metadata or the missing tail, the pass over the two boundary pairs of each
  size pushes exactly the free blocks, and the sum of their sizes is the expected one.
\<close>

section \<open>Marking\<close>

lemma mark_blocks_spec:
  assumes "bd_wf s" and "k \<le> MAXSIZE s" and "bj \<le> NBLK s k"
  shows "bd_wf (mark_blocks s k bi bj) \<and> heap (mark_blocks s k bi bj) = heap s \<and>
    nsizes (mark_blocks s k bi bj) = nsizes s \<and>
    bd_base (mark_blocks s k bi bj) = bd_base s \<and> bd_sizes (mark_blocks s k bi bj) = bd_sizes s \<and>
    (\<forall>j m. alloc_isset (mark_blocks s k bi bj) j m \<longleftrightarrow>
       (j = k \<and> bi \<le> m \<and> m < bj) \<or> alloc_isset s j m) \<and>
    (\<forall>j m. is_split (mark_blocks s k bi bj) j m \<longleftrightarrow>
       (0 < k \<and> j = k \<and> bi \<le> m \<and> m < bj) \<or> is_split s j m)"
  using assms
proof (induction s k bi bj rule: mark_blocks.induct)
  case (1 s k bi bj)
  show ?case
  proof (cases "bi < bj")
    case False
    then show ?thesis using 1(2) by (subst (1 2 3 4 5 6 7) mark_blocks.simps) auto
  next
    case True
    let ?s1 = "if k > 0 then split_set s k bi else s"
    let ?t = "alloc_set ?s1 k bi"
    have b: "bi < NBLK s k" using True 1(4) by simp
    have wf: "bd_wf ?s1" "bd_wf ?t" using 1(2) by simp_all
    have al: "alloc_isset ?t j m \<longleftrightarrow> (j = k \<and> m = bi) \<or> alloc_isset s j m" for j m
      using alloc_isset_upd(1) [OF wf(1), of k bi j m] 1(3) b by (cases "0 < k") auto
    have sp: "is_split ?t j m \<longleftrightarrow> (0 < k \<and> j = k \<and> m = bi) \<or> is_split s j m" for j m
      using is_split_upd(1) [OF 1(2) _ 1(3) b, of j m] by (cases "0 < k") auto
    have m: "mark_blocks s k bi bj = mark_blocks ?t k (bi + 1) bj"
      using True by (subst mark_blocks.simps) (simp add: Let_def)
    have f: "MAXSIZE ?t = MAXSIZE s" "NBLK ?t = NBLK s" "heap ?t = heap s" "nsizes ?t = nsizes s"
      "bd_base ?t = bd_base s" "bd_sizes ?t = bd_sizes s" by simp_all
    note IH = 1(1) [OF True refl wf(2), unfolded f, OF 1(3,4), folded m]
    have r: "(bi + 1 \<le> m \<and> m < bj) \<or> m = bi \<longleftrightarrow> bi \<le> m \<and> m < bj" for m using True by auto
    show ?thesis using IH unfolding al sp using r by metis
  qed
qed

lemma mark_sizes_spec:
  assumes "bd_wf s" and "\<forall>j\<le>MAXSIZE s. blk_index_next s j stop \<le> NBLK s j"
  shows "bd_wf (mark_sizes s k start stop) \<and> heap (mark_sizes s k start stop) = heap s \<and>
    nsizes (mark_sizes s k start stop) = nsizes s \<and>
    bd_base (mark_sizes s k start stop) = bd_base s \<and>
    bd_sizes (mark_sizes s k start stop) = bd_sizes s \<and>
    (\<forall>j m. j \<le> MAXSIZE s \<longrightarrow> (alloc_isset (mark_sizes s k start stop) j m \<longleftrightarrow>
       (k \<le> j \<and> blk_index s j start \<le> m \<and> m < blk_index_next s j stop) \<or> alloc_isset s j m)) \<and>
    (\<forall>j m. j \<le> MAXSIZE s \<longrightarrow> (is_split (mark_sizes s k start stop) j m \<longleftrightarrow>
       (0 < j \<and> k \<le> j \<and> blk_index s j start \<le> m \<and> m < blk_index_next s j stop) \<or> is_split s j m))"
  using assms
proof (induction s k start stop rule: mark_sizes.induct)
  case (1 s k start stop)
  show ?case
  proof (cases "k < nsizes s")
    case False
    then have "\<not> k \<le> j" if "j \<le> MAXSIZE s" for j
      using that nsizes_MAXSIZE [OF 1(2), of j] by simp
    then show ?thesis using 1(2) False by (subst (1 2 3 4 5 6 7) mark_sizes.simps) auto
  next
    case True
    then have k: "k \<le> MAXSIZE s" using nsizes_MAXSIZE [OF 1(2)] by blast
    let ?t = "mark_blocks s k (blk_index s k start) (blk_index_next s k stop)"
    note mb = mark_blocks_spec [OF 1(2) k, of "blk_index_next s k stop" "blk_index s k start"]
    have nb: "blk_index_next s k stop \<le> NBLK s k" using 1(3) k by blast
    then have f: "MAXSIZE ?t = MAXSIZE s" "NBLK ?t = NBLK s" "blk_index ?t = blk_index s"
      "blk_index_next ?t = blk_index_next s"
      using mb by (auto simp: MAXSIZE_def NBLK_def blk_index_def blk_index_next_def fun_eq_iff)
    have m: "mark_sizes s k start stop = mark_sizes ?t (k + 1) start stop"
      using True by (subst mark_sizes.simps) simp
    have wf: "bd_wf ?t" and
      al: "\<And>j m. alloc_isset ?t j m \<longleftrightarrow> (j = k \<and> blk_index s k start \<le> m \<and>
        m < blk_index_next s k stop) \<or> alloc_isset s j m" and
      sp: "\<And>j m. is_split ?t j m \<longleftrightarrow> (0 < k \<and> j = k \<and> blk_index s k start \<le> m \<and>
        m < blk_index_next s k stop) \<or> is_split s j m"
      using mb [OF nb] by blast+
    note IH = 1(1) [OF True, unfolded f, OF wf 1(3), folded m]
    let ?in = "\<lambda>j m. blk_index s j start \<le> m \<and> m < blk_index_next s j stop"
    have ia: "alloc_isset (mark_sizes s k start stop) j m \<longleftrightarrow> (k + 1 \<le> j \<and> ?in j m) \<or> alloc_isset ?t j m"
      and isp: "is_split (mark_sizes s k start stop) j m \<longleftrightarrow>
        (0 < j \<and> k + 1 \<le> j \<and> ?in j m) \<or> is_split ?t j m" if "j \<le> MAXSIZE s" for j m
      using IH that by blast+
    have "alloc_isset (mark_sizes s k start stop) j m \<longleftrightarrow> (k \<le> j \<and> ?in j m) \<or> alloc_isset s j m"
      "is_split (mark_sizes s k start stop) j m \<longleftrightarrow> (0 < j \<and> k \<le> j \<and> ?in j m) \<or> is_split s j m"
      if "j \<le> MAXSIZE s" for j m
      unfolding ia [OF that] isp [OF that] al sp by (cases "j = k"; auto)+
    then show ?thesis using IH mb [OF nb] by simp
  qed
qed

section \<open>The boundaries of each size\<close>

text \<open>
  \<open>up M k\<close> is the first block of size \<open>k\<close> that does not touch the first \<open>M\<close> leaves; \<open>E div 2 ^ k\<close>
  the first one that reaches beyond leaf \<open>E\<close>.
\<close>

definition up :: "nat \<Rightarrow> nat \<Rightarrow> nat" where
  "up M k = (M + 2 ^ k - 1) div 2 ^ k"

lemma up_le: "up M k \<le> i \<longleftrightarrow> M \<le> i * 2 ^ k"
proof -
  have "up M k \<le> i \<longleftrightarrow> (M + 2 ^ k - 1) div 2 ^ k < i + 1" by (simp add: up_def less_Suc_eq_le)
  also have "\<dots> \<longleftrightarrow> M + 2 ^ k - 1 < (i + 1) * 2 ^ k" by (intro div_less_iff_less_mult) simp
  also have "\<dots> \<longleftrightarrow> M \<le> i * 2 ^ k"
  proof -
    have "0 < (2::nat) ^ k" by simp
    then show ?thesis unfolding add_mult_distrib mult_1 by linarith
  qed
  finally show ?thesis .
qed

lemma up_0 [simp]: "up M 0 = M"
  by (simp add: up_def)

lemma up_Suc: "up M (Suc k) = (up M k + 1) div 2"
proof (rule order_antisym)
  have "up M k \<le> 2 * ((up M k + 1) div 2)" by presburger
  then show "up M (Suc k) \<le> (up M k + 1) div 2" unfolding up_le by (simp add: mult.commute mult.left_commute)
  have "M \<le> (2 * up M (Suc k)) * 2 ^ k"
    using up_le [of M "Suc k" "up M (Suc k)"] by (simp add: mult.commute mult.left_commute)
  then have "up M k \<le> 2 * up M (Suc k)" unfolding up_le .
  then show "(up M k + 1) div 2 \<le> up M (Suc k)" by presburger
qed

lemma up_pos: "0 < M \<Longrightarrow> 0 < up M k"
  using up_le [of M k 0] by auto

lemma div_Suc: "(E::nat) div 2 ^ Suc k = E div 2 ^ k div 2"
  unfolding power_Suc2 by (rule div_mult2_eq)

lemma blk_index_next_eq: "blk_index_next s k (bd_base s + M * 16) = up M k"
proof -
  have d: "M * 16 div BLK_SIZE k = M div 2 ^ k" and m: "M * 16 mod BLK_SIZE k = M mod 2 ^ k * 16"
    by (simp_all add: BLK_SIZE_def LEAF_SIZE_def mult_mod_left)
  have "up M k = (if M mod 2 ^ k = 0 then M div 2 ^ k else M div 2 ^ k + 1)"
  proof (cases "M mod 2 ^ k = 0")
    case True
    have "0 < (2::nat) ^ k" by simp
    then have "M \<le> M + 2 ^ k - 1" by linarith
    then have "M div 2 ^ k \<le> up M k" unfolding up_def by (rule div_le_mono)
    moreover have "up M k \<le> M div 2 ^ k" unfolding up_le using True by auto
    ultimately show ?thesis using True by simp
  next
    case False
    have a: "M = M div 2 ^ k * 2 ^ k + M mod 2 ^ k" by (rule div_mult_mod_eq [symmetric])
    have l: "M mod 2 ^ k < 2 ^ k" by simp
    have "up M k \<le> M div 2 ^ k + 1" unfolding up_le add_mult_distrib mult_1 using a l by linarith
    moreover have "\<not> up M k \<le> M div 2 ^ k" unfolding up_le using a False by linarith
    ultimately show ?thesis using False by simp
  qed
  then show ?thesis by (simp add: blk_index_next_def Let_def d m)
qed

lemma blk_index_leaf:
  "bd_wf s \<Longrightarrow> E < 2 ^ MAXSIZE s \<Longrightarrow> blk_index s k (bd_base s + E * 16) = E div 2 ^ k"
  by (simp add: blk_index_eq BLK_SIZE_def LEAF_SIZE_def)

definition marked :: "nat \<Rightarrow> nat \<Rightarrow> bd \<Rightarrow> bool" where
  "marked M E s \<longleftrightarrow> bd_wf s \<and> 0 < M \<and> 8 * M \<le> 2 ^ MAXSIZE s \<and> E < 2 ^ MAXSIZE s \<and>
     2 ^ MAXSIZE s \<le> 2 * E \<and> 3 \<le> MAXSIZE s \<and>
     (\<forall>k\<le>MAXSIZE s. \<forall>i<NBLK s k. alloc_isset s k i \<longleftrightarrow> i < up M k \<or> E div 2 ^ k \<le> i) \<and>
     (\<forall>k\<le>MAXSIZE s. \<forall>i<NBLK s k. is_split s k i \<longleftrightarrow> 0 < k \<and> (i < up M k \<or> E div 2 ^ k \<le> i))"

lemma markedD:
  assumes "marked M E s" and "k \<le> MAXSIZE s" and "i < NBLK s k"
  shows "alloc_isset s k i \<longleftrightarrow> i < up M k \<or> E div 2 ^ k \<le> i"
    and "is_split s k i \<longleftrightarrow> 0 < k \<and> (i < up M k \<or> E div 2 ^ k \<le> i)"
  using assms by (auto simp: marked_def)

lemma marked_right: "marked M E s \<Longrightarrow> k \<le> MAXSIZE s \<Longrightarrow> E div 2 ^ k < NBLK s k"
  by (simp add: marked_def NBLK_def less_mult_imp_div_less power_add [symmetric])

lemma marked_left:
  assumes "marked M E s" and "k < MAXSIZE s"
  shows "up M k < NBLK s k"
proof -
  have "M \<le> 2 ^ (MAXSIZE s - 1)"
    using assms by (cases "MAXSIZE s") (auto simp: marked_def)
  also have "\<dots> \<le> (2 ^ (MAXSIZE s - k) - 1) * 2 ^ k"
  proof -
    have "(2::nat) ^ (MAXSIZE s - 1) = 2 ^ (MAXSIZE s - 1 - k) * 2 ^ k"
      using assms(2) by (simp add: power_add [symmetric])
    moreover have "(2::nat) ^ (MAXSIZE s - k) = 2 * 2 ^ (MAXSIZE s - 1 - k)"
      using assms(2) by (simp add: power_Suc [symmetric] Suc_diff_Suc del: power_Suc)
    moreover have "(1::nat) \<le> 2 ^ (MAXSIZE s - 1 - k)" by simp
    ultimately show ?thesis by (simp add: mult_le_mono1)
  qed
  finally have "up M k \<le> 2 ^ (MAXSIZE s - k) - 1" unfolding up_le .
  moreover have "0 < (2::nat) ^ (MAXSIZE s - k)" by simp
  ultimately show ?thesis unfolding NBLK_def by linarith
qed

lemma marked_present:
  assumes "marked M E s" and "k < MAXSIZE s"
  shows "present s k i \<longleftrightarrow> i < NBLK s k \<and>
    (i div 2 < (up M k + 1) div 2 \<or> E div 2 ^ k div 2 \<le> i div 2)"
proof -
  have "is_split s (k + 1) (i div 2) \<longleftrightarrow> i div 2 < (up M k + 1) div 2 \<or> E div 2 ^ k div 2 \<le> i div 2"
    if "i < NBLK s k"
  proof -
    have "i div 2 < NBLK s (k + 1)" using that NBLK_even [OF assms(2)] by linarith
    then have "is_split s (Suc k) (i div 2) \<longleftrightarrow> i div 2 < up M (Suc k) \<or> E div 2 ^ Suc k \<le> i div 2"
      using markedD(2) [OF assms(1), of "Suc k" "i div 2"] assms(2) by simp
    then show ?thesis unfolding up_Suc div_Suc by simp
  qed
  then show ?thesis unfolding present_def using assms(2) less_imp_le [OF assms(2)] by blast
qed

lemma left_pair: "(L::nat) \<le> i \<Longrightarrow> i div 2 < (L + 1) div 2 \<longleftrightarrow> i = L \<and> odd i"
  by presburger

lemma right_pair: "(i::nat) < R \<Longrightarrow> R div 2 \<le> i div 2 \<longleftrightarrow> i + 1 = R \<and> even i"
  by presburger

lemma left_in: "(i::nat) < L \<Longrightarrow> i div 2 < (L + 1) div 2"
  by presburger

lemma right_in: "(R::nat) \<le> i \<Longrightarrow> R div 2 \<le> i div 2"
  by (rule div_le_mono)

lemma left_buddy: "i div 2 < (L + 1) div 2 \<Longrightarrow> i < L \<or> buddy_of i < L"
  by (cases "even i"; erule evenE oddE) (auto simp: buddy_of_def)

lemma right_buddy: "R div 2 \<le> i div 2 \<Longrightarrow> R \<le> i \<or> R \<le> buddy_of i"
  by (cases "even i"; erule evenE oddE) (auto simp: buddy_of_def)

lemma marked_free:
  assumes "marked M E s" and "k < MAXSIZE s"
  shows "free_blk s k i \<longleftrightarrow> up M k \<le> i \<and> i < E div 2 ^ k \<and>
    ((i = up M k \<and> odd i) \<or> (i + 1 = E div 2 ^ k \<and> even i))"
proof -
  note k = less_imp_le [OF assms(2)]
  have b: "i < E div 2 ^ k \<Longrightarrow> i < NBLK s k"
    using marked_right [OF assms(1) k] by (rule less_trans [rotated])
  have al: "i < NBLK s k \<Longrightarrow> \<not> alloc_isset s k i \<longleftrightarrow> up M k \<le> i \<and> i < E div 2 ^ k"
    unfolding markedD(1) [OF assms(1) k] not_less [symmetric] by blast
  note pr = marked_present [OF assms, of i]
  show ?thesis
  proof (cases "up M k \<le> i \<and> i < E div 2 ^ k")
    case True
    then have "free_blk s k i \<longleftrightarrow> i div 2 < (up M k + 1) div 2 \<or> E div 2 ^ k div 2 \<le> i div 2"
      unfolding free_blk_def pr using al b by fast
    then show ?thesis
      unfolding left_pair [OF True [THEN conjunct1]] right_pair [OF True [THEN conjunct2]]
      using True by fast
  next
    case False
    then show ?thesis unfolding free_blk_def pr using al by fast
  qed
qed

lemma marked_top: "marked M E s \<Longrightarrow> \<not> free_blk s (MAXSIZE s) i \<and> is_split s (MAXSIZE s) 0"
proof -
  assume m: "marked M E s"
  then have "E div 2 ^ MAXSIZE s = 0" and "0 < MAXSIZE s" and n: "NBLK s (MAXSIZE s) = 1"
    by (simp_all add: marked_def NBLK_def)
  then have "alloc_isset s (MAXSIZE s) 0" and "is_split s (MAXSIZE s) 0"
    using markedD [OF m order_refl, of 0] by simp_all
  then show ?thesis using n by (cases "i = 0") (auto simp: free_blk_def present_def)
qed

lemma marked_tree:
  assumes "marked M E s"
  shows "tree_ok s" and "coalesced s"
proof -
  show "tree_ok s"
  proof (rule tree_okI)
    fix k i assume k: "k \<le> MAXSIZE s" and i: "i < NBLK s k"
    show "is_split s k i \<Longrightarrow> alloc_isset s k i" using markedD [OF assms k i] by simp
    assume "alloc_isset s k i"
    then have "i < up M k \<or> E div 2 ^ k \<le> i" using markedD [OF assms k i] by simp
    then have "i div 2 < (up M k + 1) div 2 \<or> E div 2 ^ k div 2 \<le> i div 2"
      using left_in right_in by blast
    then show "present s k i"
      using marked_present [OF assms, of k i] k i
      by (cases "k = MAXSIZE s") (simp_all add: present_def)
  qed
  show "coalesced s"
  proof (rule coalescedI)
    fix k i assume k: "k < MAXSIZE s" and p: "present s k i"
    then have i: "i < NBLK s k" and b: "buddy_of i < NBLK s k"
      using present_bounds buddy_bound by blast+
    have "i div 2 < (up M k + 1) div 2 \<or> E div 2 ^ k div 2 \<le> i div 2"
      using marked_present [OF assms k] p by blast
    then have "i < up M k \<or> E div 2 ^ k \<le> i \<or> buddy_of i < up M k \<or> E div 2 ^ k \<le> buddy_of i"
      using left_buddy right_buddy by blast
    then show "alloc_isset s k i \<or> alloc_isset s k (buddy_of i)"
      using markedD(1) [OF assms _ i] markedD(1) [OF assms _ b] k by auto
  qed
qed

section \<open>Filling the free lists\<close>

lemma heap_upd_simps [simp]:
  "baddr (s\<lparr>heap := h\<rparr>) = baddr s" "present (s\<lparr>heap := h\<rparr>) = present s"
  "free_blk (s\<lparr>heap := h\<rparr>) = free_blk s" "marked M E (s\<lparr>heap := h\<rparr>) = marked M E s"
  "alloc_in_range (s\<lparr>heap := h\<rparr>) = alloc_in_range s" "blk_index_next (s\<lparr>heap := h\<rparr>) = blk_index_next s"
  by (simp_all add: baddr_def present_def free_blk_def marked_def alloc_in_range_def
      blk_index_next_def fun_eq_iff)

text \<open>The free lists hold the free blocks in \<open>S\<close>; their headers lie in the reserved leaves.\<close>

definition lists_part :: "bd \<Rightarrow> (nat \<Rightarrow> nat set) \<Rightarrow> bool" where
  "lists_part s S \<longleftrightarrow> (\<exists>fl. dl.lists (heap s) (free_list s) (nsizes s) fl \<and>
     (\<forall>j<nsizes s. set (fl j) = baddr s j ` S j))"

definition headers_reserved :: "nat \<Rightarrow> bd \<Rightarrow> bool" where
  "headers_reserved M s \<longleftrightarrow> bd_sizes s = bd_base s \<and> 2 * nsizes s \<le> M"

lemma headers_reserved_upd [simp]: "headers_reserved M (s\<lparr>heap := h\<rparr>) = headers_reserved M s"
  by (simp add: headers_reserved_def)

lemma free_not_header:
  assumes m: "marked M E s" and h: "headers_reserved M s" and f: "free_blk s k i" and j: "j < nsizes s"
  shows "baddr s k i \<noteq> free_list s j"
proof
  assume eq: "baddr s k i = free_list s j"
  have fl: "free_list s j = baddr s 0 (2 * j)"
    using h by (simp add: headers_reserved_def free_list_def baddr_def SZ_INFO_BYTES_def
        BLK_SIZE_def LEAF_SIZE_def)
  have jM: "2 * j < M" using h j by (simp add: headers_reserved_def)
  then have jN: "2 * j < NBLK s 0" using marked_left [OF m, of 0] m by (simp add: marked_def)
  have al: "alloc_isset s 0 (2 * j)" using markedD(1) [OF m _ jN] jM by simp
  then have "leaf s 0 (2 * j)"
    using alloc_present [OF marked_tree(1) [OF m] _ jN] by (simp add: leaf_def is_split_def)
  then have "k = 0 \<and> i = 2 * j"
    using leaf_unique [OF marked_tree(1) [OF m] free_leaf [OF marked_tree(1) [OF m] f], of 0 "2 * j"
        "baddr s k i"] baddr_in_range [of s 0 "2 * j"] baddr_in_range [of s k i] eq fl by simp
  then show False using f al by (simp add: free_blk_def)
qed

lemma lists_part_push:
  assumes m: "marked M E s" and h: "headers_reserved M s" and L: "lists_part s S"
    and S: "\<And>j. S j \<subseteq> {i. free_blk s j i}" and f: "free_blk s k i" and i: "i \<notin> S k"
  shows "lists_part (s\<lparr>heap := lst_push (heap s) (free_list s k) (baddr s k i)\<rparr>) (S(k := insert i (S k)))"
proof -
  note tr = marked_tree(1) [OF m]
  obtain fl where fl: "dl.lists (heap s) (free_list s) (nsizes s) fl"
    and F: "\<forall>j<nsizes s. set (fl j) = baddr s j ` S j" using L by (auto simp: lists_part_def)
  have k: "k < nsizes s"
    using f m nsizes_MAXSIZE [of s k] by (simp add: free_blk_def present_def marked_def)
  have "baddr s k i \<notin> set (fl j)" if j: "j < nsizes s" for j
  proof
    assume "baddr s k i \<in> set (fl j)"
    then obtain l where l: "l \<in> S j" and e: "baddr s k i = baddr s j l" using F j by auto
    have "k = j \<and> i = l"
      using leaf_unique [OF tr free_leaf [OF tr f] free_leaf [OF tr], of j l "baddr s k i"] S [of j] l
        baddr_in_range [of s j l] baddr_in_range [of s k i] e by auto
    then show False using l i by simp
  qed
  then have "dl.lists (lst_push (heap s) (free_list s k) (baddr s k i)) (free_list s) (nsizes s)
      (fl(k := baddr s k i # fl k))"
    using free_not_header [OF m h f] by (intro dl.lists_push [OF fl k]) auto
  moreover have "\<forall>j<nsizes s. set ((fl(k := baddr s k i # fl k)) j) = baddr s j ` (S(k := insert i (S k))) j"
    using F by auto
  ultimately show ?thesis
    unfolding lists_part_def by (intro exI [of _ "fl(k := baddr s k i # fl k)"]) simp
qed

lemma marked_in_range: "marked M E s \<Longrightarrow> k \<le> MAXSIZE s \<Longrightarrow> i < NBLK s k \<Longrightarrow> alloc_in_range s k i"
  using bd_wf_alloc by (simp add: alloc_in_range_def marked_def)

text \<open>The case in which both calls would push the same block does not arise.\<close>

lemma marked_no_double:
  assumes m: "marked M E s" and k: "k < MAXSIZE s" and e: "even (up M k)"
  shows "E div 2 ^ k \<noteq> up M k + 1"
proof
  assume R: "E div 2 ^ k = up M k + 1"
  let ?N = "MAXSIZE s"
  have L1: "2 \<le> up M k" using e up_pos [of M k] m by (cases "up M k = 1") (auto simp: marked_def)
  have k3: "k + 3 \<le> ?N"
  proof (rule ccontr)
    assume "\<not> k + 3 \<le> ?N"
    then have "(2::nat) ^ (?N - 3) \<le> 2 ^ k" by (intro power_increasing) auto
    moreover have "8 * 2 ^ (?N - 3) = (2::nat) ^ ?N"
      using m power_add [of "2::nat" 3 "?N - 3"] by (simp add: marked_def)
    moreover have "8 * M \<le> 2 ^ ?N" using m by (simp add: marked_def)
    ultimately have "M \<le> 1 * 2 ^ k" by linarith
    then show False using L1 up_le [of M k 1] by simp
  qed
  define p where "p = (2::nat) ^ (?N - 3 - k)"
  have N: "(2::nat) ^ ?N = 8 * p * 2 ^ k"
    using k3 power_add [of "2::nat" 3 "?N - 3"] power_add [of "2::nat" "?N - 3 - k" k]
    by (simp add: p_def)
  have "M \<le> p * 2 ^ k" using m N by (simp add: marked_def)
  then have "up M k \<le> p" unfolding up_le .
  moreover have "4 * p * 2 ^ k \<le> E" using m N by (simp add: marked_def)
  then have "4 * p \<le> E div 2 ^ k" by (simp add: less_eq_div_iff_mult_less_eq)
  ultimately show False using R L1 by linarith
qed

lemma initfree_left:
  assumes m: "marked M E s" and k: "k < MAXSIZE s"
  shows "bd_initfree_pair s k (up M k) =
    (if up M k < E div 2 ^ k \<and> odd (up M k)
     then Inr (BLK_SIZE k, s\<lparr>heap := lst_push (heap s) (free_list s k) (baddr s k (up M k))\<rparr>)
     else Inr (0, s))"
proof -
  let ?L = "up M k" and ?R = "E div 2 ^ k"
  have k': "k \<le> MAXSIZE s" and wf: "bd_wf s" using k m by (simp_all add: marked_def)
  have L: "?L < NBLK s k" and B: "buddy_of ?L < NBLK s k"
    using marked_left [OF m k] buddy_bound [OF k] by blast+
  have al: "alloc_isset s k ?L \<longleftrightarrow> ?R \<le> ?L" using markedD(1) [OF m k' L] by blast
  have ab: "alloc_isset s k (buddy_of ?L) \<longleftrightarrow> odd ?L \<or> ?R \<le> ?L"
  proof (cases "odd ?L")
    case True
    then have "buddy_of ?L < ?L" by (cases ?L) (auto simp: buddy_of_def mod2_eq_if)
    then show ?thesis using markedD(1) [OF m k' B] True by blast
  next
    case False
    then have b: "buddy_of ?L = ?L + 1" by (simp add: buddy_of_def mod2_eq_if)
    have "?R \<noteq> ?L + 1" using marked_no_double [OF m k] False by blast
    then have "?R \<le> ?L + 1 \<longleftrightarrow> ?R \<le> ?L" by linarith
    then show ?thesis using markedD(1) [OF m k' B] False unfolding b by simp
  qed
  show ?thesis
    using marked_in_range [OF m k' L] marked_in_range [OF m k' B] addr_eq [OF wf k' L]
    unfolding bd_initfree_pair_def Let_def al ab by (auto simp: not_le)
qed

lemma initfree_right:
  assumes m: "marked M E s" and k: "k < MAXSIZE s" and LR: "up M k < E div 2 ^ k"
  shows "bd_initfree_pair s k (E div 2 ^ k) =
    (if odd (E div 2 ^ k)
     then Inr (BLK_SIZE k, s\<lparr>heap := lst_push (heap s) (free_list s k) (baddr s k (E div 2 ^ k - 1))\<rparr>)
     else Inr (0, s))"
proof -
  define R where "R = E div 2 ^ k"
  have k': "k \<le> MAXSIZE s" and wf: "bd_wf s" using k m by (simp_all add: marked_def)
  have L: "R < NBLK s k" and B: "buddy_of R < NBLK s k"
    using marked_right [OF m k'] buddy_bound [OF k] unfolding R_def by blast+
  have al: "alloc_isset s k R" using markedD(1) [OF m k' L] unfolding R_def by blast
  have b: "buddy_of R = (if odd R then R - 1 else R + 1)" by (simp add: buddy_of_def mod2_eq_if)
  have "\<not> R \<le> R - 1" "\<not> R - 1 < up M k" using LR unfolding R_def [symmetric] by linarith+
  then have ab: "alloc_isset s k (buddy_of R) \<longleftrightarrow> even R"
    using markedD(1) [OF m k' B] unfolding R_def [symmetric] b by auto
  show ?thesis
    using marked_in_range [OF m k' L] marked_in_range [OF m k' B] addr_eq [OF wf k' B] al ab b
    unfolding R_def [symmetric] by (auto simp: bd_initfree_pair_def Let_def)
qed

text \<open>The number of leaves between the two boundaries, as the loop consumes it.\<close>

lemma between_step:
  fixes L R :: nat
  assumes "even L \<Longrightarrow> R \<noteq> L + 1"
  shows "R - L = (if L < R \<and> odd L then 1 else 0) + (if L < R \<and> odd R then 1 else 0)
    + 2 * (R div 2 - (L + 1) div 2)"
  using assms by (cases "even L"; cases "even R"; elim evenE oddE) auto

definition between :: "nat \<Rightarrow> nat \<Rightarrow> nat \<Rightarrow> nat" where
  "between M E k = (E div 2 ^ k - up M k) * BLK_SIZE k"

lemma between_unfold:
  assumes "even (up M k) \<Longrightarrow> E div 2 ^ k \<noteq> up M k + 1"
  shows "between M E k = (if up M k < E div 2 ^ k \<and> odd (up M k) then BLK_SIZE k else 0)
    + (if up M k < E div 2 ^ k \<and> odd (E div 2 ^ k) then BLK_SIZE k else 0) + between M E (k + 1)"
proof -
  have "between M E (k + 1) = 2 * (E div 2 ^ k div 2 - (up M k + 1) div 2) * BLK_SIZE k"
    unfolding between_def Suc_eq_plus1 [symmetric] up_Suc div_Suc by (simp add: BLK_SIZE_def)
  then show ?thesis
    unfolding between_def [of M E k] using between_step [of "up M k" "E div 2 ^ k", OF assms]
    by (auto simp: algebra_simps)
qed

lemma initfree_step:
  assumes m: "marked M E s" and h: "headers_reserved M s" and k: "k < MAXSIZE s"
    and L: "lists_part s (\<lambda>j. if j < k then {i. free_blk s j i} else {})"
  shows "\<exists>hp. initfree_loop s k (bd_base s + M * 16) (bd_base s + E * 16) free =
      initfree_loop (s\<lparr>heap := hp\<rparr>) (k + 1) (bd_base s + M * 16) (bd_base s + E * 16)
        (free + between M E k - between M E (k + 1)) \<and>
    lists_part (s\<lparr>heap := hp\<rparr>) (\<lambda>j. if j < k + 1 then {i. free_blk s j i} else {})"
proof -
  let ?L = "up M k" and ?R = "E div 2 ^ k"
  let ?S = "\<lambda>j. if j < k then {i. free_blk s j i} else {}"
  let ?cl = "?L < ?R \<and> odd ?L" and ?cr = "?L < ?R \<and> odd ?R"
  let ?fl = "if ?cl then BLK_SIZE k else 0" and ?fr = "if ?cr then BLK_SIZE k else 0"
  define s1 where "s1 = (if ?cl then s\<lparr>heap := lst_push (heap s) (free_list s k) (baddr s k ?L)\<rparr> else s)"
  define s2 where "s2 = (if ?cr then s1\<lparr>heap := lst_push (heap s1) (free_list s k) (baddr s k (?R - 1))\<rparr> else s1)"
  have wf: "bd_wf s" and E: "E < 2 ^ MAXSIZE s" using m by (simp_all add: marked_def)
  have s1: "\<exists>hp. s1 = s\<lparr>heap := hp\<rparr>" by (cases ?cl) (auto simp: s1_def intro: exI [of _ "heap s"])
  then have m1: "marked M E s1" "headers_reserved M s1" "MAXSIZE s1 = MAXSIZE s" "free_list s1 = free_list s"
    "baddr s1 = baddr s" "free_blk s1 = free_blk s" using m h by auto
  have s2: "\<exists>hp. s2 = s\<lparr>heap := hp\<rparr>" using s1 by (cases ?cr) (auto simp: s2_def)
  note nd = marked_no_double [OF m k]
  have fl: "free_blk s k ?L" if ?cl using that marked_free [OF m k] by auto
  have fr: "free_blk s k (?R - 1)" if ?cr
  proof -
    have "?R - 1 < ?R" "?L \<le> ?R - 1" "?R - 1 + 1 = ?R" "even (?R - 1)" using that by auto
    then show ?thesis using marked_free [OF m k] by blast
  qed
  have p1: "lists_part s1 (?S(k := if ?cl then {?L} else {}))"
  proof -
    have "?S = ?S(k := {})" by (simp add: fun_eq_iff)
    then have "lists_part s (?S(k := {}))" using L by simp
    then show ?thesis
      using lists_part_push [OF m h L _ fl] by (cases ?cl) (auto simp: s1_def)
  qed
  have ne: "?R - 1 \<noteq> ?L" if cr: ?cr
  proof
    assume "?R - 1 = ?L"
    then have R: "?R = ?L + 1" using cr by linarith
    then have "even ?L" using cr by (metis even_plus_one_iff)
    then show False using nd R by blast
  qed
  have p2: "lists_part s2 (?S(k := (if ?cl then {?L} else {}) \<union> (if ?cr then {?R - 1} else {})))"
    using p1 lists_part_push [OF m1(1,2) p1, unfolded m1, OF _ fr] fl ne
    by (cases ?cr) (auto simp: s2_def insert_commute split: if_splits)
  have S: "(?S(k := (if ?cl then {?L} else {}) \<union> (if ?cr then {?R - 1} else {}))) =
      (\<lambda>j. if j < k + 1 then {i. free_blk s j i} else {})"
  proof -
    have "(?cl \<and> i = ?L) \<or> (?cr \<and> i = ?R - 1)" if "free_blk s k i" for i
    proof -
      have "?L \<le> i" "i < ?R" and c: "(i = ?L \<and> odd i) \<or> (i + 1 = ?R \<and> even i)"
        using that marked_free [OF m k] by blast+
      then have "?L < ?R" by linarith
      moreover have "odd ?R \<and> i = ?R - 1" if "i + 1 = ?R \<and> even i"
        using that by (metis add_diff_cancel_right' even_plus_one_iff)
      ultimately show ?thesis using c by blast
    qed
    then have "{i. free_blk s k i} = (if ?cl then {?L} else {}) \<union> (if ?cr then {?R - 1} else {})"
      using fl fr by (auto split: if_splits)
    then show ?thesis by (auto simp: fun_eq_iff less_Suc_eq)
  qed
  have e1: "bd_initfree_pair s k ?L = Inr (?fl, s1)"
    unfolding initfree_left [OF m k] s1_def by (auto split: if_split)
  have e2: "bd_initfree_pair s1 k ?R = Inr (?fr, s2)" if "?L < ?R"
    using initfree_right [OF m1(1) _ that] that k by (simp add: m1 s2_def)
  have e3: "?R \<le> ?L \<Longrightarrow> ?fr = 0 \<and> s2 = s1" unfolding s2_def by simp
  have loop: "initfree_loop s k (bd_base s + M * 16) (bd_base s + E * 16) free =
      initfree_loop s2 (k + 1) (bd_base s + M * 16) (bd_base s + E * 16) (free + ?fl + ?fr)"
    using k e2 e3
    by (subst initfree_loop.simps)
      (simp only: Let_def blk_index_next_eq blk_index_leaf [OF wf E] e1 if_True ebind_Inr prod.case
        not_le split: if_split, auto)
  have f: "free + ?fl + ?fr = free + between M E k - between M E (k + 1)"
    using between_unfold [of M k E] nd by simp
  obtain hp where "s2 = s\<lparr>heap := hp\<rparr>" using s2 by blast
  then show ?thesis
    using loop [unfolded f] p2 [unfolded S] by (intro exI [of _ hp]) simp
qed

lemma initfree_loop_ok:
  assumes "marked M E s" and "headers_reserved M s" and "k \<le> MAXSIZE s"
    and "lists_part s (\<lambda>j. if j < k then {i. free_blk s j i} else {})"
  shows "\<exists>hp. initfree_loop s k (bd_base s + M * 16) (bd_base s + E * 16) free =
      Inr (free + between M E k, s\<lparr>heap := hp\<rparr>) \<and> lists_ok (s\<lparr>heap := hp\<rparr>)"
  using assms
proof (induction "MAXSIZE s - k" arbitrary: s k free)
  case 0
  then have k: "k = MAXSIZE s" by simp
  have "between M E k = 0" using 0(2) by (simp add: between_def k marked_def)
  moreover have "initfree_loop s k (bd_base s + M * 16) (bd_base s + E * 16) free = Inr (free, s)"
    by (subst initfree_loop.simps) (simp add: k)
  moreover have "lists_ok s"
  proof -
    have "{i. free_blk s j i} = (if j < k then {i. free_blk s j i} else {})" if "j < nsizes s" for j
    proof (cases "j < k")
      case False
      have "j \<le> k" using that 0(2) nsizes_MAXSIZE [of s j] k by (simp add: marked_def)
      then have "j = MAXSIZE s" using False k by simp
      then show ?thesis using marked_top [OF 0(2)] k by auto
    qed simp
    then show ?thesis using 0(5) unfolding lists_part_def lists_ok_def by metis
  qed
  ultimately show ?case by (intro exI [of _ "heap s"]) simp
next
  case (Suc d)
  then have k: "k < MAXSIZE s" by simp
  obtain hp where hp: "initfree_loop s k (bd_base s + M * 16) (bd_base s + E * 16) free =
      initfree_loop (s\<lparr>heap := hp\<rparr>) (k + 1) (bd_base s + M * 16) (bd_base s + E * 16)
        (free + between M E k - between M E (k + 1))"
    and L: "lists_part (s\<lparr>heap := hp\<rparr>) (\<lambda>j. if j < k + 1 then {i. free_blk s j i} else {})"
    using initfree_step [OF Suc(3,4) k Suc(6)] by blast
  have "between M E (k + 1) \<le> between M E k"
    using between_unfold [of M k E] marked_no_double [OF Suc(3) k] by simp
  then have e: "free + between M E k - between M E (k + 1) + between M E (k + 1) = free + between M E k"
    by simp
  let ?s = "s\<lparr>heap := hp\<rparr>"
  have "\<exists>hp'. initfree_loop ?s (k + 1) (bd_base ?s + M * 16) (bd_base ?s + E * 16)
      (free + between M E k - between M E (k + 1)) =
      Inr (free + between M E k - between M E (k + 1) + between M E (k + 1), ?s\<lparr>heap := hp'\<rparr>) \<and>
      lists_ok (?s\<lparr>heap := hp'\<rparr>)"
    using Suc(2-4) L k by (intro Suc(1)) (simp_all cong: if_cong)
  then show ?case unfolding e using hp by simp
qed

section \<open>The layout computed by bd_init\<close>

lemma log2_loop_eq: "2 ^ k \<le> unat n \<Longrightarrow> unat n < 2 ^ Suc k \<Longrightarrow> log2_loop n j = j + k"
proof (induction k arbitrary: n j)
  case 0
  then have "\<not> n > 1" by (simp add: word_less_nat_alt)
  then show ?case by (simp add: log2_loop.simps)
next
  case (Suc k)
  have "1 < unat n" using Suc.prems(1) one_less_power [of "2::nat" "Suc k"] by linarith
  then have "n > 1" by (simp add: word_less_nat_alt)
  moreover have "unat (drop_bit 1 n) = unat n div 2" by (simp add: drop_bit_eq_div unat_div)
  moreover have "2 ^ k \<le> unat n div 2" "unat n div 2 < 2 ^ Suc k" using Suc.prems by auto
  ultimately show ?case using Suc.IH [of "drop_bit 1 n" "j + 1"] by (simp add: log2_loop.simps [of n])
qed

lemma log2_int_eq: "2 ^ k \<le> q \<Longrightarrow> q < 2 ^ Suc k \<Longrightarrow> k < 64 \<Longrightarrow> log2_int (of_nat q) = k"
proof -
  assume q: "2 ^ k \<le> q" "q < 2 ^ Suc k" and k: "k < 64"
  have "(2::nat) ^ Suc k \<le> 2 ^ 64" using k by (intro power_increasing) auto
  then have "q < 2 ^ 64" using q(2) by linarith
  then have "unat (of_nat q :: uint64) = q" by (simp add: unat_of_nat)
  then show ?thesis using q log2_loop_eq [of k "of_nat q" 0] by (simp add: log2_int_def)
qed

definition meta_bytes :: "nat \<Rightarrow> nat" where
  "meta_bytes N = SZ_INFO_BYTES * (N + 1) + sum_list (map (vec_bytes N) [0..<N + 1])
     + sum_list (map (vec_bytes N) [1..<N + 1])"

definition meta_leaves :: "nat \<Rightarrow> nat" where
  "meta_leaves N = (meta_bytes N - 1) div 16 + 1"

lemma vec_bytes_le: "8 * vec_bytes N k \<le> 2 ^ (N - k) + 8"
  by (simp add: vec_bytes_def ROUNDUP_def)

lemma sum_vec_bytes:
  "m \<le> N \<Longrightarrow> 8 * sum_list (map (vec_bytes N) [N - m..<N + 1]) \<le> 2 ^ (m + 1) + 8 * (m + 1)"
proof (induction m)
  case 0
  then show ?case using vec_bytes_le [of N N] by simp
next
  case (Suc m)
  then have "[N - Suc m..<N + 1] = (N - Suc m) # [N - m..<N + 1]"
    by (simp add: upt_conv_Cons Suc_diff_Suc)
  then show ?case using Suc vec_bytes_le [of N "N - Suc m"] by simp
qed

lemma meta_small: "8 \<le> N \<Longrightarrow> 272 * N + 392 \<le> 13 * (2::nat) ^ N"
proof (induction N rule: dec_induct)
  case (step n)
  then show ?case by simp
qed simp

lemma meta_leaves_bounds:
  assumes "8 \<le> N"
  shows "8 * meta_leaves N \<le> 2 ^ N" and "2 * (N + 1) \<le> meta_leaves N"
proof -
  have a: "8 * sum_list (map (vec_bytes N) [0..<N + 1]) \<le> 2 * 2 ^ N + 8 * (N + 1)"
    using sum_vec_bytes [of N N] by simp
  have b: "8 * sum_list (map (vec_bytes N) [1..<N + 1]) \<le> 2 ^ N + 8 * N"
    using sum_vec_bytes [of "N - 1" N] assms by simp
  have "8 * meta_leaves N \<le> meta_bytes N div 2 + 8" unfolding meta_leaves_def by presburger
  also have "\<dots> \<le> 2 ^ N"
  proof -
    have "8 * meta_bytes N \<le> 3 * 2 ^ N + 272 * N + 264"
      using a b unfolding meta_bytes_def SZ_INFO_BYTES_def by (simp del: upt_Suc)
    moreover have "2 * (meta_bytes N div 2) \<le> meta_bytes N" by simp
    ultimately show ?thesis using meta_small [OF assms] by linarith
  qed
  finally show "8 * meta_leaves N \<le> 2 ^ N" .
  show "2 * (N + 1) \<le> meta_leaves N"
    unfolding meta_leaves_def meta_bytes_def SZ_INFO_BYTES_def by linarith
qed

lemma ROUNDUP_aligned: "0 < b \<Longrightarrow> ROUNDUP (16 * a + b) 16 = 16 * a + ((b - 1) div 16 + 1) * 16"
proof -
  assume "0 < b"
  then have "16 * a + b - 1 = (b - 1) + a * 16" by simp
  then have "(16 * a + b - 1) div 16 = a + (b - 1) div 16" using div_mult_self1 [of 16 "b - 1" a] by simp
  then show ?thesis by (simp add: ROUNDUP_def)
qed

lemma ROUNDUP_rest:
  assumes "len < N * 16"
  shows "ROUNDUP (N * 16 - len) 16 = (N - len div 16) * 16"
proof -
  define q r where "q = len div 16" and "r = len mod 16"
  have l: "len = q * 16 + r" and r: "r < 16" by (simp_all add: q_def r_def)
  have "q < N" using assms l by linarith
  then obtain e where e: "N = Suc (q + e)" using less_imp_Suc_add by blast
  have "N * 16 - len - 1 = e * 16 + (15 - r)" using l r e by simp
  moreover have "(e * 16 + (15 - r)) div 16 = e" by simp
  ultimately have "(N * 16 - len - 1) div 16 = e" by simp
  then show ?thesis unfolding ROUNDUP_def q_def [symmetric] using e by simp
qed

definition init_state :: "list_heap \<Rightarrow> addr \<Rightarrow> nat \<Rightarrow> bd" where
  "init_state h p0 n = \<lparr>nsizes = n, bd_base = p0, bd_sizes = p0,
     sz = map (\<lambda>k. \<lparr>alloc = replicate (vec_bytes (n - 1) k) 0,
                    split = replicate (if k = 0 then 0 else vec_bytes (n - 1) k) 0\<rparr>) [0..<n],
     heap = init_lists h p0 n\<rparr>"

lemma init_lists_ok:
  "dl.lists (init_lists h p n) (\<lambda>k. p + SZ_INFO_BYTES * k) n (\<lambda>_. [])"
proof -
  have "dlist (init_lists h p n) (p + SZ_INFO_BYTES * k) []" if "k < n" for k
    using that by (induction n) (auto simp: less_Suc_eq dlist_def lst_init_def SZ_INFO_BYTES_def)
  then show ?thesis by (auto simp: dl.lists_def SZ_INFO_BYTES_def)
qed

lemma vec_bytes_enough: "2 ^ (N - k) \<le> 8 * vec_bytes N k"
  by (simp add: vec_bytes_def ROUNDUP_def)

lemma init_state_ok:
  assumes "1 \<le> N" and "N \<le> 27" and "0 < p0"
  shows "bd_wf (init_state h p0 (N + 1))" and "lists_part (init_state h p0 (N + 1)) (\<lambda>_. {})"
    and "k \<le> N \<Longrightarrow> i < 2 ^ (N - k) \<Longrightarrow> \<not> alloc_isset (init_state h p0 (N + 1)) k i"
    and "k \<le> N \<Longrightarrow> i < 2 ^ (N - k) \<Longrightarrow> \<not> is_split (init_state h p0 (N + 1)) k i"
proof -
  show "bd_wf (init_state h p0 (N + 1))"
    using assms vec_bytes_enough
    by (auto simp: bd_wf_def init_state_def NBLK_def MAXSIZE_def simp del: upt_Suc)
  show "lists_part (init_state h p0 (N + 1)) (\<lambda>_. {})"
    using init_lists_ok [of h p0 "N + 1"]
    by (auto simp: lists_part_def init_state_def free_list_def [abs_def])
  assume k: "k \<le> N" and "i < 2 ^ (N - k)"
  then have "i div 8 < vec_bytes N k" using vec_bytes_enough [of N k] by simp
  then show "\<not> alloc_isset (init_state h p0 (N + 1)) k i" "\<not> is_split (init_state h p0 (N + 1)) k i"
    using k by (auto simp: init_state_def alloc_isset_def is_split_def split_isset_def bit_isset_iff
        simp del: upt_Suc)
qed

lemma up_mult: "up (n * 2 ^ k) k = n"
  using up_le [of "n * 2 ^ k" k n] up_le [of "n * 2 ^ k" k "up (n * 2 ^ k) k"] by simp

lemma up_NBLK: "k \<le> MAXSIZE s \<Longrightarrow> up (2 ^ MAXSIZE s) k = NBLK s k"
  using up_mult [of "2 ^ (MAXSIZE s - k)" k] by (simp add: NBLK_def power_add [symmetric])

lemma marked_init:
  fixes h :: list_heap
  assumes "8 \<le> N" and "N \<le> 27" and "0 < p0" and M: "8 * M \<le> 2 ^ N" "0 < M"
    and E: "2 ^ N \<le> 2 * E" "E < 2 ^ N"
  defines "s0 \<equiv> init_state h p0 (N + 1)"
  defines "s1 \<equiv> mark_sizes s0 0 p0 (p0 + M * 16)"
  defines "s2 \<equiv> mark_sizes s1 0 (p0 + E * 16) (p0 + 2 ^ N * 16)"
  shows "marked M E s2" and "lists_part s2 (\<lambda>_. {})" and "nsizes s2 = N + 1"
    and "bd_base s2 = p0" and "bd_sizes s2 = p0" and "bd_base s1 = p0" and "nsizes s1 = N + 1"
proof -
  have N1: "1 \<le> N" using assms(1) by simp
  note i0 = init_state_ok [OF N1 assms(2,3), where h = h, folded s0_def]
  have f0: "nsizes s0 = N + 1" "bd_base s0 = p0" "bd_sizes s0 = p0" "MAXSIZE s0 = N"
    "NBLK s0 j = 2 ^ (N - j)" for j
    by (simp_all add: s0_def init_state_def MAXSIZE_def NBLK_def)
  have bz: "blk_index s0 j p0 = 0" for j
    using blk_index_leaf [OF i0(1), of 0 j] f0 by simp
  have up: "up M j \<le> NBLK s0 j" if "j \<le> N" for j
    unfolding up_le f0 using that M(1) by (simp add: power_add [symmetric])
  have n1: "blk_index_next s0 j (p0 + M * 16) = up M j" for j
    using blk_index_next_eq [of s0 j M] f0 by simp
  note m1 = mark_sizes_spec [OF i0(1), of "p0 + M * 16" 0 p0, folded s1_def, unfolded f0 bz n1]
  have m1': "\<forall>j\<le>N. up M j \<le> 2 ^ (N - j)" using up unfolding f0 by blast
  note m1 = m1 [OF m1']
  then have f1: "nsizes s1 = N + 1" "bd_base s1 = p0" "bd_sizes s1 = p0" "MAXSIZE s1 = N"
    "NBLK s1 j = 2 ^ (N - j)" and wf1: "bd_wf s1" for j
    by (simp_all add: MAXSIZE_def NBLK_def)
  have b1: "blk_index s1 j (p0 + E * 16) = E div 2 ^ j" for j
    using blk_index_leaf [OF wf1, of E j] f1 E(2) by simp
  have n2: "blk_index_next s1 j (p0 + 2 ^ N * 16) = 2 ^ (N - j)" if "j \<le> N" for j
    using blk_index_next_eq [of s1 j "2 ^ N"] up_NBLK [of j s1] f1 that by simp
  note m2 = mark_sizes_spec [OF wf1, of "p0 + 2 ^ N * 16" 0 "p0 + E * 16", folded s2_def, unfolded f1 b1]
  have m2': "\<forall>j\<le>N. blk_index_next s1 j (p0 + 2 ^ N * 16) \<le> 2 ^ (N - j)" using n2 by simp
  note m2 = m2 [OF m2']
  show f2: "nsizes s2 = N + 1" "bd_base s2 = p0" "bd_sizes s2 = p0" "bd_base s1 = p0" "nsizes s1 = N + 1"
    using m2 f1 by simp_all
  have f2': "MAXSIZE s2 = N" "NBLK s2 j = 2 ^ (N - j)" for j
    using f2 by (simp_all add: MAXSIZE_def NBLK_def)
  have a1: "alloc_isset s1 j i \<longleftrightarrow> i < up M j \<or> alloc_isset s0 j i"
    and p1: "is_split s1 j i \<longleftrightarrow> (0 < j \<and> i < up M j) \<or> is_split s0 j i" if "j \<le> N" for j i
    using m1 that by simp_all
  have a2: "alloc_isset s2 j i \<longleftrightarrow> (E div 2 ^ j \<le> i \<and> i < 2 ^ (N - j)) \<or> alloc_isset s1 j i"
    and p2: "is_split s2 j i \<longleftrightarrow> (0 < j \<and> E div 2 ^ j \<le> i \<and> i < 2 ^ (N - j)) \<or> is_split s1 j i"
    if "j \<le> N" for j i
    using m2 that n2 [OF that] by simp_all
  have "alloc_isset s2 j i \<longleftrightarrow> i < up M j \<or> E div 2 ^ j \<le> i" if "j \<le> N" "i < 2 ^ (N - j)" for j i
    unfolding a2 [OF that(1)] a1 [OF that(1)] using i0(3) [OF that] that(2) by blast
  moreover have "is_split s2 j i \<longleftrightarrow> 0 < j \<and> (i < up M j \<or> E div 2 ^ j \<le> i)"
    if "j \<le> N" "i < 2 ^ (N - j)" for j i
    unfolding p2 [OF that(1)] p1 [OF that(1)] using i0(4) [OF that] that(2) by blast
  moreover have "3 \<le> N" "bd_wf s2" using m2 assms(1) by simp_all
  ultimately show "marked M E s2"
    using M E unfolding marked_def f2' by blast
  have "heap s2 = heap s0" "free_list s2 = free_list s0" "baddr s2 = baddr s0"
    using m1 m2 f2 f0 by (auto simp: free_list_def baddr_def fun_eq_iff)
  then show "lists_part s2 (\<lambda>_. {})" using i0(2) f2 f0 by (simp add: lists_part_def)
qed

text \<open>\<open>bd_init\<close> in terms of the pieces above.\<close>

lemma bd_init_unfold:
  fixes h :: list_heap
  assumes N: "8 \<le> N" "N \<le> 27" and len: "BLK_SIZE (N - 1) < end - p0" "end - p0 < BLK_SIZE N"
    and p0: "p0 = ROUNDUP base LEAF_SIZE"
  defines "M \<equiv> meta_leaves N" and "E \<equiv> (end - p0) div 16"
  defines "s1 \<equiv> mark_sizes (init_state h p0 (N + 1)) 0 p0 (p0 + M * 16)"
  defines "s2 \<equiv> mark_sizes s1 0 (p0 + E * 16) (p0 + 2 ^ N * 16)"
  assumes f: "bd_base s1 = p0" "nsizes s1 = N + 1" "bd_base s2 = p0" "nsizes s2 = N + 1"
  shows "bd_init h base end = ebind (bd_initfree s2 (p0 + M * 16) (p0 + E * 16)) (\<lambda>(free, s3).
    if free \<noteq> BLK_SIZE (MAXSIZE s3) - M * 16 - (2 ^ N - E) * 16 then panic ''bd_init: free mem'' else Inr s3)"
proof -
  have B: "BLK_SIZE N = 2 ^ N * 16" "BLK_SIZE (N - 1) = 2 ^ (N - 1) * 16"
    by (simp_all add: BLK_SIZE_def LEAF_SIZE_def)
  have E: "2 ^ (N - 1) \<le> E" "E < 2 ^ N"
    using len unfolding B E_def by (simp_all add: less_eq_div_iff_mult_less_eq div_less_iff_less_mult)
  have "log2_int (of_nat E) = N - 1"
    using E N by (intro log2_int_eq) simp_all
  then have n: "(if end - p0 > BLK_SIZE (log2_int (of_nat ((end - p0) div LEAF_SIZE)) + 1 - 1)
      then log2_int (of_nat ((end - p0) div LEAF_SIZE)) + 1 + 1
      else log2_int (of_nat ((end - p0) div LEAF_SIZE)) + 1) = N + 1"
    using len N by (simp add: E_def LEAF_SIZE_def)
  have "p0 = 16 * ((base - 1) div 16 + 1)" using p0 by (simp add: ROUNDUP_def LEAF_SIZE_def)
  then obtain a where a: "p0 = 16 * a" by blast
  have mb: "0 < meta_bytes N" by (simp add: meta_bytes_def SZ_INFO_BYTES_def)
  have p: "ROUNDUP (p0 + SZ_INFO_BYTES * (N + 1) + sum_list (map (vec_bytes N) [0..<N + 1])
      + sum_list (map (vec_bytes N) [1..<N + 1])) LEAF_SIZE = p0 + M * 16"
    using ROUNDUP_aligned [OF mb, of a]
    by (simp add: a meta_bytes_def M_def meta_leaves_def LEAF_SIZE_def add.assoc del: upt_Suc)
  have u0: "BLK_SIZE N - (end - p0) > 0" using len by simp
  have u: "ROUNDUP (BLK_SIZE N - (end - p0)) LEAF_SIZE = (2 ^ N - E) * 16"
    using ROUNDUP_rest [of "end - p0" "2 ^ N"] len(2) by (simp add: B E_def LEAF_SIZE_def)
  have e: "p0 + BLK_SIZE N - (2 ^ N - E) * 16 = p0 + E * 16" using E by (simp add: B diff_mult_distrib)
  have mk1: "bd_mark (init_state h p0 (N + 1)) p0 (p0 + M * 16) = Inr s1"
    by (simp add: bd_mark_def s1_def a LEAF_SIZE_def)
  have mk2: "bd_mark s1 (p0 + E * 16) (p0 + BLK_SIZE N) = Inr s2"
    by (simp add: bd_mark_def s2_def a LEAF_SIZE_def B)
  have b0: "bd_base (init_state h p0 (N + 1)) = p0" by (simp add: init_state_def)
  have ds: "bd_mark_data_structures (init_state h p0 (N + 1)) (p0 + M * 16) = Inr (M * 16, s1)"
    unfolding bd_mark_data_structures_def Let_def b0 mk1 by simp
  have mu: "bd_mark_unavailable s1 end = Inr ((2 ^ N - E) * 16, s2)"
    using u0 by (simp add: bd_mark_unavailable_def Let_def f MAXSIZE_def u e mk2)
  have bi: "bd_init h base end =
      ebind (bd_mark_data_structures (init_state h p0 (N + 1)) (p0 + M * 16)) (\<lambda>(meta, s1).
      ebind (bd_mark_unavailable s1 end) (\<lambda>(unavailable, s2).
      let bd_end = bd_base s2 + BLK_SIZE (MAXSIZE s2) - unavailable
      in ebind (bd_initfree s2 (p0 + M * 16) bd_end) (\<lambda>(free, s3).
           if free \<noteq> BLK_SIZE (MAXSIZE s3) - meta - unavailable
           then panic ''bd_init: free mem'' else Inr s3)))"
    unfolding bd_init_def Let_def p0 [symmetric] n
    by (simp only: init_state_def add_diff_cancel_right' p)
  show ?thesis
    unfolding bi ds by (simp add: mu f MAXSIZE_def e)
qed

lemma marked_used:
  assumes "marked M E s"
  shows "used s = {(0, i) | i. i < M \<or> (E \<le> i \<and> i < NBLK s 0)}"
proof -
  have "(k, i) \<in> used s \<longleftrightarrow> k = 0 \<and> i < NBLK s 0 \<and> (i < M \<or> E \<le> i)" for k i
  proof (cases "k \<le> MAXSIZE s \<and> i < NBLK s k")
    case True
    then have "(k, i) \<in> used s \<longleftrightarrow> alloc_isset s k i \<and> \<not> is_split s k i"
      using alloc_present [OF marked_tree(1) [OF assms]] by (auto simp: used_def)
    then show ?thesis using markedD [OF assms, of k i] True by auto
  next
    case False
    then show ?thesis using used_bounds [of k i s] by auto
  qed
  moreover have "M \<le> NBLK s 0" using marked_left [OF assms, of 0] assms by (simp add: marked_def)
  ultimately show ?thesis by auto
qed

lemma used_heap_upd [simp]: "used (s\<lparr>heap := h\<rparr>) = used s"
  by (simp add: used_def)

lemma bd_init_ok:
  assumes base: "0 < base" and N: "8 \<le> N" "N \<le> 27"
    and len: "BLK_SIZE (N - 1) < end - ROUNDUP base LEAF_SIZE" "end - ROUNDUP base LEAF_SIZE < BLK_SIZE N"
  shows "\<exists>s. bd_init h base end = Inr s \<and> bd_inv (meta_leaves N) s \<and> nsizes s = N + 1 \<and>
    bd_base s = ROUNDUP base LEAF_SIZE \<and>
    used s = {(0, i) | i. i < meta_leaves N \<or>
      ((end - ROUNDUP base LEAF_SIZE) div 16 \<le> i \<and> i < 2 ^ N)}"
proof -
  define p0 where "p0 = ROUNDUP base LEAF_SIZE"
  define M where "M = meta_leaves N"
  define E where "E = (end - p0) div 16"
  define s1 where "s1 = mark_sizes (init_state h p0 (N + 1)) 0 p0 (p0 + M * 16)"
  define s2 where "s2 = mark_sizes s1 0 (p0 + E * 16) (p0 + 2 ^ N * 16)"
  have p0: "0 < p0" by (simp add: p0_def ROUNDUP_def LEAF_SIZE_def)
  have M: "8 * M \<le> 2 ^ N" "2 * (N + 1) \<le> M" "0 < M"
    using meta_leaves_bounds [OF N(1)] by (simp_all add: M_def)
  have len': "2 ^ (N - 1) * 16 < end - p0" "end - p0 < 2 ^ N * 16"
    using len by (simp_all add: p0_def BLK_SIZE_def LEAF_SIZE_def)
  have N2: "2 * 2 ^ (N - 1) = (2::nat) ^ N" using N(1) by (cases N) auto
  have "2 ^ (N - 1) \<le> E" and E2: "E < 2 ^ N"
    using len' unfolding E_def by (simp_all add: less_eq_div_iff_mult_less_eq div_less_iff_less_mult)
  then have E: "2 ^ N \<le> 2 * E" using N2 by linarith
  note mi = marked_init [OF N p0 M(1,3) E E2, where h = h, folded s1_def, folded s2_def]
  have bi: "bd_init h base end = ebind (bd_initfree s2 (p0 + M * 16) (p0 + E * 16)) (\<lambda>(free, s3).
    if free \<noteq> BLK_SIZE (MAXSIZE s3) - M * 16 - (2 ^ N - E) * 16 then panic ''bd_init: free mem'' else Inr s3)"
    using bd_init_unfold [OF N len [folded p0_def] p0_def, where h = h, folded M_def E_def, folded s1_def,
        folded s2_def] mi by blast
  have hr: "headers_reserved M s2" using mi M by (simp add: headers_reserved_def)
  have mx: "MAXSIZE s2 = N" using mi by (simp add: MAXSIZE_def)
  obtain hp where hp: "initfree_loop s2 0 (p0 + M * 16) (p0 + E * 16) 0 = Inr (between M E 0, s2\<lparr>heap := hp\<rparr>)"
    and L: "lists_ok (s2\<lparr>heap := hp\<rparr>)"
    using initfree_loop_ok [OF mi(1) hr, of 0 0] mi by auto
  have "between M E 0 = BLK_SIZE N - M * 16 - (2 ^ N - E) * 16"
  proof -
    have "M \<le> E" using M E N(1) by linarith
    then show ?thesis using E2 by (simp add: between_def BLK_SIZE_def LEAF_SIZE_def diff_mult_distrib)
  qed
  then have r: "bd_init h base end = Inr (s2\<lparr>heap := hp\<rparr>)"
    unfolding bi bd_initfree_def hp by (simp add: mx)
  have "reserved M s2"
    unfolding reserved_def using M mi mx markedD(1) [OF mi(1), of 0] marked_left [OF mi(1), of 0] N
    by (simp add: NBLK_def)
  then have "bd_inv M (s2\<lparr>heap := hp\<rparr>)"
    using L mi(1) marked_tree [of M E "s2\<lparr>heap := hp\<rparr>"] by (simp add: bd_inv_def marked_def reserved_def)
  moreover have "used s2 = {(0, i) | i. i < M \<or> (E \<le> i \<and> i < 2 ^ N)}"
    using marked_used [OF mi(1)] mx by (simp add: NBLK_def)
  ultimately show ?thesis
    using r mi unfolding p0_def [symmetric] M_def [symmetric] E_def [symmetric]
    by (intro exI [of _ "s2\<lparr>heap := hp\<rparr>"]) simp
qed

end
