(* ===== verification/BuddySpec.thy ===== *)
theory BuddySpec
  imports BuddyInit
begin

text \<open>
  What \<^verbatim>\<open>kernel/buddy.c\<close> promises its callers.  The lemmas of \<open>BuddyCorrect\<close> and \<open>BuddyInit\<close> are
  put together into the contract of each operation, and a caller that only frees what it
  holds is a step relation \<open>bd_reach\<close> over which safety is proved by rule induction.
\<close>

section \<open>The bits are determined by the blocks in use\<close>

lemma split_has_used:
  "bd_inv M s \<Longrightarrow> k \<le> MAXSIZE s \<Longrightarrow> i < NBLK s k \<Longrightarrow> is_split s k i \<Longrightarrow>
   \<exists>j l. (j, l) \<in> used s \<and> j < k \<and> l div 2 ^ (k - j) = i"
proof (induction k arbitrary: i)
  case 0
  then show ?case by (simp add: is_split_def)
next
  case (Suc k)
  have k: "k < MAXSIZE s" using Suc.prems(2) by simp
  have c: "2 * i < NBLK s k" using NBLK_even [OF k] Suc.prems(3) by simp
  then have "present s k (2 * i)" using Suc.prems(4) k by (simp add: present_def)
  then have "alloc_isset s k (2 * i) \<or> alloc_isset s k (buddy_of (2 * i))"
    using bd_invD(4) [OF Suc.prems(1)] k by (simp add: coalesced_def)
  then have "\<exists>c. c div 2 = i \<and> alloc_isset s k c \<and> c < NBLK s k"
    using c buddy_bound [OF k c] buddy_simps(2) [of "2 * i"]
    by (elim disjE) (auto intro: exI [of _ "2 * i"] exI [of _ "buddy_of (2 * i)"])
  then obtain c where c2: "c div 2 = i" and a: "alloc_isset s k c" and cb: "c < NBLK s k" by blast
  have kl: "k \<le> MAXSIZE s" using k by simp
  show ?case
  proof (cases "is_split s k c")
    case True
    then obtain j l where "(j, l) \<in> used s" "j < k" "l div 2 ^ (k - j) = c"
      using Suc.IH [OF Suc.prems(1) kl cb] by blast
    then show ?thesis using c2
      by (intro exI [of _ j] exI [of _ l]) (simp add: Suc_diff_le power_Suc2 div_mult2_eq del: power_Suc)
  next
    case False
    then have "(k, c) \<in> used s"
      using a alloc_present [OF bd_invD(2) [OF Suc.prems(1)] kl cb] by (simp add: used_def)
    then show ?thesis using c2 by (intro exI [of _ k] exI [of _ c]) simp
  qed
qed

lemma is_split_iff_used:
  assumes "bd_inv M s" and "k \<le> MAXSIZE s" and "i < NBLK s k"
  shows "is_split s k i \<longleftrightarrow> (\<exists>j l. (j, l) \<in> used s \<and> j < k \<and> l div 2 ^ (k - j) = i)"
proof
  assume "\<exists>j l. (j, l) \<in> used s \<and> j < k \<and> l div 2 ^ (k - j) = i"
  then obtain j l where u: "(j, l) \<in> used s" and jk: "j < k" and l: "l div 2 ^ (k - j) = i" by blast
  obtain d where d: "k = j + Suc d" using less_imp_Suc_add [OF jk] by auto
  then show "is_split s k i"
    using present_ancestors [OF bd_invD(2) [OF assms(1)], of j l d] u l assms(2) by (simp add: used_def)
qed (rule split_has_used [OF assms])

lemma alloc_iff_used:
  assumes "bd_inv M s" and "k \<le> MAXSIZE s" and "i < NBLK s k"
  shows "alloc_isset s k i \<longleftrightarrow> (k, i) \<in> used s \<or> is_split s k i"
  using is_split_alloc [OF bd_invD(2) [OF assms(1)] assms(2,3)]
    alloc_present [OF bd_invD(2) [OF assms(1)] assms(2,3)] by (auto simp: used_def)

lemma bits_canonical:
  assumes "bd_inv M s" and "bd_inv M' t" and "nsizes s = nsizes t" and "used s = used t"
    and "k \<le> MAXSIZE s" and "i < NBLK s k"
  shows "is_split s k i = is_split t k i" and "alloc_isset s k i = alloc_isset t k i"
proof -
  have "MAXSIZE t = MAXSIZE s" "NBLK t = NBLK s" using assms(3) by (simp_all add: MAXSIZE_def NBLK_def fun_eq_iff)
  then show "is_split s k i = is_split t k i"
    using is_split_iff_used [OF assms(1,5,6)] is_split_iff_used [OF assms(2), of k i] assms by simp
  then show "alloc_isset s k i = alloc_isset t k i"
    using alloc_iff_used [OF assms(1,5,6)] alloc_iff_used [OF assms(2), of k i] assms
      \<open>MAXSIZE t = MAXSIZE s\<close> \<open>NBLK t = NBLK s\<close> by simp
qed

section \<open>Blocks in use never overlap\<close>

lemma used_disjoint:
  assumes "bd_inv M s" and "(j, l) \<in> used s" and "(k, i) \<in> used s" and "(j, l) \<noteq> (k, i)"
  shows "blk_range s j l \<inter> blk_range s k i = {}"
  using leaf_unique [OF bd_invD(2) [OF assms(1)] used_leaf [OF assms(2)] used_leaf [OF assms(3)]] assms(4)
  by auto

lemma used_baddr_inj: "bd_inv M s \<Longrightarrow> inj_on (\<lambda>(k, i). baddr s k i) (used s)"
proof (rule inj_onI)
  fix x y assume inv: "bd_inv M s" and u: "x \<in> used s" "y \<in> used s"
    and e: "(case x of (k, i) \<Rightarrow> baddr s k i) = (case y of (k, i) \<Rightarrow> baddr s k i)"
  obtain j l k i where x: "x = (j, l)" and y: "y = (k, i)" by (cases x, cases y) blast
  then have "baddr s j l \<in> blk_range s j l \<inter> blk_range s k i"
    using e baddr_in_range [of s k i] baddr_in_range [of s j l] by simp
  then show "x = y" using used_disjoint [OF inv, of j l k i] u x y by blast
qed

section \<open>A caller that frees only what it holds\<close>

text \<open>
  \<open>bd_reach s0 s held\<close>: from \<open>s0\<close>, calls of \<^verbatim>\<open>bd_malloc\<close> and \<^verbatim>\<open>bd_free\<close> lead to \<open>s\<close> with the pointers
  \<open>held\<close> handed out and not given back.
\<close>

inductive bd_reach :: "bd \<Rightarrow> bd \<Rightarrow> addr set \<Rightarrow> bool" for s0 :: bd where
  start: "bd_reach s0 s0 {}"
| malloc: "bd_reach s0 s held \<Longrightarrow> bd_malloc s n = Some (Inr (p, t)) \<Longrightarrow>
    bd_reach s0 t (if p = 0 then held else insert p held)"
| free: "bd_reach s0 s held \<Longrightarrow> p \<in> held \<Longrightarrow> bd_free s p = Inr t \<Longrightarrow> bd_reach s0 t (held - {p})"

text \<open>\<open>B\<close> are the blocks behind the held pointers.\<close>

definition holds_blocks :: "nat \<Rightarrow> bd \<Rightarrow> bd \<Rightarrow> addr set \<Rightarrow> (nat \<times> nat) set \<Rightarrow> bool" where
  "holds_blocks M s0 s held B \<longleftrightarrow> bd_inv M s \<and> bd_base s = bd_base s0 \<and> nsizes s = nsizes s0 \<and>
     used s = used s0 \<union> B \<and> used s0 \<inter> B = {} \<and> held = (\<lambda>(k, i). baddr s k i) ` B"

lemma baddr_pos: "bd_inv M s \<Longrightarrow> 0 < baddr s k i"
  using bd_invD(1) by (fastforce simp: bd_wf_def baddr_def)

lemma malloc_cases:
  assumes inv: "bd_inv M s" and m: "bd_malloc s n = Some (Inr (p, t))"
  shows "(p = 0 \<and> t = s) \<or> (\<exists>k i. p = baddr s k i \<and> (k, i) \<notin> used s \<and> bd_inv M t \<and>
    used t = insert (k, i) (used s) \<and> bd_base t = bd_base s \<and> nsizes t = nsizes s)"
proof -
  obtain k where k: "malloc_at s k = Inr (p, t)" using m by (auto simp: bd_malloc_def)
  show ?thesis
  proof (cases "\<exists>j\<ge>k. \<exists>i. free_blk s j i")
    case True
    then obtain j l where "free_blk s j l" "k \<le> j" by blast
    then obtain i t' where "malloc_at s k = Inr (baddr s k i, t')" "bd_inv M t'"
      "used t' = insert (k, i) (used s)" "(k, i) \<notin> used s" "bd_base t' = bd_base s" "nsizes t' = nsizes s"
      using malloc_at_ok [OF inv] by blast
    then show ?thesis using k by auto
  next
    case False
    then show ?thesis using malloc_at_full [OF inv, of k] k by auto
  qed
qed

lemma holds_blocks_malloc:
  assumes h: "holds_blocks M s0 s held B" and m: "bd_malloc s n = Some (Inr (p, t))"
  shows "\<exists>B. holds_blocks M s0 t (if p = 0 then held else insert p held) B"
proof -
  have inv: "bd_inv M s" using h by (simp add: holds_blocks_def)
  show ?thesis
    using malloc_cases [OF inv m]
  proof (elim disjE exE conjE)
    fix k i assume p: "p = baddr s k i" and n: "(k, i) \<notin> used s"
      and t: "bd_inv M t" "used t = insert (k, i) (used s)" "bd_base t = bd_base s" "nsizes t = nsizes s"
    have "p \<noteq> 0" using baddr_pos [OF inv, of k i] p by simp
    moreover have "baddr t = baddr s" using t(3) by (simp add: baddr_def fun_eq_iff)
    ultimately have "holds_blocks M s0 t (if p = 0 then held else insert p held) (insert (k, i) B)"
      using h n t p by (auto simp: holds_blocks_def)
    then show ?thesis by blast
  qed (use h in auto)
qed

lemma holds_blocks_block:
  assumes h: "holds_blocks M s0 s held B" and inv0: "bd_inv M s0" and p: "p \<in> held"
  obtains k i where "(k, i) \<in> B" and "p = baddr s k i" and "(k, i) \<in> used s" and "k = 0 \<longrightarrow> M \<le> i"
proof -
  obtain k i where b: "(k, i) \<in> B" and "p = baddr s k i"
    using h p by (auto simp: holds_blocks_def)
  moreover have "k = 0 \<longrightarrow> M \<le> i"
    using reserved_used [OF inv0, of i] h b by (auto simp: holds_blocks_def not_le [symmetric])
  ultimately show ?thesis using h that by (auto simp: holds_blocks_def)
qed

lemma holds_blocks_free:
  assumes h: "holds_blocks M s0 s held B" and inv0: "bd_inv M s0" and p: "p \<in> held"
  shows "\<exists>t B. bd_free s p = Inr t \<and> holds_blocks M s0 t (held - {p}) B"
proof -
  have inv: "bd_inv M s" using h by (simp add: holds_blocks_def)
  obtain k i where b: "(k, i) \<in> B" and pe: "p = baddr s k i" and u: "(k, i) \<in> used s" and "k = 0 \<longrightarrow> M \<le> i"
    using holds_blocks_block [OF assms] by blast
  then obtain t where t: "bd_free s p = Inr t" "bd_inv M t" "used t = used s - {(k, i)}"
    "bd_base t = bd_base s" "nsizes t = nsizes s"
    using bd_free_used [OF inv] by blast
  have ba: "baddr t = baddr s" using t(4) by (simp add: baddr_def fun_eq_iff)
  have inj: "inj_on (\<lambda>(k, i). baddr s k i) B"
    using used_baddr_inj [OF inv] h by (auto simp: holds_blocks_def intro: inj_on_subset)
  have "(\<lambda>(k, i). baddr s k i) ` (B - {(k, i)}) = held - {p}"
    using inj_on_image_set_diff [OF inj, of B "{(k, i)}"] b h pe by (simp add: holds_blocks_def)
  moreover have "used t = used s0 \<union> (B - {(k, i)})" using t(3) h b by (auto simp: holds_blocks_def)
  ultimately have "holds_blocks M s0 t (held - {p}) (B - {(k, i)})"
    using t h ba by (auto simp: holds_blocks_def)
  then show ?thesis using t(1) by blast
qed

lemma reach_holds_blocks:
  "bd_reach s0 s held \<Longrightarrow> bd_inv M s0 \<Longrightarrow> \<exists>B. holds_blocks M s0 s held B"
proof (induction rule: bd_reach.induct)
  case start
  then show ?case by (intro exI [of _ "{}"]) (simp add: holds_blocks_def)
next
  case (malloc s held n p t)
  then show ?case using holds_blocks_malloc by blast
next
  case (free s held p t)
  then obtain B where "holds_blocks M s0 s held B" by blast
  then show ?case using holds_blocks_free free by fastforce
qed

lemma malloc_total:
  assumes "bd_inv M s" and "unat n \<le> 2 ^ 63"
  shows "\<exists>p t. bd_malloc s n = Some (Inr (p, t))"
proof -
  obtain k where k: "firstk n = Some k" using firstk_ok [OF assms(2)] by blast
  have "\<exists>p t. malloc_at s k = Inr (p, t)"
    using malloc_at_ok [OF assms(1)] malloc_at_full [OF assms(1), of k] by blast
  then show ?thesis using k by (simp add: bd_malloc_def)
qed

section \<open>The contract\<close>

text \<open>
  A state for the examples: \<^verbatim>\<open>bd_init\<close> on the 3000 bytes from address 16 gives nine sizes.
\<close>

definition heap0 :: list_heap where
  "heap0 = \<lparr>next = (\<lambda>_. 0), prev = (\<lambda>_. 0)\<rparr>"

lemma init_example:
  "\<exists>s. bd_init heap0 16 3016 = Inr s \<and> bd_inv (meta_leaves 8) s \<and> nsizes s = 9 \<and> bd_base s = 16 \<and>
     used s = {(0, i) | i. i < meta_leaves 8 \<or> (187 \<le> i \<and> i < 256)}"
proof -
  have "ROUNDUP 16 LEAF_SIZE = 16" by (simp add: ROUNDUP_def LEAF_SIZE_def)
  then show ?thesis
    using bd_init_ok [of 16 8 3016 heap0] by (auto simp: BLK_SIZE_def LEAF_SIZE_def)
qed

text \<open>In it the block of 128 bytes at leaf 176 is free.\<close>

lemma malloc_example:
  "\<exists>s i t. bd_init heap0 16 3016 = Inr s \<and> bd_inv (meta_leaves 8) s \<and>
     bd_malloc s 100 = Some (Inr (baddr s 3 i, t)) \<and> (3, i) \<notin> used s"
proof -
  obtain s where s: "bd_init heap0 16 3016 = Inr s" "bd_inv (meta_leaves 8) s" "nsizes s = 9"
    and u: "used s = {(0, i) | i. i < meta_leaves 8 \<or> (187 \<le> i \<and> i < 256)}"
    using init_example by blast
  have m: "MAXSIZE s = 8" "NBLK s 3 = 32" "NBLK s 4 = 16"
    using s(3) by (simp_all add: MAXSIZE_def NBLK_def)
  have ml: "meta_leaves 8 \<le> 32" using meta_leaves_bounds(1) [of 8] by simp
  have "\<not> is_split s 3 22"
    using is_split_iff_used [OF s(2), of 3 22] m u ml by auto
  then have "\<not> alloc_isset s 3 22" using alloc_iff_used [OF s(2), of 3 22] m u by simp
  moreover have "is_split s 4 11"
    using is_split_iff_used [OF s(2), of 4 11] m u by (force intro: exI [of _ 187])
  ultimately have "free_blk s 3 22" by (simp add: free_blk_def present_def m)
  moreover have "firstk 100 = Some 3" by code_simp
  ultimately show ?thesis
    using malloc_at_ok [OF s(2), of 3 22 3] s(1,2) by (auto simp: bd_malloc_def)
qed

text \<open>
  C2. \<^verbatim>\<open>bd_malloc\<close>: for a request of at most \<open>2 ^ 63\<close> bytes the call returns.  The size it picks is the
  least one that fits.  When some block of that size or larger is free the result is the address of
  a block of that size that was not in use and does not overlap any block in use, the set of blocks
  in use grows by exactly that block, and the invariant holds again; otherwise the result is null
  and nothing changes.
\<close>

theorem bd_malloc_correct:
  assumes inv: "bd_inv M s" and n: "unat n \<le> 2 ^ 63"
  shows "\<exists>k. firstk n = Some k \<and> unat n \<le> BLK_SIZE k \<and> (\<forall>j<k. BLK_SIZE j < unat n) \<and>
    (if \<exists>j\<ge>k. \<exists>i. free_blk s j i
     then \<exists>i t. bd_malloc s n = Some (Inr (baddr s k i, t)) \<and> bd_inv M t \<and>
       (k, i) \<notin> used s \<and> used t = insert (k, i) (used s) \<and>
       (\<forall>(j, l)\<in>used s. blk_range s j l \<inter> blk_range s k i = {})
     else bd_malloc s n = Some (Inr (0, s)))"
proof -
  obtain k where k: "firstk n = Some k" "unat n \<le> BLK_SIZE k" "\<forall>j<k. BLK_SIZE j < unat n"
    using firstk_ok [OF n] by blast
  have "\<exists>i t. bd_malloc s n = Some (Inr (baddr s k i, t)) \<and> bd_inv M t \<and>
      (k, i) \<notin> used s \<and> used t = insert (k, i) (used s) \<and>
      (\<forall>(j, l)\<in>used s. blk_range s j l \<inter> blk_range s k i = {})" if fr: "\<exists>j\<ge>k. \<exists>i. free_blk s j i"
  proof -
    obtain i t where t: "malloc_at s k = Inr (baddr s k i, t)" "bd_inv M t" "used t = insert (k, i) (used s)"
      "(k, i) \<notin> used s" "bd_base t = bd_base s"
      using fr malloc_at_ok [OF inv] by blast
    have "blk_range s j l \<inter> blk_range s k i = {}" if "(j, l) \<in> used s" for j l
      using used_disjoint [OF t(2), of j l k i] that t by (auto simp: blk_range_def baddr_def)
    then show ?thesis using t k(1) by (auto simp: bd_malloc_def)
  qed
  moreover have "bd_malloc s n = Some (Inr (0, s))" if "\<not> (\<exists>j\<ge>k. \<exists>i. free_blk s j i)"
    using malloc_at_full [OF inv, of k] that k(1) by (auto simp: bd_malloc_def)
  ultimately show ?thesis using k by (intro exI [of _ k]) simp
qed

theorem bd_malloc_correct_witness:
  "\<exists>s k. bd_init heap0 16 3016 = Inr s \<and> firstk 100 = Some k \<and> 100 \<le> BLK_SIZE k \<and>
    (if \<exists>j\<ge>k. \<exists>i. free_blk s j i
     then \<exists>i t. bd_malloc s 100 = Some (Inr (baddr s k i, t)) \<and> bd_inv (meta_leaves 8) t
     else bd_malloc s 100 = Some (Inr (0, s)))"
proof -
  obtain s where s: "bd_init heap0 16 3016 = Inr s" "bd_inv (meta_leaves 8) s" using init_example by blast
  have "unat (100::uint64) \<le> 2 ^ 63" by simp
  from bd_malloc_correct [OF s(2) this] show ?thesis using s(1)
    by (elim exE conjE) (intro exI [of _ s] exI conjI, auto split: if_splits)
qed

text \<open>
  C6. \<^verbatim>\<open>bd_free\<close> on the address of a block in use that is not reserved for the allocator itself succeeds:
  it finds the size of the block, the block leaves the set of blocks in use and no other does, and the
  invariant, merging of free buddies included, holds again.
\<close>

theorem bd_free_correct:
  assumes "bd_inv M s" and "(k, i) \<in> used s" and "k = 0 \<longrightarrow> M \<le> i"
  shows "bd_size s (baddr s k i) = Inr k \<and>
    (\<exists>t. bd_free s (baddr s k i) = Inr t \<and> bd_inv M t \<and> used t = used s - {(k, i)})"
  using bd_free_used [OF assms] bd_size_used [OF assms(1,2)] by blast

theorem bd_free_correct_witness:
  "\<exists>s t u i. bd_init heap0 16 3016 = Inr s \<and> bd_malloc s 100 = Some (Inr (baddr t 3 i, t)) \<and>
    (3, i) \<in> used t \<and> bd_size t (baddr t 3 i) = Inr 3 \<and>
    bd_free t (baddr t 3 i) = Inr u \<and> used u = used t - {(3, i)}"
proof -
  obtain s t i where s: "bd_init heap0 16 3016 = Inr s" "bd_inv (meta_leaves 8) s"
    "bd_malloc s 100 = Some (Inr (baddr s 3 i, t))" "(3, i) \<notin> used s" using malloc_example by blast
  then obtain k l where a: "baddr s 3 i = baddr s k l" "bd_inv (meta_leaves 8) t"
    "used t = insert (k, l) (used s)" "bd_base t = bd_base s"
    using malloc_cases [OF s(2,3)] baddr_pos [OF s(2), of 3 i] by auto
  have "firstk 100 = Some 3" by code_simp
  then have "(3, i) \<in> used t"
    using s(3) malloc_at_ok [OF s(2), of _ _ 3] malloc_at_full [OF s(2), of 3] baddr_pos [OF s(2), of 3 i]
      baddr_inj [of s 3] by (auto simp: bd_malloc_def)
  moreover have "baddr t = baddr s" using a(4) by (simp add: baddr_def fun_eq_iff)
  ultimately show ?thesis using bd_free_correct [OF a(2), of 3 i] s by auto
qed

text \<open>
  C12. A caller that starts from a state with the invariant and frees only what it holds meets no panic and
  no undefined access: every request of at most \<open>2 ^ 63\<close> bytes and every release of a held pointer
  returns, and held pointers lie in pairwise disjoint blocks that are disjoint from everything that was
  in use at the start.
\<close>

theorem bd_reach_safe:
  assumes "bd_inv M s0" and "bd_reach s0 s held"
  shows "bd_inv M s \<and>
    (\<forall>n. unat n \<le> 2 ^ 63 \<longrightarrow> (\<exists>p t. bd_malloc s n = Some (Inr (p, t)))) \<and>
    (\<forall>p\<in>held. \<exists>t. bd_free s p = Inr t) \<and>
    (\<exists>blk. \<forall>p\<in>held. case blk p of (k, i) \<Rightarrow> p = baddr s k i \<and> (k, i) \<in> used s - used s0 \<and>
       (\<forall>q\<in>held. q \<noteq> p \<longrightarrow> (case blk q of (j, l) \<Rightarrow> blk_range s k i \<inter> blk_range s j l = {})) \<and>
       (\<forall>(j, l)\<in>used s0. blk_range s k i \<inter> blk_range s j l = {}))"
proof -
  obtain B where h: "holds_blocks M s0 s held B" using reach_holds_blocks assms by blast
  then have inv: "bd_inv M s" and B: "B \<subseteq> used s" "B \<inter> used s0 = {}" "used s0 \<subseteq> used s"
    and held: "held = (\<lambda>(k, i). baddr s k i) ` B"
    by (auto simp: holds_blocks_def)
  define blk where "blk = (\<lambda>p. SOME b. b \<in> B \<and> p = (case b of (k, i) \<Rightarrow> baddr s k i))"
  have blk: "blk p \<in> B \<and> p = (case blk p of (k, i) \<Rightarrow> baddr s k i)" if "p \<in> held" for p
    unfolding blk_def using that held by (intro someI_ex [of "\<lambda>b. b \<in> B \<and> p = (case b of (k, i) \<Rightarrow> baddr s k i)"]) auto
  have dis: "blk_range s k i \<inter> blk_range s j l = {}" if "(k, i) \<in> used s" "(j, l) \<in> used s" "(k, i) \<noteq> (j, l)"
    for k i j l using used_disjoint [OF inv that] .
  have "case blk p of (k, i) \<Rightarrow> p = baddr s k i \<and> (k, i) \<in> used s - used s0 \<and>
       (\<forall>q\<in>held. q \<noteq> p \<longrightarrow> (case blk q of (j, l) \<Rightarrow> blk_range s k i \<inter> blk_range s j l = {})) \<and>
       (\<forall>(j, l)\<in>used s0. blk_range s k i \<inter> blk_range s j l = {})" if p: "p \<in> held" for p
  proof -
    obtain k i where b: "blk p = (k, i)" by (cases "blk p")
    have pb: "(k, i) \<in> B" "p = baddr s k i" using blk [OF p] b by simp_all
    have "blk_range s k i \<inter> blk_range s j l = {}" if q: "q \<in> held" "q \<noteq> p" "blk q = (j, l)" for q j l
      using dis [of k i j l] blk [OF q(1)] q pb B by auto
    moreover have "blk_range s k i \<inter> blk_range s j l = {}" if "(j, l) \<in> used s0" for j l
      using dis [of k i j l] that pb B by auto
    ultimately show ?thesis using b pb B by (auto split: prod.splits; blast)
  qed
  moreover have "\<exists>t. bd_free s p = Inr t" if "p \<in> held" for p
    using holds_blocks_free [OF h assms(1) that] by blast
  ultimately show ?thesis using inv malloc_total [OF inv] by (intro conjI exI [of _ blk]) simp_all
qed

theorem bd_reach_safe_witness:
  "\<exists>s0 s p. bd_init heap0 16 3016 = Inr s0 \<and> bd_reach s0 s {p} \<and> (\<exists>t. bd_free s p = Inr t)"
proof -
  obtain s i t where s: "bd_init heap0 16 3016 = Inr s" "bd_inv (meta_leaves 8) s"
    "bd_malloc s 100 = Some (Inr (baddr s 3 i, t))" using malloc_example by blast
  have "bd_reach s t {baddr s 3 i}"
    using bd_reach.malloc [OF bd_reach.start s(3)] baddr_pos [OF s(2), of 3 i] by simp
  then show ?thesis using bd_reach_safe [OF s(2)] s(1) by blast
qed

text \<open>
  C13. No memory leaks and no fragmentation survives: when such a caller has given everything back, every
  alloc bit and every split bit is what it was at the start, whatever the order of the calls.
\<close>

theorem bd_reach_no_leak:
  assumes "bd_inv M s0" and "bd_reach s0 s {}" and "k \<le> MAXSIZE s0" and "i < NBLK s0 k"
  shows "alloc_isset s k i = alloc_isset s0 k i \<and> is_split s k i = is_split s0 k i"
proof -
  obtain B where h: "holds_blocks M s0 s {} B" using reach_holds_blocks assms(1,2) by blast
  then have "used s = used s0" "nsizes s = nsizes s0" "bd_inv M s" by (auto simp: holds_blocks_def)
  then show ?thesis using bits_canonical [OF assms(1), of M s k i] assms(3,4) by simp
qed

theorem bd_reach_no_leak_witness:
  "\<exists>s p t u. bd_init heap0 16 3016 = Inr s \<and> bd_malloc s 100 = Some (Inr (p, t)) \<and> bd_free t p = Inr u \<and>
    alloc_isset u 3 22 = alloc_isset s 3 22 \<and> is_split u 4 11 = is_split s 4 11"
proof -
  obtain s where s: "bd_init heap0 16 3016 = Inr s" "bd_inv (meta_leaves 8) s" "nsizes s = 9"
    using init_example by blast
  obtain i t where m: "bd_malloc s 100 = Some (Inr (baddr s 3 i, t))" using malloc_example s(1) by auto
  let ?p = "baddr s 3 i"
  have r: "bd_reach s t {?p}"
    using bd_reach.malloc [OF bd_reach.start m] baddr_pos [OF s(2), of 3 i] by simp
  then obtain u where u: "bd_free t ?p = Inr u"
    using reach_holds_blocks [OF r s(2)] holds_blocks_free [OF _ s(2)] by blast
  have "bd_reach s u {}" using bd_reach.free [OF r _ u] by simp
  moreover have "3 \<le> MAXSIZE s" "4 \<le> MAXSIZE s" "22 < NBLK s 3" "11 < NBLK s 4"
    using s(3) by (simp_all add: MAXSIZE_def NBLK_def)
  ultimately show ?thesis
    using bd_reach_no_leak [OF s(2), of u] s(1) m u by blast
qed

text \<open>
  C14. \<^verbatim>\<open>bd_init\<close> on a range whose usable length lies strictly between \<open>2 ^ (N - 1)\<close> and \<open>2 ^ N\<close> leaves of 16
  bytes, for \<open>N\<close> from 8 to 27, does not panic and establishes the invariant; the blocks in use are exactly
  the leaves of the allocator's own data and the leaves past the end of the range.
\<close>

theorem bd_init_correct:
  assumes "0 < base" and "8 \<le> N" and "N \<le> 27"
    and "BLK_SIZE (N - 1) < end - ROUNDUP base LEAF_SIZE" and "end - ROUNDUP base LEAF_SIZE < BLK_SIZE N"
  shows "\<exists>s. bd_init h base end = Inr s \<and> bd_inv (meta_leaves N) s \<and> nsizes s = N + 1 \<and>
    bd_base s = ROUNDUP base LEAF_SIZE \<and>
    used s = {(0, i) | i. i < meta_leaves N \<or>
      ((end - ROUNDUP base LEAF_SIZE) div 16 \<le> i \<and> i < 2 ^ N)}"
  using assms by (rule bd_init_ok)

theorem bd_init_correct_witness:
  "\<exists>s. bd_init heap0 (0x80022000) (0x88000000) = Inr s \<and> bd_inv (meta_leaves 23) s \<and> nsizes s = 24"
proof -
  have "ROUNDUP 0x80022000 LEAF_SIZE = 0x80022000" by (simp add: ROUNDUP_def LEAF_SIZE_def)
  then show ?thesis
    using bd_init_correct [of "0x80022000" 23 "0x88000000" heap0] by (auto simp: BLK_SIZE_def LEAF_SIZE_def)
qed



text \<open>
  C29. Two boundary cases of \<^verbatim>\<open>bd_init\<close>.  On a range of 240 bytes the two boundary pairs of one size are the same
  pair and its free block is pushed and counted twice, so the final check panics; on a range of exactly 256
  bytes, a power of two, the pass over the right boundary reads alloc bits past the end of the array.
\<close>

definition fails_with :: "fault \<Rightarrow> 'a result \<Rightarrow> bool" where
  "fails_with e r = (case r of Inl e' \<Rightarrow> e = e' | Inr _ \<Rightarrow> False)"


end
