(* ===== verification/CString.thy ===== *)
theory CString
  imports ListC
begin

text \<open>
  \<^verbatim>\<open>kernel/string.c\<close> over a memory of bytes.  Addresses are natural numbers: the objects these
  functions are called on lie inside the address space.  Every loop of the source is a recursion
  over the same pointers and counters.
\<close>

type_synonym mem = "addr \<Rightarrow> byte"

section \<open>Operations\<close>

function memset_loop :: "mem \<Rightarrow> addr \<Rightarrow> byte \<Rightarrow> nat \<Rightarrow> nat \<Rightarrow> mem" where
  "memset_loop m cdst c i n =
     (if i < n then memset_loop (m(cdst + i := c)) cdst c (i + 1) n else m)"
  by pat_completeness auto
termination
  by (relation "measure (\<lambda>(m, cdst, c, i, n). n - i)") auto

declare memset_loop.simps [simp del]

definition memset :: "mem \<Rightarrow> addr \<Rightarrow> byte \<Rightarrow> nat \<Rightarrow> mem" where
  "memset m dst c n = memset_loop m dst c 0 n"

fun memcmp :: "mem \<Rightarrow> addr \<Rightarrow> addr \<Rightarrow> nat \<Rightarrow> int" where
  "memcmp m s1 s2 0 = 0"
| "memcmp m s1 s2 (Suc n) =
     (if m s1 \<noteq> m s2 then uint (m s1) - uint (m s2) else memcmp m (s1 + 1) (s2 + 1) n)"

fun move_down :: "mem \<Rightarrow> addr \<Rightarrow> addr \<Rightarrow> nat \<Rightarrow> mem" where
  "move_down m d s 0 = m"
| "move_down m d s (Suc n) = move_down (m(d - 1 := m (s - 1))) (d - 1) (s - 1) n"

fun move_up :: "mem \<Rightarrow> addr \<Rightarrow> addr \<Rightarrow> nat \<Rightarrow> mem" where
  "move_up m d s 0 = m"
| "move_up m d s (Suc n) = move_up (m(d := m s)) (d + 1) (s + 1) n"

definition memmove :: "mem \<Rightarrow> addr \<Rightarrow> addr \<Rightarrow> nat \<Rightarrow> mem" where
  "memmove m dst src n =
     (if n = 0 then m
      else if src < dst \<and> src + n > dst then move_down m (dst + n) (src + n) n
      else move_up m dst src n)"

definition memcpy :: "mem \<Rightarrow> addr \<Rightarrow> addr \<Rightarrow> nat \<Rightarrow> mem" where
  "memcpy m dst src n = memmove m dst src n"

fun strncmp :: "mem \<Rightarrow> addr \<Rightarrow> addr \<Rightarrow> nat \<Rightarrow> int" where
  "strncmp m p q n =
     (if n > 0 \<and> m p \<noteq> 0 \<and> m p = m q then strncmp m (p + 1) (q + 1) (n - 1)
      else if n = 0 then 0 else uint (m p) - uint (m q))"

declare strncmp.simps [simp del]

text \<open>The counter of the copying loops is a C \<^verbatim>\<open>int\<close>; it is decremented before the test fails.\<close>

function strncpy_copy :: "mem \<Rightarrow> addr \<Rightarrow> addr \<Rightarrow> int \<Rightarrow> mem \<times> addr \<times> int" where
  "strncpy_copy m s t n =
     (if n > 0 then
        let m' = m(s := m t)
        in if m t \<noteq> 0 then strncpy_copy m' (s + 1) (t + 1) (n - 1) else (m', s + 1, n - 1)
      else (m, s, n - 1))"
  by pat_completeness auto
termination
  by (relation "measure (\<lambda>(m, s, t, n). nat n)") auto

declare strncpy_copy.simps [simp del]

function strncpy_pad :: "mem \<Rightarrow> addr \<Rightarrow> int \<Rightarrow> mem" where
  "strncpy_pad m s n = (if n > 0 then strncpy_pad (m(s := 0)) (s + 1) (n - 1) else m)"
  by pat_completeness auto
termination
  by (relation "measure (\<lambda>(m, s, n). nat n)") auto

declare strncpy_pad.simps [simp del]

definition strncpy :: "mem \<Rightarrow> addr \<Rightarrow> addr \<Rightarrow> int \<Rightarrow> mem" where
  "strncpy m s t n = (case strncpy_copy m s t n of (m', s', n') \<Rightarrow> strncpy_pad m' s' n')"

function safestrcpy_copy :: "mem \<Rightarrow> addr \<Rightarrow> addr \<Rightarrow> int \<Rightarrow> mem \<times> addr" where
  "safestrcpy_copy m s t n =
     (if n - 1 > 0 then
        let m' = m(s := m t)
        in if m t \<noteq> 0 then safestrcpy_copy m' (s + 1) (t + 1) (n - 1) else (m', s + 1)
      else (m, s))"
  by pat_completeness auto
termination
  by (relation "measure (\<lambda>(m, s, t, n). nat n)") auto

declare safestrcpy_copy.simps [simp del]

definition safestrcpy :: "mem \<Rightarrow> addr \<Rightarrow> addr \<Rightarrow> int \<Rightarrow> mem" where
  "safestrcpy m s t n =
     (if n \<le> 0 then m else case safestrcpy_copy m s t n of (m', s') \<Rightarrow> m'(s' := 0))"

text \<open>\<^verbatim>\<open>strlen\<close> runs off a string that has no terminator.\<close>

partial_function (option) strlen_from :: "mem \<Rightarrow> addr \<Rightarrow> nat \<Rightarrow> nat option" where
  "strlen_from m s n = (if m (s + n) \<noteq> 0 then strlen_from m s (n + 1) else Some n)"

declare strlen_from.simps [code]

definition strlen :: "mem \<Rightarrow> addr \<Rightarrow> nat option" where
  "strlen m s = strlen_from m s 0"

section \<open>The string at an address\<close>

text \<open>The characters before the terminator, at most \<open>n\<close> of them.\<close>

fun cstr :: "mem \<Rightarrow> addr \<Rightarrow> nat \<Rightarrow> byte list" where
  "cstr m p 0 = []"
| "cstr m p (Suc n) = (if m p = 0 then [] else m p # cstr m (p + 1) n)"

lemma length_cstr: "length (cstr m p n) \<le> n"
  by (induction m p n rule: cstr.induct) auto

lemma cstr_nz: "0 \<notin> set (cstr m p n)"
  by (induction m p n rule: cstr.induct) auto

lemma cstr_cong: "(\<And>i. i < n \<Longrightarrow> m (p + i) = m' (p' + i)) \<Longrightarrow> cstr m p n = cstr m' p' n"
proof (induction n arbitrary: p p')
  case (Suc n)
  have "cstr m (p + 1) n = cstr m' (p' + 1) n"
    using Suc.prems [of "Suc _"] by (intro Suc.IH) simp
  then show ?case using Suc.prems [of 0] by simp
qed simp

lemma memset_loop_eq:
  "memset_loop m d c i n x = (if d + i \<le> x \<and> x < d + n then c else m x)"
proof (induction m d c i n rule: memset_loop.induct)
  case (1 m d c i n)
  show ?case
  proof (cases "i < n")
    case True
    have "memset_loop m d c i n x = memset_loop (m(d + i := c)) d c (i + 1) n x"
      using True by (subst memset_loop.simps) simp
    then show ?thesis unfolding 1 [OF True] using True by auto
  next
    case False
    then show ?thesis by (subst memset_loop.simps) auto
  qed
qed

lemma memset_eq: "memset m d c n x = (if d \<le> x \<and> x < d + n then c else m x)"
  by (simp add: memset_def memset_loop_eq)

lemma move_up_eq:
  "d \<le> s \<or> s + n \<le> d \<Longrightarrow>
   move_up m d s n x = (if d \<le> x \<and> x < d + n then m (s + (x - d)) else m x)"
proof (induction n arbitrary: m d s)
  case (Suc n)
  have "move_up m d s (Suc n) x =
      (if d + 1 \<le> x \<and> x < d + 1 + n then (m(d := m s)) (s + 1 + (x - (d + 1))) else (m(d := m s)) x)"
    using Suc.prems by (simp only: move_up.simps) (intro Suc.IH, auto)
  moreover have "s + 1 + (x - (d + 1)) = s + (x - d)" if "d + 1 \<le> x" using that by simp
  ultimately show ?case using Suc.prems by (cases "x = d") auto
qed auto

lemma move_down_eq:
  "s < d \<Longrightarrow>
   move_down m (d + n) (s + n) n x = (if d \<le> x \<and> x < d + n then m (s + (x - d)) else m x)"
proof (induction n arbitrary: m)
  case (Suc n)
  let ?m = "m(d + n := m (s + n))"
  have "move_down m (d + Suc n) (s + Suc n) (Suc n) x = move_down ?m (d + n) (s + n) n x" by simp
  also have "\<dots> = (if d \<le> x \<and> x < d + n then ?m (s + (x - d)) else ?m x)" by (rule Suc.IH [OF Suc.prems])
  also have "\<dots> = (if d \<le> x \<and> x < d + Suc n then m (s + (x - d)) else m x)"
    using Suc.prems by auto
  finally show ?case .
qed auto

lemma memmove_eq:
  "memmove m dst src n x = (if dst \<le> x \<and> x < dst + n then m (src + (x - dst)) else m x)"
  by (auto simp: memmove_def move_down_eq move_up_eq not_less)

lemma strncmp_zero_iff: "strncmp m p q n = 0 \<longleftrightarrow> cstr m p n = cstr m q n"
proof (induction m p q n rule: strncmp.induct)
  case (1 m p q n)
  show ?case
  proof (cases "n > 0 \<and> m p \<noteq> 0 \<and> m p = m q")
    case True
    then obtain k where "n = Suc k" by (cases n) auto
    then show ?thesis using True 1 [OF True] by (subst strncmp.simps) simp
  next
    case False
    then show ?thesis by (subst strncmp.simps) (cases n; auto simp: unsigned_eq_0_iff dest: unsigned_word_eqI)
  qed
qed

lemma strncpy_pad_eq:
  "strncpy_pad m s n x = (if s \<le> x \<and> int x < int s + n then 0 else m x)"
proof (induction m s n rule: strncpy_pad.induct)
  case (1 m s n)
  show ?case
  proof (cases "n > 0")
    case True
    then have "strncpy_pad m s n x = strncpy_pad (m(s := 0)) (s + 1) (n - 1) x"
      by (subst strncpy_pad.simps) simp
    then show ?thesis unfolding 1 [OF True] using True by auto
  next
    case False
    then show ?thesis by (subst strncpy_pad.simps) auto
  qed
qed

lemma nth_Cons_diff: "s < x \<Longrightarrow> (a # xs) ! (x - s) = xs ! (x - Suc s)"
  by (simp add: nth_Cons')

text \<open>\<^verbatim>\<open>strncpy\<close> writes exactly \<open>n\<close> bytes: the string and then zeros.\<close>

lemma strncpy_eq:
  "0 \<le> n \<Longrightarrow> s + nat n \<le> t \<or> t + nat n \<le> s \<Longrightarrow>
   strncpy m s t n x = (if s \<le> x \<and> x < s + nat n
     then (cstr m t (nat n) @ replicate (nat n) 0) ! (x - s) else m x)"
proof (induction m s t n rule: strncpy_copy.induct)
  case (1 m s t n)
  show ?case
  proof (cases "n > 0")
    case False
    then show ?thesis using 1(2) by (auto simp: strncpy_def strncpy_copy.simps strncpy_pad.simps)
  next
    case True
    define k where "k = nat (n - 1)"
    have k: "nat n = Suc k" using True by (simp add: k_def)
    let ?m = "m(s := m t)"
    have tx: "?m (t + 1 + i) = m (t + 1 + i)" if "i < k" for i using 1(3) k that by auto
    show ?thesis
    proof (cases "m t = 0")
      case True
      then have "strncpy m s t n x = strncpy_pad ?m (s + 1) (n - 1) x"
        using \<open>n > 0\<close> by (simp add: strncpy_def strncpy_copy.simps [of m s t n])
      then show ?thesis
        using True \<open>n > 0\<close> k by (auto simp: strncpy_pad_eq nth_Cons split: nat.splits)
    next
      case False
      then have e: "strncpy m s t n x = strncpy ?m (s + 1) (t + 1) (n - 1) x"
        using \<open>n > 0\<close> by (simp add: strncpy_def strncpy_copy.simps [of m s t n] Let_def)
      have "cstr ?m (t + 1) k = cstr m (t + 1) k" using tx by (rule cstr_cong)
      then have "strncpy ?m (s + 1) (t + 1) (n - 1) x = (if s + 1 \<le> x \<and> x < s + 1 + k
          then (cstr m (t + 1) k @ replicate k 0) ! (x - (s + 1)) else ?m x)"
      proof -
        have kk: "nat (n - 1) = k" by (simp add: k_def)
        have "0 \<le> n - 1" using True by simp
        moreover have "s + 1 + nat (n - 1) \<le> t + 1 \<or> t + 1 + nat (n - 1) \<le> s + 1" using 1(3) k kk by auto
        moreover note c = \<open>cstr ?m (t + 1) k = cstr m (t + 1) k\<close>
        ultimately show ?thesis using 1(1) [OF True refl False] unfolding kk c by blast
      qed
      moreover have "m t # cstr m (t + 1) k @ replicate (Suc k) 0 =
          (m t # cstr m (t + 1) k @ replicate k 0) @ [0]" by (simp flip: replicate_append_same)
      moreover have "x - s < length (m t # cstr m (t + 1) k @ replicate k 0)" if "x < s + Suc k" "s \<le> x"
        using that by simp
      ultimately show ?thesis
        unfolding e using False k
        by (cases "x = s") (auto simp: nth_append nth_Cons_diff)
    qed
  qed
qed

text \<open>
  \<^verbatim>\<open>safestrcpy\<close> writes the string, a terminator, and one more zero when the copying loop stopped at
  the terminator of the source.
\<close>

lemma safestrcpy_eq:
  fixes m :: mem
  assumes "0 < n" and "s + nat n \<le> t \<or> t + nat n \<le> s"
  defines "str \<equiv> cstr m t (nat n - 1)"
  shows "safestrcpy m s t n x =
    (if s \<le> x \<and> x < s + length str then str ! (x - s)
     else if x = s + length str \<or> (x = s + length str + 1 \<and> length str < nat n - 1) then 0 else m x)"
  using assms(1,2) unfolding str_def
proof (induction m s t n rule: safestrcpy_copy.induct)
  case (1 m s t n)
  show ?case
  proof (cases "n - 1 > 0")
    case False
    then have "n = 1" using 1(2) by simp
    then show ?thesis by (auto simp: safestrcpy_def safestrcpy_copy.simps)
  next
    case True
    define k where "k = nat (n - 1) - 1"
    have k: "nat n = Suc (Suc k)" "nat (n - 1) = Suc k" using True by (simp_all add: k_def)
    let ?m = "m(s := m t)"
    show ?thesis
    proof (cases "m t = 0")
      case True
      then have "safestrcpy m s t n = ?m(s + 1 := 0)"
        using \<open>n - 1 > 0\<close> by (simp add: safestrcpy_def safestrcpy_copy.simps [of m s t n])
      then show ?thesis using True k by auto
    next
      case False
      have e: "safestrcpy m s t n x = safestrcpy ?m (s + 1) (t + 1) (n - 1) x"
        using \<open>n - 1 > 0\<close> False by (simp add: safestrcpy_def safestrcpy_copy.simps [of m s t n] Let_def)
      have c: "cstr ?m (t + 1) k = cstr m (t + 1) k" using 1(3) k by (intro cstr_cong) auto
      have "safestrcpy ?m (s + 1) (t + 1) (n - 1) x =
          (if s + 1 \<le> x \<and> x < s + 1 + length (cstr m (t + 1) k) then cstr m (t + 1) k ! (x - (s + 1))
           else if x = s + 1 + length (cstr m (t + 1) k) \<or>
             (x = s + 1 + length (cstr m (t + 1) k) + 1 \<and> length (cstr m (t + 1) k) < k) then 0 else ?m x)"
      proof -
        have kk: "nat (n - 1) - 1 = k" by (simp add: k_def)
        have "s + 1 + nat (n - 1) \<le> t + 1 \<or> t + 1 + nat (n - 1) \<le> s + 1" using 1(3) k by auto
        from 1(1) [OF True refl False True this] show ?thesis unfolding kk c .
      qed
      then show ?thesis unfolding e using False k by (cases "x = s") (auto simp: nth_Cons_diff)
    qed
  qed
qed

lemma strlen_from_eq:
  "\<forall>i<k. m (s + n + i) \<noteq> 0 \<Longrightarrow> m (s + n + k) = 0 \<Longrightarrow> strlen_from m s n = Some (n + k)"
proof (induction k arbitrary: n)
  case 0
  then show ?case by (subst strlen_from.simps) simp
next
  case (Suc k)
  have "strlen_from m s n = strlen_from m s (n + 1)"
    using Suc.prems(1) by (subst strlen_from.simps) fastforce
  moreover have "strlen_from m s (n + 1) = Some (n + 1 + k)"
    using Suc.prems by (intro Suc.IH) (auto simp: add.assoc)
  ultimately show ?case by simp
qed

lemma cstr_prefix:
  assumes "\<And>i. i < length xs \<Longrightarrow> m (p + i) = xs ! i" and "0 \<notin> set xs"
    and "length xs < n \<longrightarrow> m (p + length xs) = 0" and "length xs \<le> n"
  shows "cstr m p n = xs"
  using assms
proof (induction xs arbitrary: p n)
  case Nil
  then show ?case by (cases n) auto
next
  case (Cons x xs)
  then obtain k where n: "n = Suc k" by (cases n) auto
  have "m p = x" using Cons.prems(1) [of 0] by simp
  moreover have "m (p + 1 + i) = xs ! i" if "i < length xs" for i
    using Cons.prems(1) [of "Suc i"] that by simp
  then have "cstr m (p + 1) k = xs" using Cons.prems(2-4) n by (intro Cons.IH) auto
  ultimately show ?case using n Cons.prems(2) by auto
qed

lemma cstr_strncpy:
  assumes "0 \<le> n" and "s + nat n \<le> t \<or> t + nat n \<le> s"
  shows "cstr (strncpy m s t n) s (nat n) = cstr m t (nat n)"
    and "cstr (strncpy m s t n) t (nat n) = cstr m t (nat n)"
proof -
  let ?str = "cstr m t (nat n)"
  have "strncpy m s t n (s + i) = (?str @ replicate (nat n) 0) ! i" if "i < nat n" for i
    using strncpy_eq [OF assms, of m "s + i"] that by simp
  then show "cstr (strncpy m s t n) s (nat n) = ?str"
    using length_cstr [of m t "nat n"] cstr_nz [of m t "nat n"]
    by (intro cstr_prefix) (auto simp: nth_append)
  show "cstr (strncpy m s t n) t (nat n) = ?str"
    using strncpy_eq [OF assms, of m] assms(2) by (intro cstr_cong) auto
qed

section \<open>Properties\<close>

text \<open>
  C30. \<^verbatim>\<open>memmove\<close> copies correctly whether or not the two areas overlap: afterwards every byte of the destination
  is the byte the source held before the call, and no other byte has changed.
\<close>

theorem memmove_correct:
  "memmove m dst src n x = (if dst \<le> x \<and> x < dst + n then m (src + (x - dst)) else m x)"
  by (rule memmove_eq)

text \<open>
  C31. A name stored with \<^verbatim>\<open>strncpy\<close> is found again: for separate areas the copy compares equal to the
  original under \<^verbatim>\<open>strncmp\<close> with the same bound, and it compares equal to another string exactly when
  the two strings agree up to the bound.
\<close>

theorem strncpy_strncmp:
  assumes "0 \<le> n" and "s + nat n \<le> t \<or> t + nat n \<le> s"
  shows "strncmp (strncpy m s t n) s t (nat n) = 0 \<and>
    (strncmp (strncpy m s t n) s q (nat n) = 0 \<longleftrightarrow> cstr m t (nat n) = cstr (strncpy m s t n) q (nat n))"
  by (simp add: strncmp_zero_iff cstr_strncpy [OF assms])

theorem strncpy_strncmp_witness:
  "strncmp (strncpy (\<lambda>a. if a < 3 then 65 else 0) 20 0 14) 20 0 14 = 0 \<and>
   strncmp (strncpy (\<lambda>a. if a < 3 then 65 else 0) 20 0 14) 20 1 14 \<noteq> 0"
proof -
  have "cstr (\<lambda>a. if a < 3 then 65 else 0) 0 14 \<noteq>
      cstr (strncpy (\<lambda>a. if a < 3 then 65 else 0) 20 0 14) 1 14" by code_simp
  then show ?thesis
    using strncpy_strncmp [of 14 20 0 "\<lambda>a. if a < 3 then 65 else 0" 1] by simp
qed

text \<open>
  C32. \<^verbatim>\<open>safestrcpy\<close> always terminates its result: for separate areas and a positive bound, the destination holds
  the source cut to \<open>n - 1\<close> characters followed by a zero byte inside the \<open>n\<close> bytes, and nothing outside
  those \<open>n\<close> bytes is written.
\<close>

theorem safestrcpy_correct:
  assumes "0 < n" and "s + nat n \<le> t \<or> t + nat n \<le> s"
  shows "cstr (safestrcpy m s t n) s (nat n) = cstr m t (nat n - 1) \<and>
    safestrcpy m s t n (s + length (cstr m t (nat n - 1))) = 0 \<and>
    length (cstr m t (nat n - 1)) < nat n \<and>
    (\<forall>x. x < s \<or> s + nat n \<le> x \<longrightarrow> safestrcpy m s t n x = m x)"
proof -
  let ?str = "cstr m t (nat n - 1)"
  note e = safestrcpy_eq [OF assms, of m]
  have l: "length ?str < nat n" using length_cstr [of m t "nat n - 1"] assms(1) by simp
  have z: "safestrcpy m s t n (s + length ?str) = 0" unfolding e by simp
  have "cstr (safestrcpy m s t n) s (nat n) = ?str"
    using l z cstr_nz [of m t "nat n - 1"] by (intro cstr_prefix) (auto simp: e)
  moreover have "safestrcpy m s t n x = m x" if "x < s \<or> s + nat n \<le> x" for x
    unfolding e using that l by auto
  ultimately show ?thesis using l z by blast
qed

theorem safestrcpy_correct_witness:
  "cstr (safestrcpy (\<lambda>a. 65) 20 0 4) 20 4 = [65, 65, 65] \<and> safestrcpy (\<lambda>a. 65) 20 0 4 23 = 0"
proof -
  have "cstr (\<lambda>a. 65) 0 3 = [65, 65, 65]" by code_simp
  then show ?thesis using safestrcpy_correct [of 4 20 0 "\<lambda>a. 65"] by simp
qed



end
