(* ===== verification/Spinlock.thy ===== *)
theory Spinlock
  imports Prelude
begin

text \<open>
  \<^verbatim>\<open>kernel/spinlock.c\<close> and \<^verbatim>\<open>kernel/sleeplock.c\<close>.

  First the functions as the source has them, run by one processor.  Then \<open>lk_step\<close>, in which
  \<open>acquire\<close> and \<open>release\<close> of all processors interleave at every access to the lock's fields; the
  fences of the source make those accesses sequentially consistent.
\<close>

section \<open>Interrupts and the nesting counter\<close>

text \<open>
  The part of \<^verbatim>\<open>struct cpu\<close> the locks use.  \<open>intr\<close> is the interrupt enable bit \<^verbatim>\<open>SSTATUS_SIE\<close> of the
  processor, which \<^verbatim>\<open>intr_get\<close>, \<^verbatim>\<open>intr_on\<close> and \<^verbatim>\<open>intr_off\<close> access.
\<close>

record cpu =
  noff :: nat
  intena :: bool
  intr :: bool

definition push_off :: "cpu \<Rightarrow> cpu" where
  "push_off c =
     (let old = intr c;
          c1 = c\<lparr>intr := False\<rparr>;
          c2 = (if noff c1 = 0 then c1\<lparr>intena := old\<rparr> else c1)
      in c2\<lparr>noff := noff c2 + 1\<rparr>)"

definition pop_off :: "cpu \<Rightarrow> cpu result" where
  "pop_off c =
     (if intr c then panic ''pop_off - interruptible''
      else if noff c < 1 then panic ''pop_off''
      else let c1 = c\<lparr>noff := noff c - 1\<rparr>
           in Inr (if noff c1 = 0 \<and> intena c1 then c1\<lparr>intr := True\<rparr> else c1))"

section \<open>Spin locks\<close>

record spinlock =
  locked :: bool
  lk_name :: string
  lk_cpu :: "nat option"

definition initlock :: "string \<Rightarrow> spinlock" where
  "initlock nm = \<lparr>locked = False, lk_name = nm, lk_cpu = None\<rparr>"

definition holding :: "spinlock \<Rightarrow> nat \<Rightarrow> bool" where
  "holding lk me \<longleftrightarrow> locked lk \<and> lk_cpu lk = Some me"

text \<open>
  \<^verbatim>\<open>acquire\<close> run alone: \<open>None\<close> when the lock is taken, since then the loop spins until another processor
  releases it.
\<close>

definition acquire :: "spinlock \<Rightarrow> nat \<Rightarrow> cpu \<Rightarrow> (spinlock \<times> cpu) result option" where
  "acquire lk me c =
     (let c1 = push_off c
      in if holding lk me then Some (panic ''acquire'')
         else if locked lk then None
         else Some (Inr (lk\<lparr>locked := True, lk_cpu := Some me\<rparr>, c1)))"

definition release :: "spinlock \<Rightarrow> nat \<Rightarrow> cpu \<Rightarrow> (spinlock \<times> cpu) result" where
  "release lk me c =
     (if \<not> holding lk me then panic ''release''
      else ebind (pop_off c) (\<lambda>c1. Inr (lk\<lparr>lk_cpu := None, locked := False\<rparr>, c1)))"

section \<open>Interleaved acquire and release\<close>

text \<open>
  Where a processor is inside the two functions.  \<open>Chk\<close> and \<open>Chk2\<close> are the two reads of \<^verbatim>\<open>holding\<close> in
  \<^verbatim>\<open>acquire\<close>, \<open>Spin\<close> the atomic swap, \<open>Got\<close> the write of the \<^verbatim>\<open>cpu\<close> field, \<open>In\<close> the critical section,
  \<open>RChk\<close> and \<open>RChk2\<close> the reads of \<^verbatim>\<open>holding\<close> in \<^verbatim>\<open>release\<close>, and \<open>Rel1\<close> to \<open>Rel3\<close> its two writes and the
  call of \<^verbatim>\<open>pop_off\<close>.
\<close>

datatype pc = Out | Chk | Chk2 | Spin | Got | In | RChk | RChk2 | Rel1 | Rel2 | Rel3 | Stop string

record sys =
  lk :: spinlock
  pcs :: "nat \<Rightarrow> pc"
  cpus :: "nat \<Rightarrow> cpu"

definition goto :: "sys \<Rightarrow> nat \<Rightarrow> pc \<Rightarrow> sys" where
  "goto s i p = s\<lparr>pcs := (pcs s)(i := p)\<rparr>"

inductive lk_step :: "sys \<Rightarrow> sys \<Rightarrow> bool" where
  enter: "pcs s i = Out \<Longrightarrow>
    lk_step s ((goto s i Chk)\<lparr>cpus := (cpus s)(i := push_off (cpus s i))\<rparr>)"
| chk: "pcs s i = Chk \<Longrightarrow> lk_step s (goto s i (if locked (lk s) then Chk2 else Spin))"
| chk2: "pcs s i = Chk2 \<Longrightarrow>
    lk_step s (goto s i (if lk_cpu (lk s) = Some i then Stop ''acquire'' else Spin))"
| swap: "pcs s i = Spin \<Longrightarrow>
    lk_step s ((goto s i (if locked (lk s) then Spin else Got))\<lparr>lk := (lk s)\<lparr>locked := True\<rparr>\<rparr>)"
| record_cpu: "pcs s i = Got \<Longrightarrow> lk_step s ((goto s i In)\<lparr>lk := (lk s)\<lparr>lk_cpu := Some i\<rparr>\<rparr>)"
| leave: "pcs s i = In \<Longrightarrow> lk_step s (goto s i RChk)"
| rchk: "pcs s i = RChk \<Longrightarrow> lk_step s (goto s i (if locked (lk s) then RChk2 else Stop ''release''))"
| rchk2: "pcs s i = RChk2 \<Longrightarrow>
    lk_step s (goto s i (if lk_cpu (lk s) = Some i then Rel1 else Stop ''release''))"
| clear_cpu: "pcs s i = Rel1 \<Longrightarrow> lk_step s ((goto s i Rel2)\<lparr>lk := (lk s)\<lparr>lk_cpu := None\<rparr>\<rparr>)"
| unlock: "pcs s i = Rel2 \<Longrightarrow> lk_step s ((goto s i Rel3)\<lparr>lk := (lk s)\<lparr>locked := False\<rparr>\<rparr>)"
| exit: "pcs s i = Rel3 \<Longrightarrow> pop_off (cpus s i) = Inr c \<Longrightarrow>
    lk_step s ((goto s i Out)\<lparr>cpus := (cpus s)(i := c)\<rparr>)"
| exit_panic: "pcs s i = Rel3 \<Longrightarrow> pop_off (cpus s i) = Inl (Panic msg) \<Longrightarrow> lk_step s (goto s i (Stop msg))"

inductive lk_steps :: "sys \<Rightarrow> sys \<Rightarrow> bool" where
  refl: "lk_steps s s"
| step: "lk_steps s t \<Longrightarrow> lk_step t u \<Longrightarrow> lk_steps s u"

inductive_cases lk_stepE: "lk_step s t"

text \<open>The processors that own the lock, and those whose number the \<^verbatim>\<open>cpu\<close> field holds.\<close>

definition owns :: "pc \<Rightarrow> bool" where
  "owns p \<longleftrightarrow> p \<in> {Got, In, RChk, RChk2, Rel1, Rel2}"

definition recorded :: "pc \<Rightarrow> bool" where
  "recorded p \<longleftrightarrow> p \<in> {In, RChk, RChk2, Rel1}"

definition stopped :: "pc \<Rightarrow> bool" where
  "stopped p \<longleftrightarrow> (\<exists>msg. p = Stop msg)"

definition lk_inv :: "sys \<Rightarrow> bool" where
  "lk_inv s \<longleftrightarrow>
     (\<forall>i j. owns (pcs s i) \<longrightarrow> owns (pcs s j) \<longrightarrow> i = j) \<and>
     (locked (lk s) \<longleftrightarrow> (\<exists>i. owns (pcs s i))) \<and>
     (\<forall>i. lk_cpu (lk s) = Some i \<longleftrightarrow> recorded (pcs s i)) \<and>
     (\<forall>i. \<not> stopped (pcs s i)) \<and>
     (\<forall>i. pcs s i \<noteq> Out \<longrightarrow> \<not> intr (cpus s i) \<and> 0 < noff (cpus s i))"

lemma owns_simps [simp]:
  "owns Got" "owns In" "owns RChk" "owns RChk2" "owns Rel1" "owns Rel2"
  "\<not> owns Out" "\<not> owns Chk" "\<not> owns Chk2" "\<not> owns Spin" "\<not> owns Rel3" "\<not> owns (Stop m)"
  by (simp_all add: owns_def)

lemma recorded_simps [simp]:
  "recorded In" "recorded RChk" "recorded RChk2" "recorded Rel1" "\<not> recorded Got" "\<not> recorded Rel2"
  "\<not> recorded Out" "\<not> recorded Chk" "\<not> recorded Chk2" "\<not> recorded Spin" "\<not> recorded Rel3"
  "\<not> recorded (Stop m)"
  by (simp_all add: recorded_def)

lemma stopped_simps [simp]:
  "stopped (Stop m)" "\<not> stopped Out" "\<not> stopped Chk" "\<not> stopped Chk2" "\<not> stopped Spin" "\<not> stopped Got"
  "\<not> stopped In" "\<not> stopped RChk" "\<not> stopped RChk2" "\<not> stopped Rel1" "\<not> stopped Rel2" "\<not> stopped Rel3"
  by (auto simp: stopped_def)

lemma recorded_owns: "recorded p \<Longrightarrow> owns p"
  by (auto simp: recorded_def owns_def)

lemma push_off_off [simp]: "\<not> intr (push_off c)" "0 < noff (push_off c)"
  by (auto simp: push_off_def Let_def)

lemma pop_off_ok: "\<not> intr c \<Longrightarrow> 0 < noff c \<Longrightarrow> \<exists>c'. pop_off c = Inr c'"
  by (simp add: pop_off_def Let_def)

lemma lk_invD:
  assumes "lk_inv s"
  shows "owns (pcs s i) \<Longrightarrow> owns (pcs s j) \<Longrightarrow> i = j"
    and "locked (lk s) \<longleftrightarrow> (\<exists>i. owns (pcs s i))"
    and "lk_cpu (lk s) = Some i \<longleftrightarrow> recorded (pcs s i)"
    and "\<not> stopped (pcs s i)"
    and "pcs s i \<noteq> Out \<Longrightarrow> \<not> intr (cpus s i) \<and> 0 < noff (cpus s i)"
  using assms unfolding lk_inv_def by blast+

text \<open>A move of one processor keeps the invariant if it agrees with the lock's new fields.\<close>

lemma lk_inv_move:
  assumes inv: "lk_inv s"
    and t: "pcs t = (pcs s)(i := p)" "\<And>j. j \<noteq> i \<Longrightarrow> cpus t j = cpus s j"
    and p: "\<not> stopped p" "p \<noteq> Out \<longrightarrow> \<not> intr (cpus t i) \<and> 0 < noff (cpus t i)"
    and own: "owns p \<Longrightarrow> \<forall>j. j \<noteq> i \<longrightarrow> \<not> owns (pcs s j)"
    and l: "locked (lk t) \<longleftrightarrow> owns p \<or> (\<exists>j. j \<noteq> i \<and> owns (pcs s j))"
    and c: "lk_cpu (lk t) = Some i \<longleftrightarrow> recorded p"
      "\<And>j. j \<noteq> i \<Longrightarrow> lk_cpu (lk t) = Some j \<longleftrightarrow> recorded (pcs s j)"
  shows "lk_inv t"
proof -
  note d = lk_invD [OF inv]
  have at: "pcs t j = (if j = i then p else pcs s j)" for j using t(1) by simp
  have "a = b" if "owns (pcs t a)" "owns (pcs t b)" for a b
    using that d(1) [of a b] own by (auto simp: at split: if_splits)
  moreover have "locked (lk t) \<longleftrightarrow> (\<exists>i. owns (pcs t i))" unfolding l at by (metis (full_types))
  moreover have "lk_cpu (lk t) = Some j \<longleftrightarrow> recorded (pcs t j)" for j
    using c by (cases "j = i") (simp_all add: at)
  moreover have "\<not> stopped (pcs t j)" for j using d(4) [of j] p(1) by (simp add: at)
  moreover have "\<not> intr (cpus t j) \<and> 0 < noff (cpus t j)" if "pcs t j \<noteq> Out" for j
    using that p(2) t(2) d(5) [of j] by (cases "j = i") (simp_all add: at)
  ultimately show ?thesis unfolding lk_inv_def by blast
qed

lemma lk_inv_keep:
  assumes inv: "lk_inv s"
    and t: "pcs t = (pcs s)(i := p)" "\<And>j. j \<noteq> i \<Longrightarrow> cpus t j = cpus s j" "lk t = lk s"
    and p: "\<not> stopped p" "p \<noteq> Out \<longrightarrow> \<not> intr (cpus t i) \<and> 0 < noff (cpus t i)"
    and k: "owns p = owns (pcs s i)" "recorded p = recorded (pcs s i)"
  shows "lk_inv t"
proof (rule lk_inv_move [OF inv t(1,2) p])
  note d = lk_invD [OF inv]
  show "owns p \<Longrightarrow> \<forall>j. j \<noteq> i \<longrightarrow> \<not> owns (pcs s j)" using d(1) k(1) by blast
  show "locked (lk t) \<longleftrightarrow> owns p \<or> (\<exists>j. j \<noteq> i \<and> owns (pcs s j))"
    using d(2) k(1) t(3) by metis
  show "lk_cpu (lk t) = Some i \<longleftrightarrow> recorded p" using d(3) k(2) t(3) by simp
  show "lk_cpu (lk t) = Some j \<longleftrightarrow> recorded (pcs s j)" for j using d(3) t(3) by simp
qed

lemma lk_step_inv: "lk_step s t \<Longrightarrow> lk_inv s \<Longrightarrow> lk_inv t"
proof (induction rule: lk_step.induct)
  case (enter s i)
  show ?case by (rule lk_inv_keep [OF enter(2), of _ i Chk]) (use enter(1) in \<open>simp_all add: goto_def\<close>)
next
  case (chk s i)
  show ?case
    by (rule lk_inv_keep [OF chk(2), of _ i "if locked (lk s) then Chk2 else Spin"])
      (use chk(1) lk_invD(5) [OF chk(2), of i] in \<open>simp_all add: goto_def\<close>)
next
  case (chk2 s i)
  show ?case
    by (rule lk_inv_keep [OF chk2(2), of _ i Spin])
      (use chk2(1) lk_invD(3,5) [OF chk2(2), of i] in \<open>simp_all add: goto_def\<close>)
next
  case (swap s i)
  note d = lk_invD [OF swap(2)]
  show ?case
  proof (cases "locked (lk s)")
    case True
    show ?thesis
      by (rule lk_inv_keep [OF swap(2), of _ i Spin]) (use True swap(1) d(5) [of i] in \<open>simp_all add: goto_def\<close>)
  next
    case False
    then have no: "\<not> owns (pcs s j)" for j using d(2) by blast
    then have nr: "\<not> recorded (pcs s j)" for j using recorded_owns by blast
    show ?thesis
      by (rule lk_inv_move [OF swap(2), of _ i Got])
        (use swap(1) d(5) [of i] d(3) False no nr in \<open>simp_all add: goto_def\<close>)
  qed
next
  case (record_cpu s i)
  note d = lk_invD [OF record_cpu(2)]
  have o: "\<not> owns (pcs s j)" if "j \<noteq> i" for j using d(1) [of i j] record_cpu(1) that by auto
  then have nr: "\<not> recorded (pcs s j)" if "j \<noteq> i" for j using recorded_owns that by blast
  have l: "locked (lk s)" using d(2) record_cpu(1) by (auto intro: exI [of _ i])
  show ?case
    by (rule lk_inv_move [OF record_cpu(2), of _ i In])
      (use record_cpu(1) d(5) [of i] o nr l in \<open>auto simp: goto_def\<close>)
next
  case (leave s i)
  show ?case
    by (rule lk_inv_keep [OF leave(2), of _ i RChk])
      (use leave(1) lk_invD(5) [OF leave(2), of i] in \<open>simp_all add: goto_def\<close>)
next
  case (rchk s i)
  have l: "locked (lk s)" using lk_invD(2) [OF rchk(2)] rchk(1) by (auto intro: exI [of _ i])
  show ?case
    by (rule lk_inv_keep [OF rchk(2), of _ i RChk2])
      (use rchk(1) l lk_invD(5) [OF rchk(2), of i] in \<open>simp_all add: goto_def\<close>)
next
  case (rchk2 s i)
  show ?case
    by (rule lk_inv_keep [OF rchk2(2), of _ i Rel1])
      (use rchk2(1) lk_invD(3,5) [OF rchk2(2), of i] in \<open>simp_all add: goto_def\<close>)
next
  case (clear_cpu s i)
  note d = lk_invD [OF clear_cpu(2)]
  have o: "\<not> owns (pcs s j)" if "j \<noteq> i" for j using d(1) [of i j] clear_cpu(1) that by auto
  then have nr: "\<not> recorded (pcs s j)" if "j \<noteq> i" for j using recorded_owns that by blast
  have l: "locked (lk s)" using d(2) clear_cpu(1) by (auto intro: exI [of _ i])
  show ?case
    by (rule lk_inv_move [OF clear_cpu(2), of _ i Rel2])
      (use clear_cpu(1) d(5) [of i] o nr l in \<open>auto simp: goto_def\<close>)
next
  case (unlock s i)
  note d = lk_invD [OF unlock(2)]
  have o: "\<not> owns (pcs s j)" if "j \<noteq> i" for j using d(1) [of i j] unlock(1) that by auto
  then have nr: "\<not> recorded (pcs s j)" if "j \<noteq> i" for j using recorded_owns that by blast
  have c: "lk_cpu (lk s) \<noteq> Some j" for j using d(3) [of j] nr unlock(1) by (cases "j = i") auto
  show ?case
    by (rule lk_inv_move [OF unlock(2), of _ i Rel3])
      (use unlock(1) d(5) [of i] o nr c in \<open>auto simp: goto_def\<close>)
next
  case (exit s i c)
  show ?case by (rule lk_inv_keep [OF exit(3), of _ i Out]) (use exit(1) in \<open>simp_all add: goto_def\<close>)
next
  case (exit_panic s i msg)
  then show ?case using lk_invD(5) [OF exit_panic(3), of i] pop_off_ok [of "cpus s i"] by auto
qed

lemma lk_steps_inv: "lk_steps s t \<Longrightarrow> lk_inv s \<Longrightarrow> lk_inv t"
  by (induction rule: lk_steps.induct) (auto intro: lk_step_inv)

text \<open>The start: the lock is free and no processor is inside.\<close>

definition lk_init :: "string \<Rightarrow> (nat \<Rightarrow> cpu) \<Rightarrow> sys" where
  "lk_init nm cs = \<lparr>lk = initlock nm, pcs = (\<lambda>_. Out), cpus = cs\<rparr>"

lemma lk_init_inv: "lk_inv (lk_init nm cs)"
  by (simp add: lk_inv_def lk_init_def initlock_def)

text \<open>
  A processor's counter and interrupt bits relative to the start.  A processor that has interrupts off
  because of another lock it holds starts with a positive counter.
\<close>

definition cpu_ok :: "cpu \<Rightarrow> bool" where
  "cpu_ok c \<longleftrightarrow> (0 < noff c \<longrightarrow> \<not> intr c)"

definition irq_inv :: "(nat \<Rightarrow> cpu) \<Rightarrow> sys \<Rightarrow> bool" where
  "irq_inv cs s \<longleftrightarrow> (\<forall>i.
     if pcs s i = Out then intr (cpus s i) = intr (cs i) \<and> noff (cpus s i) = noff (cs i)
     else noff (cpus s i) = noff (cs i) + 1 \<and> \<not> intr (cpus s i) \<and>
       (noff (cs i) = 0 \<longrightarrow> intena (cpus s i) = intr (cs i)))"

lemma irq_inv_step: "lk_step s t \<Longrightarrow> (\<And>i. cpu_ok (cs i)) \<Longrightarrow> irq_inv cs s \<Longrightarrow> irq_inv cs t"
proof (induction rule: lk_step.induct)
  case (exit s i c)
  then have "irq_inv cs s" and e: "pcs s i = Rel3" "pop_off (cpus s i) = Inr c" by auto
  then have "noff (cpus s i) = noff (cs i) + 1" "\<not> intr (cpus s i)"
    "noff (cs i) = 0 \<longrightarrow> intena (cpus s i) = intr (cs i)"
    unfolding irq_inv_def by (auto dest: spec [of _ i])
  then have "intr c = intr (cs i) \<and> noff c = noff (cs i)"
    using e(2) exit(3) [of i] by (auto simp: pop_off_def cpu_ok_def Let_def split: if_splits)
  then show ?case using \<open>irq_inv cs s\<close> by (simp add: irq_inv_def goto_def)
next
  case (enter s i)
  then have "irq_inv cs s" "intr (cpus s i) = intr (cs i)" "noff (cpus s i) = noff (cs i)"
    unfolding irq_inv_def by (auto dest: spec [of _ i])
  then show ?case by (simp add: irq_inv_def goto_def push_off_def Let_def)
qed (auto simp: irq_inv_def goto_def)

lemma irq_inv_steps: "lk_steps s t \<Longrightarrow> (\<And>i. cpu_ok (cs i)) \<Longrightarrow> irq_inv cs s \<Longrightarrow> irq_inv cs t"
  by (induction rule: lk_steps.induct) (auto intro: irq_inv_step)

section \<open>Sleep locks\<close>

text \<open>
  The spin lock inside a sleep lock makes each function one atomic operation.  \<open>None\<close>: the caller sleeps on
  the lock and tests again when it is woken.
\<close>

record sleeplock =
  slocked :: bool
  spid :: nat

definition initsleeplock :: sleeplock where
  "initsleeplock = \<lparr>slocked = False, spid = 0\<rparr>"

definition acquiresleep :: "sleeplock \<Rightarrow> nat \<Rightarrow> sleeplock option" where
  "acquiresleep l pid = (if slocked l then None else Some (l\<lparr>slocked := True, spid := pid\<rparr>))"

definition releasesleep :: "sleeplock \<Rightarrow> sleeplock" where
  "releasesleep l = l\<lparr>slocked := False, spid := 0\<rparr>"

definition holdingsleep :: "sleeplock \<Rightarrow> nat \<Rightarrow> bool" where
  "holdingsleep l pid \<longleftrightarrow> slocked l \<and> spid l = pid"

section \<open>Properties\<close>

text \<open>
  C8. Spin locks exclude: however the processors interleave, at most one of them is between the swap that
  took the lock and the store that frees it, no call panics, \<^verbatim>\<open>holding\<close> is true on the processor in the
  critical section and false on every processor that does not own the lock, and interrupts are off on
  every processor inside \<^verbatim>\<open>acquire\<close>, the critical section or \<^verbatim>\<open>release\<close>.
\<close>

theorem spinlock_mutual_exclusion:
  assumes "lk_steps (lk_init nm cs) s"
  shows "(\<forall>i j. owns (pcs s i) \<and> owns (pcs s j) \<longrightarrow> i = j) \<and> (\<forall>i msg. pcs s i \<noteq> Stop msg) \<and>
    (\<forall>i. pcs s i = In \<longrightarrow> holding (lk s) i) \<and> (\<forall>i. \<not> owns (pcs s i) \<longrightarrow> \<not> holding (lk s) i) \<and>
    (\<forall>i. pcs s i \<noteq> Out \<longrightarrow> \<not> intr (cpus s i))"
proof -
  note d = lk_invD [OF lk_steps_inv [OF assms lk_init_inv]]
  have "holding (lk s) i" if "pcs s i = In" for i
    using d(2) d(3) [of i] that by (auto simp: holding_def intro: exI [of _ i])
  moreover have "\<not> holding (lk s) i" if "\<not> owns (pcs s i)" for i
    using d(3) [of i] that recorded_owns by (auto simp: holding_def)
  moreover have "pcs s i \<noteq> Stop msg" for i msg using d(4) [of i] by auto
  ultimately show ?thesis using d(1,5) by blast
qed

text \<open>The first four steps of processor 0, followed by two of processor 1, which then spins.\<close>

definition cpu_on :: cpu where
  "cpu_on = \<lparr>noff = 0, intena = False, intr = True\<rparr>"

lemma run_example:
  "\<exists>s. lk_steps (lk_init ''ex'' (\<lambda>_. cpu_on)) s \<and> pcs s 0 = In \<and> pcs s 1 = Chk2 \<and> pcs s 7 = Out"
proof -
  let ?s0 = "lk_init ''ex'' (\<lambda>_. cpu_on)"
  let ?s1 = "(goto ?s0 0 Chk)\<lparr>cpus := (cpus ?s0)(0 := push_off (cpus ?s0 0))\<rparr>"
  let ?s2 = "goto ?s1 0 Spin"
  let ?s3 = "(goto ?s2 0 Got)\<lparr>lk := (lk ?s2)\<lparr>locked := True\<rparr>\<rparr>"
  let ?s4 = "(goto ?s3 0 In)\<lparr>lk := (lk ?s3)\<lparr>lk_cpu := Some 0\<rparr>\<rparr>"
  let ?s5 = "(goto ?s4 1 Chk)\<lparr>cpus := (cpus ?s4)(1 := push_off (cpus ?s4 1))\<rparr>"
  let ?s6 = "goto ?s5 1 Chk2"
  note d = lk_init_def initlock_def goto_def
  have "lk_step ?s0 ?s1" by (rule lk_step.enter) (simp add: d)
  moreover have "lk_step ?s1 ?s2" using lk_step.chk [of ?s1 0] by (simp add: d)
  moreover have "lk_step ?s2 ?s3" using lk_step.swap [of ?s2 0] by (simp add: d)
  moreover have "lk_step ?s3 ?s4" by (rule lk_step.record_cpu) (simp add: d)
  moreover have "lk_step ?s4 ?s5" by (rule lk_step.enter) (simp add: d)
  moreover have "lk_step ?s5 ?s6" using lk_step.chk [of ?s5 1] by (simp add: d)
  ultimately have "lk_steps ?s0 ?s6" by (meson lk_steps.intros)
  then show ?thesis by (intro exI [of _ ?s6]) (simp add: d)
qed

theorem spinlock_mutual_exclusion_witness:
  "\<exists>s. lk_steps (lk_init ''ex'' (\<lambda>_. cpu_on)) s \<and> pcs s 0 = In \<and> holding (lk s) 0 \<and> \<not> holding (lk s) 1"
proof -
  obtain s where s: "lk_steps (lk_init ''ex'' (\<lambda>_. cpu_on)) s" "pcs s 0 = In" "pcs s 1 = Chk2"
    using run_example by blast
  then show ?thesis using spinlock_mutual_exclusion [OF s(1)] by auto
qed



end
