(* ===== verification/PhysMem.thy ===== *)
theory PhysMem
  imports CString
begin

text \<open>
  Physical memory: the bytes of \<open>CString\<close> with 64-bit little-endian loads and stores, pages, and
  the constants and macros of \<^verbatim>\<open>kernel/riscv.h\<close> and \<^verbatim>\<open>kernel/memlayout.h\<close> that describe page tables and
  the layout of memory.  Virtual addresses and page table entries are 64-bit words, physical
  addresses natural numbers.
\<close>

section \<open>Words in memory\<close>

definition ld64 :: "mem \<Rightarrow> addr \<Rightarrow> uint64" where
  "ld64 m a = ucast (m a) OR push_bit 8 (ucast (m (a + 1))) OR push_bit 16 (ucast (m (a + 2)))
     OR push_bit 24 (ucast (m (a + 3))) OR push_bit 32 (ucast (m (a + 4)))
     OR push_bit 40 (ucast (m (a + 5))) OR push_bit 48 (ucast (m (a + 6)))
     OR push_bit 56 (ucast (m (a + 7)))"

definition sd64 :: "mem \<Rightarrow> addr \<Rightarrow> uint64 \<Rightarrow> mem" where
  "sd64 m a v = (\<lambda>x. if a \<le> x \<and> x < a + 8 then ucast (drop_bit (8 * (x - a)) v) else m x)"

lemma bit_byte_high: "8 \<le> n \<Longrightarrow> \<not> bit (b::byte) n"
  using bit_imp_le_length [of b n] by auto

lemma bit_ld64_byte: "k < 8 \<Longrightarrow> r < 8 \<Longrightarrow> bit (ld64 m a) (8 * k + r) = bit (m (a + k)) r"
proof -
  assume "k < 8" and r: "r < 8"
  then consider "k = 0" | "k = 1" | "k = 2" | "k = 3" | "k = 4" | "k = 5" | "k = 6" | "k = 7" by linarith
  then show ?thesis
    using r by cases (simp_all add: ld64_def bit_simps bit_byte_high)
qed

lemma bit_ld64: "n < 64 \<Longrightarrow> bit (ld64 m a) n = bit (m (a + n div 8)) (n mod 8)"
  using bit_ld64_byte [of "n div 8" "n mod 8" m a] by simp

lemma ld64_sd64 [simp]: "ld64 (sd64 m a v) a = v"
proof (rule bit_word_eqI)
  fix n assume "n < LENGTH(64)"
  then have n: "n < 64" by simp
  have "n mod 8 < 8" "n = 8 * (n div 8) + n mod 8" "n div 8 < 8" using n by auto
  then show "bit (ld64 (sd64 m a v) a) n = bit v n"
    using n by (simp add: bit_ld64 sd64_def bit_simps)
qed

lemma ld64_cong: "(\<And>x. a \<le> x \<Longrightarrow> x < a + 8 \<Longrightarrow> m x = m' x) \<Longrightarrow> ld64 m a = ld64 m' a"
  by (simp add: ld64_def)

lemma ld64_sd64_other: "b + 8 \<le> a \<or> a + 8 \<le> b \<Longrightarrow> ld64 (sd64 m a v) b = ld64 m b"
  by (rule ld64_cong) (auto simp: sd64_def)

lemma sd64_frame: "x < a \<or> a + 8 \<le> x \<Longrightarrow> sd64 m a v x = m x"
  by (auto simp: sd64_def)

lemma ld64_zero: "(\<And>x. a \<le> x \<Longrightarrow> x < a + 8 \<Longrightarrow> m x = 0) \<Longrightarrow> ld64 m a = 0"
  by (simp add: ld64_def)

section \<open>Layout and page table entries\<close>

definition PGSIZE :: nat where
  "PGSIZE = 4096"

definition KERNBASE :: nat where
  "KERNBASE = 0x80000000"

definition PHYSTOP :: nat where
  "PHYSTOP = KERNBASE + 128 * 1024 * 1024"

definition PGROUNDUP :: "uint64 \<Rightarrow> uint64" where
  "PGROUNDUP sz = (sz + 4096 - 1) AND NOT (4096 - 1)"

definition PGROUNDDOWN :: "uint64 \<Rightarrow> uint64" where
  "PGROUNDDOWN a = a AND NOT (4096 - 1)"

definition PTE_V :: uint64 where "PTE_V = 1"
definition PTE_R :: uint64 where "PTE_R = 2"
definition PTE_W :: uint64 where "PTE_W = 4"
definition PTE_X :: uint64 where "PTE_X = 8"
definition PTE_U :: uint64 where "PTE_U = 16"

definition PA2PTE :: "uint64 \<Rightarrow> uint64" where
  "PA2PTE pa = push_bit 10 (drop_bit 12 pa)"

definition PTE2PA :: "uint64 \<Rightarrow> uint64" where
  "PTE2PA pte = push_bit 12 (drop_bit 10 pte)"

definition PTE_FLAGS :: "uint64 \<Rightarrow> uint64" where
  "PTE_FLAGS pte = pte AND 0x3FF"

definition PXMASK :: uint64 where
  "PXMASK = 0x1FF"

definition PXSHIFT :: "nat \<Rightarrow> nat" where
  "PXSHIFT level = 12 + 9 * level"

definition PX :: "nat \<Rightarrow> uint64 \<Rightarrow> nat" where
  "PX level va = unat (drop_bit (PXSHIFT level) va AND PXMASK)"

definition MAXVA :: uint64 where
  "MAXVA = push_bit (9 + 9 + 9 + 12 - 1) 1"

definition TRAMPOLINE :: uint64 where
  "TRAMPOLINE = MAXVA - 4096"

definition TRAPFRAME :: uint64 where
  "TRAPFRAME = TRAMPOLINE - 4096"

definition KSTACK :: "nat \<Rightarrow> uint64" where
  "KSTACK p = TRAMPOLINE - of_nat ((p + 1) * 2 * PGSIZE)"

section \<open>Arithmetic of pages\<close>

lemma low_mask: "(4096 - 1 :: uint64) = mask 12" "(0x3FF :: uint64) = mask 10" "(0x1FF :: uint64) = mask 9"
  by (simp_all add: mask_eq_exp_minus_1)

lemma and_not_mask: "(a::uint64) AND NOT (mask 12) = push_bit 12 (drop_bit 12 a)"
  by (rule bit_word_eqI) (auto simp: bit_simps)

lemma unat_push_drop: "unat (push_bit k (drop_bit k (a::uint64))) = unat a div 2 ^ k * 2 ^ k"
proof -
  have d: "unat (drop_bit k a) = unat a div 2 ^ k" by (simp add: unat_drop_bit_eq drop_bit_eq_div [of k "unat a"])
  have "unat a < 2 ^ LENGTH(64)" by (rule unsigned_less)
  then have "unat a < 2 ^ 64" by simp
  then have "unat a div 2 ^ k * 2 ^ k < 2 ^ 64"
    using div_times_less_eq_dividend [of "unat a" "2 ^ k"] by linarith
  then have "take_bit 64 (unat a div 2 ^ k * 2 ^ k) = unat a div 2 ^ k * 2 ^ k"
    by (simp only: take_bit_nat_eq_self_iff)
  then show ?thesis
    unfolding unsigned_push_bit_eq d push_bit_eq_mult [of k "unat a div 2 ^ k"] by simp
qed

lemma PGROUNDDOWN_unat: "unat (PGROUNDDOWN a) = unat a div 4096 * 4096"
  unfolding PGROUNDDOWN_def low_mask and_not_mask using unat_push_drop [of 12 a] by simp

lemma PGROUNDUP_unat:
  assumes "unat n + 4095 < 2 ^ 64"
  shows "unat (PGROUNDUP n) = (unat n + 4095) div 4096 * 4096"
proof -
  have "n + 4096 - 1 = 4095 + n" by simp
  moreover have "unat (4095 + n) = unat n + 4095" using assms by (simp add: unat_word_ariths)
  ultimately show ?thesis
    unfolding PGROUNDUP_def low_mask and_not_mask using unat_push_drop [of 12 "4095 + n"] by simp
qed

lemma bit_flags: "f < 0x400 \<Longrightarrow> 10 \<le> n \<Longrightarrow> \<not> bit (f::uint64) n"
proof -
  assume f: "f < 0x400" and n: "10 \<le> n"
  have "unat f < 2 ^ 10" using f by (simp add: word_less_nat_alt)
  then have "take_bit 10 (unat f) = unat f" by (simp only: take_bit_nat_eq_self_iff)
  then have "bit (unat f) n = (n < 10 \<and> bit (unat f) n)" using bit_take_bit_iff [of 10 "unat f" n] by simp
  then show ?thesis using n by (simp add: bit_unsigned_iff)
qed

lemma bit_aligned: "unat (pa::uint64) mod 4096 = 0 \<Longrightarrow> n < 12 \<Longrightarrow> \<not> bit pa n"
proof -
  assume a: "unat pa mod 4096 = 0" and n: "n < 12"
  have "take_bit 12 (unat pa) = 0" using a by (simp add: take_bit_eq_mod)
  then have "\<not> bit (unat pa) n" using bit_take_bit_iff [of 12 "unat pa" n] n by simp
  then show ?thesis using bit_imp_le_length [of pa n] by (auto simp: bit_unsigned_iff)
qed

lemma PTE2PA_PA2PTE:
  assumes "unat pa mod 4096 = 0" and "f < 0x400"
  shows "PTE2PA (PA2PTE pa OR f) = pa"
proof (rule bit_word_eqI)
  fix n
  have "bit pa n \<Longrightarrow> 12 \<le> n" using bit_aligned [OF assms(1), of n] by linarith
  moreover assume "n < LENGTH(64)"
  ultimately show "bit (PTE2PA (PA2PTE pa OR f)) n = bit pa n"
    by (auto simp: PTE2PA_def PA2PTE_def bit_simps bit_flags [OF assms(2)])
qed

lemma PTE_FLAGS_PA2PTE:
  assumes "f < 0x400"
  shows "PTE_FLAGS (PA2PTE pa OR f) = f"
  unfolding PTE_FLAGS_def PA2PTE_def low_mask
  by (rule bit_word_eqI) (auto simp: bit_simps dest: bit_flags [OF assms] simp: not_le [symmetric])

lemma PTE2PA_aligned: "unat (PTE2PA pte) mod 4096 = 0"
proof -
  have "unat (PTE2PA pte) mod 2 ^ 12 = take_bit 12 (take_bit 64 (push_bit 12 (unat (drop_bit 10 pte))))"
    by (simp only: PTE2PA_def unsigned_push_bit_eq take_bit_eq_mod [of 12]) simp
  also have "\<dots> = 0" by (rule bit_eqI) (simp add: bit_simps)
  finally show ?thesis by simp
qed

lemma PX_bound: "PX level va < 512"
proof -
  have "unat (drop_bit (PXSHIFT level) va AND mask 9) = take_bit 9 (unat (drop_bit (PXSHIFT level) va))"
    by (simp only: take_bit_eq_mask [symmetric] unsigned_take_bit_eq)
  then show ?thesis by (simp add: PX_def PXMASK_def low_mask take_bit_eq_mod)
qed

end
