(* ===== verification/Kalloc.thy ===== *)
theory Kalloc
  imports PhysMem
begin

text \<open>
  \<^verbatim>\<open>kernel/kalloc.c\<close>: the allocator of whole pages.  The free list is threaded through the free pages
  themselves, so the state is the physical memory and the head of the list; 0 is the null pointer.
  \<open>kend\<close> is the linker's symbol \<^verbatim>\<open>end\<close>, the first address after the kernel.
\<close>

section \<open>Operations\<close>

record pmem =
  ram :: mem
  freelist :: addr
  kend :: addr

definition kfree :: "pmem \<Rightarrow> addr \<Rightarrow> pmem result" where
  "kfree s pa =
     (if pa mod PGSIZE \<noteq> 0 \<or> pa < kend s \<or> pa \<ge> PHYSTOP then panic ''kfree''
      else let m = memset (ram s) pa 1 PGSIZE
           in Inr (s\<lparr>ram := sd64 m pa (of_nat (freelist s)), freelist := pa\<rparr>))"

definition kalloc :: "pmem \<Rightarrow> addr \<times> pmem" where
  "kalloc s =
     (let r = freelist s;
          s1 = (if r \<noteq> 0 then s\<lparr>freelist := unat (ld64 (ram s) r)\<rparr> else s)
      in (r, if r \<noteq> 0 then s1\<lparr>ram := memset (ram s1) r 5 PGSIZE\<rparr> else s1))"

function freerange_loop :: "pmem \<Rightarrow> addr \<Rightarrow> addr \<Rightarrow> pmem result" where
  "freerange_loop s p pa_end =
     (if p + PGSIZE \<le> pa_end then ebind (kfree s p) (\<lambda>t. freerange_loop t (p + PGSIZE) pa_end)
      else Inr s)"
  by pat_completeness auto
termination
  by (relation "measure (\<lambda>(s, p, pa_end). pa_end - p)") (auto simp: PGSIZE_def)

declare freerange_loop.simps [simp del]

definition freerange :: "pmem \<Rightarrow> addr \<Rightarrow> addr \<Rightarrow> pmem result" where
  "freerange s pa_start pa_end = freerange_loop s (unat (PGROUNDUP (of_nat pa_start))) pa_end"

text \<open>Before \<^verbatim>\<open>kinit\<close> runs the list is empty: \<^verbatim>\<open>kmem\<close> lies in zeroed memory.\<close>

definition kinit :: "pmem \<Rightarrow> pmem result" where
  "kinit s = freerange s (kend s) PHYSTOP"

section \<open>The free list\<close>

definition page :: "addr \<Rightarrow> addr set" where
  "page p = {p ..< p + PGSIZE}"

definition page_ok :: "pmem \<Rightarrow> addr \<Rightarrow> bool" where
  "page_ok s p \<longleftrightarrow> p mod PGSIZE = 0 \<and> kend s \<le> p \<and> p < PHYSTOP"

fun chain :: "mem \<Rightarrow> addr \<Rightarrow> addr list \<Rightarrow> bool" where
  "chain m h [] \<longleftrightarrow> h = 0"
| "chain m h (p # ps) \<longleftrightarrow> h = p \<and> p \<noteq> 0 \<and> chain m (unat (ld64 m p)) ps"

definition free_pages :: "pmem \<Rightarrow> addr list \<Rightarrow> bool" where
  "free_pages s ps \<longleftrightarrow> 0 < kend s \<and> chain (ram s) (freelist s) ps \<and> distinct ps \<and>
     (\<forall>p\<in>set ps. page_ok s p)"

lemma page_base: "x \<in> page p \<Longrightarrow> p mod PGSIZE = 0 \<Longrightarrow> x div PGSIZE * PGSIZE = p"
proof -
  assume x: "x \<in> page p" and "p mod PGSIZE = 0"
  then have p: "p = p div PGSIZE * PGSIZE" using div_mult_mod_eq [of p PGSIZE] by simp
  have "p \<le> x" "x < p + PGSIZE" using x by (simp_all add: page_def)
  then have "x div PGSIZE = p div PGSIZE"
    using p by (intro div_nat_eqI) (simp_all add: mult.commute)
  then show ?thesis using p by simp
qed

lemma pages_disjoint:
  "p mod PGSIZE = 0 \<Longrightarrow> q mod PGSIZE = 0 \<Longrightarrow> p \<noteq> q \<Longrightarrow> page p \<inter> page q = {}"
  using page_base [of _ p] page_base [of _ q] by fastforce

lemma chain_cong:
  "chain m h ps \<Longrightarrow> (\<And>p x. p \<in> set ps \<Longrightarrow> x \<in> page p \<Longrightarrow> m' x = m x) \<Longrightarrow> chain m' h ps"
proof (induction ps arbitrary: h)
  case (Cons p ps)
  have "ld64 m' p = ld64 m p" using Cons.prems(2) [of p] by (intro ld64_cong) (auto simp: page_def PGSIZE_def)
  then show ?case using Cons by auto
qed simp

lemma free_pages_frame:
  assumes "free_pages s ps" and "freelist t = freelist s" and "kend t = kend s"
    and "\<And>p x. p \<in> set ps \<Longrightarrow> x \<in> page p \<Longrightarrow> ram t x = ram s x"
  shows "free_pages t ps"
  using assms chain_cong [of "ram s" "freelist s" ps "ram t"] by (auto simp: free_pages_def page_ok_def)

lemma free_pages_ok: "free_pages s ps \<Longrightarrow> p \<in> set ps \<Longrightarrow> page_ok s p"
  by (simp add: free_pages_def)

lemma free_pages_bound: "free_pages s ps \<Longrightarrow> p \<in> set ps \<Longrightarrow> 0 < p \<and> p < 2 ^ 64"
  by (auto simp: free_pages_def page_ok_def PHYSTOP_def KERNBASE_def)

lemma freelist_bound: "free_pages s ps \<Longrightarrow> freelist s < 2 ^ 64"
  using free_pages_bound [of s ps "freelist s"] by (cases ps) (auto simp: free_pages_def)

lemma memset_frame: "x \<notin> page p \<Longrightarrow> memset m p c PGSIZE x = m x"
  by (auto simp: memset_eq page_def)

lemma sd64_page_frame: "x \<notin> page p \<Longrightarrow> sd64 m p v x = m x"
  by (auto simp: sd64_def page_def PGSIZE_def)

lemma kalloc_some:
  assumes "free_pages s (p # ps)"
  shows "\<exists>t. kalloc s = (p, t) \<and> free_pages t ps \<and> kend t = kend s \<and> page_ok s p \<and> p \<notin> set ps \<and> p \<noteq> 0 \<and>
    (\<forall>x. x \<notin> page p \<longrightarrow> ram t x = ram s x) \<and> (\<forall>x\<in>page p. ram t x = 5)"
proof -
  define t where "t = s\<lparr>freelist := unat (ld64 (ram s) p), ram := memset (ram s) p 5 PGSIZE\<rparr>"
  have c: "freelist s = p" "p \<noteq> 0" "chain (ram s) (unat (ld64 (ram s) p)) ps" "distinct (p # ps)"
    "\<forall>q\<in>set (p # ps). page_ok s q" and k: "0 < kend s"
    using assms by (auto simp: free_pages_def)
  have "ram t x = ram s x" if "q \<in> set ps" "x \<in> page q" for q x
    using that c pages_disjoint [of p q] by (auto simp: t_def page_ok_def intro!: memset_frame)
  then have "free_pages t ps"
    using c k chain_cong [of "ram s" "freelist t" ps "ram t"] by (auto simp: free_pages_def t_def page_ok_def)
  moreover have "kalloc s = (p, t)" using c by (simp add: kalloc_def t_def)
  ultimately show ?thesis
    using c by (intro exI [of _ t]) (auto simp: t_def memset_frame memset_eq page_def)
qed

lemma kalloc_none: "free_pages s [] \<Longrightarrow> kalloc s = (0, s)"
  by (simp add: kalloc_def free_pages_def)

lemma kfree_ok:
  assumes f: "free_pages s ps" and p: "page_ok s p" and n: "p \<notin> set ps"
  shows "\<exists>t. kfree s p = Inr t \<and> free_pages t (p # ps) \<and> kend t = kend s \<and>
    (\<forall>x. x \<notin> page p \<longrightarrow> ram t x = ram s x)"
proof -
  define t where "t = s\<lparr>ram := sd64 (memset (ram s) p 1 PGSIZE) p (of_nat (freelist s)), freelist := p\<rparr>"
  have e: "kfree s p = Inr t" using p by (simp add: kfree_def page_ok_def t_def Let_def)
  have fr: "ram t x = ram s x" if "x \<notin> page p" for x
    using that by (simp add: t_def sd64_page_frame memset_frame)
  have c: "chain (ram s) (freelist s) ps" "distinct ps" "\<forall>q\<in>set ps. page_ok s q" "0 < kend s"
    using f by (auto simp: free_pages_def)
  have "ram t x = ram s x" if "q \<in> set ps" "x \<in> page q" for q x
    using that c(3) p n pages_disjoint [of p q] by (intro fr) (auto simp: page_ok_def)
  then have "chain (ram t) (freelist s) ps" by (intro chain_cong [OF c(1)])
  moreover have "unat (ld64 (ram t) p) = freelist s"
    using freelist_bound [OF f] by (simp add: t_def unat_of_nat)
  moreover have "0 < p" using c(4) p by (auto simp: page_ok_def)
  ultimately have "free_pages t (p # ps)"
    using c p n by (auto simp: free_pages_def t_def page_ok_def)
  then show ?thesis using e fr by (intro exI [of _ t]) (auto simp: t_def)
qed

lemma kfree_bad: "\<not> page_ok s p \<Longrightarrow> kfree s p = panic ''kfree''"
  by (auto simp: kfree_def page_ok_def)

section \<open>The contract of the page allocator\<close>

text \<open>
  \<open>F s ps\<close> says that the pages \<open>ps\<close> are free in \<open>s\<close>.  A client may write anywhere outside the free pages;
  what the allocator gives out is not free any more, and what it takes back must not be free already.
\<close>

locale page_allocator =
  fixes palloc :: "pmem \<Rightarrow> addr \<times> pmem"
    and pfree :: "pmem \<Rightarrow> addr \<Rightarrow> pmem result"
    and F :: "pmem \<Rightarrow> addr list \<Rightarrow> bool"
  assumes alloc_some: "F s (p # ps) \<Longrightarrow> \<exists>t. palloc s = (p, t) \<and> F t ps \<and> kend t = kend s \<and>
      page_ok s p \<and> p \<notin> set ps \<and> p \<noteq> 0 \<and>
      (\<forall>x. x \<notin> page p \<longrightarrow> ram t x = ram s x) \<and> (\<forall>x\<in>page p. ram t x = 5)"
    and alloc_none: "F s [] \<Longrightarrow> palloc s = (0, s)"
    and free_ok: "F s ps \<Longrightarrow> page_ok s p \<Longrightarrow> p \<notin> set ps \<Longrightarrow>
      \<exists>t. pfree s p = Inr t \<and> F t (p # ps) \<and> kend t = kend s \<and> (\<forall>x. x \<notin> page p \<longrightarrow> ram t x = ram s x)"
    and frame: "F s ps \<Longrightarrow> freelist t = freelist s \<Longrightarrow> kend t = kend s \<Longrightarrow>
      (\<And>p x. p \<in> set ps \<Longrightarrow> x \<in> page p \<Longrightarrow> ram t x = ram s x) \<Longrightarrow> F t ps"
    and pages: "F s ps \<Longrightarrow> p \<in> set ps \<Longrightarrow> page_ok s p"
begin

text \<open>Allocation as its clients see it: null exactly when no page is free.\<close>

lemma alloc_cases:
  assumes "F s ps"
  obtains (none) "ps = []" and "palloc s = (0, s)"
  | (some) p qs t where "ps = p # qs" and "palloc s = (p, t)" and "F t qs" and "kend t = kend s"
      and "page_ok s p" and "p \<notin> set qs" and "p \<noteq> 0" and "\<And>x. x \<notin> page p \<Longrightarrow> ram t x = ram s x"
proof (cases ps)
  case Nil
  then show ?thesis using alloc_none assms none by simp
next
  case (Cons p qs)
  then show ?thesis using alloc_some [of s p qs] assms some by blast
qed

text \<open>A page in use can be written without touching the free list.\<close>

lemma write_used:
  assumes "F s ps" and "page_ok s p" and "p \<notin> set ps" and "\<And>x. x \<notin> page p \<Longrightarrow> m x = ram s x"
  shows "F (s\<lparr>ram := m\<rparr>) ps"
proof (rule frame [OF assms(1)])
  fix q x assume "q \<in> set ps" "x \<in> page q"
  moreover have "page p \<inter> page q = {}"
    using pages [OF assms(1) calculation(1)] assms(2,3) calculation(1)
    by (intro pages_disjoint) (auto simp: page_ok_def)
  ultimately have "x \<notin> page p" by blast
  then show "ram (s\<lparr>ram := m\<rparr>) x = ram s x" using assms(4) by simp
qed simp_all

text \<open>A page that was allocated can be given back; the free pages are then as before.\<close>

lemma alloc_free:
  assumes "F s (p # ps)"
  shows "\<exists>t u. palloc s = (p, t) \<and> pfree t p = Inr u \<and> F u (p # ps)"
proof -
  obtain t where "palloc s = (p, t)" "F t ps" "kend t = kend s" "page_ok s p" "p \<notin> set ps"
    using alloc_some [OF assms] by blast
  moreover from this have "page_ok t p" by (simp add: page_ok_def)
  ultimately show ?thesis using free_ok [of t ps p] by blast
qed

end

interpretation km: page_allocator kalloc kfree free_pages
proof unfold_locales
  show "free_pages t ps" if "free_pages s ps" "freelist t = freelist s" "kend t = kend s"
    "\<And>p x. p \<in> set ps \<Longrightarrow> x \<in> page p \<Longrightarrow> ram t x = ram s x" for s ps t
    using that by (rule free_pages_frame)
qed (fact kalloc_some kalloc_none kfree_ok free_pages_ok)+

section \<open>Start-up\<close>

lemma freerange_loop_ok:
  assumes "free_pages s ps" and "p mod PGSIZE = 0" and "kend s \<le> p" and "e \<le> PHYSTOP" and "\<forall>q\<in>set ps. q < p"
  shows "\<exists>t qs. freerange_loop s p e = Inr t \<and> free_pages t (qs @ ps) \<and> kend t = kend s \<and>
    set qs = {q. q mod PGSIZE = 0 \<and> p \<le> q \<and> q + PGSIZE \<le> e}"
  using assms
proof (induction s p e arbitrary: ps rule: freerange_loop.induct)
  case (1 s p e)
  show ?case
  proof (cases "p + PGSIZE \<le> e")
    case False
    then have "{q. q mod PGSIZE = 0 \<and> p \<le> q \<and> q + PGSIZE \<le> e} = {}" by auto
    moreover have "freerange_loop s p e = Inr s" using False by (simp add: freerange_loop.simps)
    ultimately show ?thesis using 1(2) by (intro exI [of _ s] exI [of _ "[]"]) simp
  next
    case True
    have "page_ok s p" using 1(3-5) True by (simp add: page_ok_def PGSIZE_def)
    moreover have "p \<notin> set ps" using 1(6) by blast
    ultimately obtain u where u: "kfree s p = Inr u" "free_pages u (p # ps)" "kend u = kend s"
      using kfree_ok [OF 1(2)] by blast
    have "(p + PGSIZE) mod PGSIZE = 0" using 1(3) by simp
    moreover have "\<forall>q\<in>set (p # ps). q < p + PGSIZE" using 1(6) by (auto simp: PGSIZE_def)
    ultimately obtain t qs where t: "freerange_loop u (p + PGSIZE) e = Inr t" "free_pages t (qs @ p # ps)"
      "kend t = kend u" "set qs = {q. q mod PGSIZE = 0 \<and> p + PGSIZE \<le> q \<and> q + PGSIZE \<le> e}"
      using 1(1) [OF True u(1) u(2)] 1(4,5) u(3) by auto
    have "freerange_loop s p e = Inr t" using True u(1) t(1) by (simp add: freerange_loop.simps [of s])
    moreover have "set (qs @ [p]) = {q. q mod PGSIZE = 0 \<and> p \<le> q \<and> q + PGSIZE \<le> e}"
    proof -
      have "p + PGSIZE \<le> q" if "q mod PGSIZE = 0" "p \<le> q" "q \<noteq> p" for q
        using that 1(3) pages_disjoint [of p q] by (auto simp: page_def not_le)
      then show ?thesis using t(4) True 1(3) by auto
    qed
    ultimately show ?thesis using t u by (intro exI [of _ t] exI [of _ "qs @ [p]"]) simp
  qed
qed

lemma kinit_ok:
  assumes "freelist s = 0" and "0 < kend s" and "kend s \<le> PHYSTOP"
  shows "\<exists>t ps. kinit s = Inr t \<and> free_pages t ps \<and> kend t = kend s \<and> set ps = {p. page_ok s p}"
proof -
  define p where "p = (kend s + 4095) div 4096 * 4096"
  have b: "kend s < 2 ^ 63" using assms(3) by (simp add: PHYSTOP_def KERNBASE_def)
  then have u: "unat (of_nat (kend s) :: uint64) = kend s" by (simp add: unat_of_nat)
  have p: "unat (PGROUNDUP (of_nat (kend s))) = p"
    using PGROUNDUP_unat [of "of_nat (kend s)"] b by (simp add: u p_def)
  have f: "free_pages s []" using assms by (simp add: free_pages_def)
  have pk: "kend s \<le> p" "p < kend s + 4096"
    using div_mult_mod_eq [of "kend s + 4095" 4096] mod_less_divisor [of 4096 "kend s + 4095"]
    unfolding p_def by linarith+
  obtain t qs where t: "freerange_loop s p PHYSTOP = Inr t" "free_pages t qs" "kend t = kend s"
    "set qs = {q. q mod PGSIZE = 0 \<and> p \<le> q \<and> q + PGSIZE \<le> PHYSTOP}"
    using freerange_loop_ok [OF f, of p PHYSTOP] pk by (auto simp: p_def PGSIZE_def)
  have "set qs = {q. page_ok s q}"
  proof -
    have "q + PGSIZE \<le> PHYSTOP" if "q mod PGSIZE = 0" "q < PHYSTOP" for q
    proof -
      have "PHYSTOP = 0x88000 * PGSIZE" "q = q div PGSIZE * PGSIZE"
        using that(1) div_mult_mod_eq [of q PGSIZE] by (simp_all add: PHYSTOP_def KERNBASE_def PGSIZE_def)
      moreover from this have "q div PGSIZE < 0x88000" using that(2) by (metis mult_less_cancel2)
      ultimately show ?thesis by (simp add: PGSIZE_def)
    qed
    moreover have "p \<le> q" if q: "q mod PGSIZE = 0" "kend s \<le> q" for q
    proof -
      obtain k where k: "q = 4096 * k" using q(1) unfolding mod_eq_0_iff_dvd PGSIZE_def by (elim dvdE)
      have "(kend s + 4095) div 4096 \<le> (4096 * k + 4095) div 4096" using q(2) k by (intro div_le_mono) simp
      also have "\<dots> = k" by simp
      finally show ?thesis using k by (simp add: p_def)
    qed
    ultimately show ?thesis using t(4) pk(1) by (auto simp: page_ok_def PGSIZE_def)
  qed
  then show ?thesis using t p by (auto simp: kinit_def freerange_def)
qed

section \<open>Properties\<close>

text \<open>A machine whose kernel ends two pages before the top of memory.\<close>

definition pmem0 :: pmem where
  "pmem0 = \<lparr>ram = (\<lambda>_. 0), freelist = 0, kend = 0x87ffe000\<rparr>"

lemma pmem0_page: "page_ok pmem0 0x87fff000"
  by (simp add: page_ok_def pmem0_def PGSIZE_def PHYSTOP_def KERNBASE_def)

text \<open>
  C26. \<^verbatim>\<open>kinit\<close> does not panic and leaves a well-formed free list that holds every page between the end of the
  kernel and the top of memory exactly once.
\<close>

theorem kinit_correct:
  assumes "freelist s = 0" and "0 < kend s" and "kend s \<le> PHYSTOP"
  shows "\<exists>t ps. kinit s = Inr t \<and> free_pages t ps \<and> distinct ps \<and> set ps = {p. page_ok s p}"
  using kinit_ok [OF assms] by (auto simp: free_pages_def)

theorem kinit_correct_witness:
  "\<exists>t ps. kinit pmem0 = Inr t \<and> free_pages t ps \<and> 0x87fff000 \<in> set ps"
proof -
  have "freelist pmem0 = 0" "0 < kend pmem0" "kend pmem0 \<le> PHYSTOP"
    by (simp_all add: pmem0_def PHYSTOP_def KERNBASE_def)
  from kinit_correct [OF this] show ?thesis using pmem0_page by auto
qed

text \<open>
  C27. \<^verbatim>\<open>kalloc\<close> and \<^verbatim>\<open>kfree\<close> against the set of free pages.  \<^verbatim>\<open>kalloc\<close> returns null exactly when no page is free, and
  otherwise a page that was free and no longer is, writing to that page only.  \<^verbatim>\<open>kfree\<close> of a page of the
  managed range that is not free makes it free, writing to that page only, and panics on every other
  address outside the range or not page aligned.
\<close>

theorem kalloc_kfree_correct:
  assumes f: "free_pages s ps"
  shows "(ps = [] \<longrightarrow> kalloc s = (0, s)) \<and>
    (\<forall>p qs. ps = p # qs \<longrightarrow> (\<exists>t. kalloc s = (p, t) \<and> p \<noteq> 0 \<and> free_pages t qs \<and> p \<notin> set qs \<and>
       (\<forall>x. x \<notin> page p \<longrightarrow> ram t x = ram s x))) \<and>
    (\<forall>p. page_ok s p \<and> p \<notin> set ps \<longrightarrow> (\<exists>t. kfree s p = Inr t \<and> free_pages t (p # ps) \<and>
       (\<forall>x. x \<notin> page p \<longrightarrow> ram t x = ram s x))) \<and>
    (\<forall>p. \<not> page_ok s p \<longrightarrow> kfree s p = panic ''kfree'')"
  using km.alloc_none km.alloc_some km.free_ok [OF f] kfree_bad f by (intro conjI) blast+

theorem kalloc_kfree_correct_witness:
  "kalloc pmem0 = (0, pmem0) \<and> kfree pmem0 0x1000 = panic ''kfree'' \<and>
   (\<exists>t. kfree pmem0 0x87fff000 = Inr t \<and> free_pages t [0x87fff000])"
proof -
  have f: "free_pages pmem0 []" by (simp add: free_pages_def pmem0_def)
  have "\<not> page_ok pmem0 0x1000" by (simp add: page_ok_def pmem0_def)
  then show ?thesis using kalloc_kfree_correct [OF f] pmem0_page by auto
qed

end
