(* ===== verification/Vm.thy ===== *)
theory Vm
  imports Kalloc
begin

text \<open>
  \<^verbatim>\<open>kernel/vm.c\<close>: page tables and user memory.  A page table is the address of its root page; its
  pages are ordinary pages of physical memory, so every operation works on the state of \<open>Kalloc\<close>.
  Virtual addresses are 64-bit words and all their arithmetic wraps as in C.  The loops over pages
  end because \<^verbatim>\<open>walk\<close> panics, or \<^verbatim>\<open>walkaddr\<close> fails, from \<^verbatim>\<open>MAXVA\<close> on.
\<close>

section \<open>Walking a page table\<close>

definition pte_addr :: "addr \<Rightarrow> nat \<Rightarrow> uint64 \<Rightarrow> addr" where
  "pte_addr pagetable level va = pagetable + 8 * PX level va"

fun walk_loop :: "pmem \<Rightarrow> addr \<Rightarrow> uint64 \<Rightarrow> bool \<Rightarrow> nat \<Rightarrow> addr \<times> pmem" where
  "walk_loop s pagetable va alloc 0 = (pte_addr pagetable 0 va, s)"
| "walk_loop s pagetable va alloc (Suc l) =
     (let a = pte_addr pagetable (Suc l) va;
          pte = ld64 (ram s) a
      in if pte AND PTE_V \<noteq> 0 then walk_loop s (unat (PTE2PA pte)) va alloc l
         else if \<not> alloc then (0, s)
         else case kalloc s of (p, s1) \<Rightarrow>
           if p = 0 then (0, s1)
           else let s2 = s1\<lparr>ram := memset (ram s1) p 0 PGSIZE\<rparr>;
                    s3 = s2\<lparr>ram := sd64 (ram s2) a (PA2PTE (of_nat p) OR PTE_V)\<rparr>
                in walk_loop s3 p va alloc l)"

definition walk :: "pmem \<Rightarrow> addr \<Rightarrow> uint64 \<Rightarrow> bool \<Rightarrow> (addr \<times> pmem) result" where
  "walk s pagetable va alloc =
     (if va \<ge> MAXVA then panic ''walk'' else Inr (walk_loop s pagetable va alloc 2))"

text \<open>Without allocation the state does not change; \<^verbatim>\<open>walkaddr\<close> and the copying functions use this form.\<close>

definition lookup :: "pmem \<Rightarrow> addr \<Rightarrow> uint64 \<Rightarrow> addr" where
  "lookup s pagetable va = fst (walk_loop s pagetable va False 2)"

definition walkaddr :: "pmem \<Rightarrow> addr \<Rightarrow> uint64 \<Rightarrow> uint64" where
  "walkaddr s pagetable va =
     (if va \<ge> MAXVA then 0
      else let a = lookup s pagetable va
           in if a = 0 then 0
              else let pte = ld64 (ram s) a
                   in if pte AND PTE_V = 0 then 0
                      else if pte AND PTE_U = 0 then 0
                      else PTE2PA pte)"

section \<open>Mappings\<close>

lemma walk_MAXVA: "walk s pt va al = Inr r \<Longrightarrow> va < MAXVA"
  by (auto simp: walk_def split: if_splits)

lemma next_page_less: "va < MAXVA \<Longrightarrow> unat MAXVA - unat (va + 4096) < unat MAXVA - unat va"
  by (simp add: MAXVA_def word_less_nat_alt unat_word_ariths)

function mappages_loop :: "pmem \<Rightarrow> addr \<Rightarrow> uint64 \<Rightarrow> uint64 \<Rightarrow> uint64 \<Rightarrow> uint64 \<Rightarrow> (bool \<times> pmem) result" where
  "mappages_loop s pagetable a stop pa perm =
     ebind (walk s pagetable a True) (\<lambda>(p, s1).
       if p = 0 then Inr (False, s1)
       else if ld64 (ram s1) p AND PTE_V \<noteq> 0 then panic ''mappages: remap''
       else let s2 = s1\<lparr>ram := sd64 (ram s1) p (PA2PTE pa OR perm OR PTE_V)\<rparr>
            in if a = stop then Inr (True, s2)
               else mappages_loop s2 pagetable (a + 4096) stop (pa + 4096) perm)"
  by pat_completeness auto
termination
  by (relation "measure (\<lambda>(s, pagetable, a, stop, pa, perm). unat MAXVA - unat a)")
    (auto dest!: walk_MAXVA next_page_less)

declare mappages_loop.simps [simp del]

text \<open>\<open>True\<close> is the return value 0, \<open>False\<close> is \<open>-1\<close>.\<close>

definition mappages :: "pmem \<Rightarrow> addr \<Rightarrow> uint64 \<Rightarrow> uint64 \<Rightarrow> uint64 \<Rightarrow> uint64 \<Rightarrow> (bool \<times> pmem) result" where
  "mappages s pagetable va sz pa perm =
     (if va mod 4096 \<noteq> 0 then panic ''mappages: va not aligned''
      else if sz mod 4096 \<noteq> 0 then panic ''mappages: size not aligned''
      else if sz = 0 then panic ''mappages: size''
      else mappages_loop s pagetable va (va + sz - 4096) pa perm)"

definition kvmmap :: "pmem \<Rightarrow> addr \<Rightarrow> uint64 \<Rightarrow> uint64 \<Rightarrow> uint64 \<Rightarrow> uint64 \<Rightarrow> pmem result" where
  "kvmmap s kpgtbl va pa sz perm =
     ebind (mappages s kpgtbl va sz pa perm) (\<lambda>(ok, s1). if \<not> ok then panic ''kvmmap'' else Inr s1)"

function uvmunmap_loop :: "pmem \<Rightarrow> addr \<Rightarrow> uint64 \<Rightarrow> uint64 \<Rightarrow> bool \<Rightarrow> pmem result" where
  "uvmunmap_loop s pagetable a stop do_free =
     (if a < stop then
        ebind (walk s pagetable a False) (\<lambda>(p, s1).
          if p = 0 then panic ''uvmunmap: walk''
          else let pte = ld64 (ram s1) p
               in if pte AND PTE_V = 0 then panic ''uvmunmap: not mapped''
                  else if PTE_FLAGS pte = PTE_V then panic ''uvmunmap: not a leaf''
                  else ebind (if do_free then kfree s1 (unat (PTE2PA pte)) else Inr s1) (\<lambda>s2.
                    uvmunmap_loop (s2\<lparr>ram := sd64 (ram s2) p 0\<rparr>) pagetable (a + 4096) stop do_free))
      else Inr s)"
  by pat_completeness auto
termination
  by (relation "measure (\<lambda>(s, pagetable, a, stop, do_free). unat MAXVA - unat a)")
    (auto dest!: walk_MAXVA next_page_less)

declare uvmunmap_loop.simps [simp del]

definition uvmunmap :: "pmem \<Rightarrow> addr \<Rightarrow> uint64 \<Rightarrow> uint64 \<Rightarrow> bool \<Rightarrow> pmem result" where
  "uvmunmap s pagetable va npages do_free =
     (if va mod 4096 \<noteq> 0 then panic ''uvmunmap: not aligned''
      else uvmunmap_loop s pagetable va (va + npages * 4096) do_free)"

section \<open>Address spaces\<close>

definition uvmcreate :: "pmem \<Rightarrow> addr \<times> pmem" where
  "uvmcreate s =
     (case kalloc s of (p, s1) \<Rightarrow>
        if p = 0 then (0, s1) else (p, s1\<lparr>ram := memset (ram s1) p 0 PGSIZE\<rparr>))"

text \<open>\<^verbatim>\<open>uvmfirst\<close> does not test the result of \<^verbatim>\<open>kalloc\<close>; it runs when memory is still empty.\<close>

definition uvmfirst :: "pmem \<Rightarrow> addr \<Rightarrow> addr \<Rightarrow> nat \<Rightarrow> pmem result" where
  "uvmfirst s pagetable src sz =
     (if sz \<ge> PGSIZE then panic ''uvmfirst: more than a page''
      else case kalloc s of (m, s1) \<Rightarrow>
        if m = 0 then undef ''uvmfirst: null page''
        else let s2 = s1\<lparr>ram := memset (ram s1) m 0 PGSIZE\<rparr>
             in ebind (mappages s2 pagetable 0 4096 (of_nat m) (PTE_W OR PTE_R OR PTE_X OR PTE_U)) (\<lambda>(ok, s3).
                  Inr (s3\<lparr>ram := memmove (ram s3) m src sz\<rparr>)))"

text \<open>\<^verbatim>\<open>npages\<close> is a C \<^verbatim>\<open>int\<close> that is passed on as a 64-bit integer.\<close>

definition uvmdealloc :: "pmem \<Rightarrow> addr \<Rightarrow> uint64 \<Rightarrow> uint64 \<Rightarrow> (uint64 \<times> pmem) result" where
  "uvmdealloc s pagetable oldsz newsz =
     (if newsz \<ge> oldsz then Inr (oldsz, s)
      else if PGROUNDUP newsz < PGROUNDUP oldsz then
        let npages = ucast ((PGROUNDUP oldsz - PGROUNDUP newsz) div 4096) :: uint32
        in ebind (uvmunmap s pagetable (PGROUNDUP newsz) (scast npages) True) (\<lambda>s1. Inr (newsz, s1))
      else Inr (newsz, s))"

lemma mappages_MAXVA: "mappages s pt va sz pa perm = Inr r \<Longrightarrow> va < MAXVA"
  by (auto simp: mappages_def mappages_loop.simps [of s] dest: walk_MAXVA split: if_splits)

function uvmalloc_loop :: "pmem \<Rightarrow> addr \<Rightarrow> uint64 \<Rightarrow> uint64 \<Rightarrow> uint64 \<Rightarrow> uint64 \<Rightarrow> (uint64 \<times> pmem) result" where
  "uvmalloc_loop s pagetable oldsz a newsz xperm =
     (if a < newsz then
        case kalloc s of (m, s1) \<Rightarrow>
          if m = 0 then ebind (uvmdealloc s1 pagetable a oldsz) (\<lambda>(_, s2). Inr (0, s2))
          else let s2 = s1\<lparr>ram := memset (ram s1) m 0 PGSIZE\<rparr>
               in ebind (mappages s2 pagetable a 4096 (of_nat m) (PTE_R OR PTE_U OR xperm)) (\<lambda>(ok, s3).
                    if \<not> ok then
                      ebind (kfree s3 m) (\<lambda>s4.
                      ebind (uvmdealloc s4 pagetable a oldsz) (\<lambda>(_, s5). Inr (0, s5)))
                    else uvmalloc_loop s3 pagetable oldsz (a + 4096) newsz xperm)
      else Inr (newsz, s))"
  by pat_completeness auto
termination
  by (relation "measure (\<lambda>(s, pagetable, oldsz, a, newsz, xperm). unat MAXVA - unat a)")
    (auto dest!: mappages_MAXVA next_page_less)

declare uvmalloc_loop.simps [simp del]

definition uvmalloc :: "pmem \<Rightarrow> addr \<Rightarrow> uint64 \<Rightarrow> uint64 \<Rightarrow> uint64 \<Rightarrow> (uint64 \<times> pmem) result" where
  "uvmalloc s pagetable oldsz newsz xperm =
     (if newsz < oldsz then Inr (oldsz, s)
      else uvmalloc_loop s pagetable (PGROUNDUP oldsz) (PGROUNDUP oldsz) newsz xperm)"

text \<open>
  \<^verbatim>\<open>freewalk\<close> recurses through memory; \<open>i\<close> is the index of its loop.  \<open>None\<close>: the recursion does not end,
  as for a table that contains itself.
\<close>

partial_function (option) freewalk_from :: "pmem \<Rightarrow> addr \<Rightarrow> nat \<Rightarrow> pmem result option" where
  "freewalk_from s pagetable i =
     (if i < 512 then
        let pte = ld64 (ram s) (pagetable + 8 * i)
        in if pte AND PTE_V \<noteq> 0 \<and> pte AND (PTE_R OR PTE_W OR PTE_X) = 0 then
             Option.bind (freewalk_from s (unat (PTE2PA pte)) 0) (\<lambda>r.
               case r of Inl e \<Rightarrow> Some (Inl e)
               | Inr s1 \<Rightarrow> freewalk_from (s1\<lparr>ram := sd64 (ram s1) (pagetable + 8 * i) 0\<rparr>) pagetable (i + 1))
           else if pte AND PTE_V \<noteq> 0 then Some (panic ''freewalk: leaf'')
           else freewalk_from s pagetable (i + 1)
      else Some (kfree s pagetable))"

declare freewalk_from.simps [code]

definition freewalk :: "pmem \<Rightarrow> addr \<Rightarrow> pmem result option" where
  "freewalk s pagetable = freewalk_from s pagetable 0"

definition uvmfree :: "pmem \<Rightarrow> addr \<Rightarrow> uint64 \<Rightarrow> pmem result option" where
  "uvmfree s pagetable sz =
     (case (if sz > 0 then uvmunmap s pagetable 0 (PGROUNDUP sz div 4096) True else Inr s) of
        Inl e \<Rightarrow> Some (Inl e)
      | Inr s1 \<Rightarrow> freewalk s1 pagetable)"

function uvmcopy_loop :: "pmem \<Rightarrow> addr \<Rightarrow> addr \<Rightarrow> uint64 \<Rightarrow> uint64 \<Rightarrow> (bool \<times> pmem) result" where
  "uvmcopy_loop s old new i sz =
     (if i < sz then
        ebind (walk s old i False) (\<lambda>(p, s0).
          if p = 0 then panic ''uvmcopy: pte should exist''
          else let pte = ld64 (ram s0) p
               in if pte AND PTE_V = 0 then panic ''uvmcopy: page not present''
                  else case kalloc s0 of (m, s1) \<Rightarrow>
                    if m = 0 then
                      ebind (uvmunmap s1 new 0 (i div 4096) True) (\<lambda>s2. Inr (False, s2))
                    else let s2 = s1\<lparr>ram := memmove (ram s1) m (unat (PTE2PA pte)) PGSIZE\<rparr>
                         in ebind (mappages s2 new i 4096 (of_nat m) (PTE_FLAGS pte)) (\<lambda>(ok, s3).
                              if \<not> ok then
                                ebind (kfree s3 m) (\<lambda>s4.
                                ebind (uvmunmap s4 new 0 (i div 4096) True) (\<lambda>s5. Inr (False, s5)))
                              else uvmcopy_loop s3 old new (i + 4096) sz))
      else Inr (True, s))"
  by pat_completeness auto
termination
  by (relation "measure (\<lambda>(s, old, new, i, sz). unat MAXVA - unat i)")
    (auto dest!: walk_MAXVA next_page_less)

declare uvmcopy_loop.simps [simp del]

definition uvmcopy :: "pmem \<Rightarrow> addr \<Rightarrow> addr \<Rightarrow> uint64 \<Rightarrow> (bool \<times> pmem) result" where
  "uvmcopy s old new sz = uvmcopy_loop s old new 0 sz"

definition uvmclear :: "pmem \<Rightarrow> addr \<Rightarrow> uint64 \<Rightarrow> pmem result" where
  "uvmclear s pagetable va =
     ebind (walk s pagetable va False) (\<lambda>(p, s1).
       if p = 0 then panic ''uvmclear''
       else Inr (s1\<lparr>ram := sd64 (ram s1) p (ld64 (ram s1) p AND NOT PTE_U)\<rparr>))"

section \<open>Copying between the kernel and user memory\<close>

text \<open>The number of bytes from \<open>va\<close> to the end of its page, at most \<open>len\<close>.\<close>

definition page_rest :: "uint64 \<Rightarrow> uint64 \<Rightarrow> uint64" where
  "page_rest va len =
     (let n = 4096 - (va - PGROUNDDOWN va) in if n > len then len else n)"

lemma unat_page_off: "unat (va - PGROUNDDOWN va) = unat va mod 4096"
proof -
  have "PGROUNDDOWN va \<le> va" by (simp add: word_le_nat_alt PGROUNDDOWN_unat)
  then have "unat (va - PGROUNDDOWN va) = unat va - unat (PGROUNDDOWN va)" by (rule unat_sub)
  then show ?thesis by (simp add: PGROUNDDOWN_unat minus_div_mult_eq_mod)
qed

lemma unat_page_rest: "unat (page_rest va len) = min (unat len) (4096 - unat va mod 4096)"
proof -
  let ?o = "va - PGROUNDDOWN va"
  have o: "unat ?o < 4096" by (simp add: unat_page_off)
  then have "?o \<le> 4096" by (simp add: word_le_nat_alt)
  then have "unat (4096 - ?o) = 4096 - unat ?o" by (simp add: unat_sub)
  then show ?thesis by (auto simp: page_rest_def Let_def word_less_nat_alt unat_page_off)
qed

lemma page_rest_less: "len \<noteq> 0 \<Longrightarrow> unat (len - page_rest va len) < unat len"
proof -
  assume "len \<noteq> 0"
  then have "0 < unat len" by (simp add: unat_gt_0)
  moreover have "unat va mod 4096 < 4096" by simp
  ultimately have p: "0 < unat (page_rest va len)" "unat (page_rest va len) \<le> unat len"
    unfolding unat_page_rest by linarith+
  then have "unat (len - page_rest va len) = unat len - unat (page_rest va len)"
    by (intro unat_sub) (simp add: word_le_nat_alt)
  then show ?thesis using p \<open>0 < unat len\<close> by linarith
qed

function copyout :: "pmem \<Rightarrow> addr \<Rightarrow> uint64 \<Rightarrow> addr \<Rightarrow> uint64 \<Rightarrow> bool \<times> pmem" where
  "copyout s pagetable dstva src len =
     (if len > 0 then
        let va0 = PGROUNDDOWN dstva
        in if va0 \<ge> MAXVA then (False, s)
           else let p = lookup s pagetable va0;
                    pte = ld64 (ram s) p
                in if p = 0 \<or> pte AND PTE_V = 0 \<or> pte AND PTE_U = 0 \<or> pte AND PTE_W = 0 then (False, s)
                   else let pa0 = PTE2PA pte;
                            n = page_rest dstva len;
                            s1 = s\<lparr>ram := memmove (ram s) (unat (pa0 + (dstva - va0))) src (unat n)\<rparr>
                        in copyout s1 pagetable (va0 + 4096) (src + unat n) (len - n)
      else (True, s))"
  by pat_completeness auto
termination
  by (relation "measure (\<lambda>(s, pagetable, dstva, src, len). unat len)") (auto intro: page_rest_less)

declare copyout.simps [simp del]

function copyin :: "pmem \<Rightarrow> addr \<Rightarrow> addr \<Rightarrow> uint64 \<Rightarrow> uint64 \<Rightarrow> bool \<times> pmem" where
  "copyin s pagetable dst srcva len =
     (if len > 0 then
        let va0 = PGROUNDDOWN srcva;
            pa0 = walkaddr s pagetable va0
        in if pa0 = 0 then (False, s)
           else let n = page_rest srcva len;
                    s1 = s\<lparr>ram := memmove (ram s) dst (unat (pa0 + (srcva - va0))) (unat n)\<rparr>
                in copyin s1 pagetable (dst + unat n) (va0 + 4096) (len - n)
      else (True, s))"
  by pat_completeness auto
termination
  by (relation "measure (\<lambda>(s, pagetable, dst, srcva, len). unat len)") (auto intro: page_rest_less)

declare copyin.simps [simp del]

text \<open>The inner loop of \<^verbatim>\<open>copyinstr\<close>: memory, destination, and whether the terminator was copied.\<close>

fun copystr_run :: "mem \<Rightarrow> addr \<Rightarrow> addr \<Rightarrow> nat \<Rightarrow> mem \<times> addr \<times> bool" where
  "copystr_run m p dst 0 = (m, dst, False)"
| "copystr_run m p dst (Suc n) =
     (if m p = 0 then (m(dst := 0), dst, True)
      else copystr_run (m(dst := m p)) (p + 1) (dst + 1) n)"

text \<open>Each byte that is not the terminator takes one off \<^verbatim>\<open>max\<close>.\<close>

function copyinstr :: "pmem \<Rightarrow> addr \<Rightarrow> addr \<Rightarrow> uint64 \<Rightarrow> uint64 \<Rightarrow> bool \<times> pmem" where
  "copyinstr s pagetable dst srcva mx =
     (if mx > 0 then
        let va0 = PGROUNDDOWN srcva;
            pa0 = walkaddr s pagetable va0
        in if pa0 = 0 then (False, s)
           else let n = page_rest srcva mx
                in case copystr_run (ram s) (unat (pa0 + (srcva - va0))) dst (unat n) of (m, dst1, got_null) \<Rightarrow>
                     let s1 = s\<lparr>ram := m\<rparr>
                     in if got_null then (True, s1)
                        else copyinstr s1 pagetable dst1 (va0 + 4096) (mx - n)
      else (False, s))"
  by pat_completeness auto
termination
  by (relation "measure (\<lambda>(s, pagetable, dst, srcva, mx). unat mx)") (auto intro: page_rest_less)

declare copyinstr.simps [simp del]

section \<open>The kernel's page table\<close>

definition UART0 :: uint64 where "UART0 = 0x10000000"
definition VIRTIO0 :: uint64 where "VIRTIO0 = 0x10001000"
definition PLIC :: uint64 where "PLIC = 0x0c000000"

definition NPROC :: nat where
  "NPROC = 64"

text \<open>\<^verbatim>\<open>proc_mapstacks\<close> of \<^verbatim>\<open>kernel/proc.c\<close>: a page for the kernel stack of each process, below the trampoline.\<close>

fun mapstacks_loop :: "pmem \<Rightarrow> addr \<Rightarrow> nat \<Rightarrow> pmem result" where
  "mapstacks_loop s kpgtbl 0 = Inr s"
| "mapstacks_loop s kpgtbl (Suc i) =
     ebind (mapstacks_loop s kpgtbl i) (\<lambda>s0.
       case kalloc s0 of (pa, s1) \<Rightarrow>
         if pa = 0 then panic ''kalloc''
         else kvmmap s1 kpgtbl (KSTACK i) (of_nat pa) 4096 (PTE_R OR PTE_W))"

definition proc_mapstacks :: "pmem \<Rightarrow> addr \<Rightarrow> pmem result" where
  "proc_mapstacks s kpgtbl = mapstacks_loop s kpgtbl NPROC"

text \<open>\<open>etext\<close> and \<open>trampoline\<close> are symbols of the linker and of \<^verbatim>\<open>trampoline.S\<close>.\<close>

definition kvmmake :: "pmem \<Rightarrow> uint64 \<Rightarrow> uint64 \<Rightarrow> (addr \<times> pmem) result" where
  "kvmmake s etext trampoline =
     (case kalloc s of (kpgtbl, s1) \<Rightarrow>
        if kpgtbl = 0 then undef ''kvmmake: null page''
        else
          ebind (kvmmap (s1\<lparr>ram := memset (ram s1) kpgtbl 0 PGSIZE\<rparr>) kpgtbl UART0 UART0 4096 (PTE_R OR PTE_W)) (\<lambda>s2.
          ebind (kvmmap s2 kpgtbl VIRTIO0 VIRTIO0 4096 (PTE_R OR PTE_W)) (\<lambda>s3.
          ebind (kvmmap s3 kpgtbl PLIC PLIC 0x4000000 (PTE_R OR PTE_W)) (\<lambda>s4.
          ebind (kvmmap s4 kpgtbl (of_nat KERNBASE) (of_nat KERNBASE) (etext - of_nat KERNBASE) (PTE_R OR PTE_X)) (\<lambda>s5.
          ebind (kvmmap s5 kpgtbl etext etext (of_nat PHYSTOP - etext) (PTE_R OR PTE_W)) (\<lambda>s6.
          ebind (kvmmap s6 kpgtbl TRAMPOLINE trampoline 4096 (PTE_R OR PTE_X)) (\<lambda>s7.
          ebind (proc_mapstacks s7 kpgtbl) (\<lambda>s8.
            Inr (kpgtbl, s8)))))))))"

end
