(* ===== verification/VmInv.thy ===== *)
theory VmInv
  imports Vm
begin

text \<open>
  Page tables as trees.  \<open>own\<close> gives each page of a table its place: the level and the part of the
  virtual address that leads to it.  A page has one place, so a store into one entry changes the
  translation of the addresses below that entry and of no other.  \<open>leaf\<close> is the abstract view of
  a table, from virtual addresses to leaf entries.
\<close>

section \<open>Indices\<close>

definition key :: "nat \<Rightarrow> uint64 \<Rightarrow> nat" where
  "key level va = unat va div 2 ^ PXSHIFT (Suc level)"

lemma unat_drop: "unat (drop_bit k (va::uint64)) = unat va div 2 ^ k"
  by (simp add: unat_drop_bit_eq drop_bit_eq_div [of k "unat va"])

lemma PX_eq: "PX level va = unat va div 2 ^ PXSHIFT level mod 512"
proof -
  have "unat (drop_bit (PXSHIFT level) va AND mask 9) = take_bit 9 (unat (drop_bit (PXSHIFT level) va))"
    by (simp only: take_bit_eq_mask [symmetric] unsigned_take_bit_eq)
  then show ?thesis by (simp add: PX_def PXMASK_def low_mask take_bit_eq_mod unat_drop)
qed

lemma key_step: "unat va div 2 ^ PXSHIFT level = key level va * 512 + PX level va"
proof -
  have "key level va = unat va div 2 ^ PXSHIFT level div 512"
    by (simp add: key_def PXSHIFT_def power_add div_mult2_eq [symmetric] mult.commute)
  then show ?thesis by (simp add: PX_eq)
qed

lemma key_down: "key l va = key (Suc l) va * 512 + PX (Suc l) va"
  using key_step [of va "Suc l"] by (simp add: key_def)

lemma key_root: "va < MAXVA \<Longrightarrow> key 2 va = 0"
  by (simp add: key_def MAXVA_def PXSHIFT_def word_less_nat_alt)

lemma key_bound:
  assumes "va < MAXVA"
  shows "key l va * 512 ^ l < 2 ^ 17"
proof -
  have "(2 :: nat) ^ PXSHIFT (Suc l) = 2 ^ 21 * 512 ^ l" by (simp add: PXSHIFT_def power_add power_mult)
  then have "key l va * 512 ^ l \<le> unat va div 2 ^ 21" by (simp add: key_def div_mult2_eq)
  moreover have "unat va div 2 ^ 21 < 2 ^ 17" using assms by (simp add: MAXVA_def word_less_nat_alt less_mult_imp_div_less)
  ultimately show ?thesis by (rule le_less_trans)
qed

definition vpn :: "uint64 \<Rightarrow> nat" where
  "vpn va = unat va div 4096"

lemma vpn_eq: "vpn va = key 0 va * 512 + PX 0 va"
  using key_step [of va 0] by (simp add: vpn_def PXSHIFT_def)

lemma vpn_eq_iff: "vpn va = vpn vb \<longleftrightarrow> key 0 va = key 0 vb \<and> PX 0 va = PX 0 vb"
proof
  assume "vpn va = vpn vb"
  then have "key 0 va * 512 + PX 0 va = key 0 vb * 512 + PX 0 vb" by (simp add: vpn_eq)
  moreover have "(key 0 v * 512 + PX 0 v) div 512 = key 0 v" "(key 0 v * 512 + PX 0 v) mod 512 = PX 0 v" for v
    using PX_bound [of 0 v] by simp_all
  ultimately show "key 0 va = key 0 vb \<and> PX 0 va = PX 0 vb" by metis
qed (simp add: vpn_eq)

section \<open>The tree of a page table\<close>

type_synonym owner = "addr \<Rightarrow> (nat \<times> nat) option"

definition entry :: "pmem \<Rightarrow> addr \<Rightarrow> nat \<Rightarrow> uint64" where
  "entry s p i = ld64 (ram s) (p + 8 * i)"

definition tree :: "pmem \<Rightarrow> owner \<Rightarrow> bool" where
  "tree s own \<longleftrightarrow> 0 < kend s \<and> (\<forall>p l n. own p = Some (l, n) \<longrightarrow> page_ok s p \<and> l \<le> 2 \<and> n * 512 ^ l < 2 ^ 17) \<and>
     (\<forall>p l n i. own p = Some (Suc l, n) \<longrightarrow> i < 512 \<longrightarrow> entry s p i AND PTE_V \<noteq> 0 \<longrightarrow>
        own (unat (PTE2PA (entry s p i))) = Some (l, n * 512 + i) \<and>
        entry s p i AND (PTE_R OR PTE_W OR PTE_X) = 0) \<and>
     (\<forall>q l n. own q = Some (l, n) \<longrightarrow> l < 2 \<longrightarrow>
        (\<exists>p. own p = Some (Suc l, n div 512) \<and> entry s p (n mod 512) AND PTE_V \<noteq> 0 \<and> unat (PTE2PA (entry s p (n mod 512))) = q))"

definition pt_inv :: "pmem \<Rightarrow> addr \<Rightarrow> owner \<Rightarrow> addr list \<Rightarrow> bool" where
  "pt_inv s pt own ps \<longleftrightarrow> free_pages s ps \<and> tree s own \<and> own pt = Some (2, 0) \<and> dom own \<inter> set ps = {} \<and>
     (\<forall>p n. own p = Some (2, n) \<longrightarrow> p = pt)"

lemma treeD:
  assumes "tree s own"
  shows "own p = Some (l, n) \<Longrightarrow> page_ok s p" and "own p = Some (l, n) \<Longrightarrow> l \<le> 2"
    and "own p = Some (Suc l, n) \<Longrightarrow> i < 512 \<Longrightarrow> entry s p i AND PTE_V \<noteq> 0 \<Longrightarrow>
      own (unat (PTE2PA (entry s p i))) = Some (l, n * 512 + i)"
    and "own p = Some (Suc l, n) \<Longrightarrow> i < 512 \<Longrightarrow> entry s p i AND PTE_V \<noteq> 0 \<Longrightarrow>
      entry s p i AND (PTE_R OR PTE_W OR PTE_X) = 0"
    and "0 < kend s" and "own p = Some (l, n) \<Longrightarrow> n * 512 ^ l < 2 ^ 17"
    and "own q = Some (l, n) \<Longrightarrow> l < 2 \<Longrightarrow>
      \<exists>p. own p = Some (Suc l, n div 512) \<and> entry s p (n mod 512) AND PTE_V \<noteq> 0 \<and> unat (PTE2PA (entry s p (n mod 512))) = q"
  using assms unfolding tree_def by auto

lemma tree_nonnull: "tree s own \<Longrightarrow> own p = Some (l, n) \<Longrightarrow> p \<noteq> 0"
  using treeD(1) [of s own p l n] treeD(5) [of s own] by (auto simp: page_ok_def)

definition leaf_at :: "pmem \<Rightarrow> addr \<Rightarrow> uint64" where
  "leaf_at s a = (if a = 0 then 0 else ld64 (ram s) a)"

lemma leaf_at_0 [simp]: "leaf_at s 0 = 0"
  by (simp add: leaf_at_def)

definition lookup_from :: "pmem \<Rightarrow> addr \<Rightarrow> nat \<Rightarrow> uint64 \<Rightarrow> addr" where
  "lookup_from s p l va = fst (walk_loop s p va False l)"

definition leaf_from :: "pmem \<Rightarrow> addr \<Rightarrow> nat \<Rightarrow> uint64 \<Rightarrow> uint64" where
  "leaf_from s p l va = leaf_at s (lookup_from s p l va)"

definition leaf :: "pmem \<Rightarrow> addr \<Rightarrow> uint64 \<Rightarrow> uint64" where
  "leaf s pt va = leaf_from s pt 2 va"

lemma walk_loop_pure: "walk_loop s p va False l = (lookup_from s p l va, s)"
  by (induction l arbitrary: p) (auto simp: lookup_from_def Let_def)

lemma lookup_eq: "lookup s pt va = lookup_from s pt 2 va"
  by (simp add: lookup_def lookup_from_def)

lemma lookup_from_simps [simp]:
  "lookup_from s p 0 va = p + 8 * PX 0 va"
  "lookup_from s p (Suc l) va =
     (if entry s p (PX (Suc l) va) AND PTE_V \<noteq> 0
      then lookup_from s (unat (PTE2PA (entry s p (PX (Suc l) va)))) l va else 0)"
  by (simp_all add: lookup_from_def pte_addr_def entry_def Let_def)

text \<open>Where a look-up ends: an entry of a page of level 0 with the right place.\<close>

lemma lookup_from_leaf:
  assumes "tree s own" and "own p = Some (l, key l va)" and "lookup_from s p l va \<noteq> 0"
  shows "\<exists>q. own q = Some (0, key 0 va) \<and> lookup_from s p l va = q + 8 * PX 0 va"
  using assms(2,3)
proof (induction l arbitrary: p)
  case (Suc l)
  let ?e = "entry s p (PX (Suc l) va)"
  have v: "?e AND PTE_V \<noteq> 0" using Suc.prems(2) by (simp split: if_splits)
  then have "own (unat (PTE2PA ?e)) = Some (l, key l va)"
    using treeD(3) [OF assms(1) Suc.prems(1) PX_bound v] by (simp add: key_down [of l va])
  then show ?case using Suc.IH Suc.prems(2) v by simp
qed auto

lemma cell_in_page: "own p = Some (l, n) \<Longrightarrow> i < 512 \<Longrightarrow> p + 8 * i \<le> x \<Longrightarrow> x < p + 8 * i + 8 \<Longrightarrow> x \<in> page p"
  by (auto simp: page_def PGSIZE_def)

lemma cells_differ:
  assumes t: "tree s own" and p: "own p = Some u" and q: "own q = Some v" and i: "i < 512" and j: "j < 512"
    and ne: "p \<noteq> q \<or> i \<noteq> j"
  shows "p + 8 * i + 8 \<le> q + 8 * j \<or> q + 8 * j + 8 \<le> p + 8 * i"
proof (cases "p = q")
  case True
  then show ?thesis using ne by (cases "i < j") auto
next
  case False
  have pp: "page_ok s p" "page_ok s q"
    using treeD(1) [OF t, of p "fst u" "snd u"] treeD(1) [OF t, of q "fst v" "snd v"] p q by auto
  have "page p \<inter> page q = {}" using pages_disjoint [OF _ _ False] pp by (simp add: page_ok_def)
  then have "p + PGSIZE \<le> q \<or> q + PGSIZE \<le> p"
  proof (rule contrapos_pp)
    assume "\<not> (p + PGSIZE \<le> q \<or> q + PGSIZE \<le> p)"
    then have "max p q \<in> page p \<inter> page q" by (auto simp: page_def)
    then show "page p \<inter> page q \<noteq> {}" by blast
  qed
  then show ?thesis using i j by (auto simp: PGSIZE_def)
qed

text \<open>A look-up depends on the page number only.\<close>

lemma lookup_vpn: "vpn vb = vpn va \<Longrightarrow> lookup_from s p l vb = lookup_from s p l va"
proof (induction l arbitrary: p)
  case (Suc l)
  have "unat v div 2 ^ PXSHIFT (Suc l) = vpn v div 2 ^ (9 * Suc l)" for v
    by (simp add: vpn_def PXSHIFT_def power_add div_mult2_eq [symmetric])
  then have "PX (Suc l) vb = PX (Suc l) va" using Suc.prems by (simp add: PX_eq)
  then show ?case using Suc by simp
qed (simp add: vpn_eq_iff)

section \<open>A store into a leaf entry\<close>

definition set_leaf :: "pmem \<Rightarrow> addr \<Rightarrow> uint64 \<Rightarrow> pmem" where
  "set_leaf s a v = s\<lparr>ram := sd64 (ram s) a v\<rparr>"

text \<open>Two memories with the same interior entries have the same tree and the same look-ups.\<close>

definition same_interior :: "owner \<Rightarrow> pmem \<Rightarrow> pmem \<Rightarrow> bool" where
  "same_interior own s t \<longleftrightarrow> kend t = kend s \<and>
     (\<forall>p l n i. own p = Some (Suc l, n) \<longrightarrow> i < 512 \<longrightarrow> entry t p i = entry s p i)"

lemma same_interior_tree:
  assumes i: "same_interior own s t" and t: "tree s own"
  shows "tree t own"
proof -
  have k: "kend t = kend s" and e: "\<And>p l n i. own p = Some (Suc l, n) \<Longrightarrow> i < 512 \<Longrightarrow> entry t p i = entry s p i"
    using i by (auto simp: same_interior_def)
  have "\<exists>p. own p = Some (Suc l, n div 512) \<and> entry t p (n mod 512) AND PTE_V \<noteq> 0 \<and> unat (PTE2PA (entry t p (n mod 512))) = q"
    if "own q = Some (l, n)" "l < 2" for q l n
    using treeD(7) [OF t that] e [of _ l "n div 512" "n mod 512"] by auto
  then show ?thesis unfolding tree_def using treeD(1-6) [OF t] k e by (auto simp: page_ok_def)
qed

lemma same_interior_lookup:
  assumes "same_interior own s t" and "tree s own" and "own p = Some (l, key l va)"
  shows "lookup_from t p l va = lookup_from s p l va"
  using assms(3)
proof (induction l arbitrary: p)
  case (Suc l)
  let ?e = "entry s p (PX (Suc l) va)"
  have e: "entry t p (PX (Suc l) va) = ?e"
    using assms(1) Suc.prems PX_bound unfolding same_interior_def by blast
  have "own (unat (PTE2PA ?e)) = Some (l, key l va)" if "?e AND PTE_V \<noteq> 0"
    using treeD(3) [OF assms(2) Suc.prems PX_bound that] by (simp add: key_down [of l va])
  then show ?case using Suc.IH e by simp
qed simp

lemma set_leaf_interior:
  assumes "tree s own" and "own q = Some (0, n)" and "i < 512"
  shows "same_interior own s (set_leaf s (q + 8 * i) v)"
  unfolding same_interior_def
proof (intro conjI allI impI)
  fix p l m and j :: nat assume p: "own p = Some (Suc l, m)" and j: "j < 512"
  then have "p \<noteq> q" using assms(2) by auto
  then show "entry (set_leaf s (q + 8 * i) v) p j = entry s p j"
    using cells_differ [OF assms(1) p assms(2) j assms(3)]
    by (auto simp: entry_def set_leaf_def intro: ld64_sd64_other)
qed (simp add: set_leaf_def)

lemma set_leaf_leaf:
  assumes t: "tree s own" and r: "own pt = Some (2, 0)" and va: "va < MAXVA" "vb < MAXVA"
    and nz: "lookup s pt va \<noteq> 0"
  shows "leaf (set_leaf s (lookup s pt va) v) pt vb = (if vpn vb = vpn va then v else leaf s pt vb)"
proof -
  have k: "own pt = Some (2, key 2 va)" "own pt = Some (2, key 2 vb)" using r key_root va by simp_all
  obtain q where q: "own q = Some (0, key 0 va)" "lookup s pt va = q + 8 * PX 0 va"
    using lookup_from_leaf [OF t k(1)] nz by (auto simp: lookup_eq)
  let ?t = "set_leaf s (lookup s pt va) v"
  have si: "same_interior own s ?t" unfolding q(2) using set_leaf_interior [OF t q(1) PX_bound] .
  then have lk: "lookup_from ?t pt 2 vb = lookup_from s pt 2 vb"
    by (rule same_interior_lookup [OF _ t k(2)])
  show ?thesis
  proof (cases "vpn vb = vpn va")
    case True
    then have "lookup_from s pt 2 vb = lookup_from s pt 2 va" by (rule lookup_vpn)
    then show ?thesis
      using True lk nz by (simp add: leaf_def leaf_from_def leaf_at_def set_leaf_def lookup_eq)
  next
    case ne: False
    show ?thesis
    proof (cases "lookup_from s pt 2 vb = 0")
      case True
      then show ?thesis using ne lk by (simp add: leaf_def leaf_from_def leaf_at_def)
    next
      case False
      then obtain q' where q': "own q' = Some (0, key 0 vb)" "lookup_from s pt 2 vb = q' + 8 * PX 0 vb"
        using lookup_from_leaf [OF t k(2)] by auto
      have "q' \<noteq> q \<or> PX 0 vb \<noteq> PX 0 va" using q' q ne vpn_eq_iff by auto
      then have "ld64 (ram ?t) (q' + 8 * PX 0 vb) = ld64 (ram s) (q' + 8 * PX 0 vb)"
        using cells_differ [OF t q'(1) q(1) PX_bound PX_bound] q(2)
        by (simp add: set_leaf_def) (rule ld64_sd64_other, auto)
      then show ?thesis
        using ne lk q' tree_nonnull [OF t q'(1)] by (simp add: leaf_def leaf_from_def leaf_at_def)
    qed
  qed
qed

section \<open>A new page in the table\<close>

lemma flags_and: "g < 0x400 \<Longrightarrow> (PA2PTE pa OR f) AND g = f AND g"
proof (rule bit_word_eqI)
  fix n assume "g < 0x400" "n < LENGTH(64)"
  then show "bit ((PA2PTE pa OR f) AND g) n = bit (f AND g) n"
    using bit_flags [of g n] by (auto simp: PA2PTE_def bit_simps not_le [symmetric])
qed

lemma table_pte:
  assumes "q mod PGSIZE = 0" and "q < 2 ^ 64"
  shows "unat (PTE2PA (PA2PTE (of_nat q) OR PTE_V)) = q"
    and "(PA2PTE (of_nat q) OR PTE_V) AND PTE_V \<noteq> 0"
    and "(PA2PTE (of_nat q) OR PTE_V) AND (PTE_R OR PTE_W OR PTE_X) = 0"
proof -
  have u: "unat (of_nat q :: uint64) = q" using assms(2) by (simp add: unat_of_nat)
  show "unat (PTE2PA (PA2PTE (of_nat q) OR PTE_V)) = q"
    using PTE2PA_PA2PTE [of "of_nat q" PTE_V] assms(1) u by (simp add: PTE_V_def PGSIZE_def)
  show "(PA2PTE (of_nat q) OR PTE_V) AND PTE_V \<noteq> 0"
    "(PA2PTE (of_nat q) OR PTE_V) AND (PTE_R OR PTE_W OR PTE_X) = 0"
    by (simp_all add: flags_and PTE_V_def PTE_R_def PTE_W_def PTE_X_def)
qed

text \<open>Linking a zeroed page \<open>q\<close> into the free entry \<open>i\<close> of page \<open>p\<close>.\<close>

lemma link_table:
  assumes t: "tree s own" and p: "own p = Some (Suc l, n)" and i: "i < 512"
    and free: "entry s p i AND PTE_V = 0" and q: "page_ok s q" "q \<notin> dom own"
    and k: "kend u = kend s" and fr: "\<forall>x. x \<notin> page q \<longrightarrow> ram u x = ram s x" and b: "(n * 512 + i) * 512 ^ l < 2 ^ 17"
  defines "w \<equiv> u\<lparr>ram := sd64 (memset (ram u) q 0 PGSIZE) (p + 8 * i) (PA2PTE (of_nat q) OR PTE_V)\<rparr>"
  shows "tree w (own(q \<mapsto> (l, n * 512 + i)))"
    and "own p0 = Some (l0, key l0 va) \<Longrightarrow> leaf_from w p0 l0 va = leaf_from s p0 l0 va"
    and "entry w p i = PA2PTE (of_nat q) OR PTE_V"
    and "x \<notin> page p \<Longrightarrow> x \<notin> page q \<Longrightarrow> ram w x = ram s x"
    and "own p0 = Some v \<Longrightarrow> j < 512 \<Longrightarrow> p0 \<noteq> p \<or> j \<noteq> i \<Longrightarrow> entry w p0 j = entry s p0 j"
    and "kend w = kend s"
proof -
  have pq: "p \<noteq> q" using p q by auto
  have q64: "q < 2 ^ 64" using q by (simp add: page_ok_def PHYSTOP_def KERNBASE_def)
  have qa: "q mod PGSIZE = 0" using q by (simp add: page_ok_def)
  note tp = table_pte [OF qa q64]
  have dj: "page p0 \<inter> page q = {}" if "own p0 = Some v" for p0 v
    using treeD(1) [OF t, of p0 "fst v" "snd v"] that q
    by (intro pages_disjoint) (auto simp: page_ok_def)
  have wx: "ram w x = ram s x" if "x \<notin> page q" "x < p + 8 * i \<or> p + 8 * i + 8 \<le> x" for x
    using that fr by (simp add: w_def sd64_frame memset_frame)
  have wq: "entry w q j = 0" if "j < 512" for j
    unfolding entry_def
  proof (rule ld64_zero)
    fix x assume x: "q + 8 * j \<le> x" "x < q + 8 * j + 8"
    then have "x \<in> page q" using that by (auto simp: page_def PGSIZE_def)
    moreover from this have "x \<notin> page p" using dj [OF p] by blast
    then have "x < p + 8 * i \<or> p + 8 * i + 8 \<le> x" using i by (auto simp: page_def PGSIZE_def)
    ultimately show "ram w x = 0" by (simp add: w_def sd64_frame memset_eq page_def)
  qed
  show we: "entry w p i = PA2PTE (of_nat q) OR PTE_V" by (simp add: entry_def w_def)
  have eq: "entry w p0 j = entry s p0 j" if p0: "own p0 = Some v" and j: "j < 512" and ne: "p0 \<noteq> p \<or> j \<noteq> i"
    for p0 v j
    unfolding entry_def
  proof (rule ld64_cong, rule wx)
    fix x assume x: "p0 + 8 * j \<le> x" "x < p0 + 8 * j + 8"
    then have "x \<in> page p0" using j by (auto simp: page_def PGSIZE_def)
    then show "x \<notin> page q" using dj [OF p0] by blast
    show "x < p + 8 * i \<or> p + 8 * i + 8 \<le> x" using cells_differ [OF t p0 p j i ne] x by auto
  qed
  then show "own p0 = Some v \<Longrightarrow> j < 512 \<Longrightarrow> p0 \<noteq> p \<or> j \<noteq> i \<Longrightarrow> entry w p0 j = entry s p0 j" .
  show kw: "kend w = kend s" using k by (simp add: w_def)
  show "x \<notin> page p \<Longrightarrow> x \<notin> page q \<Longrightarrow> ram w x = ram s x"
    using wx [of x] i by (auto simp: page_def PGSIZE_def)
  show "tree w (own(q \<mapsto> (l, n * 512 + i)))"
    unfolding tree_def
  proof (intro conjI allI impI)
    show "0 < kend w" using kw treeD(5) [OF t] by simp
  next
    fix p0 l0 m assume "(own(q \<mapsto> (l, n * 512 + i))) p0 = Some (l0, m)"
    then show "page_ok w p0" "l0 \<le> 2" "m * 512 ^ l0 < 2 ^ 17"
      using treeD(1,2,6) [OF t] q kw p b by (auto simp: page_ok_def split: if_splits) fastforce+
  next
    fix p0 l0 m j assume o: "(own(q \<mapsto> (l, n * 512 + i))) p0 = Some (Suc l0, m)" and j: "j < 512"
      and v: "entry w p0 j AND PTE_V \<noteq> 0"
    then have "p0 \<noteq> q" using wq by auto
    then have o': "own p0 = Some (Suc l0, m)" using o by simp
    have "own (unat (PTE2PA (entry s p0 j))) = Some (l0, m * 512 + j) \<and>
        entry s p0 j AND (PTE_R OR PTE_W OR PTE_X) = 0" if "p0 \<noteq> p \<or> j \<noteq> i"
      using treeD(3,4) [OF t o' j] v eq [OF o' j that] by simp
    moreover have "unat (PTE2PA (entry s p0 j)) \<noteq> q" if "p0 \<noteq> p \<or> j \<noteq> i"
      using calculation [OF that] q(2) by auto
    ultimately show "(own(q \<mapsto> (l, n * 512 + i))) (unat (PTE2PA (entry w p0 j))) = Some (l0, m * 512 + j)"
      "entry w p0 j AND (PTE_R OR PTE_W OR PTE_X) = 0"
      using eq [OF o' j] we tp o' p by (cases "p0 = p \<and> j = i"; auto)+
  next
    fix q0 l0 m assume o: "(own(q \<mapsto> (l, n * 512 + i))) q0 = Some (l0, m)" and l0: "l0 < 2"
    let ?own = "own(q \<mapsto> (l, n * 512 + i))"
    show "\<exists>p. ?own p = Some (Suc l0, m div 512) \<and> entry w p (m mod 512) AND PTE_V \<noteq> 0 \<and> unat (PTE2PA (entry w p (m mod 512))) = q0"
    proof (cases "q0 = q")
      case True
      then have "l0 = l" "m = n * 512 + i" using o by auto
      then show ?thesis using True p pq i we tp by (intro exI [of _ p]) simp
    next
      case False
      then obtain p0 where p0: "own p0 = Some (Suc l0, m div 512)" "entry s p0 (m mod 512) AND PTE_V \<noteq> 0" "unat (PTE2PA (entry s p0 (m mod 512))) = q0"
        using treeD(7) [OF t _ l0] o by auto
      moreover have "p0 \<noteq> p \<or> m mod 512 \<noteq> i" using p0(2) free by auto
      then have "entry w p0 (m mod 512) = entry s p0 (m mod 512)" using eq [OF p0(1)] by simp
      moreover have "p0 \<noteq> q" using p0(1) q(2) by auto
      ultimately show ?thesis by (intro exI [of _ p0]) simp
    qed
  qed
  have lq: "leaf_from w q m va = 0" for m va
    using wq [OF PX_bound, of m va] qa q tree_nonnull
    by (cases m) (auto simp: leaf_from_def leaf_at_def entry_def [symmetric])
  show "own p0 = Some (l0, key l0 va) \<Longrightarrow> leaf_from w p0 l0 va = leaf_from s p0 l0 va"
  proof (induction l0 arbitrary: p0)
    case 0
    then have "p0 \<noteq> p" using p by auto
    then have "entry w p0 (PX 0 va) = entry s p0 (PX 0 va)" using eq [OF 0 PX_bound] by simp
    then show ?case by (simp add: leaf_from_def leaf_at_def entry_def)
  next
    case (Suc l0)
    let ?e = "entry s p0 (PX (Suc l0) va)"
    show ?case
    proof (cases "p0 = p \<and> PX (Suc l0) va = i")
      case True
      then have "leaf_from s p0 (Suc l0) va = 0" using free by (simp add: leaf_from_def leaf_at_def)
      moreover have "leaf_from w p0 (Suc l0) va = leaf_from w q l0 va"
        using True we tp by (simp add: leaf_from_def)
      ultimately show ?thesis using lq by simp
    next
      case False
      then have "entry w p0 (PX (Suc l0) va) = ?e" using eq [OF Suc.prems PX_bound] by blast
      moreover have "own (unat (PTE2PA ?e)) = Some (l0, key l0 va)" if "?e AND PTE_V \<noteq> 0"
        using treeD(3) [OF t Suc.prems PX_bound that] by (simp add: key_down [of l0 va])
      ultimately show ?thesis using Suc.IH by (simp add: leaf_from_def)
    qed
  qed
qed

section \<open>Walking with allocation\<close>

text \<open>
  \<open>grows\<close>: the table has gained the pages taken off the front of the free list, its translation is the
  same, and nothing outside the pages of the table has been written.
\<close>

definition grows :: "owner \<Rightarrow> pmem \<Rightarrow> addr list \<Rightarrow> owner \<Rightarrow> pmem \<Rightarrow> addr list \<Rightarrow> bool" where
  "grows own s ps own' t rest \<longleftrightarrow>
     (\<exists>used. ps = used @ rest \<and> dom own' = dom own \<union> set used) \<and> own \<subseteq>\<^sub>m own' \<and> kend t = kend s \<and>
     (\<forall>p l va. own p = Some (l, key l va) \<longrightarrow> leaf_from t p l va = leaf_from s p l va) \<and>
     (\<forall>p u i. own p = Some u \<longrightarrow> i < 512 \<longrightarrow> entry s p i AND PTE_V \<noteq> 0 \<longrightarrow> entry t p i = entry s p i) \<and>
     (\<forall>x. (\<forall>q\<in>dom own'. x \<notin> page q) \<longrightarrow> ram t x = ram s x)"

lemma grows_refl: "grows own s ps own s ps"
  by (auto simp: grows_def)

lemma map_le_Some: "m \<subseteq>\<^sub>m m' \<Longrightarrow> m x = Some y \<Longrightarrow> m' x = Some y"
  by (auto simp: map_le_def dom_def)

lemma grows_trans:
  assumes a: "grows o1 s1 p1 o2 s2 p2" and b: "grows o2 s2 p2 o3 s3 p3"
  shows "grows o1 s1 p1 o3 s3 p3"
  unfolding grows_def
proof (intro conjI allI impI)
  obtain u1 u2 where "p1 = u1 @ p2" "dom o2 = dom o1 \<union> set u1" "p2 = u2 @ p3" "dom o3 = dom o2 \<union> set u2"
    using a b unfolding grows_def by blast
  then show "\<exists>used. p1 = used @ p3 \<and> dom o3 = dom o1 \<union> set used"
    by (intro exI [of _ "u1 @ u2"]) auto
  have m12: "o1 \<subseteq>\<^sub>m o2" "o2 \<subseteq>\<^sub>m o3" using a b unfolding grows_def by simp_all
  show m: "o1 \<subseteq>\<^sub>m o3" using m12 by (rule map_le_trans)
  show "kend s3 = kend s1" using a b unfolding grows_def by simp
  { fix p l va assume "o1 p = Some (l, key l va)"
    then show "leaf_from s3 p l va = leaf_from s1 p l va"
      using a b map_le_Some [OF m12(1)] unfolding grows_def by metis }
  { fix p u i assume "o1 p = Some u" "i < 512" "entry s1 p i AND PTE_V \<noteq> 0"
    then show "entry s3 p i = entry s1 p i"
      using a b map_le_Some [OF m12(1)] unfolding grows_def by metis }
  { fix x assume "\<forall>q\<in>dom o3. x \<notin> page q"
    moreover have "dom o2 \<subseteq> dom o3" using m12(2) by (rule map_le_implies_dom_le)
    ultimately show "ram s3 x = ram s1 x" using a b unfolding grows_def by (metis subset_iff) }
qed

lemma cell_page: "i < 512 \<Longrightarrow> x \<notin> page p \<Longrightarrow> sd64 m (p + 8 * i) v x = m x"
  by (rule sd64_frame) (auto simp: page_def PGSIZE_def)

lemma grow_step:
  assumes inv: "pt_inv s pt own (q # qs)" and p: "own p = Some (Suc l, n)" and i: "i < 512"
    and free: "entry s p i AND PTE_V = 0" and k: "kalloc s = (q, u)" and b: "(n * 512 + i) * 512 ^ l < 2 ^ 17"
  defines "w \<equiv> u\<lparr>ram := sd64 (memset (ram u) q 0 PGSIZE) (p + 8 * i) (PA2PTE (of_nat q) OR PTE_V)\<rparr>"
  shows "pt_inv w pt (own(q \<mapsto> (l, n * 512 + i))) qs"
    and "grows own s (q # qs) (own(q \<mapsto> (l, n * 512 + i))) w qs"
    and "entry w p i = PA2PTE (of_nat q) OR PTE_V"
proof -
  have fp: "free_pages s (q # qs)" and t: "tree s own" and r: "own pt = Some (2, 0)"
    and d: "dom own \<inter> set (q # qs) = {}" using inv by (auto simp: pt_inv_def)
  obtain u' where u': "kalloc s = (q, u')" "free_pages u' qs" "kend u' = kend s" "page_ok s q" "q \<notin> set qs"
    "\<forall>x. x \<notin> page q \<longrightarrow> ram u' x = ram s x" using km.alloc_some [OF fp] by blast
  then have u: "u' = u" using k by simp
  note u = u' [unfolded u]
  have qd: "q \<notin> dom own" using d by auto
  note lt = link_table [OF t p i free u(4) qd u(3,6) b, folded w_def]
  have pok: "page_ok u p" using treeD(1) [OF t p] u(3) by (simp add: page_ok_def)
  have "p \<notin> set qs" using d p by auto
  have "free_pages (u\<lparr>ram := memset (ram u) q 0 PGSIZE\<rparr>) qs"
    using u by (intro km.write_used) (auto simp: page_ok_def memset_frame)
  then have "free_pages w qs"
    using km.write_used [of "u\<lparr>ram := memset (ram u) q 0 PGSIZE\<rparr>" qs p "ram w"] pok \<open>p \<notin> set qs\<close>
      cell_page [OF i]
    by (auto simp: w_def page_ok_def)
  moreover have "l \<noteq> 2" using treeD(2) [OF t p] by simp
  ultimately show "pt_inv w pt (own(q \<mapsto> (l, n * 512 + i))) qs"
    using lt(1) r qd d u(5) inv by (auto simp: pt_inv_def)
  show "entry w p i = PA2PTE (of_nat q) OR PTE_V" by (rule lt(3))
  have "own \<subseteq>\<^sub>m own(q \<mapsto> (l, n * 512 + i))" using qd by (auto simp: map_le_def dom_def)
  moreover have "ram w x = ram s x" if "\<forall>q'\<in>dom (own(q \<mapsto> (l, n * 512 + i))). x \<notin> page q'" for x
    using lt(4) [of x] that p by (auto simp: dom_def)
  moreover have "entry w p0 j = entry s p0 j" if "own p0 = Some v" "j < 512" "entry s p0 j AND PTE_V \<noteq> 0" for p0 v j
    using lt(5) [OF that(1,2)] that(3) free by auto
  ultimately show "grows own s (q # qs) (own(q \<mapsto> (l, n * 512 + i))) w qs"
    using lt(2,6) unfolding grows_def by (auto intro: exI [of _ "[q]"])
qed

lemma walk_alloc:
  assumes va: "va < MAXVA"
  shows "pt_inv s pt own ps \<Longrightarrow> own p = Some (l, key l va) \<Longrightarrow>
   \<exists>a t own' rest. walk_loop s p va True l = (a, t) \<and> pt_inv t pt own' rest \<and> grows own s ps own' t rest \<and>
     (a = 0 \<longrightarrow> rest = []) \<and> (a \<noteq> 0 \<longrightarrow> lookup_from t p l va = a) \<and> length ps \<le> length rest + l"
proof (induction l arbitrary: s p own ps)
  case 0
  then have "0 < p" using tree_nonnull by (auto simp: pt_inv_def)
  then show ?case using 0
    by (intro exI [of _ "pte_addr p 0 va"] exI [of _ s] exI [of _ own] exI [of _ ps])
      (auto simp: grows_refl pt_inv_def pte_addr_def)
next
  case (Suc l)
  have t: "tree s own" and fp: "free_pages s ps" using Suc.prems(1) by (auto simp: pt_inv_def)
  let ?i = "PX (Suc l) va"
  let ?e = "entry s p ?i"
  have kd: "key l va = key (Suc l) va * 512 + ?i" by (rule key_down)
  have pe: "ld64 (ram s) (pte_addr p (Suc l) va) = ?e" by (simp add: entry_def pte_addr_def)
  show ?case
  proof (cases "?e AND PTE_V \<noteq> 0")
    case True
    have c: "own (unat (PTE2PA ?e)) = Some (l, key l va)"
      using treeD(3) [OF t Suc.prems(2) PX_bound True] kd by simp
    obtain a u own' rest where r: "walk_loop s (unat (PTE2PA ?e)) va True l = (a, u)" "pt_inv u pt own' rest"
      "grows own s ps own' u rest" "a = 0 \<longrightarrow> rest = []" "a \<noteq> 0 \<longrightarrow> lookup_from u (unat (PTE2PA ?e)) l va = a"
      "length ps \<le> length rest + l"
      using Suc.IH [OF Suc.prems(1) c] by (elim exE conjE)
    have "entry u p ?i = ?e" using r(3) Suc.prems(2) PX_bound True unfolding grows_def by blast
    then have "walk_loop s p va True (Suc l) = (a, u)" "a \<noteq> 0 \<longrightarrow> lookup_from u p (Suc l) va = a"
      "length ps \<le> length rest + Suc l" using r True pe by simp_all
    then show ?thesis using r(2,3,4) by (intro exI conjI)
  next
    case False
    show ?thesis
    proof (cases rule: km.alloc_cases [OF fp])
      case 1
      then show ?thesis using False pe Suc.prems(1)
        by (intro exI [of _ 0] exI [of _ s] exI [of _ own] exI [of _ ps]) (simp add: Let_def grows_refl)
    next
      case (2 q qs u)
      let ?w = "u\<lparr>ram := sd64 (memset (ram u) q 0 PGSIZE) (p + 8 * ?i) (PA2PTE (of_nat q) OR PTE_V)\<rparr>"
      let ?own = "own(q \<mapsto> (l, key l va))"
      note g = grow_step [OF Suc.prems(1) [unfolded 2(1)] Suc.prems(2) PX_bound [of "Suc l" va] _ 2(2), folded kd, OF _ key_bound [OF va]]
      have g1: "pt_inv ?w pt ?own qs" "grows own s ps ?own ?w qs" "entry ?w p ?i = PA2PTE (of_nat q) OR PTE_V"
        using g False 2(1) by simp_all
      obtain a x own' rest where r: "walk_loop ?w q va True l = (a, x)" "pt_inv x pt own' rest"
        "grows ?own ?w qs own' x rest" "a = 0 \<longrightarrow> rest = []" "a \<noteq> 0 \<longrightarrow> lookup_from x q l va = a"
        "length qs \<le> length rest + l"
        using Suc.IH [OF g1(1) fun_upd_same] by (elim exE conjE)
      have q: "q mod PGSIZE = 0" "q < 2 ^ 64"
        using 2(5) by (auto simp: page_ok_def PHYSTOP_def KERNBASE_def)
      have po: "?own p = Some (Suc l, key (Suc l) va)"
        using Suc.prems 2(1) by (auto simp: pt_inv_def)
      have "entry x p ?i = entry ?w p ?i"
        using r(3) po PX_bound g1(3) table_pte(2) [OF q] unfolding grows_def by metis
      then have "lookup_from x p (Suc l) va = lookup_from x q l va"
        using g1(3) table_pte [OF q] by simp
      moreover have "walk_loop s p va True (Suc l) = (a, x)"
        using False pe 2 r(1) by (simp add: Let_def pte_addr_def)
      moreover have "length ps \<le> length rest + Suc l" using r(6) 2(1) by simp
      ultimately show ?thesis using r(2,4,5) grows_trans [OF g1(2) r(3)] by metis
    qed
  qed
qed

end
