(* ===== verification/VmMap.thy ===== *)
theory VmMap
  imports VmInv
begin

text \<open>
  The operations of \<^verbatim>\<open>kernel/vm.c\<close> against the abstract view of a page table: \<^verbatim>\<open>mappages\<close> and \<^verbatim>\<open>uvmunmap\<close> update
  the map from page numbers to entries, \<^verbatim>\<open>uvmalloc\<close> grows an address space completely or not at all.
\<close>

section \<open>Page numbers\<close>

definition page_va :: "nat \<Rightarrow> uint64" where
  "page_va n = of_nat (n * 4096)"

lemma MAXVA_nat: "unat MAXVA = 2 ^ 38"
  by (simp add: MAXVA_def)

lemma unat_page_va: "n * 4096 < 2 ^ 64 \<Longrightarrow> unat (page_va n) = n * 4096"
  unfolding page_va_def by (simp add: unat_of_nat del: of_nat_mult)

lemma page_va_0 [simp]: "page_va 0 = 0"
  by (simp add: page_va_def)

lemma page_va_Suc: "page_va (Suc n) = 4096 + page_va n"
  by (simp add: page_va_def algebra_simps)

lemma unat_plus_pages: "unat a + n * 4096 < 2 ^ 64 \<Longrightarrow> unat (a + page_va n) = unat a + n * 4096"
  by (simp add: unat_word_ariths unat_page_va)

lemma vpn_plus_pages: "unat a + n * 4096 < 2 ^ 64 \<Longrightarrow> vpn (a + page_va n) = vpn a + n"
  by (simp add: vpn_def unat_plus_pages)

lemma less_MAXVA_iff: "va < MAXVA \<longleftrightarrow> unat va < 2 ^ 38"
  by (simp add: word_less_nat_alt MAXVA_nat)

lemma vpn_bound: "va < MAXVA \<longleftrightarrow> vpn va < 2 ^ 26"
  unfolding less_MAXVA_iff vpn_def using div_less_iff_less_mult [of 4096 "unat va" "2 ^ 26"] by simp

lemma leaf_vpn: "vpn vb = vpn va \<Longrightarrow> leaf s pt vb = leaf s pt va"
  using lookup_vpn [of vb va s pt 2] by (simp add: leaf_def leaf_from_def)

lemma vpn_page_va [simp]: "n < 2 ^ 26 \<Longrightarrow> vpn (page_va n) = n"
  by (simp add: vpn_def unat_page_va)

section \<open>Adding mappings\<close>

text \<open>What an operation on a table may change: it may take pages off the front of the free list into the table.\<close>

definition extends :: "owner \<Rightarrow> pmem \<Rightarrow> addr list \<Rightarrow> owner \<Rightarrow> pmem \<Rightarrow> addr list \<Rightarrow> bool" where
  "extends own s ps own' t rest \<longleftrightarrow>
     (\<exists>used. ps = used @ rest \<and> dom own' = dom own \<union> set used) \<and> own \<subseteq>\<^sub>m own' \<and> kend t = kend s \<and>
     (\<forall>x. (\<forall>q\<in>dom own'. x \<notin> page q) \<longrightarrow> ram t x = ram s x)"

lemma grows_extends: "grows own s ps own' t rest \<Longrightarrow> extends own s ps own' t rest"
  by (simp add: grows_def extends_def)

lemma extends_trans:
  assumes a: "extends o1 s1 p1 o2 s2 p2" and b: "extends o2 s2 p2 o3 s3 p3"
  shows "extends o1 s1 p1 o3 s3 p3"
  unfolding extends_def
proof (intro conjI allI impI)
  obtain u1 u2 where "p1 = u1 @ p2" "dom o2 = dom o1 \<union> set u1" "p2 = u2 @ p3" "dom o3 = dom o2 \<union> set u2"
    using a b unfolding extends_def by blast
  then show "\<exists>used. p1 = used @ p3 \<and> dom o3 = dom o1 \<union> set used"
    by (intro exI [of _ "u1 @ u2"]) auto
  have m12: "o1 \<subseteq>\<^sub>m o2" "o2 \<subseteq>\<^sub>m o3" using a b unfolding extends_def by simp_all
  show "o1 \<subseteq>\<^sub>m o3" using m12 by (rule map_le_trans)
  show "kend s3 = kend s1" using a b unfolding extends_def by simp
  fix x assume "\<forall>q\<in>dom o3. x \<notin> page q"
  moreover have "dom o2 \<subseteq> dom o3" using m12(2) by (rule map_le_implies_dom_le)
  ultimately show "ram s3 x = ram s1 x" using a b unfolding extends_def by (metis subset_iff)
qed

text \<open>A store into a leaf entry, seen from the table.\<close>

lemma set_leaf_inv:
  assumes inv: "pt_inv s pt own ps" and va: "va < MAXVA" and nz: "lookup s pt va \<noteq> 0"
  shows "pt_inv (set_leaf s (lookup s pt va) v) pt own ps"
    and "extends own s ps own (set_leaf s (lookup s pt va) v) ps"
proof -
  have t: "tree s own" and r: "own pt = Some (2, key 2 va)" and fp: "free_pages s ps" and d: "dom own \<inter> set ps = {}"
    using inv key_root [OF va] by (auto simp: pt_inv_def)
  obtain q where q: "own q = Some (0, key 0 va)" "lookup s pt va = q + 8 * PX 0 va"
    using lookup_from_leaf [OF t r] nz by (auto simp: lookup_eq)
  note fr = cell_page [OF PX_bound [of 0 va], of _ q "ram s" v]
  have "free_pages (set_leaf s (lookup s pt va) v) ps"
    unfolding set_leaf_def q(2) using d q(1) fr
    by (intro km.write_used [OF fp treeD(1) [OF t q(1)]]) auto
  moreover have "tree (set_leaf s (lookup s pt va) v) own"
    unfolding q(2) by (rule same_interior_tree [OF set_leaf_interior [OF t q(1) PX_bound] t])
  ultimately show "pt_inv (set_leaf s (lookup s pt va) v) pt own ps" using inv by (simp add: pt_inv_def)
  show "extends own s ps own (set_leaf s (lookup s pt va) v) ps"
    using q fr by (auto simp: extends_def set_leaf_def)
qed

lemma walk_alloc_top:
  assumes inv: "pt_inv s pt own ps" and va: "va < MAXVA"
  obtains t own' rest where "walk s pt va True = Inr (0, t)" "pt_inv t pt own' rest" "extends own s ps own' t rest"
      "\<And>vb. vb < MAXVA \<Longrightarrow> leaf t pt vb = leaf s pt vb" "rest = []" "length ps \<le> 2"
    | a t own' rest where "walk s pt va True = Inr (a, t)" "pt_inv t pt own' rest" "extends own s ps own' t rest"
      "\<And>vb. vb < MAXVA \<Longrightarrow> leaf t pt vb = leaf s pt vb" "a = lookup t pt va" "a \<noteq> 0"
      "length ps \<le> length rest + 2"
proof -
  have r: "own pt = Some (2, key 2 vb)" if "vb < MAXVA" for vb
    using inv key_root [OF that] by (simp add: pt_inv_def)
  obtain a t own' rest where w: "walk_loop s pt va True 2 = (a, t)" "pt_inv t pt own' rest"
    "grows own s ps own' t rest" "a = 0 \<longrightarrow> rest = []" "a \<noteq> 0 \<longrightarrow> lookup_from t pt 2 va = a"
    "length ps \<le> length rest + 2"
    using walk_alloc [OF va inv r [OF va]] by (elim exE conjE)
  have "leaf t pt vb = leaf s pt vb" if "vb < MAXVA" for vb
    using w(3) r [OF that] unfolding grows_def leaf_def by blast
  moreover have "walk s pt va True = Inr (a, t)" using va w(1) by (simp add: walk_def not_le [symmetric])
  ultimately show ?thesis
    using that(1) [of t own' rest] that(2) [of a t own' rest] w(2,4-6) grows_extends [OF w(3)]
    by (cases "a = 0") (simp_all add: lookup_eq)
qed

text \<open>
  The view of a table after the pages \<open>n\<close> to \<open>n + k - 1\<close> have been mapped to the frames from \<open>pa\<close> on.
\<close>

definition map_range :: "(nat \<Rightarrow> uint64) \<Rightarrow> nat \<Rightarrow> nat \<Rightarrow> uint64 \<Rightarrow> uint64 \<Rightarrow> nat \<Rightarrow> uint64" where
  "map_range f n k pa perm m =
     (if n \<le> m \<and> m < n + k then PA2PTE (pa + page_va (m - n)) OR perm OR PTE_V else f m)"

definition view :: "pmem \<Rightarrow> addr \<Rightarrow> nat \<Rightarrow> uint64" where
  "view s pt n = (if n < 2 ^ 26 then leaf s pt (page_va n) else 0)"

lemma leaf_view: "va < MAXVA \<Longrightarrow> leaf s pt va = view s pt (vpn va)"
  using leaf_vpn [of va "page_va (vpn va)"] by (simp add: view_def vpn_bound)

lemma view_eqI: "(\<And>va. va < MAXVA \<Longrightarrow> leaf t pt va = f (vpn va)) \<Longrightarrow> (\<And>n. 2 ^ 26 \<le> n \<Longrightarrow> f n = 0) \<Longrightarrow> view t pt = f"
  by (rule ext) (auto simp: view_def vpn_bound)

lemma set_leaf_view:
  assumes inv: "pt_inv s pt own ps" and va: "va < MAXVA" and nz: "lookup s pt va \<noteq> 0"
  shows "view (set_leaf s (lookup s pt va) v) pt = (view s pt)(vpn va := v)"
proof (rule view_eqI)
  have "tree s own" "own pt = Some (2, 0)" using inv by (auto simp: pt_inv_def)
  then show "leaf (set_leaf s (lookup s pt va) v) pt vb = ((view s pt)(vpn va := v)) (vpn vb)" if "vb < MAXVA" for vb
    using set_leaf_leaf [OF _ _ va that nz] leaf_view [OF that] by simp
qed (use va in \<open>auto simp: view_def vpn_bound\<close>)

lemma map_range_0 [simp]: "map_range f n 0 pa perm = f"
  by (auto simp: map_range_def fun_eq_iff)

lemma map_range_Suc:
  "map_range (f(n := PA2PTE pa OR perm OR PTE_V)) (Suc n) k (pa + 4096) perm = map_range f n (Suc k) pa perm"
proof
  fix m
  have "page_va (m - n) = 4096 + page_va (m - Suc n)" if "n < m"
    using that page_va_Suc [of "m - Suc n"] by (simp add: Suc_diff_Suc)
  then show "map_range (f(n := PA2PTE pa OR perm OR PTE_V)) (Suc n) k (pa + 4096) perm m =
      map_range f n (Suc k) pa perm m"
    by (cases "m = n") (auto simp: map_range_def add.assoc)
qed

lemma mappages_step:
  assumes inv: "pt_inv s pt own ps" and va: "a < MAXVA" and free: "view s pt (vpn a) AND PTE_V = 0"
  obtains t own' where "mappages_loop s pt a stop pa perm = Inr (False, t)" "pt_inv t pt own' []"
      "extends own s ps own' t []" "view t pt = view s pt" "length ps \<le> 2"
    | t own' rest where "mappages_loop s pt a stop pa perm =
        (if a = stop then Inr (True, t) else mappages_loop t pt (a + 4096) stop (pa + 4096) perm)"
      "pt_inv t pt own' rest" "extends own s ps own' t rest"
      "view t pt = (view s pt)(vpn a := PA2PTE pa OR perm OR PTE_V)" "length ps \<le> length rest + 2"
proof (cases rule: walk_alloc_top [OF inv va])
  case (1 t own' rest)
  have "view t pt = view s pt" using 1(4) by (auto simp: view_def fun_eq_iff vpn_bound)
  then show ?thesis using that(1) 1 by (simp add: mappages_loop.simps [of s])
next
  case (2 p t own' rest)
  let ?v = "PA2PTE pa OR perm OR PTE_V"
  have v: "view t pt = view s pt" using 2(4) by (auto simp: view_def fun_eq_iff vpn_bound)
  have nz: "lookup t pt a \<noteq> 0" using 2(5,6) by simp
  have "ld64 (ram t) p = leaf t pt a"
    using 2(5,6) by (simp add: leaf_def leaf_from_def leaf_at_def lookup_eq)
  then have u: "ld64 (ram t) p AND PTE_V = 0" using free v leaf_view [OF va, of t pt] by simp
  show ?thesis
  proof (rule that(2))
    show "mappages_loop s pt a stop pa perm = (if a = stop then Inr (True, set_leaf t p ?v)
        else mappages_loop (set_leaf t p ?v) pt (a + 4096) stop (pa + 4096) perm)"
      using 2(1,6) u by (simp add: mappages_loop.simps [of s] set_leaf_def)
    show "pt_inv (set_leaf t p ?v) pt own' rest" using set_leaf_inv(1) [OF 2(2) va nz] 2(5) by simp
    show "extends own s ps own' (set_leaf t p ?v) rest"
      using extends_trans [OF 2(3) set_leaf_inv(2) [OF 2(2) va nz]] 2(5) by simp
    show "view (set_leaf t p ?v) pt = (view s pt)(vpn a := ?v)"
      using set_leaf_view [OF 2(2) va nz] 2(5) v by simp
    show "length ps \<le> length rest + 2" by (rule 2(7))
  qed
qed

text \<open>With three free pages one page can be mapped; it takes at most two of them.\<close>

lemma map_one:
  assumes inv: "pt_inv s pt own ps" and va: "va mod 4096 = 0" "va < MAXVA" and free: "view s pt (vpn va) AND PTE_V = 0" and n: "3 \<le> length ps"
  obtains t own' rest where "mappages s pt va 4096 pa perm = Inr (True, t)" "pt_inv t pt own' rest" "extends own s ps own' t rest"
    "view t pt = (view s pt)(vpn va := PA2PTE pa OR perm OR PTE_V)" "length ps \<le> length rest + 2"
proof (cases rule: mappages_step [OF inv va(2) free, of va pa perm])
  case (1 t own')
  then show ?thesis using n by simp
next
  case (2 t own' rest)
  then show ?thesis using that [of t own' rest] va(1) by (simp add: mappages_def)
qed

lemma mappages_loop_ok:
  assumes "pt_inv s pt own ps" and "unat a + n * 4096 < 2 ^ 38"
    and "\<forall>m. vpn a \<le> m \<and> m \<le> vpn a + n \<longrightarrow> view s pt m AND PTE_V = 0"
  shows "\<exists>k t own' rest. mappages_loop s pt a (a + page_va n) pa perm = Inr (k = Suc n, t) \<and>
    pt_inv t pt own' rest \<and> extends own s ps own' t rest \<and> k \<le> Suc n \<and> (k < Suc n \<longrightarrow> rest = []) \<and>
    view t pt = map_range (view s pt) (vpn a) k pa perm"
  using assms
proof (induction n arbitrary: s own ps a pa)
  case 0
  have va: "a < MAXVA" "view s pt (vpn a) AND PTE_V = 0" using 0(2,3) by (simp_all add: less_MAXVA_iff)
  show ?case
  proof (rule mappages_step [OF 0(1) va, of "a + page_va 0" pa perm])
    fix t own'
    assume "mappages_loop s pt a (a + page_va 0) pa perm = Inr (False, t)" "pt_inv t pt own' []"
      "extends own s ps own' t []" "view t pt = view s pt"
    then show ?case by (intro exI [of _ 0] exI [of _ t] exI [of _ own'] exI [of _ "[]"]) simp
  next
    fix t own' rest
    assume "mappages_loop s pt a (a + page_va 0) pa perm = (if a = a + page_va 0 then Inr (True, t)
        else mappages_loop t pt (a + 4096) (a + page_va 0) (pa + 4096) perm)"
      "pt_inv t pt own' rest" "extends own s ps own' t rest"
      "view t pt = (view s pt)(vpn a := PA2PTE pa OR perm OR PTE_V)"
    then show ?case using map_range_Suc [of "view s pt" "vpn a" pa perm 0]
      by (intro exI [of _ 1] exI [of _ t] exI [of _ own'] exI [of _ rest]) simp
  qed
next
  case (Suc n)
  have va: "a < MAXVA" "view s pt (vpn a) AND PTE_V = 0" using Suc.prems(2,3) by (simp_all add: less_MAXVA_iff)
  have a1: "unat (a + page_va 1) = unat a + 4096" "vpn (a + page_va 1) = vpn a + 1" "page_va 1 = 4096"
    using unat_plus_pages [of a 1] vpn_plus_pages [of a 1] page_va_Suc [of 0] Suc.prems(2) by simp_all
  have stop: "a + page_va (Suc n) = (a + 4096) + page_va n" by (simp add: page_va_Suc)
  have "unat (a + page_va (Suc n)) \<noteq> unat a" using unat_plus_pages [of a "Suc n"] Suc.prems(2) by simp
  then have ne: "a \<noteq> a + page_va (Suc n)" by metis
  show ?case
  proof (rule mappages_step [OF Suc.prems(1) va, of "a + page_va (Suc n)" pa perm])
    fix t own'
    assume "mappages_loop s pt a (a + page_va (Suc n)) pa perm = Inr (False, t)" "pt_inv t pt own' []"
      "extends own s ps own' t []" "view t pt = view s pt"
    then show ?case by (intro exI [of _ 0] exI [of _ t] exI [of _ own'] exI [of _ "[]"]) simp
  next
    fix t own' rest
    assume m: "mappages_loop s pt a (a + page_va (Suc n)) pa perm = (if a = a + page_va (Suc n) then Inr (True, t)
        else mappages_loop t pt (a + 4096) (a + page_va (Suc n)) (pa + 4096) perm)"
      and i: "pt_inv t pt own' rest" and e: "extends own s ps own' t rest"
      and v: "view t pt = (view s pt)(vpn a := PA2PTE pa OR perm OR PTE_V)"
    have "\<forall>m. vpn (a + 4096) \<le> m \<and> m \<le> vpn (a + 4096) + n \<longrightarrow> view t pt m AND PTE_V = 0"
      using Suc.prems(3) a1 v by auto
    moreover have "unat (a + 4096) + n * 4096 < 2 ^ 38" using Suc.prems(2) a1 by simp
    ultimately obtain k u o' r' where IH:
      "mappages_loop t pt (a + 4096) (a + 4096 + page_va n) (pa + 4096) perm = Inr (k = Suc n, u)"
      "pt_inv u pt o' r'" "extends own' t rest o' u r'" "k \<le> Suc n" "k < Suc n \<longrightarrow> r' = []"
      "view u pt = map_range (view t pt) (vpn (a + 4096)) k (pa + 4096) perm"
      using Suc.IH [OF i] by metis
    have "view u pt = map_range (view s pt) (vpn a) (Suc k) pa perm"
      using IH(6) v a1 map_range_Suc [of "view s pt" "vpn a" pa perm k] by simp
    moreover have "mappages_loop s pt a (a + page_va (Suc n)) pa perm = Inr (k = Suc n, u)"
      unfolding m using ne IH(1) stop by presburger
    ultimately show ?case using IH(2,4,5) extends_trans [OF e IH(3)]
      by (intro exI [of _ "Suc k"] exI [of _ u] exI [of _ o'] exI [of _ r']) simp
  qed
qed

lemma mappages_ok:
  assumes "pt_inv s pt own ps" and "0 < n" and "va mod 4096 = 0" and "unat va + n * 4096 \<le> unat MAXVA"
    and "\<forall>m. vpn va \<le> m \<and> m < vpn va + n \<longrightarrow> view s pt m AND PTE_V = 0"
  shows "\<exists>k t own' rest. mappages s pt va (page_va n) pa perm = Inr (k = n, t) \<and> pt_inv t pt own' rest \<and>
    extends own s ps own' t rest \<and> k \<le> n \<and> (k < n \<longrightarrow> rest = []) \<and>
    view t pt = map_range (view s pt) (vpn va) k pa perm"
proof -
  obtain n' where n: "n = Suc n'" using assms(2) by (cases n) auto
  have b: "n * 4096 < 2 ^ 64" "unat va + n' * 4096 < 2 ^ 38" using assms(4) n by (simp_all add: MAXVA_nat)
  have z: "unat (page_va n) = n * 4096" using b by (simp add: unat_page_va)
  then have "page_va n \<noteq> 0" using n by (metis mult_is_0 nat.distinct(1) unat_0 zero_neq_numeral)
  moreover have "unat (page_va n mod 4096) = 0" using z by (simp add: unat_mod)
  then have "page_va n mod 4096 = 0" by (simp add: unsigned_eq_0_iff)
  ultimately have "mappages s pt va (page_va n) pa perm = mappages_loop s pt va (va + page_va n') pa perm"
    using assms(3) by (simp add: mappages_def n page_va_Suc)
  then show ?thesis
    using mappages_loop_ok [OF assms(1) b(2), of pa perm] assms(5) n by (simp add: less_Suc_eq_le)
qed

section \<open>Removing mappings\<close>

text \<open>
  The pages of a user address space.  The pages \<open>U\<close> are mapped, each to a frame of its own that belongs
  neither to the table nor to the free list.
\<close>

definition frame :: "pmem \<Rightarrow> addr \<Rightarrow> nat \<Rightarrow> addr" where
  "frame s pt n = unat (PTE2PA (view s pt n))"

definition uvm_inv :: "pmem \<Rightarrow> addr \<Rightarrow> owner \<Rightarrow> addr list \<Rightarrow> nat set \<Rightarrow> bool" where
  "uvm_inv s pt own ps U \<longleftrightarrow> pt_inv s pt own ps \<and> inj_on (frame s pt) U \<and>
     (\<forall>n\<in>U. view s pt n AND PTE_V \<noteq> 0 \<and> PTE_FLAGS (view s pt n) \<noteq> PTE_V \<and> page_ok s (frame s pt n) \<and>
        frame s pt n \<notin> dom own \<and> frame s pt n \<notin> set ps)"

lemma uvm_invD:
  assumes "uvm_inv s pt own ps U"
  shows "pt_inv s pt own ps" and "inj_on (frame s pt) U"
    and "n \<in> U \<Longrightarrow> view s pt n AND PTE_V \<noteq> 0" and "n \<in> U \<Longrightarrow> PTE_FLAGS (view s pt n) \<noteq> PTE_V"
    and "n \<in> U \<Longrightarrow> page_ok s (frame s pt n)" and "n \<in> U \<Longrightarrow> frame s pt n \<notin> dom own"
    and "n \<in> U \<Longrightarrow> frame s pt n \<notin> set ps" and "n \<in> U \<Longrightarrow> n < 2 ^ 26"
  using assms unfolding uvm_inv_def view_def by (auto split: if_splits)

text \<open>A write outside the pages of the table leaves the table alone.\<close>

lemma outside_write:
  assumes t: "tree s own" and r: "own pt = Some (2, 0)" and k: "kend t = kend s"
    and same: "\<forall>q\<in>dom own. \<forall>x\<in>page q. ram t x = ram s x"
  shows "tree t own" and "view t pt = view s pt" and "va < MAXVA \<Longrightarrow> lookup t pt va = lookup s pt va"
proof -
  have e: "entry t p i = entry s p i" if "p \<in> dom own" "i < 512" for p i
    unfolding entry_def using that same by (intro ld64_cong) (auto simp: page_def PGSIZE_def)
  then have si: "same_interior own s t" using k by (auto simp: same_interior_def dom_def)
  show "tree t own" by (rule same_interior_tree [OF si t])
  show lk: "lookup t pt va = lookup s pt va" if "va < MAXVA" for va
    using same_interior_lookup [OF si t, of pt 2 va] r key_root [OF that] by (simp add: lookup_eq)
  show "view t pt = view s pt"
  proof (rule view_eqI)
    fix va assume va: "va < MAXVA"
    have "leaf t pt va = leaf s pt va"
    proof (cases "lookup s pt va = 0")
      case True
      then show ?thesis using lk [OF va] by (simp add: leaf_def leaf_from_def leaf_at_def lookup_eq)
    next
      case False
      then obtain q where q: "own q = Some (0, key 0 va)" "lookup s pt va = q + 8 * PX 0 va"
        using lookup_from_leaf [OF t, of pt 2 va] r key_root [OF va] by (auto simp: lookup_eq)
      then show ?thesis using e [of q "PX 0 va"] PX_bound lk [OF va] False
        by (auto simp: leaf_def leaf_from_def leaf_at_def lookup_eq entry_def)
    qed
    then show "leaf t pt va = view s pt (vpn va)" using leaf_view [OF va] by simp
  qed (simp add: view_def)
qed

lemma free_frame:
  assumes inv: "uvm_inv s pt own ps U" and n: "n \<in> U"
  obtains t where "kfree s (frame s pt n) = Inr t" "pt_inv t pt own (frame s pt n # ps)" "kend t = kend s"
    "view t pt = view s pt" "\<forall>x. x \<notin> page (frame s pt n) \<longrightarrow> ram t x = ram s x"
    "\<And>va. va < MAXVA \<Longrightarrow> lookup t pt va = lookup s pt va"
proof -
  note d = uvm_invD [OF inv]
  let ?f = "frame s pt n"
  have i: "free_pages s ps" "tree s own" "own pt = Some (2, 0)" "dom own \<inter> set ps = {}"
    using d(1) by (auto simp: pt_inv_def)
  obtain t where t: "kfree s ?f = Inr t" "free_pages t (?f # ps)" "kend t = kend s"
    "\<forall>x. x \<notin> page ?f \<longrightarrow> ram t x = ram s x"
    using km.free_ok [OF i(1) d(5,7) [OF n]] by auto
  have same: "ram t x = ram s x" if "q \<in> dom own" "x \<in> page q" for q x
  proof -
    have "q \<noteq> ?f" using d(6) [OF n] that by auto
    moreover have "page_ok s q" using that treeD(1) [OF i(2)] by auto
    ultimately have "page q \<inter> page ?f = {}" using d(5) [OF n] by (intro pages_disjoint) (auto simp: page_ok_def)
    then show ?thesis using t(4) that by blast
  qed
  then have "\<forall>q\<in>dom own. \<forall>x\<in>page q. ram t x = ram s x" by blast
  note ow = outside_write [OF i(2,3) t(3) this]
  have "pt_inv t pt own (?f # ps)" using t(2) ow(1) i d(1) d(6) [OF n] by (auto simp: pt_inv_def)
  then show ?thesis using that t ow(2,3) by blast
qed

definition freed :: "bool \<Rightarrow> pmem \<Rightarrow> addr \<Rightarrow> nat \<Rightarrow> nat \<Rightarrow> addr list" where
  "freed do_free s pt n k = (if do_free then rev (map (frame s pt) [n..<n + k]) else [])"

definition unmap_range :: "(nat \<Rightarrow> uint64) \<Rightarrow> nat \<Rightarrow> nat \<Rightarrow> nat \<Rightarrow> uint64" where
  "unmap_range f n k m = (if n \<le> m \<and> m < n + k then 0 else f m)"

text \<open>Where removing the pages \<open>n\<close> to \<open>n + k - 1\<close> may write: the table and the frames it frees.\<close>

definition unmap_area :: "pmem \<Rightarrow> addr \<Rightarrow> owner \<Rightarrow> nat \<Rightarrow> nat \<Rightarrow> addr set" where
  "unmap_area s pt own n k = (\<Union>q\<in>dom own \<union> frame s pt ` {n..<n + k}. page q)"

lemma unmap_step:
  assumes inv: "uvm_inv s pt own ps U" and n: "n \<in> U" and lt: "page_va n < stop"
  obtains t where "uvmunmap_loop s pt (page_va n) stop do_free = uvmunmap_loop t pt (page_va n + 4096) stop do_free"
    "uvm_inv t pt own (freed do_free s pt n 1 @ ps) (U - {n})" "view t pt = (view s pt)(n := 0)" "kend t = kend s"
    "\<forall>x. x \<notin> unmap_area s pt own n 1 \<longrightarrow> ram t x = ram s x"
proof -
  note d = uvm_invD [OF inv]
  have va: "page_va n < MAXVA" "vpn (page_va n) = n" using d(8) [OF n] by (simp_all add: vpn_bound)
  let ?p = "lookup s pt (page_va n)" and ?f = "frame s pt n"
  have nz: "?p \<noteq> 0"
    using d(3) [OF n] leaf_view [OF va(1), of s pt] va(2)
    by (auto simp: leaf_def leaf_from_def leaf_at_def lookup_eq split: if_splits)
  then have e: "ld64 (ram s) ?p = view s pt n"
    using leaf_view [OF va(1), of s pt] va(2) by (simp add: leaf_def leaf_from_def leaf_at_def lookup_eq)
  have w: "walk s pt (page_va n) False = Inr (?p, s)"
    using va(1) by (simp add: walk_def walk_loop_pure lookup_eq not_le [symmetric])
  obtain u where u: "(if do_free then kfree s ?f else Inr s) = Inr u" "pt_inv u pt own (freed do_free s pt n 1 @ ps)"
    "kend u = kend s" "view u pt = view s pt" "lookup u pt (page_va n) = ?p"
    "\<forall>x. x \<notin> page ?f \<longrightarrow> ram u x = ram s x"
  proof (cases do_free)
    case True
    show ?thesis by (rule free_frame [OF inv n], rule that) (simp_all add: True freed_def va(1))
  next
    case False
    then show ?thesis using that [of s] d(1) by (simp add: freed_def)
  qed
  let ?t = "set_leaf u ?p 0"
  have nz': "lookup u pt (page_va n) \<noteq> 0" using nz u(5) by simp
  show ?thesis
  proof (rule that)
    show "uvmunmap_loop s pt (page_va n) stop do_free = uvmunmap_loop ?t pt (page_va n + 4096) stop do_free"
      using lt w nz e d(3,4) [OF n] u(1)
      by (subst uvmunmap_loop.simps) (cases do_free, simp_all add: set_leaf_def frame_def)
    show v: "view ?t pt = (view s pt)(n := 0)" using set_leaf_view [OF u(2) va(1) nz', of 0] u(4,5) va(2) by simp
    show "kend ?t = kend s" using u(3) by (simp add: set_leaf_def)
    show "\<forall>x. x \<notin> unmap_area s pt own n 1 \<longrightarrow> ram ?t x = ram s x"
      using set_leaf_inv(2) [OF u(2) va(1) nz', of 0] u(5,6) by (auto simp: extends_def unmap_area_def)
    have f: "view ?t pt m = view s pt m" "frame ?t pt m = frame s pt m" "frame s pt m \<noteq> ?f" if "m \<in> U - {n}" for m
      using that v n d(2) by (auto simp: frame_def inj_on_def)
    have "pt_inv ?t pt own (freed do_free s pt n 1 @ ps)" using set_leaf_inv(1) [OF u(2) va(1) nz'] u(5) by simp
    moreover have "inj_on (frame ?t pt) (U - {n})" using f(2) d(2) by (auto simp: inj_on_def)
    moreover have "page_ok ?t p = page_ok s p" for p using u(3) by (simp add: page_ok_def set_leaf_def)
    ultimately show "uvm_inv ?t pt own (freed do_free s pt n 1 @ ps) (U - {n})"
      unfolding uvm_inv_def using f d(3-7) by (auto simp: freed_def)
  qed
qed

lemma freed_Suc: "freed df s pt n (Suc k) = freed df s pt (Suc n) k @ freed df s pt n 1"
proof -
  have "[n..<n + Suc k] = n # [Suc n..<Suc n + k]" by (simp add: upt_rec)
  then have "freed df s pt n (Suc k) = freed df s pt (Suc n) k @ (if df then [frame s pt n] else [])"
    by (simp add: freed_def del: upt_Suc)
  then show ?thesis by (simp add: freed_def)
qed

lemma unmap_loop:
  assumes "uvm_inv s pt own ps U" and "{n..<n + k} \<subseteq> U" and "n + k \<le> 2 ^ 26"
  shows "\<exists>t. uvmunmap_loop s pt (page_va n) (page_va (n + k)) do_free = Inr t \<and>
    uvm_inv t pt own (freed do_free s pt n k @ ps) (U - {n..<n + k}) \<and>
    view t pt = unmap_range (view s pt) n k \<and> kend t = kend s \<and>
    (\<forall>x. x \<notin> unmap_area s pt own n k \<longrightarrow> ram t x = ram s x)"
  using assms
proof (induction k arbitrary: s ps U n)
  case 0
  then show ?case
    by (intro exI [of _ s]) (auto simp: uvmunmap_loop.simps [of s] freed_def unmap_range_def fun_eq_iff)
next
  case (Suc k)
  have n: "n \<in> U" using Suc.prems(2) by auto
  have lt: "page_va n < page_va (n + Suc k)"
    using Suc.prems(3) by (simp add: word_less_nat_alt unat_page_va)
  obtain t where t: "uvmunmap_loop s pt (page_va n) (page_va (n + Suc k)) do_free =
      uvmunmap_loop t pt (page_va n + 4096) (page_va (n + Suc k)) do_free"
    "uvm_inv t pt own (freed do_free s pt n 1 @ ps) (U - {n})" "view t pt = (view s pt)(n := 0)" "kend t = kend s"
    "\<forall>x. x \<notin> unmap_area s pt own n 1 \<longrightarrow> ram t x = ram s x"
    by (rule unmap_step [OF Suc.prems(1) n lt, where do_free = do_free])
  have sub: "{Suc n..<Suc n + k} \<subseteq> U - {n}" using Suc.prems(2) by auto
  have f: "frame t pt m = frame s pt m" if "m \<noteq> n" for m using t(3) that by (simp add: frame_def)
  obtain u where u: "uvmunmap_loop t pt (page_va (Suc n)) (page_va (Suc n + k)) do_free = Inr u"
    "uvm_inv u pt own (freed do_free t pt (Suc n) k @ freed do_free s pt n 1 @ ps) (U - {n} - {Suc n..<Suc n + k})"
    "view u pt = unmap_range (view t pt) (Suc n) k" "kend u = kend t"
    "\<forall>x. x \<notin> unmap_area t pt own (Suc n) k \<longrightarrow> ram u x = ram t x"
    using Suc.IH [OF t(2) sub] Suc.prems(3) by auto
  have fr: "freed do_free t pt (Suc n) k = freed do_free s pt (Suc n) k" using f by (auto simp: freed_def)
  have "uvmunmap_loop s pt (page_va n) (page_va (n + Suc k)) do_free = Inr u"
    using t(1) u(1) by (simp add: page_va_Suc add.commute)
  moreover have "U - {n} - {Suc n..<Suc n + k} = U - {n..<n + Suc k}" by auto
  then have "uvm_inv u pt own (freed do_free s pt n (Suc k) @ ps) (U - {n..<n + Suc k})"
    using u(2) fr unfolding freed_Suc by simp
  moreover have "view u pt = unmap_range (view s pt) n (Suc k)"
    using u(3) t(3) by (auto simp: unmap_range_def fun_eq_iff)
  moreover have "unmap_area t pt own (Suc n) k \<union> unmap_area s pt own n 1 \<subseteq> unmap_area s pt own n (Suc k)"
    using f unfolding unmap_area_def by fastforce
  then have "\<forall>x. x \<notin> unmap_area s pt own n (Suc k) \<longrightarrow> ram u x = ram s x"
    using u(5) t(5) by (metis UnI1 UnI2 subsetD)
  ultimately show ?case using u(4) t(4) by (intro exI [of _ u]) simp
qed

lemma uvmunmap_ok:
  assumes "uvm_inv s pt own ps U" and "{n..<n + k} \<subseteq> U" and "n + k \<le> 2 ^ 26"
  shows "\<exists>t. uvmunmap s pt (page_va n) (of_nat k) do_free = Inr t \<and>
    uvm_inv t pt own (freed do_free s pt n k @ ps) (U - {n..<n + k}) \<and>
    view t pt = unmap_range (view s pt) n k \<and> kend t = kend s \<and>
    (\<forall>x. x \<notin> unmap_area s pt own n k \<longrightarrow> ram t x = ram s x)"
proof -
  have "unat (page_va n mod 4096) = 0" using assms(3) by (simp add: unat_mod unat_page_va)
  then have "page_va n mod 4096 = 0" by (simp add: unsigned_eq_0_iff)
  moreover have "page_va n + of_nat k * 4096 = page_va (n + k)" by (simp add: page_va_def algebra_simps)
  ultimately have "uvmunmap s pt (page_va n) (of_nat k) do_free =
      uvmunmap_loop s pt (page_va n) (page_va (n + k)) do_free" by (simp add: uvmunmap_def)
  then show ?thesis using unmap_loop [OF assms] by simp
qed

end
