(* ===== verification/VmUser.thy ===== *)
theory VmUser
  imports VmMap
begin

text \<open>
  User address spaces: \<^verbatim>\<open>uvmalloc\<close> and \<^verbatim>\<open>uvmdealloc\<close> against the set of pages of the space, and the copying
  functions against the bytes a user program sees.
\<close>

section \<open>Growing and shrinking\<close>

text \<open>Two states in which the pages \<open>U\<close> have the same frames with the same contents.\<close>

definition same_pages :: "pmem \<Rightarrow> addr \<Rightarrow> nat set \<Rightarrow> pmem \<Rightarrow> bool" where
  "same_pages s pt U t \<longleftrightarrow>
     (\<forall>n\<in>U. view t pt n = view s pt n \<and> (\<forall>x\<in>page (frame s pt n). ram t x = ram s x))"

lemma same_pages_refl [simp]: "same_pages s pt U s"
  by (simp add: same_pages_def)

lemma same_pages_trans: "same_pages s pt U t \<Longrightarrow> same_pages t pt U u \<Longrightarrow> same_pages s pt U u"
  by (auto simp: same_pages_def frame_def)

lemma same_pages_mono: "same_pages s pt U t \<Longrightarrow> V \<subseteq> U \<Longrightarrow> same_pages s pt V t"
  by (auto simp: same_pages_def)

lemma page_disjoint: "page_ok s p \<Longrightarrow> page_ok s q \<Longrightarrow> p \<noteq> q \<Longrightarrow> x \<in> page p \<Longrightarrow> x \<notin> page q"
  using pages_disjoint [of p q] by (auto simp: page_ok_def)

lemma page_ok_kend: "kend t = kend s \<Longrightarrow> page_ok t p = page_ok s p"
  by (simp add: page_ok_def)

lemma own_page_ok: "pt_inv s pt own ps \<Longrightarrow> q \<in> dom own \<Longrightarrow> page_ok s q"
  using treeD(1) [of s own q] by (auto simp: pt_inv_def)

lemma mappages_page:
  assumes inv: "pt_inv s pt own ps" and n: "n < 2 ^ 26" and free: "view s pt n AND PTE_V = 0"
  obtains t own' where "mappages s pt (page_va n) 4096 pa perm = Inr (False, t)" "pt_inv t pt own' []"
      "extends own s ps own' t []" "view t pt = view s pt" "length ps \<le> 2"
    | t own' rest where "mappages s pt (page_va n) 4096 pa perm = Inr (True, t)" "pt_inv t pt own' rest"
      "extends own s ps own' t rest" "view t pt = (view s pt)(n := PA2PTE pa OR perm OR PTE_V)" "length ps \<le> length rest + 2"
proof -
  have u: "unat (page_va n) = n * 4096" using n by (simp add: unat_page_va)
  then have "unat (page_va n mod 4096) = 0" by (simp add: unat_mod)
  then have al: "page_va n mod 4096 = 0" by (simp add: unsigned_eq_0_iff)
  then have m: "mappages s pt (page_va n) 4096 pa perm = mappages_loop s pt (page_va n) (page_va n) pa perm"
    by (simp add: mappages_def)
  have va: "page_va n < MAXVA" "vpn (page_va n) = n" using n by (simp_all add: vpn_bound)
  show ?thesis
    by (rule mappages_step [OF inv va(1), of "page_va n" pa perm]) (use free va(2) m that in simp_all)
qed

text \<open>The new frame of a page: taken from the free list, filled with zeros.\<close>

lemma zero_frame:
  assumes inv: "uvm_inv s pt own (m # qs) U" and k: "kalloc s = (m, s1)"
  defines "s2 \<equiv> s1\<lparr>ram := memset (ram s1) m 0 PGSIZE\<rparr>"
  shows "uvm_inv s2 pt own qs U" and "view s2 pt = view s pt" and "kend s2 = kend s" and "same_pages s pt U s2"
    and "page_ok s m" and "m \<notin> set qs" and "m \<noteq> 0" and "m \<notin> dom own" and "n \<in> U \<Longrightarrow> frame s pt n \<noteq> m"
    and "\<forall>x\<in>page m. ram s2 x = 0" and "\<forall>x. x \<notin> page m \<longrightarrow> ram s2 x = ram s x"
proof -
  note d = uvm_invD [OF inv]
  have i: "free_pages s (m # qs)" "tree s own" "own pt = Some (2, 0)" "dom own \<inter> set (m # qs) = {}"
    using d(1) by (auto simp: pt_inv_def)
  obtain u where u: "kalloc s = (m, u)" "free_pages u qs" "kend u = kend s" "page_ok s m" "m \<notin> set qs"
    "\<forall>x. x \<notin> page m \<longrightarrow> ram u x = ram s x" using km.alloc_some [OF i(1)] by blast
  have [simp]: "u = s1" using u(1) k by simp
  show k2: "kend s2 = kend s" using u(3) by (simp add: s2_def)
  show "page_ok s m" "m \<notin> set qs" using u by simp_all
  show md: "m \<notin> dom own" using i(4) by auto
  show mf: "frame s pt n \<noteq> m" if "n \<in> U" for n using d(7) [OF that] by auto
  show "m \<noteq> 0" using u(4) treeD(5) [OF i(2)] by (auto simp: page_ok_def)
  show "\<forall>x\<in>page m. ram s2 x = 0" by (simp add: s2_def memset_eq page_def)
  show fr: "\<forall>x. x \<notin> page m \<longrightarrow> ram s2 x = ram s x"
    using u(6) by (auto simp: s2_def memset_eq page_def)
  have fp: "free_pages s2 qs" unfolding s2_def using u
    by (intro km.write_used [of s1 qs m]) (auto simp: page_ok_def memset_frame)
  have "\<forall>q\<in>dom own. \<forall>x\<in>page q. ram s2 x = ram s x"
  proof (intro ballI)
    fix q x assume "q \<in> dom own" "x \<in> page q"
    then show "ram s2 x = ram s x"
      using fr page_disjoint [OF own_page_ok [OF d(1)] u(4)] md by blast
  qed
  note ow = outside_write [OF i(2,3) k2 this]
  show v: "view s2 pt = view s pt" by (rule ow(2))
  show "same_pages s pt U s2"
    unfolding same_pages_def using v fr mf page_disjoint [OF d(5) u(4)] by auto
  have "pt_inv s2 pt own qs" using fp ow(1) i d(1) by (auto simp: pt_inv_def)
  then show "uvm_inv s2 pt own qs U"
    using d v page_ok_kend [OF k2] unfolding uvm_inv_def frame_def by auto
qed

lemma extends_uvm:
  assumes inv: "uvm_inv s pt own ps U" and e: "extends own s ps own' t rest" and p: "pt_inv t pt own' rest"
    and v: "\<forall>n\<in>U. view t pt n = view s pt n"
  shows "uvm_inv t pt own' rest U" and "same_pages s pt U t"
proof -
  note d = uvm_invD [OF inv]
  obtain used where u: "ps = used @ rest" "dom own' = dom own \<union> set used" "kend t = kend s"
    "\<forall>x. (\<forall>q\<in>dom own'. x \<notin> page q) \<longrightarrow> ram t x = ram s x" using e by (auto simp: extends_def)
  have f: "frame t pt n = frame s pt n" if "n \<in> U" for n using v that by (simp add: frame_def)
  have nd: "frame s pt n \<notin> dom own'" if "n \<in> U" for n using d(6,7) [OF that] u by auto
  show "uvm_inv t pt own' rest U"
    using p d f v nd u page_ok_kend [OF u(3)] unfolding uvm_inv_def inj_on_def by auto
  show "same_pages s pt U t"
    unfolding same_pages_def
  proof (intro ballI conjI)
    fix n x assume n: "n \<in> U" and x: "x \<in> page (frame s pt n)"
    have "x \<notin> page q" if "q \<in> dom own'" for q
      using page_disjoint [OF d(5) [OF n], of q x] own_page_ok [OF p that] page_ok_kend [OF u(3)] nd [OF n] x that
      by auto
    then show "ram t x = ram s x" using u(4) by blast
  qed (use v in simp)
qed

lemma flags_or: "f < 0x400 \<Longrightarrow> g < 0x400 \<Longrightarrow> f OR g < (0x400::uint64)"
proof -
  assume f: "f < 0x400" and g: "g < 0x400"
  have "n < 10" if "bit f n \<or> bit g n" for n
    using that bit_flags [OF f, of n] bit_flags [OF g, of n] by (auto simp: not_le [symmetric])
  then have "take_bit 10 (f OR g) = f OR g" by (intro bit_word_eqI) (auto simp: bit_simps)
  then have "unat (f OR g) = take_bit 10 (unat (f OR g))" by (metis unsigned_take_bit_eq)
  then have "unat (f OR g) < 2 ^ 10" by (metis take_bit_nat_less_exp)
  then show ?thesis by (simp add: word_less_nat_alt)
qed

definition user_pte :: "addr \<Rightarrow> uint64 \<Rightarrow> uint64" where
  "user_pte m xperm = PA2PTE (of_nat m) OR (PTE_R OR PTE_U OR xperm) OR PTE_V"

lemma user_pte:
  assumes "page_ok s m" and x: "xperm < 0x400"
  shows "unat (PTE2PA (user_pte m xperm)) = m" and "user_pte m xperm AND PTE_V \<noteq> 0"
    and "PTE_FLAGS (user_pte m xperm) \<noteq> PTE_V"
proof -
  have m: "unat (of_nat m :: uint64) = m" "m mod 4096 = 0"
    using assms(1) by (auto simp: page_ok_def PHYSTOP_def KERNBASE_def unat_of_nat PGSIZE_def)
  have e: "user_pte m xperm = PA2PTE (of_nat m) OR ((PTE_R OR PTE_U OR xperm) OR PTE_V)"
    by (simp add: user_pte_def)
  have f: "(PTE_R OR PTE_U OR xperm) OR PTE_V < 0x400"
    using x by (intro flags_or) (simp_all add: PTE_R_def PTE_U_def PTE_V_def)
  show "unat (PTE2PA (user_pte m xperm)) = m" unfolding e using PTE2PA_PA2PTE [OF _ f] m by simp
  have v: "((PTE_R OR PTE_U OR xperm) OR PTE_V) AND PTE_V = PTE_V"
    by (rule bit_word_eqI) (auto simp: bit_simps)
  show "user_pte m xperm AND PTE_V \<noteq> 0"
    unfolding e using v flags_and [of PTE_V] by (simp add: PTE_V_def)
  have "bit ((PTE_R OR PTE_U OR xperm) OR PTE_V) 1" "\<not> bit PTE_V 1" by (simp_all add: bit_simps PTE_R_def PTE_V_def)
  then show "PTE_FLAGS (user_pte m xperm) \<noteq> PTE_V" unfolding e PTE_FLAGS_PA2PTE [OF f] by metis
qed

text \<open>The pages an address space accounts for: its table, the frames of its pages and the free pages.\<close>

definition held :: "pmem \<Rightarrow> addr \<Rightarrow> owner \<Rightarrow> addr list \<Rightarrow> nat set \<Rightarrow> addr set" where
  "held s pt own ps U = dom own \<union> set ps \<union> frame s pt ` U"

lemma alloc_page:
  assumes inv: "uvm_inv s pt own (m # qs) U" and k: "kalloc s = (m, s1)" and n: "n < 2 ^ 26"
    and free: "view s pt n AND PTE_V = 0" and x: "xperm < 0x400"
  defines "s2 \<equiv> s1\<lparr>ram := memset (ram s1) m 0 PGSIZE\<rparr>"
  obtains t u own' where "mappages s2 pt (page_va n) 4096 (of_nat m) (PTE_R OR PTE_U OR xperm) = Inr (False, t)"
      "kfree t m = Inr u" "uvm_inv u pt own' [m] U" "view u pt = view s pt" "same_pages s pt U u"
      "held u pt own' [m] U = held s pt own (m # qs) U" "kend u = kend s" "length qs \<le> 2"
    | t own' rest where "mappages s2 pt (page_va n) 4096 (of_nat m) (PTE_R OR PTE_U OR xperm) = Inr (True, t)"
      "uvm_inv t pt own' rest (insert n U)" "view t pt = (view s pt)(n := user_pte m xperm)" "same_pages s pt U t"
      "held t pt own' rest (insert n U) = held s pt own (m # qs) U" "\<forall>y\<in>page m. ram t y = 0" "frame t pt n = m"
      "kend t = kend s" "length qs \<le> length rest + 2"
proof -
  note z = zero_frame [OF inv k, folded s2_def]
  have nU: "n \<notin> U" using uvm_invD(3) [OF inv, of n] free by auto
  have free2: "view s2 pt n AND PTE_V = 0" using z(2) free by simp
  show ?thesis
  proof (rule mappages_page [OF uvm_invD(1) [OF z(1)] n free2, of "of_nat m" "PTE_R OR PTE_U OR xperm"])
    fix t own'
    assume a: "mappages s2 pt (page_va n) 4096 (of_nat m) (PTE_R OR PTE_U OR xperm) = Inr (False, t)"
      "pt_inv t pt own' []" "extends own s2 qs own' t []" "view t pt = view s2 pt" "length qs \<le> 2"
    note eu = extends_uvm [OF z(1) a(3,2)]
    obtain used where used: "qs = used" "dom own' = dom own \<union> set used" "kend t = kend s2"
      using a(3) by (auto simp: extends_def)
    have m: "m \<notin> dom own'" "page_ok t m" using z(5,6,8) used page_ok_kend [of t s] z(3) by auto
    have v: "view t pt = view s pt" using a(4) z(2) by simp
    have i: "uvm_inv t pt own' [] U" using eu(1) a(4) by simp
    obtain u where u: "kfree t m = Inr u" "free_pages u [m]" "kend u = kend t" "\<forall>x. x \<notin> page m \<longrightarrow> ram u x = ram t x"
      using km.free_ok [of t "[]" m] a(2) m by (auto simp: pt_inv_def)
    have "\<forall>q\<in>dom own'. \<forall>x\<in>page q. ram u x = ram t x"
      using u(4) page_disjoint [OF own_page_ok [OF a(2)] m(2)] m(1) by blast
    note ow = outside_write [OF _ _ u(3) this]
    have pi: "pt_inv u pt own' [m]" and vu: "view u pt = view t pt"
      using a(2) u(2) ow(1,2) m(1) by (auto simp: pt_inv_def)
    have f: "frame u pt n = frame s pt n" "frame t pt n = frame s pt n" for n using vu v by (simp_all add: frame_def)
    have "uvm_inv u pt own' [m] U"
      using pi vu f z(9) uvm_invD [OF i] page_ok_kend [OF u(3)] unfolding uvm_inv_def inj_on_def by auto
    moreover have "same_pages t pt U u"
      unfolding same_pages_def using vu u(4) page_disjoint [OF uvm_invD(5) [OF i] m(2)] f z(9) by auto
    then have "same_pages s pt U u" using z(4) eu(2) a(4) same_pages_trans by metis
    moreover have "held u pt own' [m] U = held s pt own (m # qs) U"
      using f used by (auto simp: held_def)
    ultimately show ?thesis using that(1) [OF a(1) u(1)] vu v u(3) used(3) z(3) a(5) by simp
  next
    fix t own' rest
    assume a: "mappages s2 pt (page_va n) 4096 (of_nat m) (PTE_R OR PTE_U OR xperm) = Inr (True, t)"
      "pt_inv t pt own' rest" "extends own s2 qs own' t rest"
      "view t pt = (view s2 pt)(n := PA2PTE (of_nat m) OR (PTE_R OR PTE_U OR xperm) OR PTE_V)" "length qs \<le> length rest + 2"
    have v: "view t pt = (view s pt)(n := user_pte m xperm)" using a(4) z(2) by (simp add: user_pte_def)
    have same: "\<forall>n\<in>U. view t pt n = view s2 pt n" using a(4) nU by auto
    note eu = extends_uvm [OF z(1) a(3,2) same]
    obtain used where used: "qs = used @ rest" "dom own' = dom own \<union> set used" "kend t = kend s2"
      "\<forall>x. (\<forall>q\<in>dom own'. x \<notin> page q) \<longrightarrow> ram t x = ram s2 x"
      using a(3) by (auto simp: extends_def)
    have m: "m \<notin> dom own'" "m \<notin> set rest" "page_ok t m" using z(5,6,8) used page_ok_kend [of t s] z(3) by auto
    have fm: "frame t pt n = m" using v user_pte(1) [OF z(5) x] by (simp add: frame_def)
    have f: "frame t pt k = frame s pt k" if "k \<in> U" for k using v nU that by (auto simp: frame_def)
    have "inj_on (frame t pt) (insert n U)"
      using uvm_invD(2) [OF eu(1)] f fm z(9) by (fastforce simp: inj_on_insert)
    then have "uvm_inv t pt own' rest (insert n U)"
      using uvm_invD(1,3-7) [OF eu(1)] v user_pte(2,3) [OF z(5) x] m fm unfolding uvm_inv_def by auto
    moreover have "same_pages s pt U t" by (rule same_pages_trans [OF z(4) eu(2)])
    moreover have "held t pt own' rest (insert n U) = held s pt own (m # qs) U"
    proof -
      have "frame t pt ` insert n U = insert m (frame s pt ` U)" using f fm by auto
      then show ?thesis using used by (auto simp: held_def)
    qed
    moreover have "\<forall>y\<in>page m. ram t y = 0"
      using used(4) page_disjoint [OF m(3) own_page_ok [OF a(2)]] m(1) z(10) by metis
    ultimately show ?thesis using that(2) [OF a(1)] v fm used(3) z(3) a(5) by simp
  qed
qed

lemma unmap_same_pages:
  assumes inv: "uvm_inv s pt own ps U" and sub: "{n..<n + k} \<subseteq> U"
    and v: "view t pt = unmap_range (view s pt) n k"
    and fr: "\<forall>x. x \<notin> unmap_area s pt own n k \<longrightarrow> ram t x = ram s x"
  shows "same_pages s pt (U - {n..<n + k}) t"
  unfolding same_pages_def
proof (intro ballI conjI)
  note d = uvm_invD [OF inv]
  fix m assume m: "m \<in> U - {n..<n + k}"
  then show "view t pt m = view s pt m" using v by (auto simp: unmap_range_def)
  fix x assume x: "x \<in> page (frame s pt m)"
  have "x \<notin> page q" if "q \<in> dom own \<union> frame s pt ` {n..<n + k}" for q
  proof -
    have "q \<noteq> frame s pt m" using that m d(2) d(6) [of m] sub unfolding inj_on_def by blast
    moreover have "page_ok s q" using that own_page_ok [OF d(1)] d(5) sub by auto
    ultimately show ?thesis using page_disjoint [OF d(5) [of m] _ _ x] m by auto
  qed
  then show "ram t x = ram s x" using fr by (auto simp: unmap_area_def)
qed

lemma PGROUNDUP_page_va: "n \<le> 2 ^ 26 \<Longrightarrow> PGROUNDUP (page_va n) = page_va n"
proof -
  assume n: "n \<le> 2 ^ 26"
  have u: "unat (page_va n) = n * 4096" using n by (simp add: unat_page_va)
  have "(n * 4096 + 4095) div 4096 = n" by simp
  then have "unat (PGROUNDUP (page_va n)) = unat (page_va n)"
    using PGROUNDUP_unat [of "page_va n"] n by (simp add: u)
  then show ?thesis by (simp add: unsigned_word_eqI)
qed

lemma unat_eqI: "unat x = unat y \<Longrightarrow> x = y"
  by (rule unsigned_word_eqI)

lemma npages_int:
  assumes "j \<le> i" and "i \<le> 2 ^ 26"
  shows "(scast (ucast ((page_va i - page_va j) div 4096) :: uint32) :: uint64) = of_nat (i - j)"
proof -
  have "page_va i - page_va j = page_va (i - j)" using assms(1) by (simp add: page_va_def of_nat_diff left_diff_distrib)
  then have "unat ((page_va i - page_va j) div 4096) = i - j" using assms by (simp add: unat_div unat_page_va)
  then have e: "(page_va i - page_va j) div 4096 = of_nat (i - j)"
    using assms by (intro unat_eqI) (simp add: unat_of_nat del: of_nat_diff)
  have u: "(ucast (of_nat (i - j) :: uint64) :: uint32) = of_nat (i - j)"
    using assms by (intro unat_eqI) (simp add: unat_of_nat unsigned_ucast_eq take_bit_eq_mod del: of_nat_diff)
  have "signed_take_bit 31 (int (i - j)) = int (i - j)"
    using assms by (intro signed_take_bit_int_eq_self) auto
  then have "(scast (of_nat (i - j) :: uint32) :: uint64) = of_int (int (i - j))"
    by (simp add: signed_of_nat del: of_nat_diff)
  then show ?thesis unfolding e u by simp
qed

lemma dealloc_pages:
  assumes inv: "uvm_inv s pt own ps U" and le: "j \<le> i" "i \<le> 2 ^ 26" and sub: "{j..<i} \<subseteq> U"
  shows "\<exists>t. uvmdealloc s pt (page_va i) (page_va j) = Inr (page_va j, t) \<and>
    uvm_inv t pt own (freed True s pt j (i - j) @ ps) (U - {j..<i}) \<and>
    view t pt = unmap_range (view s pt) j (i - j) \<and> same_pages s pt (U - {j..<i}) t \<and> kend t = kend s \<and>
    held t pt own (freed True s pt j (i - j) @ ps) (U - {j..<i}) = held s pt own ps U"
proof (cases "i = j")
  case True
  then show ?thesis using inv by (auto simp: uvmdealloc_def freed_def unmap_range_def fun_eq_iff)
next
  case False
  then have lt: "page_va j < page_va i" using le by (simp add: word_less_nat_alt unat_page_va)
  have e: "{j..<j + (i - j)} = {j..<i}" "j + (i - j) \<le> 2 ^ 26" using le by auto
  obtain t where t: "uvmunmap s pt (page_va j) (of_nat (i - j)) True = Inr t"
    "uvm_inv t pt own (freed True s pt j (i - j) @ ps) (U - {j..<i})"
    "view t pt = unmap_range (view s pt) j (i - j)" "kend t = kend s"
    "\<forall>x. x \<notin> unmap_area s pt own j (i - j) \<longrightarrow> ram t x = ram s x"
    using uvmunmap_ok [OF inv _ e(2), of True] sub e(1) by auto
  have "uvmdealloc s pt (page_va i) (page_va j) = Inr (page_va j, t)"
    using lt le t(1) npages_int [OF le] by (auto simp: uvmdealloc_def PGROUNDUP_page_va simp del: of_nat_diff)
  moreover have sp: "same_pages s pt (U - {j..<i}) t"
    using unmap_same_pages [OF inv _ t(3,5)] sub e(1) by simp
  moreover have "held t pt own (freed True s pt j (i - j) @ ps) (U - {j..<i}) = held s pt own ps U"
  proof -
    have "frame t pt ` (U - {j..<i}) = frame s pt ` (U - {j..<i})"
      using sp by (intro image_cong) (auto simp: same_pages_def frame_def)
    moreover have "set (freed True s pt j (i - j)) = frame s pt ` {j..<i}" using e(1) by (simp add: freed_def)
    moreover have "frame s pt ` U = frame s pt ` (U - {j..<i}) \<union> frame s pt ` {j..<i}" using sub by blast
    ultimately show ?thesis by (auto simp: held_def)
  qed
  ultimately show ?thesis using t by (intro exI [of _ t]) simp
qed

text \<open>What a successful \<^verbatim>\<open>uvmalloc\<close> has done for the new pages \<open>N\<close>, and what a failed one leaves behind.\<close>

definition grown :: "pmem \<Rightarrow> addr \<Rightarrow> owner \<Rightarrow> addr list \<Rightarrow> nat set \<Rightarrow> nat set \<Rightarrow> uint64 \<Rightarrow> pmem \<Rightarrow> bool" where
  "grown s pt own ps U N xperm t \<longleftrightarrow> (\<exists>own' ps'. uvm_inv t pt own' ps' (U \<union> N) \<and>
     held t pt own' ps' (U \<union> N) = held s pt own ps U \<and> same_pages s pt U t \<and>
     (\<forall>m. m \<notin> N \<longrightarrow> view t pt m = view s pt m) \<and>
     (\<forall>m\<in>N. view t pt m = user_pte (frame t pt m) xperm \<and> (\<forall>x\<in>page (frame t pt m). ram t x = 0)))"

definition shrunk :: "pmem \<Rightarrow> addr \<Rightarrow> owner \<Rightarrow> addr list \<Rightarrow> nat set \<Rightarrow> nat set \<Rightarrow> pmem \<Rightarrow> bool" where
  "shrunk s pt own ps U R t \<longleftrightarrow> (\<exists>own' ps'. uvm_inv t pt own' ps' (U - R) \<and>
     held t pt own' ps' (U - R) = held s pt own ps U \<and> same_pages s pt (U - R) t \<and>
     (\<forall>m. view t pt m = (if m \<in> R then 0 else view s pt m)))"

lemma dealloc_shrunk:
  assumes inv: "uvm_inv s pt own ps U" and le: "j \<le> i" "i \<le> 2 ^ 26" and sub: "{j..<i} \<subseteq> U"
  obtains t where "uvmdealloc s pt (page_va i) (page_va j) = Inr (page_va j, t)" "shrunk s pt own ps U {j..<i} t"
  using dealloc_pages [OF assms] le(1) unfolding shrunk_def unmap_range_def by fastforce

lemma shrunk_step:
  assumes "uvm_inv u pt own' ps' U" and "view u pt = view s pt" and "same_pages s pt U u"
    and "held u pt own' ps' U = held s pt own ps U" and "shrunk u pt own' ps' U R t"
  shows "shrunk s pt own ps U R t"
  using assms same_pages_trans [OF same_pages_mono [OF assms(3)]] unfolding shrunk_def by fastforce

lemma shrunk_new:
  assumes sh: "shrunk t pt own' ps' (insert n U) {j..<Suc n} w" and nU: "n \<notin> U" and le: "j \<le> n"
    and sp: "same_pages s pt U t" and v: "view t pt = (view s pt)(n := e)" and z: "view s pt n = 0"
    and h: "held t pt own' ps' (insert n U) = held s pt own ps U"
  shows "shrunk s pt own ps U {j..<n} w"
proof -
  have e: "insert n U - {j..<Suc n} = U - {j..<n}" using nU le by (auto simp: less_Suc_eq)
  have "same_pages s pt (U - {j..<n}) w" if "same_pages t pt (U - {j..<n}) w"
    by (rule same_pages_trans [OF same_pages_mono [OF sp] that]) auto
  moreover have "(\<forall>m. view w pt m = (if m \<in> {j..<Suc n} then 0 else view t pt m)) \<Longrightarrow>
      (\<forall>m. view w pt m = (if m \<in> {j..<n} then 0 else view s pt m))"
    using v z le by (auto simp: less_Suc_eq)
  ultimately show ?thesis using sh h unfolding shrunk_def e by metis
qed

lemma grown_new:
  assumes g: "grown t pt own' ps' (insert n U) {Suc n..<N} xperm w" and n: "n < N"
    and v: "view t pt = (view s pt)(n := user_pte m xperm)" and sp: "same_pages s pt U t"
    and f: "frame t pt n = m" and z: "\<forall>y\<in>page m. ram t y = 0"
    and h: "held t pt own' ps' (insert n U) = held s pt own ps U"
  shows "grown s pt own ps U {n..<N} xperm w"
proof -
  have e: "insert n U \<union> {Suc n..<N} = U \<union> {n..<N}" using n by auto
  obtain o2 p2 where w: "uvm_inv w pt o2 p2 (U \<union> {n..<N})" "held w pt o2 p2 (U \<union> {n..<N}) = held s pt own ps U"
    "same_pages t pt (insert n U) w" "\<forall>m. m \<notin> {Suc n..<N} \<longrightarrow> view w pt m = view t pt m"
    "\<forall>m\<in>{Suc n..<N}. view w pt m = user_pte (frame w pt m) xperm \<and> (\<forall>x\<in>page (frame w pt m). ram w x = 0)"
    using g h unfolding grown_def e by auto
  have "view w pt n = user_pte m xperm" "frame w pt n = m" "\<forall>x\<in>page m. ram w x = 0"
    using w(3) v f z by (auto simp: same_pages_def frame_def)
  then have "\<forall>k\<in>{n..<N}. view w pt k = user_pte (frame w pt k) xperm \<and> (\<forall>x\<in>page (frame w pt k). ram w x = 0)"
    using w(5) by (metis atLeastLessThan_iff le_neq_implies_less Suc_leI)
  moreover have "same_pages s pt U w" by (rule same_pages_trans [OF sp same_pages_mono [OF w(3)]]) auto
  moreover have "\<forall>m. m \<notin> {n..<N} \<longrightarrow> view w pt m = view s pt m" using w(4) v n by auto
  ultimately show ?thesis using w(1,2) unfolding grown_def by blast
qed

lemma uvmalloc_loop_ok:
  assumes "uvm_inv s pt own ps U" and "j \<le> n" and "{j..<n} \<subseteq> U" and "n \<le> N" and "N \<le> 2 ^ 26"
    and "\<forall>m. n \<le> m \<and> m < N \<longrightarrow> view s pt m = 0" and x: "xperm < 0x400"
    and sz: "N = (unat newsz + 4095) div 4096"
  shows "\<exists>t. uvmalloc_loop s pt (page_va j) (page_va n) newsz xperm = Inr (newsz, t) \<and>
      grown s pt own ps U {n..<N} xperm t \<or>
    uvmalloc_loop s pt (page_va j) (page_va n) newsz xperm = Inr (0, t) \<and> shrunk s pt own ps U {j..<n} t"
  using assms(1-6)
proof (induction "N - n" arbitrary: s own ps U n)
  case 0
  then have "unat newsz \<le> n * 4096" using sz by linarith
  then have "\<not> page_va n < newsz" using 0 by (simp add: word_less_nat_alt unat_page_va)
  then show ?case using 0
    by (intro exI [of _ s]) (auto simp: uvmalloc_loop.simps [of s] grown_def intro!: exI [of _ own] exI [of _ ps])
next
  case (Suc k)
  have n: "n < N" "n < 2 ^ 26" "n \<le> 2 ^ 26" using Suc.hyps(2) Suc.prems(5) by auto
  then have "n * 4096 < unat newsz" using sz by linarith
  then have lt: "page_va n < newsz" using n by (simp add: word_less_nat_alt unat_page_va)
  have fp: "free_pages s ps" using uvm_invD(1) [OF Suc.prems(1)] by (simp add: pt_inv_def)
  have free: "view s pt n AND PTE_V = 0" using Suc.prems(6) n by simp
  then have nU: "n \<notin> U" using uvm_invD(3) [OF Suc.prems(1)] by blast
  show ?case
  proof (cases rule: km.alloc_cases [OF fp])
    case 1
    obtain t where "uvmdealloc s pt (page_va n) (page_va j) = Inr (page_va j, t)" "shrunk s pt own ps U {j..<n} t"
      by (rule dealloc_shrunk [OF Suc.prems(1,2) n(3) Suc.prems(3)])
    then show ?thesis using lt 1 by (intro exI [of _ t]) (simp add: uvmalloc_loop.simps [of s])
  next
    case (2 m qs s1)
    show ?thesis
    proof (rule alloc_page [OF Suc.prems(1) [unfolded 2(1)] 2(2) n(2) free x])
      fix t u own'
      assume a: "mappages (s1\<lparr>ram := memset (ram s1) m 0 PGSIZE\<rparr>) pt (page_va n) 4096 (of_nat m)
          (PTE_R OR PTE_U OR xperm) = Inr (False, t)" "kfree t m = Inr u" "uvm_inv u pt own' [m] U"
        "view u pt = view s pt" "same_pages s pt U u" "held u pt own' [m] U = held s pt own (m # qs) U"
      obtain w where w: "uvmdealloc u pt (page_va n) (page_va j) = Inr (page_va j, w)"
        "shrunk u pt own' [m] U {j..<n} w"
        by (rule dealloc_shrunk [OF a(3) Suc.prems(2) n(3) Suc.prems(3)])
      have "shrunk s pt own ps U {j..<n} w" using shrunk_step [OF a(3-5) _ w(2)] a(6) 2(1) by simp
      then show ?thesis using lt 2 a(1,2) w(1)
        by (intro exI [of _ w]) (simp add: uvmalloc_loop.simps [of s])
    next
      fix t own' rest
      assume a: "mappages (s1\<lparr>ram := memset (ram s1) m 0 PGSIZE\<rparr>) pt (page_va n) 4096 (of_nat m)
          (PTE_R OR PTE_U OR xperm) = Inr (True, t)" "uvm_inv t pt own' rest (insert n U)"
        "view t pt = (view s pt)(n := user_pte m xperm)" "same_pages s pt U t"
        "held t pt own' rest (insert n U) = held s pt own (m # qs) U" "\<forall>y\<in>page m. ram t y = 0" "frame t pt n = m"
      have step: "uvmalloc_loop s pt (page_va j) (page_va n) newsz xperm =
          uvmalloc_loop t pt (page_va j) (page_va (Suc n)) newsz xperm"
        using lt 2 a(1) by (simp add: uvmalloc_loop.simps [of s] page_va_Suc add.commute)
      have "\<exists>w. uvmalloc_loop t pt (page_va j) (page_va (Suc n)) newsz xperm = Inr (newsz, w) \<and>
            grown t pt own' rest (insert n U) {Suc n..<N} xperm w \<or>
          uvmalloc_loop t pt (page_va j) (page_va (Suc n)) newsz xperm = Inr (0, w) \<and>
            shrunk t pt own' rest (insert n U) {j..<Suc n} w"
        using Suc.hyps(2) Suc.prems a(3) n(1) by (intro Suc.hyps(1) [OF _ a(2)]) (auto simp: less_Suc_eq)
      moreover have "shrunk s pt own ps U {j..<n} w" if "shrunk t pt own' rest (insert n U) {j..<Suc n} w" for w
        using shrunk_new [OF that nU Suc.prems(2) a(4)] a(3,5) Suc.prems(6) n(1) 2(1) by simp
      moreover have "grown s pt own ps U {n..<N} xperm w" if "grown t pt own' rest (insert n U) {Suc n..<N} xperm w" for w
        using grown_new [OF that n(1) a(3,4,7,6)] a(5) 2(1) by simp
      ultimately show ?thesis using step by auto
    qed
  qed
qed

lemma uvmalloc_ok:
  assumes inv: "uvm_inv s pt own ps U" and le: "unat oldsz \<le> unat newsz" "newsz \<le> MAXVA" and x: "xperm < 0x400"
  defines "j \<equiv> (unat oldsz + 4095) div 4096" and "N \<equiv> (unat newsz + 4095) div 4096"
  assumes free: "\<forall>m. j \<le> m \<and> m < N \<longrightarrow> view s pt m = 0"
  shows "\<exists>t. uvmalloc s pt oldsz newsz xperm = Inr (newsz, t) \<and> grown s pt own ps U {j..<N} xperm t \<or>
    uvmalloc s pt oldsz newsz xperm = Inr (0, t) \<and> shrunk s pt own ps U {} t"
proof -
  have b: "unat newsz \<le> 2 ^ 38" using le(2) by (simp add: word_le_nat_alt MAXVA_nat)
  then have jN: "j \<le> N" "N \<le> 2 ^ 26" using le(1) unfolding j_def N_def by (auto intro: div_le_mono)
  then have "unat (PGROUNDUP oldsz) = unat (page_va j)"
    using PGROUNDUP_unat [of oldsz] le(1) b by (simp add: j_def unat_page_va)
  then have "PGROUNDUP oldsz = page_va j" by (rule unat_eqI)
  then have "uvmalloc s pt oldsz newsz xperm = uvmalloc_loop s pt (page_va j) (page_va j) newsz xperm"
    using le(1) by (simp add: uvmalloc_def word_less_nat_alt)
  then show ?thesis using uvmalloc_loop_ok [OF inv order_refl _ jN free x N_def [THEN meta_eq_to_obj_eq]] by simp
qed

section \<open>The bytes of an address space\<close>

definition ubyte :: "pmem \<Rightarrow> addr \<Rightarrow> nat \<Rightarrow> byte" where
  "ubyte s pt a = ram s (frame s pt (a div 4096) + a mod 4096)"

definition ubytes :: "pmem \<Rightarrow> addr \<Rightarrow> nat \<Rightarrow> nat \<Rightarrow> byte list" where
  "ubytes s pt a n = map (\<lambda>i. ubyte s pt (a + i)) [0..<n]"

definition kbytes :: "pmem \<Rightarrow> addr \<Rightarrow> nat \<Rightarrow> byte list" where
  "kbytes s a n = map (\<lambda>i. ram s (a + i)) [0..<n]"

text \<open>The range \<open>a\<close> to \<open>a + n\<close> lies in the address space and its pages have the permissions \<open>p\<close>.\<close>

definition urange :: "pmem \<Rightarrow> addr \<Rightarrow> nat set \<Rightarrow> uint64 \<Rightarrow> nat \<Rightarrow> nat \<Rightarrow> bool" where
  "urange s pt U perm a n \<longleftrightarrow> (\<forall>i<n. (a + i) div 4096 \<in> U \<and> view s pt ((a + i) div 4096) AND perm = perm)"

text \<open>The kernel's buffer is apart from the pages of the table, the frames of the space and the free pages.\<close>

definition kbuf_apart :: "pmem \<Rightarrow> addr \<Rightarrow> owner \<Rightarrow> addr list \<Rightarrow> nat set \<Rightarrow> addr \<Rightarrow> nat \<Rightarrow> bool" where
  "kbuf_apart s pt own ps U a n \<longleftrightarrow> (\<forall>x. a \<le> x \<and> x < a + n \<longrightarrow> (\<forall>q\<in>held s pt own ps U. x \<notin> page q))"

text \<open>A write that keeps the table and the free list keeps the address space.\<close>

lemma uvm_write:
  assumes inv: "uvm_inv s pt own ps U" and same: "\<forall>q\<in>dom own \<union> set ps. \<forall>x\<in>page q. m x = ram s x"
  shows "uvm_inv (s\<lparr>ram := m\<rparr>) pt own ps U" and "view (s\<lparr>ram := m\<rparr>) pt = view s pt"
proof -
  note d = uvm_invD [OF inv]
  have i: "free_pages s ps" "tree s own" "own pt = Some (2, 0)" using d(1) by (auto simp: pt_inv_def)
  have "\<forall>q\<in>dom own. \<forall>x\<in>page q. ram (s\<lparr>ram := m\<rparr>) x = ram s x" using same by auto
  note ow = outside_write [OF i(2,3) _ this]
  show v: "view (s\<lparr>ram := m\<rparr>) pt = view s pt" using ow(2) by simp
  have "free_pages (s\<lparr>ram := m\<rparr>) ps" using same by (intro km.frame [OF i(1)]) auto
  then have "pt_inv (s\<lparr>ram := m\<rparr>) pt own ps" using d(1) ow(1) by (simp add: pt_inv_def)
  then show "uvm_inv (s\<lparr>ram := m\<rparr>) pt own ps U"
    using d v page_ok_kend [of "s\<lparr>ram := m\<rparr>" s] unfolding uvm_inv_def frame_def by auto
qed

lemma in_page: "off < 4096 \<Longrightarrow> f + off \<in> page f"
  by (simp add: page_def PGSIZE_def)

lemma held_disjoint:
  assumes inv: "uvm_inv s pt own ps U" and n: "n \<in> U" and q: "q \<in> dom own \<union> set ps" and x: "x \<in> page q"
  shows "x \<notin> page (frame s pt n)"
proof -
  note d = uvm_invD [OF inv]
  have "free_pages s ps" using d(1) by (simp add: pt_inv_def)
  then have "page_ok s q" using q own_page_ok [OF d(1)] km.pages [of s ps q] by auto
  moreover have "q \<noteq> frame s pt n" using d(6,7) [OF n] q by auto
  ultimately show ?thesis using page_disjoint [OF _ d(5) [OF n] _ x] by simp
qed

lemma write_chunk:
  fixes src :: addr
  assumes inv: "uvm_inv s pt own ps U" and p: "p \<in> U" and b: "off + n \<le> 4096"
  defines "t \<equiv> s\<lparr>ram := memmove (ram s) (frame s pt p + off) src n\<rparr>"
  shows "uvm_inv t pt own ps U" and "view t pt = view s pt"
    and "a div 4096 \<in> U \<Longrightarrow> ubyte t pt a =
      (if p * 4096 + off \<le> a \<and> a < p * 4096 + off + n then ram s (src + (a - (p * 4096 + off))) else ubyte s pt a)"
    and "x \<notin> page (frame s pt p) \<Longrightarrow> ram t x = ram s x"
proof -
  note d = uvm_invD [OF inv]
  let ?f = "frame s pt p"
  show fr: "ram t x = ram s x" if "x \<notin> page ?f" for x
    using that b by (auto simp: t_def memmove_eq page_def PGSIZE_def)
  then have "\<forall>q\<in>dom own \<union> set ps. \<forall>x\<in>page q. ram t x = ram s x"
    using held_disjoint [OF inv p] by blast
  then have same: "\<forall>q\<in>dom own \<union> set ps. \<forall>x\<in>page q. memmove (ram s) (?f + off) src n x = ram s x"
    by (simp add: t_def)
  show "uvm_inv t pt own ps U" unfolding t_def by (rule uvm_write(1) [OF inv same])
  show v: "view t pt = view s pt" unfolding t_def by (rule uvm_write(2) [OF inv same])
  assume a: "a div 4096 \<in> U"
  have ft: "frame t pt k = frame s pt k" for k using v by (simp add: frame_def)
  show "ubyte t pt a =
      (if p * 4096 + off \<le> a \<and> a < p * 4096 + off + n then ram s (src + (a - (p * 4096 + off))) else ubyte s pt a)"
  proof (cases "a div 4096 = p")
    case True
    define r where "r = a mod 4096"
    have e: "a = p * 4096 + r" using True r_def by (metis div_mult_mod_eq)
    have "ubyte t pt a = ram t (?f + r)" "ubyte s pt a = ram s (?f + r)" by (simp_all add: ubyte_def ft True r_def)
    moreover have "ram t (?f + r) = (if off \<le> r \<and> r < off + n then ram s (src + (r - off)) else ram s (?f + r))"
      by (simp add: t_def memmove_eq)
    ultimately show ?thesis unfolding e by simp
  next
    case False
    then have "frame s pt (a div 4096) \<noteq> ?f" using d(2) a p by (auto simp: inj_on_def)
    then have "frame s pt (a div 4096) + a mod 4096 \<notin> page ?f"
      using page_disjoint [OF d(5) [OF a] d(5) [OF p] _ in_page] by simp
    moreover have "\<not> (p * 4096 + off \<le> a \<and> a < p * 4096 + off + n)"
    proof
      assume "p * 4096 + off \<le> a \<and> a < p * 4096 + off + n"
      then have "a div 4096 = p" using b by (intro div_nat_eqI) auto
      then show False using False by simp
    qed
    ultimately show ?thesis using fr by (auto simp: ubyte_def ft)
  qed
qed

lemma and_sub: "e AND p = p \<Longrightarrow> p AND f = f \<Longrightarrow> e AND f = (f::uint64)"
  by (metis and.assoc)

definition PTE_WU :: uint64 where "PTE_WU = PTE_W OR PTE_U OR PTE_V"
definition PTE_RU :: uint64 where "PTE_RU = PTE_U OR PTE_V"

lemma perm_bits:
  "e AND PTE_WU = PTE_WU \<Longrightarrow> e AND PTE_V \<noteq> 0" "e AND PTE_WU = PTE_WU \<Longrightarrow> e AND PTE_U \<noteq> 0"
  "e AND PTE_WU = PTE_WU \<Longrightarrow> e AND PTE_W \<noteq> 0"
  "e AND PTE_RU = PTE_RU \<Longrightarrow> e AND PTE_V \<noteq> 0" "e AND PTE_RU = PTE_RU \<Longrightarrow> e AND PTE_U \<noteq> 0"
proof -
  have n: "PTE_V \<noteq> 0" "PTE_U \<noteq> 0" "PTE_W \<noteq> 0" by (simp_all add: PTE_V_def PTE_U_def PTE_W_def)
  have s: "PTE_WU AND PTE_V = PTE_V" "PTE_WU AND PTE_U = PTE_U" "PTE_WU AND PTE_W = PTE_W"
    "PTE_RU AND PTE_V = PTE_V" "PTE_RU AND PTE_U = PTE_U"
    by (simp_all add: PTE_WU_def PTE_RU_def PTE_W_def PTE_U_def PTE_V_def)
  show "e AND PTE_WU = PTE_WU \<Longrightarrow> e AND PTE_V \<noteq> 0" using and_sub [OF _ s(1), of e] n by simp
  show "e AND PTE_WU = PTE_WU \<Longrightarrow> e AND PTE_U \<noteq> 0" using and_sub [OF _ s(2), of e] n by simp
  show "e AND PTE_WU = PTE_WU \<Longrightarrow> e AND PTE_W \<noteq> 0" using and_sub [OF _ s(3), of e] n by simp
  show "e AND PTE_RU = PTE_RU \<Longrightarrow> e AND PTE_V \<noteq> 0" using and_sub [OF _ s(4), of e] n by simp
  show "e AND PTE_RU = PTE_RU \<Longrightarrow> e AND PTE_U \<noteq> 0" using and_sub [OF _ s(5), of e] n by simp
qed

text \<open>The first page of a user range: its entry, its frame, and the rest of the range.\<close>

lemma first_page:
  assumes inv: "uvm_inv s pt own ps U" and r: "urange s pt U perm (unat va) (unat len)" and len: "0 < len"
  defines "p \<equiv> vpn va" and "off \<equiv> unat va mod 4096" and "n \<equiv> unat (page_rest va len)"
  shows "p \<in> U" and "view s pt p AND perm = perm" and "PGROUNDDOWN va < MAXVA" and "vpn (PGROUNDDOWN va) = p"
    and "unat (PTE2PA (view s pt p) + (va - PGROUNDDOWN va)) = frame s pt p + off"
    and "unat va = p * 4096 + off" and "off + n \<le> 4096" and "n \<le> unat len"
    and "unat (len - page_rest va len) = unat len - n"
    and "n < unat len \<Longrightarrow> unat (PGROUNDDOWN va + 4096) = unat va + n"
proof -
  have l: "0 < unat len" using len by (simp add: unat_gt_0)
  show p: "p \<in> U" and "view s pt p AND perm = perm"
    using r l by (auto simp: urange_def p_def vpn_def dest: spec [of _ 0])
  have pb: "p < 2 ^ 26" using uvm_invD(8) [OF inv p] .
  have u: "unat (PGROUNDDOWN va) = p * 4096" by (simp add: PGROUNDDOWN_unat p_def vpn_def)
  then show v: "vpn (PGROUNDDOWN va) = p" by (simp add: vpn_def)
  show "PGROUNDDOWN va < MAXVA" using v pb by (simp add: vpn_bound)
  show uva: "unat va = p * 4096 + off" by (simp add: p_def vpn_def off_def)
  have o: "off < 4096" by (simp add: off_def)
  have n: "n = min (unat len) (4096 - off)" by (simp add: n_def off_def unat_page_rest)
  show "off + n \<le> 4096" "n \<le> unat len" using n o by auto
  then have "page_rest va len \<le> len" by (simp add: word_le_nat_alt n_def)
  then show "unat (len - page_rest va len) = unat len - n" by (simp add: unat_sub n_def)
  have "page_ok s (frame s pt p)" using uvm_invD(5) [OF inv p] .
  then have "frame s pt p + off < 2 ^ 64" using o by (simp add: page_ok_def PHYSTOP_def KERNBASE_def)
  then show "unat (PTE2PA (view s pt p) + (va - PGROUNDDOWN va)) = frame s pt p + off"
    using unat_page_off [of va] by (simp add: unat_word_ariths frame_def off_def)
  assume "n < unat len"
  then have "n = 4096 - off" using n by auto
  then show "unat (PGROUNDDOWN va + 4096) = unat va + n"
    using u uva pb o by (simp add: unat_word_ariths)
qed

lemma lookup_user:
  assumes "va < MAXVA" and "view s pt (vpn va) AND PTE_V \<noteq> 0"
  shows "lookup s pt va \<noteq> 0" and "ld64 (ram s) (lookup s pt va) = view s pt (vpn va)"
proof -
  have l: "leaf s pt va = view s pt (vpn va)" by (rule leaf_view [OF assms(1)])
  then show nz: "lookup s pt va \<noteq> 0" using assms(2)
    by (auto simp: leaf_def leaf_from_def leaf_at_def lookup_eq split: if_splits)
  show "ld64 (ram s) (lookup s pt va) = view s pt (vpn va)"
    using l nz by (simp add: leaf_def leaf_from_def leaf_at_def lookup_eq)
qed

lemma urange_rest:
  assumes "urange s pt U perm a n" and "view t pt = view s pt"
  shows "k \<le> n \<Longrightarrow> urange t pt U perm (a + k) (n - k)"
  unfolding urange_def
proof (intro allI impI)
  fix i assume "k \<le> n" "i < n - k"
  then have "k + i < n" by simp
  then have "(a + (k + i)) div 4096 \<in> U \<and> view s pt ((a + (k + i)) div 4096) AND perm = perm"
    using assms(1) unfolding urange_def by blast
  then show "(a + k + i) div 4096 \<in> U \<and> view t pt ((a + k + i) div 4096) AND perm = perm"
    using assms(2) by (simp add: add.assoc)
qed

lemma urange_0 [simp]: "urange s pt U perm a 0"
  by (simp add: urange_def)

lemma copyout_ok:
  assumes "uvm_inv s pt own ps U" and "urange s pt U PTE_WU (unat dstva) (unat len)"
    and "kbuf_apart s pt own ps U src (unat len)"
  shows "\<exists>t. copyout s pt dstva src len = (True, t) \<and> uvm_inv t pt own ps U \<and> view t pt = view s pt \<and>
    (\<forall>a. a div 4096 \<in> U \<longrightarrow> ubyte t pt a = (if unat dstva \<le> a \<and> a < unat dstva + unat len
       then ram s (src + (a - unat dstva)) else ubyte s pt a)) \<and>
    (\<forall>x. (\<forall>q\<in>frame s pt ` U. x \<notin> page q) \<longrightarrow> ram t x = ram s x)"
  using assms
proof (induction "unat len" arbitrary: s dstva src len rule: less_induct)
  case less
  show ?case
  proof (cases "len = 0")
    case True
    then show ?thesis using less.prems(1) by (intro exI [of _ s]) (auto simp: copyout.simps [of s])
  next
    case False
    then have len: "0 < len" by (simp add: word_neq_0_conv)
    let ?p = "vpn dstva" and ?off = "unat dstva mod 4096" and ?nw = "page_rest dstva len"
    let ?n = "unat ?nw" and ?va0 = "PGROUNDDOWN dstva"
    note f = first_page [OF less.prems(1,2) len]
    note b = perm_bits(1-3) [OF f(2)]
    have lk: "lookup s pt ?va0 \<noteq> 0" "ld64 (ram s) (lookup s pt ?va0) = view s pt ?p"
      using lookup_user [OF f(3), of s pt] f(4) b by auto
    let ?s1 = "s\<lparr>ram := memmove (ram s) (frame s pt ?p + ?off) src ?n\<rparr>"
    note w = write_chunk [OF less.prems(1) f(1,7), where src = src]
    have step: "copyout s pt dstva src len = copyout ?s1 pt (?va0 + 4096) (src + ?n) (len - ?nw)"
      using len lk b f(5) f(3)
      by (subst copyout.simps) (auto simp: Let_def simp del: copyout.simps)
    have ft: "frame ?s1 pt k = frame s pt k" for k using w(2) by (simp add: frame_def)
    then have h: "held ?s1 pt own ps U = held s pt own ps U" by (simp add: held_def)
    have l1: "unat (len - ?nw) = unat len - ?n" "?n \<le> unat len" using f(8,9) by simp_all
    have dst: "?n = unat len \<or> unat (?va0 + 4096) = unat dstva + ?n" using f(8,10) by linarith
    have r: "urange ?s1 pt U PTE_WU (unat (?va0 + 4096)) (unat (len - ?nw))"
      using dst urange_rest [OF less.prems(2) w(2) l1(2)] l1(1) by auto
    have k: "kbuf_apart ?s1 pt own ps U (src + ?n) (unat (len - ?nw))"
      using less.prems(3) l1 h by (auto simp: kbuf_apart_def)
    obtain t where t: "copyout ?s1 pt (?va0 + 4096) (src + ?n) (len - ?nw) = (True, t)" "uvm_inv t pt own ps U"
      "view t pt = view ?s1 pt"
      "\<forall>a. a div 4096 \<in> U \<longrightarrow> ubyte t pt a = (if unat (?va0 + 4096) \<le> a \<and> a < unat (?va0 + 4096) + unat (len - ?nw)
         then ram ?s1 (src + ?n + (a - unat (?va0 + 4096))) else ubyte ?s1 pt a)"
      "\<forall>x. (\<forall>q\<in>frame ?s1 pt ` U. x \<notin> page q) \<longrightarrow> ram t x = ram ?s1 x"
      using less.hyps [OF page_rest_less [OF False] w(1) r k] by (elim exE conjE)
    have src: "ram ?s1 (src + i) = ram s (src + i)" if "i < unat len" for i
      using less.prems(3) that f(1) by (intro w(4)) (auto simp: kbuf_apart_def held_def)
    have "ubyte t pt a = (if unat dstva \<le> a \<and> a < unat dstva + unat len
        then ram s (src + (a - unat dstva)) else ubyte s pt a)" if "a div 4096 \<in> U" for a
      using t(4) [rule_format, OF that] w(3) [OF that] dst l1 f(6) src [of "a - unat dstva"]
      by (auto simp: add.assoc)
    moreover have "ram t x = ram s x" if "\<forall>q\<in>frame s pt ` U. x \<notin> page q" for x
      using t(5) [unfolded ft] that w(4) [of x] f(1) by auto
    ultimately show ?thesis using step t(1-3) w(2) by auto
  qed
qed

lemma read_chunk:
  fixes src :: addr
  assumes inv: "uvm_inv s pt own ps U" and k: "kbuf_apart s pt own ps U dst n"
  defines "t \<equiv> s\<lparr>ram := memmove (ram s) dst src n\<rparr>"
  shows "uvm_inv t pt own ps U" and "view t pt = view s pt" and "a div 4096 \<in> U \<Longrightarrow> ubyte t pt a = ubyte s pt a"
proof -
  have fr: "\<forall>q\<in>held s pt own ps U. \<forall>x\<in>page q. memmove (ram s) dst src n x = ram s x"
    using k by (auto simp: kbuf_apart_def memmove_eq)
  then have same: "\<forall>q\<in>dom own \<union> set ps. \<forall>x\<in>page q. memmove (ram s) dst src n x = ram s x"
    by (auto simp: held_def)
  show "uvm_inv t pt own ps U" unfolding t_def by (rule uvm_write(1) [OF inv same])
  show v: "view t pt = view s pt" unfolding t_def by (rule uvm_write(2) [OF inv same])
  assume "a div 4096 \<in> U"
  then have "memmove (ram s) dst src n (frame s pt (a div 4096) + a mod 4096) = ubyte s pt a"
    using fr in_page [of "a mod 4096"] by (auto simp: held_def ubyte_def)
  then show "ubyte t pt a = ubyte s pt a" using v by (simp add: ubyte_def frame_def t_def)
qed

lemma walkaddr_user:
  assumes "va < MAXVA" and "view s pt (vpn va) AND PTE_RU = PTE_RU"
  shows "walkaddr s pt va = PTE2PA (view s pt (vpn va))"
  using assms(1) lookup_user [OF assms(1) perm_bits(4) [OF assms(2)]] perm_bits(4,5) [OF assms(2)]
  by (auto simp: walkaddr_def Let_def)

lemma copyin_ok:
  assumes "uvm_inv s pt own ps U" and "urange s pt U PTE_RU (unat srcva) (unat len)"
    and "kbuf_apart s pt own ps U dst (unat len)"
  shows "\<exists>t. copyin s pt dst srcva len = (True, t) \<and> uvm_inv t pt own ps U \<and> view t pt = view s pt \<and>
    (\<forall>x. ram t x = (if dst \<le> x \<and> x < dst + unat len then ubyte s pt (unat srcva + (x - dst)) else ram s x))"
  using assms
proof (induction "unat len" arbitrary: s dst srcva len rule: less_induct)
  case less
  show ?case
  proof (cases "len = 0")
    case True
    then show ?thesis using less.prems(1) by (intro exI [of _ s]) (auto simp: copyin.simps [of s])
  next
    case False
    then have len: "0 < len" by (simp add: word_neq_0_conv)
    let ?p = "vpn srcva" and ?off = "unat srcva mod 4096" and ?nw = "page_rest srcva len"
    let ?n = "unat ?nw" and ?va0 = "PGROUNDDOWN srcva"
    note f = first_page [OF less.prems(1,2) len]
    have wa: "walkaddr s pt ?va0 = PTE2PA (view s pt ?p)" using walkaddr_user [OF f(3)] f(2,4) by simp
    have nz: "PTE2PA (view s pt ?p) \<noteq> 0"
      using uvm_invD(5) [OF less.prems(1) f(1)] treeD(5) [of s own] uvm_invD(1) [OF less.prems(1)]
      by (auto simp: page_ok_def frame_def pt_inv_def)
    let ?s1 = "s\<lparr>ram := memmove (ram s) dst (frame s pt ?p + ?off) ?n\<rparr>"
    have step: "copyin s pt dst srcva len = copyin ?s1 pt (dst + ?n) (?va0 + 4096) (len - ?nw)"
      using len wa nz f(5) by (subst copyin.simps) (simp add: Let_def)
    have l1: "unat (len - ?nw) = unat len - ?n" "?n \<le> unat len" using f(8,9) by simp_all
    have kn: "kbuf_apart s pt own ps U dst ?n" using less.prems(3) l1(2) by (simp add: kbuf_apart_def)
    note w = read_chunk [OF less.prems(1) kn, where src = "frame s pt ?p + ?off"]
    have h: "held ?s1 pt own ps U = held s pt own ps U" using w(2) by (simp add: held_def frame_def)
    have src: "?n = unat len \<or> unat (?va0 + 4096) = unat srcva + ?n" using f(8,10) by linarith
    have r: "urange ?s1 pt U PTE_RU (unat (?va0 + 4096)) (unat (len - ?nw))"
      using src urange_rest [OF less.prems(2) w(2) l1(2)] l1(1) by auto
    have k: "kbuf_apart ?s1 pt own ps U (dst + ?n) (unat (len - ?nw))"
      using less.prems(3) l1 h by (auto simp: kbuf_apart_def)
    obtain t where t: "copyin ?s1 pt (dst + ?n) (?va0 + 4096) (len - ?nw) = (True, t)" "uvm_inv t pt own ps U"
      "view t pt = view ?s1 pt"
      "\<forall>x. ram t x = (if dst + ?n \<le> x \<and> x < dst + ?n + unat (len - ?nw)
         then ubyte ?s1 pt (unat (?va0 + 4096) + (x - (dst + ?n))) else ram ?s1 x)"
      using less.hyps [OF page_rest_less [OF False] w(1) r k] by (elim exE conjE)
    have chunk: "ubyte s pt (unat srcva + i) = ram s (frame s pt ?p + ?off + i)" if "i < ?n" for i
    proof -
      have e: "unat srcva + i = ?p * 4096 + (?off + i)" "?off + i < 4096" using f(6,7) that by linarith+
      have "(?p * 4096 + (?off + i)) div 4096 = ?p" "(?p * 4096 + (?off + i)) mod 4096 = ?off + i"
        using e(2) by simp_all
      then show ?thesis unfolding ubyte_def e(1) by (simp only: add.assoc)
    qed
    have rest: "ubyte ?s1 pt (unat srcva + i) = ubyte s pt (unat srcva + i)" if "i < unat len" for i
      using less.prems(2) that by (intro w(3)) (auto simp: urange_def)
    have "ram t x = (if dst \<le> x \<and> x < dst + unat len then ubyte s pt (unat srcva + (x - dst)) else ram s x)" for x
    proof (cases "dst + ?n \<le> x \<and> x < dst + unat len")
      case True
      then have "unat (?va0 + 4096) + (x - (dst + ?n)) = unat srcva + (x - dst)" using src by linarith
      then show ?thesis using t(4) True l1 rest [of "x - dst"] by auto
    next
      case False
      then show ?thesis using t(4) l1 chunk [of "x - dst"] by (auto simp: memmove_eq)
    qed
    then show ?thesis using step t(1-3) w(2) by auto
  qed
qed

end
