(* ===== verification/VmSpec.thy ===== *)
theory VmSpec
  imports VmUser
begin

text \<open>
  What the virtual memory operations promise: \<^verbatim>\<open>mappages\<close> and \<^verbatim>\<open>uvmunmap\<close> against the abstract map, \<^verbatim>\<open>uvmalloc\<close> as an
  all-or-nothing operation, and the round trip of \<^verbatim>\<open>copyout\<close> and \<^verbatim>\<open>copyin\<close>.
\<close>

section \<open>A new address space\<close>

lemma empty_table:
  assumes "tree s own" and "own pt = Some (2, 0)" and "\<forall>i<512. entry s pt i = 0"
  shows "view s pt = (\<lambda>_. 0)"
proof (rule view_eqI)
  fix va assume "va < MAXVA"
  have "lookup_from s pt (Suc 1) va = 0" using assms(3) PX_bound [of 2 va] by (simp add: numeral_2_eq_2)
  then show "leaf s pt va = 0" by (simp add: leaf_def leaf_from_def numeral_2_eq_2)
qed simp

lemma uvmcreate_ok:
  assumes f: "free_pages s (pt # ps)" and k: "0 < kend s"
  obtains t where "uvmcreate s = (pt, t)" "uvm_inv t pt [pt \<mapsto> (2, 0)] ps {}" "view t pt = (\<lambda>_. 0)" "kend t = kend s"
proof -
  obtain u where u: "kalloc s = (pt, u)" "free_pages u ps" "kend u = kend s" "page_ok s pt" "pt \<notin> set ps"
    using km.alloc_some [OF f] by blast
  let ?t = "u\<lparr>ram := memset (ram u) pt 0 PGSIZE\<rparr>"
  have nz: "pt \<noteq> 0" using u(4) k by (auto simp: page_ok_def)
  have e: "entry ?t pt i = 0" if "i < 512" for i
    unfolding entry_def using that by (intro ld64_zero) (simp add: memset_eq PGSIZE_def)
  have t: "tree ?t [pt \<mapsto> (2, 0)]"
    using e u(3,4) k by (auto simp: tree_def page_ok_def numeral_2_eq_2 split: if_splits)
  have "free_pages ?t ps" using u by (intro km.write_used) (auto simp: page_ok_def memset_frame)
  then have "uvm_inv ?t pt [pt \<mapsto> (2, 0)] ps {}" using t u(5) by (auto simp: uvm_inv_def pt_inv_def)
  moreover have "view ?t pt = (\<lambda>_. 0)" using empty_table [OF t] e by simp
  ultimately show ?thesis using that [of ?t] u(1,3) nz by (simp add: uvmcreate_def)
qed

text \<open>A memory with eight pages above the kernel, after \<^verbatim>\<open>kinit\<close>, with an empty user table and then with one page.\<close>

definition pmem1 :: pmem where
  "pmem1 = \<lparr>ram = (\<lambda>_. 0), freelist = 0, kend = 0x87ff8000\<rparr>"

lemma pmem1_pages:
  obtains s ps where "kinit pmem1 = Inr s" "free_pages s ps" "8 \<le> length ps" "kend s = 0x87ff8000"
proof -
  have "freelist pmem1 = 0" "0 < kend pmem1" "kend pmem1 \<le> PHYSTOP"
    by (simp_all add: pmem1_def PHYSTOP_def KERNBASE_def)
  from kinit_ok [OF this] obtain s ps where s: "kinit pmem1 = Inr s" "free_pages s ps" "set ps = {p. page_ok pmem1 p}"
    "kend s = kend pmem1" by auto
  let ?A = "(\<lambda>i::nat. 0x87ff8000 + i * 4096) ` {..<8}"
  have "page_ok pmem1 (0x87ff8000 + i * 4096)" if "i < 8" for i
    using that by (simp add: page_ok_def pmem1_def PGSIZE_def PHYSTOP_def KERNBASE_def)
  then have "?A \<subseteq> set ps" unfolding s(3) by blast
  then have "card ?A \<le> card (set ps)" by (intro card_mono) simp_all
  moreover have "card ?A = 8" by (subst card_image) (simp_all add: inj_on_def)
  ultimately have "8 \<le> card (set ps)" by simp
  then have "8 \<le> length ps" using card_length [of ps] by simp
  then show ?thesis using that s by (simp add: pmem1_def)
qed

lemma empty_space:
  obtains s pt ps where "uvm_inv s pt [pt \<mapsto> (2, 0)] ps {}" "view s pt = (\<lambda>_. 0)" "7 \<le> length ps" "kend s = 0x87ff8000"
proof (rule pmem1_pages)
  fix s ps assume s: "kinit pmem1 = Inr s" "free_pages s ps" "8 \<le> length ps" "kend s = 0x87ff8000"
  then obtain pt qs where ps: "ps = pt # qs" by (cases ps) auto
  have "0 < kend s" using s(4) by simp
  then obtain t where t: "uvm_inv t pt [pt \<mapsto> (2, 0)] qs {}" "view t pt = (\<lambda>_. 0)" "kend t = kend s"
    using uvmcreate_ok [OF s(2) [unfolded ps]] by metis
  have "7 \<le> length qs" using s(3) ps by simp
  then show ?thesis using that t s(4) by metis
qed

text \<open>Growing from the empty space succeeds: a page needs at most two new pages for the table.\<close>

lemma one_page:
  obtains s pt own ps where "uvm_inv s pt own ps {0}" "view s pt 0 = user_pte (frame s pt 0) PTE_W" "kend s = 0x87ff8000" "ps \<noteq> []"
    "\<forall>n\<ge>1. view s pt n = 0"
proof (rule empty_space)
  fix s pt ps
  assume s: "uvm_inv s pt [pt \<mapsto> (2, 0)] ps {}" "view s pt = (\<lambda>_. 0)" "7 \<le> length ps" "kend s = 0x87ff8000"
  then obtain m qs where ps: "ps = m # qs" by (cases ps) auto
  have "free_pages s ps" using uvm_invD(1) [OF s(1)] by (simp add: pt_inv_def)
  then obtain u where k: "kalloc s = (m, u)" using km.alloc_some [of s m qs] ps by blast
  show ?thesis
  proof (rule alloc_page [OF s(1) [unfolded ps] k, of 0 PTE_W])
    fix t own' rest
    assume "uvm_inv t pt own' rest (insert 0 {})" "view t pt = (view s pt)(0 := user_pte m PTE_W)" "frame t pt 0 = m" "kend t = kend s" "length qs \<le> length rest + 2"
    then show ?thesis using that [of t pt own' rest] s(2-4) ps by (cases rest) auto
  qed (use s ps in \<open>auto simp: PTE_W_def\<close>)
qed

section \<open>Properties\<close>

text \<open>
  C15. \<^verbatim>\<open>mappages\<close> refines an update of the map from page numbers to entries.  On an aligned range of \<open>n > 0\<close>
  unmapped pages below \<^verbatim>\<open>MAXVA\<close> it does not panic.  When it returns 0 exactly the \<open>n\<close> pages are mapped, to
  consecutive frames with the given permissions, and every other translation is unchanged.  It returns
  \<open>-1\<close> only when the page allocator is exhausted, after a prefix of the range has been mapped.  All the
  memory it writes belongs to the pages of the table, those it had and those taken from the free list.
\<close>

theorem mappages_correct:
  assumes "pt_inv s pt own ps" and "0 < n" and "va mod 4096 = 0" and "unat va + n * 4096 \<le> unat MAXVA"
    and "\<forall>m. vpn va \<le> m \<and> m < vpn va + n \<longrightarrow> view s pt m AND PTE_V = 0"
  shows "\<exists>k t own' rest. mappages s pt va (page_va n) pa perm = Inr (k = n, t) \<and> pt_inv t pt own' rest \<and>
    extends own s ps own' t rest \<and> k \<le> n \<and> (k < n \<longrightarrow> rest = []) \<and>
    view t pt = map_range (view s pt) (vpn va) k pa perm"
  by (rule mappages_ok [OF assms])

theorem mappages_correct_witness:
  "\<exists>s pt t k. mappages s pt 0 0x4000 0x87ff9000 PTE_R = Inr (k = 4, t) \<and>
     view t pt = map_range (\<lambda>_. 0) 0 k 0x87ff9000 PTE_R"
proof (rule empty_space)
  fix s pt ps
  assume s: "uvm_inv s pt [pt \<mapsto> (2, 0)] ps {}" "view s pt = (\<lambda>_. 0)"
  have "page_va 4 = 0x4000" by (simp add: page_va_def)
  then show ?thesis
    using mappages_correct [OF uvm_invD(1) [OF s(1)], of 4 0 "0x87ff9000" PTE_R] s(2)
    by (auto simp: MAXVA_nat vpn_def)
qed

text \<open>
  C21. \<^verbatim>\<open>uvmunmap\<close> of mapped pages does not panic; afterwards exactly these pages are unmapped, and with
  \<open>do_free\<close> their frames, each once, are at the front of the free list and the rest of the address space
  keeps its frames.  Nothing is written outside the table and the freed frames.
\<close>

theorem uvmunmap_correct:
  assumes "uvm_inv s pt own ps U" and "{n..<n + k} \<subseteq> U" and "n + k \<le> 2 ^ 26"
  shows "\<exists>t. uvmunmap s pt (page_va n) (of_nat k) do_free = Inr t \<and>
    uvm_inv t pt own (freed do_free s pt n k @ ps) (U - {n..<n + k}) \<and>
    view t pt = unmap_range (view s pt) n k \<and> kend t = kend s \<and>
    (\<forall>x. x \<notin> unmap_area s pt own n k \<longrightarrow> ram t x = ram s x)"
  by (rule uvmunmap_ok [OF assms])

theorem uvmunmap_correct_witness:
  "\<exists>s pt f t ps. view s pt 0 = user_pte f PTE_W \<and> uvmunmap s pt 0 1 True = Inr t \<and> view t pt 0 = 0 \<and>
     free_pages t (f # ps)"
proof (rule one_page)
  fix s pt own ps
  assume s: "uvm_inv s pt own ps {0}" "view s pt 0 = user_pte (frame s pt 0) PTE_W"
  have "freed True s pt 0 1 = [frame s pt 0]" by (simp add: freed_def)
  then show ?thesis
    using uvmunmap_correct [OF s(1), of 0 1 True] s(2)
    by (auto simp: uvm_inv_def pt_inv_def unmap_range_def)
qed

text \<open>
  C10. \<^verbatim>\<open>uvmalloc\<close> grows an address space completely or not at all.  On success exactly the pages between the
  old and the new size are added: each has a frame of its own filled with zeros and the requested
  permissions, and the old pages keep their entries and their bytes.  When memory runs out it returns 0
  and every translation and every byte of the space is as before.  In both cases no page is lost: the
  table, the frames of the space and the free list together are the same pages as before the call.
\<close>

theorem uvmalloc_correct:
  assumes "uvm_inv s pt own ps U" and "unat oldsz \<le> unat newsz" and "newsz \<le> MAXVA" and "xperm < 0x400"
    and "\<forall>m. (unat oldsz + 4095) div 4096 \<le> m \<and> m < (unat newsz + 4095) div 4096 \<longrightarrow> view s pt m = 0"
  shows "\<exists>t. uvmalloc s pt oldsz newsz xperm = Inr (newsz, t) \<and>
      grown s pt own ps U {(unat oldsz + 4095) div 4096..<(unat newsz + 4095) div 4096} xperm t \<or>
    uvmalloc s pt oldsz newsz xperm = Inr (0, t) \<and> shrunk s pt own ps U {} t"
  by (rule uvmalloc_ok [OF assms])

theorem uvmalloc_correct_witness:
  "\<exists>s pt own ps t. uvm_inv s pt own ps {} \<and>
     (uvmalloc s pt 0 0x2800 PTE_W = Inr (0x2800, t) \<and> grown s pt own ps {} {0..<3} PTE_W t \<or>
      uvmalloc s pt 0 0x2800 PTE_W = Inr (0, t) \<and> shrunk s pt own ps {} {} t)"
proof (rule empty_space)
  fix s pt ps
  assume s: "uvm_inv s pt [pt \<mapsto> (2, 0)] ps {}" "view s pt = (\<lambda>_. 0)"
  have "(0x2800 :: uint64) \<le> MAXVA" by (simp add: MAXVA_def)
  then show ?thesis
    using uvmalloc_correct [OF s(1), of 0 "0x2800" PTE_W] s by (fastforce simp: PTE_W_def)
qed

text \<open>
  C16. What the kernel copies out to a user range it reads back with \<^verbatim>\<open>copyin\<close>.  Both calls succeed on a range
  whose pages the user can access, whatever its alignment and however many pages it spans; between the
  two the range holds the bytes of the source, every other byte of the space is unchanged, and the
  second call writes the destination buffer only.
\<close>

theorem copyout_copyin:
  assumes "uvm_inv s pt own ps U" and "urange s pt U PTE_WU (unat va) (unat len)"
    and "kbuf_apart s pt own ps U src (unat len)" and "kbuf_apart s pt own ps U dst (unat len)"
  shows "\<exists>t u. copyout s pt va src len = (True, t) \<and> copyin t pt dst va len = (True, u) \<and>
    ubytes t pt (unat va) (unat len) = kbytes s src (unat len) \<and>
    (\<forall>a. a div 4096 \<in> U \<and> (a < unat va \<or> unat va + unat len \<le> a) \<longrightarrow> ubyte t pt a = ubyte s pt a) \<and>
    kbytes u dst (unat len) = kbytes s src (unat len) \<and>
    (\<forall>x. x < dst \<or> dst + unat len \<le> x \<longrightarrow> ram u x = ram t x) \<and> uvm_inv u pt own ps U"
proof -
  obtain t where t: "copyout s pt va src len = (True, t)" "uvm_inv t pt own ps U" "view t pt = view s pt"
    "\<forall>a. a div 4096 \<in> U \<longrightarrow> ubyte t pt a = (if unat va \<le> a \<and> a < unat va + unat len
       then ram s (src + (a - unat va)) else ubyte s pt a)"
    using copyout_ok [OF assms(1-3)] by (elim exE conjE)
  have h: "held t pt own ps U = held s pt own ps U" using t(3) by (simp add: held_def frame_def)
  have r: "urange t pt U PTE_RU (unat va) (unat len)"
    using assms(2) t(3) and_sub [of _ PTE_WU PTE_RU]
    by (auto simp: urange_def PTE_WU_def PTE_RU_def PTE_U_def PTE_V_def PTE_W_def)
  obtain u where u: "copyin t pt dst va len = (True, u)" "uvm_inv u pt own ps U"
    "\<forall>x. ram u x = (if dst \<le> x \<and> x < dst + unat len then ubyte t pt (unat va + (x - dst)) else ram t x)"
    using copyin_ok [OF t(2) r, of dst] assms(4) h by (auto simp: kbuf_apart_def)
  have b: "ubyte t pt (unat va + i) = ram s (src + i)" if "i < unat len" for i
    using t(4) assms(2) that by (auto simp: urange_def)
  then have "ubytes t pt (unat va) (unat len) = kbytes s src (unat len)" by (simp add: ubytes_def kbytes_def)
  moreover have "kbytes u dst (unat len) = kbytes s src (unat len)" using u(3) b by (simp add: kbytes_def)
  ultimately show ?thesis using t u by (intro exI [of _ t] exI [of _ u]) auto
qed

theorem copyout_copyin_witness:
  "\<exists>s pt t u. copyout s pt 0xff0 0x1000 16 = (True, t) \<and> copyin t pt 0x2000 0xff0 16 = (True, u) \<and>
     kbytes u 0x2000 16 = kbytes s 0x1000 16"
proof (rule one_page)
  fix s pt own ps
  assume s: "uvm_inv s pt own ps {0}" "view s pt 0 = user_pte (frame s pt 0) PTE_W" "kend s = 0x87ff8000"
  have "user_pte m PTE_W AND PTE_WU = PTE_WU" for m
    unfolding user_pte_def PTE_WU_def by (rule bit_word_eqI) (auto simp: bit_simps)
  then have r: "urange s pt {0} PTE_WU (unat (0xff0 :: uint64)) (unat (16 :: uint64))"
    using s(2) by (simp add: urange_def)
  have "0x87ff8000 \<le> q" if "q \<in> held s pt own ps {0}" for q
  proof -
    have "page_ok s q"
      using that uvm_invD(1,5) [OF s(1)] treeD(1) [of s own q] km.pages [of s ps q] by (auto simp: held_def pt_inv_def)
    then show ?thesis using s(3) by (simp add: page_ok_def)
  qed
  then have k: "kbuf_apart s pt own ps {0} 0x1000 (unat (16 :: uint64))" "kbuf_apart s pt own ps {0} 0x2000 (unat (16 :: uint64))"
    by (force simp: kbuf_apart_def page_def)+
  show ?thesis using copyout_copyin [OF s(1) r k] by auto
qed

end
