(* ===== verification/Ring.thy ===== *)
theory Ring
  imports Prelude
begin

text \<open>
  Ring buffers as the pipe, the console and the UART driver use them: an array of \<open>N\<close> cells, a read and a
  write counter that run freely and wrap at the width of their type, and cells found by the counter
  modulo \<open>N\<close>.  The locale states what \<open>N\<close> must satisfy for the counters to be safe at wrap-around.
\<close>

definition ring_items :: "nat \<Rightarrow> 'b list \<Rightarrow> 'a::len word \<Rightarrow> 'a word \<Rightarrow> 'b list" where
  "ring_items N buf r w = map (\<lambda>i. buf ! (unat (r + of_nat i) mod N)) [0..<unat (w - r)]"

lemma length_ring_items [simp]: "length (ring_items N buf r w) = unat (w - r)"
  by (simp add: ring_items_def)

lemma ring_items_same [simp]: "ring_items N buf r r = []"
  by (simp add: ring_items_def)

text \<open>A third counter between the two splits the items.\<close>

lemma ring_split:
  assumes "unat (m - r) + unat (w - m) = unat (w - r :: 'a::len word)"
  shows "ring_items N buf r w = ring_items N buf r m @ ring_items N buf m w"
proof (rule nth_equalityI)
  fix i assume "i < length (ring_items N buf r w)"
  then have i: "i < unat (w - r)" by simp
  show "ring_items N buf r w ! i = (ring_items N buf r m @ ring_items N buf m w) ! i"
  proof (cases "i < unat (m - r)")
    case True
    then show ?thesis using i by (simp add: ring_items_def nth_append)
  next
    case False
    define j where "j = i - unat (m - r)"
    have ij: "i = unat (m - r) + j" "j < unat (w - m)" using False i assms by (auto simp: j_def)
    have "(of_nat i :: 'a word) = (m - r) + of_nat j" unfolding ij(1) by simp
    then have "r + of_nat i = m + of_nat j" by (simp only: add.assoc [symmetric]) simp
    then show ?thesis using i ij(2) False by (simp add: ring_items_def nth_append j_def [symmetric])
  qed
qed (simp add: assms)

lemma unat_diff_plus1: "unat (w - r) < 2 ^ LENGTH('a) - 1 \<Longrightarrow> unat (w + 1 - r :: 'a::len word) = unat (w - r) + 1"
proof -
  assume "unat (w - r) < 2 ^ LENGTH('a) - 1"
  then have "unat ((w - r) + 1) = unat (w - r) + 1" by (simp add: unat_word_ariths)
  then show ?thesis by (simp add: algebra_simps)
qed

lemma unat_diff_minus1: "w \<noteq> r \<Longrightarrow> unat (w - r :: 'a::len word) = unat (w - 1 - r) + 1"
proof -
  assume "w \<noteq> r"
  then have "w - r \<noteq> 0" by simp
  then have "unat (w - r - 1) = unat (w - r) - 1" "0 < unat (w - r)"
    by (simp_all add: unat_sub word_le_nat_alt Suc_le_eq unat_gt_0)
  moreover have "w - r - 1 = w - 1 - r" by simp
  ultimately show ?thesis by simp
qed

lemma unat_diff_pop: "w \<noteq> r \<Longrightarrow> unat (w - r :: 'a::len word) = unat (w - (r + 1)) + 1"
  using unat_diff_minus1 [of w r] by (simp add: algebra_simps)

locale ring =
  fixes N :: nat and counter :: "'a::len itself"
  assumes pos: "0 < N" and small: "N < 2 ^ LENGTH('a)" and wraps: "N dvd 2 ^ LENGTH('a)"
begin

lemma cell_mod: "unat (r + of_nat i :: 'a word) mod N = (unat r + i) mod N"
proof -
  have "unat (r + of_nat i :: 'a word) = (unat r + i) mod 2 ^ LENGTH('a)"
    by (simp add: unat_word_ariths unat_of_nat mod_simps)
  then show ?thesis using wraps by (simp add: mod_mod_cancel)
qed

lemma slots_differ:
  assumes "i < j" and "j < i + N"
  shows "(k + i) mod N \<noteq> (k + j) mod N"
proof
  assume "(k + i) mod N = (k + j) mod N"
  then have "N dvd (k + j) - (k + i)" using assms by (metis mod_eq_dvd_iff_nat add_le_mono order_refl less_imp_le)
  then show False using assms by (simp add: nat_dvd_not_less)
qed

lemma items_update:
  assumes "unat (w - r :: 'a word) < N" and "length buf = N"
  shows "ring_items N (buf[unat w mod N := x]) r w = ring_items N buf r w"
proof -
  have w: "unat w mod N = (unat r + unat (w - r)) mod N" using cell_mod [of r "unat (w - r)"] by simp
  have "buf[unat w mod N := x] ! (unat (r + of_nat i) mod N) = buf ! (unat (r + of_nat i) mod N)"
    if "i < unat (w - r)" for i
    unfolding w cell_mod using slots_differ [of i "unat (w - r)" "unat r"] that assms by simp
  then show ?thesis by (simp add: ring_items_def)
qed

text \<open>Writing a cell and advancing the write counter appends, if the ring is not full.\<close>

lemma push:
  assumes "unat (w - r :: 'a word) < N" and "length buf = N"
  shows "ring_items N (buf[unat w mod N := x]) r (w + 1) = ring_items N buf r w @ [x]"
proof -
  have "unat (w + 1 - r) = unat (w - r) + 1" using assms(1) small by (intro unat_diff_plus1) simp
  then have "ring_items N (buf[unat w mod N := x]) r (w + 1) =
      ring_items N (buf[unat w mod N := x]) r w @ [buf[unat w mod N := x] ! (unat w mod N)]"
    by (simp add: ring_items_def)
  then show ?thesis using items_update [OF assms] pos assms(2) by simp
qed

text \<open>Advancing the read counter removes the oldest item.\<close>

lemma pop:
  assumes "w \<noteq> (r :: 'a word)"
  shows "ring_items N buf r w = buf ! (unat r mod N) # ring_items N buf (r + 1) w"
proof -
  have "unat (w - r) = Suc (unat (w - (r + 1)))" using unat_diff_pop [OF assms] by simp
  then have "ring_items N buf r w =
      buf ! (unat r mod N) # map (\<lambda>i. buf ! (unat (r + of_nat (Suc i)) mod N)) [0..<unat (w - (r + 1))]"
    by (simp add: ring_items_def map_upt_Suc del: upt_Suc of_nat_Suc)
  then show ?thesis by (simp add: ring_items_def add.assoc)
qed

text \<open>Taking the write counter back removes the newest item.\<close>

lemma unpush:
  assumes "w \<noteq> (r :: 'a word)"
  shows "ring_items N buf r w = ring_items N buf r (w - 1) @ [buf ! (unat (w - 1) mod N)]"
proof -
  have u: "unat (w - r) = Suc (unat (w - 1 - r))" using unat_diff_minus1 [OF assms] by simp
  have "r + of_nat (unat (w - 1 - r)) = w - 1" by simp
  then show ?thesis unfolding ring_items_def u by simp
qed

lemma full_iff: "unat (w - r :: 'a word) = N \<longleftrightarrow> w = r + of_nat N"
proof
  assume "unat (w - r) = N"
  moreover have "w = r + of_nat (unat (w - r))" by simp
  ultimately show "w = r + of_nat N" by simp
qed (use small in \<open>simp add: unat_of_nat\<close>)

end

end
