(* ===== verification/Pipe.thy ===== *)
theory Pipe
  imports Ring VmSpec
begin

text \<open>
  \<^verbatim>\<open>kernel/pipe.c\<close>.  A run of \<^verbatim>\<open>pipewrite\<close> or \<^verbatim>\<open>piperead\<close> is the part of the call between two points where the
  pipe's lock is free: it starts at the loop index \<open>i\<close> and ends with a return value or in \<^verbatim>\<open>sleep\<close>, from which
  a later run continues at the same index.  \<open>ch\<close> is the address of the local variable of that name on
  the kernel stack, \<open>killed\<close> the value of \<^verbatim>\<open>killed(pr)\<close> during the run.
\<close>

definition PIPESIZE :: nat where
  "PIPESIZE = 512"

record pipe =
  data :: "byte list"
  nread :: uint32
  nwrite :: uint32
  readopen :: bool
  writeopen :: bool

datatype run = Ret int | Sleep int

section \<open>Operations\<close>

text \<open>The part of \<^verbatim>\<open>pipealloc\<close> that sets up the pipe in a fresh page; the cells are uninitialised.\<close>

definition pipe_init :: "byte list \<Rightarrow> pipe" where
  "pipe_init junk = \<lparr>data = junk, nread = 0, nwrite = 0, readopen = True, writeopen = True\<rparr>"

text \<open>\<^verbatim>\<open>pipeclose\<close>: the pipe and whether its page is freed.\<close>

definition pipeclose :: "pipe \<Rightarrow> bool \<Rightarrow> pipe \<times> bool" where
  "pipeclose pi writable =
     (let pi1 = (if writable then pi\<lparr>writeopen := False\<rparr> else pi\<lparr>readopen := False\<rparr>)
      in (pi1, \<not> readopen pi1 \<and> \<not> writeopen pi1))"

function pipewrite :: "pipe \<Rightarrow> pmem \<Rightarrow> addr \<Rightarrow> addr \<Rightarrow> bool \<Rightarrow> uint64 \<Rightarrow> int \<Rightarrow> int \<Rightarrow> run \<times> pipe \<times> pmem" where
  "pipewrite pi s pagetable ch killed addr n i =
     (if i < n then
        if \<not> readopen pi \<or> killed then (Ret (-1), pi, s)
        else if nwrite pi = nread pi + of_nat PIPESIZE then (Sleep i, pi, s)
        else case copyin s pagetable ch (addr + of_int i) 1 of (ok, s1) \<Rightarrow>
          if \<not> ok then (Ret i, pi, s1)
          else pipewrite
                 (pi\<lparr>data := (data pi)[unat (nwrite pi) mod PIPESIZE := ram s1 ch], nwrite := nwrite pi + 1\<rparr>)
                 s1 pagetable ch killed addr n (i + 1)
      else (Ret i, pi, s))"
  by pat_completeness auto
termination
  by (relation "measure (\<lambda>(pi, s, pagetable, ch, killed, addr, n, i). nat (n - i))") auto

declare pipewrite.simps [simp del]

function piperead_copy :: "pipe \<Rightarrow> pmem \<Rightarrow> addr \<Rightarrow> addr \<Rightarrow> uint64 \<Rightarrow> int \<Rightarrow> int \<Rightarrow> int \<times> pipe \<times> pmem" where
  "piperead_copy pi s pagetable ch addr n i =
     (if i < n then
        if nread pi = nwrite pi then (i, pi, s)
        else let c = data pi ! (unat (nread pi) mod PIPESIZE);
                 pi1 = pi\<lparr>nread := nread pi + 1\<rparr>
             in case copyout (s\<lparr>ram := (ram s)(ch := c)\<rparr>) pagetable (addr + of_int i) ch 1 of (ok, s1) \<Rightarrow>
               if \<not> ok then (i, pi1, s1)
               else piperead_copy pi1 s1 pagetable ch addr n (i + 1)
      else (i, pi, s))"
  by pat_completeness auto
termination
  by (relation "measure (\<lambda>(pi, s, pagetable, ch, addr, n, i). nat (n - i))") auto

declare piperead_copy.simps [simp del]

definition piperead :: "pipe \<Rightarrow> pmem \<Rightarrow> addr \<Rightarrow> addr \<Rightarrow> bool \<Rightarrow> uint64 \<Rightarrow> int \<Rightarrow> run \<times> pipe \<times> pmem" where
  "piperead pi s pagetable ch killed addr n =
     (if nread pi = nwrite pi \<and> writeopen pi then (if killed then Ret (-1) else Sleep 0, pi, s)
      else case piperead_copy pi s pagetable ch addr n 0 of (i, pi1, s1) \<Rightarrow> (Ret i, pi1, s1))"

section \<open>The pipe as a queue\<close>

interpretation pr: ring PIPESIZE "TYPE(32)"
  by unfold_locales (simp_all add: PIPESIZE_def)

definition items :: "pipe \<Rightarrow> byte list" where
  "items pi = ring_items PIPESIZE (data pi) (nread pi) (nwrite pi)"

definition pipe_inv :: "pipe \<Rightarrow> bool" where
  "pipe_inv pi \<longleftrightarrow> length (data pi) = PIPESIZE \<and> length (items pi) \<le> PIPESIZE"

definition enq :: "pipe \<Rightarrow> byte \<Rightarrow> pipe" where
  "enq pi c = pi\<lparr>data := (data pi)[unat (nwrite pi) mod PIPESIZE := c], nwrite := nwrite pi + 1\<rparr>"

definition deq :: "pipe \<Rightarrow> pipe" where
  "deq pi = pi\<lparr>nread := nread pi + 1\<rparr>"

lemma pipe_full_iff: "nwrite pi = nread pi + of_nat PIPESIZE \<longleftrightarrow> length (items pi) = PIPESIZE"
  using pr.full_iff [of "nwrite pi" "nread pi"] by (simp add: items_def)

lemma pipe_empty_iff: "nread pi = nwrite pi \<longleftrightarrow> items pi = []"
proof -
  have "items pi = [] \<longleftrightarrow> unat (nwrite pi - nread pi) = 0" by (simp add: items_def ring_items_def)
  then show ?thesis by (auto simp: unsigned_eq_0_iff)
qed

lemma enq_items:
  assumes "pipe_inv pi" and "length (items pi) < PIPESIZE"
  shows "items (enq pi c) = items pi @ [c]" and "pipe_inv (enq pi c)"
proof -
  show "items (enq pi c) = items pi @ [c]"
    using assms by (simp add: items_def enq_def pipe_inv_def pr.push)
  then show "pipe_inv (enq pi c)" using assms by (simp add: pipe_inv_def) (simp add: enq_def)
qed

lemma deq_items:
  assumes "pipe_inv pi" and "items pi \<noteq> []"
  shows "items pi = data pi ! (unat (nread pi) mod PIPESIZE) # items (deq pi)" and "pipe_inv (deq pi)"
proof -
  have ne: "nwrite pi \<noteq> nread pi" using assms(2) pipe_empty_iff [of pi] by auto
  show e: "items pi = data pi ! (unat (nread pi) mod PIPESIZE) # items (deq pi)"
    using pr.pop [OF ne] by (simp add: items_def deq_def)
  have "length (items pi) = Suc (length (items (deq pi)))" by (subst e) simp
  then show "pipe_inv (deq pi)" using assms(1) by (simp add: pipe_inv_def deq_def)
qed

section \<open>One byte of user memory\<close>

lemma kbuf_view: "view t pt = view s pt \<Longrightarrow> kbuf_apart t pt own ps U a n = kbuf_apart s pt own ps U a n"
  by (simp add: kbuf_apart_def held_def frame_def)

lemma urange_view: "view t pt = view s pt \<Longrightarrow> urange t pt U perm a n = urange s pt U perm a n"
  by (simp add: urange_def)

lemma ubyte_cell:
  assumes "kbuf_apart s pt own ps U ch 1" and "a div 4096 \<in> U"
  shows "frame s pt (a div 4096) + a mod 4096 \<noteq> ch"
  using assms in_page [of "a mod 4096" "frame s pt (a div 4096)"] by (auto simp: kbuf_apart_def held_def)

lemma copyin1:
  assumes inv: "uvm_inv s pt own ps U" and r: "urange s pt U PTE_RU (unat va) 1" and k: "kbuf_apart s pt own ps U ch 1"
  obtains t where "copyin s pt ch va 1 = (True, t)" "uvm_inv t pt own ps U" "view t pt = view s pt"
    "ram t ch = ubyte s pt (unat va)" "\<forall>a. a div 4096 \<in> U \<longrightarrow> ubyte t pt a = ubyte s pt a"
proof -
  obtain t where t: "copyin s pt ch va 1 = (True, t)" "uvm_inv t pt own ps U" "view t pt = view s pt"
    "\<forall>x. ram t x = (if ch \<le> x \<and> x < ch + 1 then ubyte s pt (unat va + (x - ch)) else ram s x)"
    using copyin_ok [OF inv, of va 1 ch] r k by auto
  then have tx: "ram t x = (if x = ch then ubyte s pt (unat va) else ram s x)" for x by auto
  have "ubyte t pt a = ubyte s pt a" if "a div 4096 \<in> U" for a
    using t(3) tx ubyte_cell [OF k that] by (simp add: ubyte_def [of t] ubyte_def [of s pt a] frame_def)
  then show ?thesis using that t(1-3) tx by simp
qed

lemma copyout1:
  assumes inv: "uvm_inv s pt own ps U" and r: "urange s pt U PTE_WU (unat va) 1" and k: "kbuf_apart s pt own ps U ch 1"
  obtains t where "copyout (s\<lparr>ram := (ram s)(ch := c)\<rparr>) pt va ch 1 = (True, t)" "uvm_inv t pt own ps U"
    "view t pt = view s pt"
    "\<forall>a. a div 4096 \<in> U \<longrightarrow> ubyte t pt a = (if a = unat va then c else ubyte s pt a)"
proof -
  define s0 where "s0 = s\<lparr>ram := (ram s)(ch := c)\<rparr>"
  have "\<forall>q\<in>dom own \<union> set ps. \<forall>x\<in>page q. ((ram s)(ch := c)) x = ram s x"
    using k by (auto simp: kbuf_apart_def held_def)
  note w = uvm_write [OF inv this, folded s0_def]
  have r': "urange s0 pt U PTE_WU (unat va) (unat (1 :: uint64))" using r urange_view [OF w(2)] by simp
  have k': "kbuf_apart s0 pt own ps U ch (unat (1 :: uint64))" using k kbuf_view [OF w(2)] by simp
  obtain t where t: "copyout s0 pt va ch 1 = (True, t)" "uvm_inv t pt own ps U" "view t pt = view s0 pt"
    "\<forall>a. a div 4096 \<in> U \<longrightarrow> ubyte t pt a = (if unat va \<le> a \<and> a < unat va + 1
       then ram s0 (ch + (a - unat va)) else ubyte s0 pt a)"
    using copyout_ok [OF w(1) r' k'] by auto
  have f: "frame s0 pt p = frame s pt p" for p using fun_cong [OF w(2)] unfolding frame_def by metis
  have "ubyte s0 pt a = ubyte s pt a" if "a div 4096 \<in> U" for a
    unfolding ubyte_def f using ubyte_cell [OF k that] by (simp add: s0_def)
  then have "ubyte t pt a = (if a = unat va then c else ubyte s pt a)" if "a div 4096 \<in> U" for a
    using t(4) that by (simp add: s0_def)
  then show ?thesis using that t(1-3) w(2) by (simp add: s0_def)
qed

lemma user_index:
  fixes addr :: uint64
  assumes inv: "uvm_inv s pt own ps U" and r: "urange s pt U perm (unat addr) (nat n)" and i: "0 \<le> i" "i < n"
  shows "unat (addr + of_int i) = unat addr + nat i" and "urange s pt U perm (unat (addr + of_int i)) 1"
proof -
  have p: "(unat addr + nat i) div 4096 \<in> U" "view s pt ((unat addr + nat i) div 4096) AND perm = perm"
    using r i by (auto simp: urange_def)
  have "(unat addr + nat i) div 4096 < 2 ^ 26" using uvm_invD(8) [OF inv p(1)] .
  then have "unat addr + nat i < 2 ^ 38" by (simp add: div_less_iff_less_mult)
  then have "unat (addr + of_nat (nat i)) = unat addr + nat i" by (simp add: unat_word_ariths unat_of_nat)
  moreover have "(of_int i :: uint64) = of_nat (nat i)" using i by simp
  ultimately show u: "unat (addr + of_int i) = unat addr + nat i" by metis
  show "urange s pt U perm (unat (addr + of_int i)) 1" unfolding u using p by (simp add: urange_def)
qed

section \<open>Runs of write and read\<close>

lemma ubytes_Suc: "ubytes s pt a (Suc k) = ubyte s pt a # ubytes s pt (a + 1) k"
  by (simp add: ubytes_def map_upt_Suc del: upt_Suc)

lemma ubytes_cong:
  "(\<And>j. j < k \<Longrightarrow> ubyte t pt (a + j) = ubyte s pt (a + j)) \<Longrightarrow> ubytes t pt a k = ubytes s pt a k"
  by (simp add: ubytes_def)

lemma pipewrite_ok:
  assumes "pipe_inv pi" and "uvm_inv s pt own ps U" and "urange s pt U PTE_RU (unat addr) (nat n)"
    and "kbuf_apart s pt own ps U ch 1" and "0 \<le> i" and "i \<le> n" and "readopen pi" and "\<not> killed"
  shows "\<exists>k out pi' s'. pipewrite pi s pt ch killed addr n i = (out, pi', s') \<and> pipe_inv pi' \<and>
    items pi' = items pi @ ubytes s pt (unat addr + nat i) k \<and> nread pi' = nread pi \<and>
    readopen pi' = readopen pi \<and> writeopen pi' = writeopen pi \<and> uvm_inv s' pt own ps U \<and> view s' pt = view s pt \<and>
    (\<forall>a. a div 4096 \<in> U \<longrightarrow> ubyte s' pt a = ubyte s pt a) \<and>
    (out = Ret n \<and> int k = n - i \<or> out = Sleep (i + int k) \<and> i + int k < n \<and> length (items pi') = PIPESIZE)"
  using assms
proof (induction "nat (n - i)" arbitrary: pi s i)
  case 0
  then show ?case
    by (intro exI [of _ 0] exI [of _ "Ret n"] exI [of _ pi] exI [of _ s])
      (auto simp: pipewrite.simps [of pi] ubytes_def)
next
  case (Suc m)
  have i: "i < n" using Suc.hyps(2) by simp
  show ?case
  proof (cases "length (items pi) = PIPESIZE")
    case True
    then show ?thesis using Suc.prems i pipe_full_iff [of pi]
      by (intro exI [of _ 0] exI [of _ "Sleep i"] exI [of _ pi] exI [of _ s])
        (simp add: pipewrite.simps [of pi] ubytes_def)
  next
    case False
    then have lt: "length (items pi) < PIPESIZE" using Suc.prems(1) by (simp add: pipe_inv_def)
    note u = user_index [OF Suc.prems(2,3,5) i]
    obtain t where t: "copyin s pt ch (addr + of_int i) 1 = (True, t)" "uvm_inv t pt own ps U" "view t pt = view s pt"
      "ram t ch = ubyte s pt (unat (addr + of_int i))" "\<forall>a. a div 4096 \<in> U \<longrightarrow> ubyte t pt a = ubyte s pt a"
      by (rule copyin1 [OF Suc.prems(2) u(2) Suc.prems(4)])
    let ?pi = "enq pi (ram t ch)"
    note e = enq_items [OF Suc.prems(1) lt, of "ram t ch"]
    have step: "pipewrite pi s pt ch killed addr n i = pipewrite ?pi t pt ch killed addr n (i + 1)"
      using i False Suc.prems(7,8) t(1) pipe_full_iff [of pi] by (subst pipewrite.simps) (simp add: enq_def)
    have same: "readopen ?pi = readopen pi" "writeopen ?pi = writeopen pi" "nread ?pi = nread pi"
      by (simp_all add: enq_def)
    have "\<exists>k out pi' s'. pipewrite ?pi t pt ch killed addr n (i + 1) = (out, pi', s') \<and> pipe_inv pi' \<and>
      items pi' = items ?pi @ ubytes t pt (unat addr + nat (i + 1)) k \<and> nread pi' = nread ?pi \<and>
      readopen pi' = readopen ?pi \<and> writeopen pi' = writeopen ?pi \<and> uvm_inv s' pt own ps U \<and> view s' pt = view t pt \<and>
      (\<forall>a. a div 4096 \<in> U \<longrightarrow> ubyte s' pt a = ubyte t pt a) \<and>
      (out = Ret n \<and> int k = n - (i + 1) \<or>
       out = Sleep (i + 1 + int k) \<and> i + 1 + int k < n \<and> length (items pi') = PIPESIZE)"
      using Suc.prems Suc.hyps(2) t(3) e(2) same kbuf_view [OF t(3)] i
      by (intro Suc.hyps(1)) (auto simp: urange_def t(2))
    then obtain k out pi' s' where r: "pipewrite ?pi t pt ch killed addr n (i + 1) = (out, pi', s')" "pipe_inv pi'"
      "items pi' = items ?pi @ ubytes t pt (unat addr + nat (i + 1)) k" "nread pi' = nread pi"
      "readopen pi' = readopen pi" "writeopen pi' = writeopen pi" "uvm_inv s' pt own ps U" "view s' pt = view s pt"
      "\<forall>a. a div 4096 \<in> U \<longrightarrow> ubyte s' pt a = ubyte t pt a"
      "out = Ret n \<and> int k = n - (i + 1) \<or> out = Sleep (i + 1 + int k) \<and> i + 1 + int k < n \<and> length (items pi') = PIPESIZE"
      using same t(3) by (elim exE conjE) simp
    have "ubytes t pt (unat addr + nat (i + 1)) k = ubytes s pt (unat addr + nat (i + 1)) k"
    proof (rule ubytes_cong, rule t(5) [rule_format])
      fix j assume "j < k"
      then have "nat (i + 1) + j < nat n" using r(10) Suc.prems(5) by auto
      then show "(unat addr + nat (i + 1) + j) div 4096 \<in> U" using Suc.prems(3) by (auto simp: urange_def add.assoc)
    qed
    then have "items pi' = items pi @ ubytes s pt (unat addr + nat i) (Suc k)"
      using r(3) e(1) t(4) u(1) Suc.prems(5) by (simp add: ubytes_Suc nat_add_distrib add.assoc)
    then show ?thesis using step r t(5)
      by (intro exI [of _ "Suc k"] exI [of _ out] exI [of _ pi'] exI [of _ s']) auto
  qed
qed

lemma piperead_copy_ok:
  assumes "pipe_inv pi" and "uvm_inv s pt own ps U" and "urange s pt U PTE_WU (unat addr) (nat n)"
    and "kbuf_apart s pt own ps U ch 1" and "0 \<le> i" and "i \<le> n"
  shows "\<exists>k pi' s'. piperead_copy pi s pt ch addr n i = (i + int k, pi', s') \<and> pipe_inv pi' \<and>
    k = min (nat (n - i)) (length (items pi)) \<and> items pi' = drop k (items pi) \<and> nwrite pi' = nwrite pi \<and>
    readopen pi' = readopen pi \<and> writeopen pi' = writeopen pi \<and> uvm_inv s' pt own ps U \<and> view s' pt = view s pt \<and>
    ubytes s' pt (unat addr + nat i) k = take k (items pi) \<and>
    (\<forall>a. a div 4096 \<in> U \<and> (a < unat addr + nat i \<or> unat addr + nat i + k \<le> a) \<longrightarrow> ubyte s' pt a = ubyte s pt a)"
  using assms
proof (induction "nat (n - i)" arbitrary: pi s i)
  case 0
  then show ?case
    by (intro exI [of _ 0] exI [of _ pi] exI [of _ s]) (auto simp: piperead_copy.simps [of pi] ubytes_def)
next
  case (Suc m)
  have i: "i < n" using Suc.hyps(2) by simp
  show ?case
  proof (cases "items pi")
    case Nil
    then show ?thesis using Suc.prems i pipe_empty_iff [of pi]
      by (intro exI [of _ 0] exI [of _ pi] exI [of _ s]) (simp add: piperead_copy.simps [of pi] ubytes_def)
  next
    case (Cons c cs)
    then have ne: "items pi \<noteq> []" by simp
    note u = user_index [OF Suc.prems(2,3,5) i]
    note d = deq_items [OF Suc.prems(1) ne]
    then have c: "data pi ! (unat (nread pi) mod PIPESIZE) = c" "items (deq pi) = cs" using Cons by simp_all
    obtain t where t: "copyout (s\<lparr>ram := (ram s)(ch := c)\<rparr>) pt (addr + of_int i) ch 1 = (True, t)"
      "uvm_inv t pt own ps U" "view t pt = view s pt"
      "\<forall>a. a div 4096 \<in> U \<longrightarrow> ubyte t pt a = (if a = unat (addr + of_int i) then c else ubyte s pt a)"
      by (rule copyout1 [OF Suc.prems(2) u(2) Suc.prems(4)])
    have step: "piperead_copy pi s pt ch addr n i = piperead_copy (deq pi) t pt ch addr n (i + 1)"
      using i ne pipe_empty_iff [of pi] t(1) c(1) by (subst piperead_copy.simps) (simp add: deq_def Let_def)
    have same: "readopen (deq pi) = readopen pi" "writeopen (deq pi) = writeopen pi" "nwrite (deq pi) = nwrite pi"
      by (simp_all add: deq_def)
    let ?a = "unat addr + nat (i + 1)"
    have "\<exists>k pi' s'. piperead_copy (deq pi) t pt ch addr n (i + 1) = (i + 1 + int k, pi', s') \<and> pipe_inv pi' \<and>
      k = min (nat (n - (i + 1))) (length (items (deq pi))) \<and> items pi' = drop k (items (deq pi)) \<and>
      nwrite pi' = nwrite (deq pi) \<and> readopen pi' = readopen (deq pi) \<and> writeopen pi' = writeopen (deq pi) \<and>
      uvm_inv s' pt own ps U \<and> view s' pt = view t pt \<and> ubytes s' pt ?a k = take k (items (deq pi)) \<and>
      (\<forall>a. a div 4096 \<in> U \<and> (a < ?a \<or> ?a + k \<le> a) \<longrightarrow> ubyte s' pt a = ubyte t pt a)"
      using Suc.prems Suc.hyps(2) t(3) d(2) kbuf_view [OF t(3)] urange_view [OF t(3)] i
      by (intro Suc.hyps(1)) (auto simp: t(2))
    then obtain k pi' s' where r: "piperead_copy (deq pi) t pt ch addr n (i + 1) = (i + 1 + int k, pi', s')" "pipe_inv pi'"
      "k = min (nat (n - (i + 1))) (length cs)" "items pi' = drop k cs" "nwrite pi' = nwrite pi"
      "readopen pi' = readopen pi" "writeopen pi' = writeopen pi" "uvm_inv s' pt own ps U" "view s' pt = view s pt"
      "ubytes s' pt ?a k = take k cs"
      "\<forall>a. a div 4096 \<in> U \<and> (a < ?a \<or> ?a + k \<le> a) \<longrightarrow> ubyte s' pt a = ubyte t pt a"
      using same t(3) c(2) by (elim exE conjE) simp
    have ai: "?a = unat addr + nat i + 1" using Suc.prems(5) by simp
    have p: "(unat addr + nat i) div 4096 \<in> U" using u by (auto simp: urange_def)
    have "ubyte s' pt (unat addr + nat i) = c" using r(11) t(4) p ai u(1) by auto
    then have "ubytes s' pt (unat addr + nat i) (Suc k) = take (Suc k) (items pi)"
      using r(10) Cons ai by (simp add: ubytes_Suc)
    moreover have "ubyte s' pt a = ubyte s pt a"
      if "a div 4096 \<in> U" "a < unat addr + nat i \<or> unat addr + nat i + Suc k \<le> a" for a
      using r(11) t(4) that ai u(1) by auto
    moreover have "min (nat (n - i)) (length (items pi)) = Suc k" using r(3) i Cons by (auto simp: min_def)
    moreover have "items pi' = drop (Suc k) (items pi)" using r(4) Cons by simp
    ultimately show ?thesis using step r(1,2,5-9)
      by (intro exI [of _ "Suc k"] exI [of _ pi'] exI [of _ s']) auto
  qed
qed

section \<open>Any sequence of operations\<close>

text \<open>
  \<open>user_buf\<close>: the memory of the calling process, in which the call's range is accessible.  \<open>accepted\<close>: the number of
  bytes a run of \<^verbatim>\<open>pipewrite\<close> that began at index \<open>i\<close> has taken.
\<close>

definition user_buf :: "pmem \<Rightarrow> addr \<Rightarrow> uint64 \<Rightarrow> uint64 \<Rightarrow> int \<Rightarrow> addr \<Rightarrow> bool" where
  "user_buf s pt perm addr n ch \<longleftrightarrow> (\<exists>own ps U. uvm_inv s pt own ps U \<and> urange s pt U perm (unat addr) (nat n) \<and>
     kbuf_apart s pt own ps U ch 1)"

definition accepted :: "run \<Rightarrow> int \<Rightarrow> nat" where
  "accepted out i = (case out of Ret j \<Rightarrow> nat (j - i) | Sleep j \<Rightarrow> nat (j - i))"

text \<open>\<open>sent\<close>: the user bytes the writers' runs took, in order; \<open>got\<close>: those the readers' runs delivered.\<close>

inductive pipe_run :: "pipe \<Rightarrow> byte list \<Rightarrow> byte list \<Rightarrow> bool" where
  pr_init: "length junk = PIPESIZE \<Longrightarrow> pipe_run (pipe_init junk) [] []"
| pr_write: "pipe_run pi sent got \<Longrightarrow> user_buf s pt PTE_RU addr n ch \<Longrightarrow> 0 \<le> i \<Longrightarrow> i \<le> n \<Longrightarrow>
    pipewrite pi s pt ch killed addr n i = (out, pi', s') \<Longrightarrow>
    pipe_run pi' (sent @ ubytes s pt (unat addr + nat i) (accepted out i)) got"
| pr_read: "pipe_run pi sent got \<Longrightarrow> user_buf s pt PTE_WU addr n ch \<Longrightarrow> 0 \<le> n \<Longrightarrow>
    piperead pi s pt ch killed addr n = (out, pi', s') \<Longrightarrow>
    pipe_run pi' sent (got @ ubytes s' pt (unat addr) (accepted out 0))"
| pr_close: "pipe_run pi sent got \<Longrightarrow> pipeclose pi writable = (pi', fr) \<Longrightarrow> pipe_run pi' sent got"

lemma pipewrite_stop: "i < n \<Longrightarrow> \<not> readopen pi \<or> killed \<Longrightarrow> pipewrite pi s pt ch killed addr n i = (Ret (-1), pi, s)"
  by (subst pipewrite.simps) simp

lemma pipe_run_inv: "pipe_run pi sent got \<Longrightarrow> pipe_inv pi \<and> sent = got @ items pi"
proof (induction rule: pipe_run.induct)
  case (pr_init junk)
  then show ?case by (simp add: pipe_init_def pipe_inv_def items_def)
next
  case (pr_write pi sent got s pt addr n ch i killed out pi' s')
  obtain own ps U where u: "uvm_inv s pt own ps U" "urange s pt U PTE_RU (unat addr) (nat n)"
    "kbuf_apart s pt own ps U ch 1" using pr_write.hyps(2) by (auto simp: user_buf_def)
  consider (stop) "i < n" "\<not> readopen pi \<or> killed" | (fin) "i = n" | (go) "readopen pi" "\<not> killed"
    using pr_write.hyps(4) by linarith
  then show ?case
  proof cases
    case stop
    then show ?thesis
      using pipewrite_stop [OF stop] pr_write by (auto simp: accepted_def ubytes_def)
  next
    case fin
    then show ?thesis using pr_write by (auto simp: pipewrite.simps [of pi] accepted_def ubytes_def)
  next
    case go
    then obtain k where k: "pipe_inv pi'" "items pi' = items pi @ ubytes s pt (unat addr + nat i) k"
      "out = Ret n \<and> int k = n - i \<or> out = Sleep (i + int k)"
      using pipewrite_ok [OF _ u pr_write.hyps(3,4) go] pr_write.IH pr_write.hyps(5) by auto
    then have "accepted out i = k" by (auto simp: accepted_def)
    then show ?thesis using k pr_write.IH by simp
  qed
next
  case (pr_read pi sent got s pt addr n ch killed out pi' s')
  obtain own ps U where u: "uvm_inv s pt own ps U" "urange s pt U PTE_WU (unat addr) (nat n)"
    "kbuf_apart s pt own ps U ch 1" using pr_read.hyps(2) by (auto simp: user_buf_def)
  show ?case
  proof (cases "nread pi = nwrite pi \<and> writeopen pi")
    case True
    then show ?thesis using pr_read by (auto simp: piperead_def accepted_def ubytes_def split: if_splits)
  next
    case False
    obtain k pi1 s1 where k: "piperead_copy pi s pt ch addr n 0 = (int k, pi1, s1)" "pipe_inv pi1"
      "items pi1 = drop k (items pi)" "ubytes s1 pt (unat addr) k = take k (items pi)"
      using piperead_copy_ok [OF _ u, of pi 0] pr_read.IH pr_read.hyps(3) by auto
    then have "out = Ret (int k)" "pi' = pi1" "s' = s1" using False pr_read.hyps(4) by (auto simp: piperead_def)
    then show ?thesis using k pr_read.IH by (simp add: accepted_def)
  qed
next
  case (pr_close pi sent got writable pi' fr)
  then show ?case by (auto simp: pipeclose_def Let_def pipe_inv_def items_def split: if_splits)
qed

section \<open>Properties\<close>


lemma user_page_buf:
  assumes s: "uvm_inv s pt own ps {0}" "view s pt 0 = user_pte (frame s pt 0) PTE_W" "kend s = 0x87ff8000"
  shows "user_buf s pt PTE_WU 0 3 0x1000" and "user_buf s pt PTE_RU 0 3 0x1000"
proof -
  have w: "user_pte m PTE_W AND PTE_WU = PTE_WU" "user_pte m PTE_W AND PTE_RU = PTE_RU" for m
    unfolding user_pte_def PTE_WU_def PTE_RU_def by (rule bit_word_eqI, auto simp: bit_simps)+
  have "0x87ff8000 \<le> q" if "q \<in> held s pt own ps {0}" for q
  proof -
    have "page_ok s q"
      using that uvm_invD(1,5) [OF s(1)] treeD(1) [of s own q] km.pages [of s ps q] by (auto simp: held_def pt_inv_def)
    then show ?thesis using s(3) by (simp add: page_ok_def)
  qed
  then have "kbuf_apart s pt own ps {0} 0x1000 1" by (force simp: kbuf_apart_def page_def)
  then show "user_buf s pt PTE_WU 0 3 0x1000" "user_buf s pt PTE_RU 0 3 0x1000"
    unfolding user_buf_def using s(1,2) w
    by (auto intro!: exI [of _ own] exI [of _ ps] exI [of _ "{0}"] simp: urange_def)
qed

lemma write_three:
  obtains pi s pt where "pipe_run pi (ubytes s pt 0 3) []" "readopen pi" "items pi = ubytes s pt 0 3"
    "user_buf s pt PTE_WU 0 3 0x1000" "user_buf s pt PTE_RU 0 3 0x1000"
proof (rule one_page)
  fix s pt own ps
  assume s: "uvm_inv s pt own ps {0}" "view s pt 0 = user_pte (frame s pt 0) PTE_W" "kend s = 0x87ff8000"
  note b = user_page_buf [OF s]
  obtain o' p' U where u: "uvm_inv s pt o' p' U" "urange s pt U PTE_RU (unat (0 :: uint64)) (nat 3)"
    "kbuf_apart s pt o' p' U 0x1000 1" using b(2) by (auto simp: user_buf_def)
  let ?p = "pipe_init (replicate PIPESIZE 0)"
  have i: "pipe_inv ?p" "items ?p = []" "readopen ?p" by (simp_all add: pipe_init_def pipe_inv_def items_def)
  obtain k out pi' s' where w: "pipewrite ?p s pt 0x1000 False 0 3 0 = (out, pi', s')"
    "items pi' = ubytes s pt 0 k" "readopen pi'" "out = Ret 3 \<and> k = 3 \<or> k < 3 \<and> length (items pi') = PIPESIZE"
    using pipewrite_ok [OF i(1) u, of 0 False] i by auto
  have "length (items pi') = k" using w(2) by (simp add: ubytes_def)
  then have k: "out = Ret 3" "k = 3" using w(4) by (auto simp: PIPESIZE_def)
  have "pipe_run ?p [] []" by (rule pr_init) simp
  from pr_write [OF this b(2) _ _ w(1)] show ?thesis
    using that [of pi' s pt] b w(2,3) k by (simp add: accepted_def)
qed




end
