(* ===== verification/Grep.thy ===== *)
theory Grep
  imports Prelude
begin

text \<open>
  \<^verbatim>\<open>user/grep.c\<close>: the regular expression matcher and the loop that cuts a stream of blocks into lines.  A C
  string is the list of its bytes without the terminating zero, so that \<^verbatim>\<open>re[0] == '\0'\<close> is \<open>re = []\<close>.
\<close>

section \<open>The matcher\<close>

abbreviation "STAR \<equiv> (42 :: byte)"
abbreviation "DOT \<equiv> (46 :: byte)"
abbreviation "DOLLAR \<equiv> (36 :: byte)"
abbreviation "CARET \<equiv> (94 :: byte)"
abbreviation "NL \<equiv> (10 :: byte)"

function matchhere :: "byte list \<Rightarrow> byte list \<Rightarrow> bool"
  and matchstar :: "byte \<Rightarrow> byte list \<Rightarrow> byte list \<Rightarrow> bool" where
  "matchhere re tx =
     (case re of
        [] \<Rightarrow> True
      | c # r \<Rightarrow>
          if r \<noteq> [] \<and> hd r = STAR then matchstar c (tl r) tx
          else if c = DOLLAR \<and> r = [] then tx = []
          else if tx \<noteq> [] \<and> (c = DOT \<or> c = hd tx) then matchhere r (tl tx)
          else False)"
| "matchstar c re tx =
     (if matchhere re tx then True
      else case tx of [] \<Rightarrow> False | t # ts \<Rightarrow> if t = c \<or> c = DOT then matchstar c re ts else False)"
  by pat_completeness auto
termination
  by (relation "measure (\<lambda>x. case x of Inl (re, tx) \<Rightarrow> 2 * (length re + length tx)
        | Inr (c, re, tx) \<Rightarrow> 2 * (length re + length tx) + 1)") (auto simp: neq_Nil_conv)

declare matchhere.simps [simp del] matchstar.simps [simp del]

fun match_from :: "byte list \<Rightarrow> byte list \<Rightarrow> bool" where
  "match_from re tx =
     (if matchhere re tx then True else case tx of [] \<Rightarrow> False | t # ts \<Rightarrow> match_from re ts)"

declare match_from.simps [simp del]

definition match :: "byte list \<Rightarrow> byte list \<Rightarrow> bool" where
  "match re tx = (if re \<noteq> [] \<and> hd re = CARET then matchhere (tl re) tx else match_from re tx)"

section \<open>The line loop\<close>

text \<open>\<^verbatim>\<open>strchr\<close> as the loop uses it: the index of the byte, or none before the terminating zero.\<close>

fun strchr :: "byte list \<Rightarrow> byte \<Rightarrow> nat option" where
  "strchr [] c = None"
| "strchr (x # xs) c = (if x = 0 then None else if x = c then Some 0 else map_option Suc (strchr xs c))"

lemma strchr_less: "strchr p c = Some i \<Longrightarrow> i < length p"
  by (induction p arbitrary: i) (auto split: if_splits)

text \<open>The inner loop on the bytes between \<^verbatim>\<open>p\<close> and the end of the block: what it writes and what it leaves.\<close>

function scan :: "byte list \<Rightarrow> byte list \<Rightarrow> byte list \<times> byte list" where
  "scan re p =
     (case strchr p NL of
        None \<Rightarrow> ([], p)
      | Some i \<Rightarrow>
          let out = (if match re (take i p) then take i p @ [NL] else [])
          in case scan re (drop (Suc i) p) of (rest, left) \<Rightarrow> (out @ rest, left))"
  by pat_completeness auto
termination
  by (relation "measure (\<lambda>(re, p). length p)") (auto dest: strchr_less)

declare scan.simps [simp del]

definition BUFSIZE :: nat where
  "BUFSIZE = 1024"

text \<open>
  The outer loop.  \<open>data\<close> is what is left of the file, \<open>pend\<close> the first \<^verbatim>\<open>m\<close> bytes of \<^verbatim>\<open>buf\<close>, and the \<open>j\<close>-th call of
  \<^verbatim>\<open>read\<close> returns at most \<open>k j\<close> bytes.
\<close>

function grep :: "byte list \<Rightarrow> (nat \<Rightarrow> nat) \<Rightarrow> nat \<Rightarrow> byte list \<Rightarrow> byte list \<Rightarrow> byte list" where
  "grep re k j data pend =
     (let n = min (k j) (min (BUFSIZE - length pend - 1) (length data))
      in if n > 0 then
           case scan re (pend @ take n data) of (out, left) \<Rightarrow>
             out @ grep re k (Suc j) (drop n data) left
         else [])"
  by pat_completeness auto
termination
  by (relation "measure (\<lambda>(re, k, j, data, pend). length data)") auto

declare grep.simps [simp del]

section \<open>The language of a pattern\<close>

datatype item = One byte | Many byte

fun parse :: "byte list \<Rightarrow> item list \<times> bool" where
  "parse [] = ([], False)"
| "parse [c] = (if c = DOLLAR then ([], True) else ([One c], False))"
| "parse (c # d # r) =
     (if d = STAR then (case parse r of (its, e) \<Rightarrow> (Many c # its, e))
      else (case parse (d # r) of (its, e) \<Rightarrow> (One c # its, e)))"

definition fits :: "byte \<Rightarrow> byte \<Rightarrow> bool" where
  "fits c t \<longleftrightarrow> c = DOT \<or> t = c"

fun lang :: "item list \<Rightarrow> byte list \<Rightarrow> bool" where
  "lang [] w \<longleftrightarrow> w = []"
| "lang (One c # its) w \<longleftrightarrow> (\<exists>t v. w = t # v \<and> fits c t \<and> lang its v)"
| "lang (Many c # its) w \<longleftrightarrow> (\<exists>u v. w = u @ v \<and> (\<forall>t\<in>set u. fits c t) \<and> lang its v)"

definition ends :: "bool \<Rightarrow> byte list \<Rightarrow> bool" where
  "ends e v \<longleftrightarrow> (e \<longrightarrow> v = [])"

text \<open>\<open>re\<close> matches a prefix of \<open>tx\<close>, the whole of it if the pattern ends in \<^verbatim>\<open>$\<close>.\<close>

definition here :: "byte list \<Rightarrow> byte list \<Rightarrow> bool" where
  "here re tx \<longleftrightarrow> (\<exists>w v. tx = w @ v \<and> lang (fst (parse re)) w \<and> ends (snd (parse re)) v)"

lemma here_Nil: "here [] tx"
  by (simp add: here_def ends_def)

lemma here_cons:
  assumes "fst (parse re) = One c # its" and "snd (parse re) = e"
  shows "here re tx \<longleftrightarrow> (\<exists>t ts. tx = t # ts \<and> fits c t \<and> (\<exists>w v. ts = w @ v \<and> lang its w \<and> ends e v))"
    (is "?l = ?r")
proof
  assume ?r
  then obtain t w v where "tx = t # w @ v" "fits c t" "lang its w" "ends e v" by blast
  then show ?l using assms unfolding here_def by (intro exI [of _ "t # w"] exI [of _ v]) simp
next
  assume ?l
  then obtain w v where w: "tx = w @ v" "lang (One c # its) w" "ends e v"
    unfolding here_def assms by blast
  then obtain t u where "w = t # u" "fits c t" "lang its u" by auto
  then show ?r using w by auto
qed

lemma here_last: "here [c] tx \<longleftrightarrow> (if c = DOLLAR then tx = [] else tx \<noteq> [] \<and> fits c (hd tx))"
proof (cases "c = DOLLAR")
  case False
  then show ?thesis using here_cons [of "[c]" c "[]" False tx] by (cases tx) (simp_all add: ends_def)
qed (simp add: here_def ends_def)

lemma here_One:
  assumes "d \<noteq> STAR"
  shows "here (c # d # r) tx \<longleftrightarrow> tx \<noteq> [] \<and> fits c (hd tx) \<and> here (d # r) (tl tx)"
proof -
  obtain its e where p: "parse (d # r) = (its, e)" by fastforce
  then show ?thesis
    using here_cons [of "c # d # r" c its e tx] assms by (cases tx) (simp_all add: here_def)
qed

lemma here_Many:
  "here (c # STAR # r) tx \<longleftrightarrow> (\<exists>u v. tx = u @ v \<and> (\<forall>t\<in>set u. fits c t) \<and> here r v)"
proof -
  obtain its e where p: "parse r = (its, e)" by fastforce
  show ?thesis
  proof
    assume "here (c # STAR # r) tx"
    then obtain u v w where "tx = (u @ v) @ w" "\<forall>t\<in>set u. fits c t" "lang its v" "ends e w"
      using p by (auto simp: here_def)
    then show "\<exists>u v. tx = u @ v \<and> (\<forall>t\<in>set u. fits c t) \<and> here r v"
      using p by (intro exI [of _ u] exI [of _ "v @ w"]) (auto simp: here_def)
  next
    assume "\<exists>u v. tx = u @ v \<and> (\<forall>t\<in>set u. fits c t) \<and> here r v"
    then obtain u v w where "tx = u @ v @ w" "\<forall>t\<in>set u. fits c t" "lang its v" "ends e w"
      using p by (auto simp: here_def)
    then show "here (c # STAR # r) tx"
      unfolding here_def using p by (intro exI [of _ "u @ v"] exI [of _ w]) auto
  qed
qed

lemma star_unfold:
  "(\<exists>u v. tx = u @ v \<and> (\<forall>t\<in>set u. fits c t) \<and> P v) \<longleftrightarrow>
     P tx \<or> (\<exists>t ts. tx = t # ts \<and> fits c t \<and> (\<exists>u v. ts = u @ v \<and> (\<forall>t\<in>set u. fits c t) \<and> P v))"
  (is "?l = ?r")
proof
  assume ?l
  then obtain u v where "tx = u @ v" "\<forall>t\<in>set u. fits c t" "P v" by blast
  then show ?r by (cases u) auto
next
  assume ?r
  then show ?l
  proof
    assume "P tx"
    then show ?l by (intro exI [of _ "[]"] exI [of _ tx]) simp
  next
    assume "\<exists>t ts. tx = t # ts \<and> fits c t \<and> (\<exists>u v. ts = u @ v \<and> (\<forall>t\<in>set u. fits c t) \<and> P v)"
    then obtain t u v where "tx = t # u @ v" "fits c t" "\<forall>t\<in>set u. fits c t" "P v" by blast
    then show ?l by (intro exI [of _ "t # u"] exI [of _ v]) simp
  qed
qed

definition stars :: "byte \<Rightarrow> byte list \<Rightarrow> byte list \<Rightarrow> bool" where
  "stars c re tx \<longleftrightarrow> (\<exists>u v. tx = u @ v \<and> (\<forall>t\<in>set u. fits c t) \<and> here re v)"

lemma stars_simps:
  "stars c re [] = here re []"
  "stars c re (t # ts) = (here re (t # ts) \<or> fits c t \<and> stars c re ts)"
  unfolding stars_def by (subst star_unfold, simp)+

lemma match_here:
  "matchhere re tx = here re tx"
  "matchstar c re tx = stars c re tx"
proof (induction re tx and c re tx rule: matchhere_matchstar.induct)
  case (1 re tx)
  show ?case
  proof (cases re)
    case Nil
    then show ?thesis by (simp add: matchhere.simps [of "[]"] here_Nil)
  next
    case (Cons c r)
    show ?thesis
    proof (cases r)
      case Nil
      then show ?thesis
        using Cons by (cases tx) (auto simp: matchhere.simps [of "[c]"] matchhere.simps [of "[]"] here_last fits_def)
    next
      case (Cons d r')
      then have re: "re = c # d # r'" using \<open>re = c # r\<close> by simp
      show ?thesis
      proof (cases "d = STAR")
        case True
        then have "matchhere re tx = matchstar c r' tx" by (simp add: re matchhere.simps [of "c # STAR # r'"])
        also have "\<dots> = here re tx"
          unfolding re True here_Many stars_def [symmetric] using 1(1) [OF \<open>re = c # r\<close>] Cons True by simp
        finally show ?thesis .
      next
        case False
        then have "matchhere re tx \<longleftrightarrow> tx \<noteq> [] \<and> fits c (hd tx) \<and> matchhere (d # r') (tl tx)"
          by (auto simp: re matchhere.simps [of "c # d # r'"] fits_def)
        also have "\<dots> \<longleftrightarrow> here re tx"
          unfolding re here_One [OF False] using 1(2) [OF \<open>re = c # r\<close>] Cons False by (auto simp: fits_def)
        finally show ?thesis .
      qed
    qed
  qed
next
  case (2 c re tx)
  show ?case
  proof (cases tx)
    case Nil
    then show ?thesis using 2(1) by (simp add: matchstar.simps [of c re "[]"] stars_simps)
  next
    case (Cons t ts)
    then show ?thesis
      using 2(1) 2(2) [of t ts] by (auto simp: matchstar.simps [of c re "t # ts"] stars_simps fits_def)
  qed
qed

lemma match_from_here: "match_from re tx \<longleftrightarrow> (\<exists>k\<le>length tx. here re (drop k tx))"
proof (induction tx)
  case Nil
  then show ?case by (simp add: match_from.simps match_here)
next
  case (Cons t ts)
  have "(\<exists>k\<le>length (t # ts). here re (drop k (t # ts))) \<longleftrightarrow>
      here re (t # ts) \<or> (\<exists>k\<le>length ts. here re (drop k ts))"
  proof
    assume "\<exists>k\<le>length (t # ts). here re (drop k (t # ts))"
    then obtain k where "k \<le> length (t # ts)" "here re (drop k (t # ts))" by blast
    then show "here re (t # ts) \<or> (\<exists>k\<le>length ts. here re (drop k ts))" by (cases k) auto
  next
    assume "here re (t # ts) \<or> (\<exists>k\<le>length ts. here re (drop k ts))"
    then show "\<exists>k\<le>length (t # ts). here re (drop k (t # ts))"
      by (auto intro: exI [of _ 0] exI [of _ "Suc _"])
  qed
  then show ?case using Cons by (simp add: match_from.simps [of re "t # ts"] match_here)
qed

section \<open>Lines\<close>

text \<open>The complete lines of \<open>cur @ xs\<close>, where \<open>cur\<close> is the beginning of the first line, and what follows the last one.\<close>

fun lines_of :: "byte list \<Rightarrow> byte list \<Rightarrow> byte list list" where
  "lines_of cur [] = []"
| "lines_of cur (x # xs) = (if x = NL then cur # lines_of [] xs else lines_of (cur @ [x]) xs)"

fun left_of :: "byte list \<Rightarrow> byte list \<Rightarrow> byte list" where
  "left_of cur [] = cur"
| "left_of cur (x # xs) = (if x = NL then left_of [] xs else left_of (cur @ [x]) xs)"

definition selected :: "byte list \<Rightarrow> byte list list \<Rightarrow> byte list" where
  "selected re ls = concat (map (\<lambda>l. l @ [NL]) (filter (match re) ls))"

lemma selected_simps [simp]:
  "selected re [] = []" "selected re (l # ls) = (if match re l then l @ [NL] else []) @ selected re ls"
  "selected re (ls @ ms) = selected re ls @ selected re ms"
  by (simp_all add: selected_def)

lemma lines_append: "lines_of cur (xs @ ys) = lines_of cur xs @ lines_of (left_of cur xs) ys"
  by (induction xs arbitrary: cur) auto

lemma left_NL: "NL \<notin> set cur \<Longrightarrow> NL \<notin> set (left_of cur xs)"
  by (induction xs arbitrary: cur) auto

lemma left_suffix: "\<exists>u. cur @ xs = u @ left_of cur xs"
proof (induction xs arbitrary: cur)
  case (Cons x xs)
  obtain u v where "xs = u @ left_of [] xs" "cur @ [x] @ xs = v @ left_of (cur @ [x]) xs"
    using Cons [of "[]"] Cons [of "cur @ [x]"] by auto
  then show ?case by (cases "x = NL") (auto intro: exI [of _ "cur @ x # u"])
qed simp

lemma strchr_line: "0 \<notin> set cur \<Longrightarrow> NL \<notin> set cur \<Longrightarrow> strchr (cur @ NL # xs) NL = Some (length cur)"
  by (induction cur) auto

lemma strchr_none: "NL \<notin> set cur \<Longrightarrow> strchr cur NL = None"
  by (induction cur) auto

lemma scan_lines:
  assumes "0 \<notin> set cur" and "0 \<notin> set xs" and "NL \<notin> set cur"
  shows "scan re (cur @ xs) = (selected re (lines_of cur xs), left_of cur xs)"
  using assms
proof (induction xs arbitrary: cur)
  case Nil
  then show ?case by (subst scan.simps) (simp add: strchr_none)
next
  case (Cons x xs)
  show ?case
  proof (cases "x = NL")
    case True
    then show ?thesis using Cons.IH [of "[]"] Cons.prems
      by (subst scan.simps) (simp add: strchr_line Let_def)
  next
    case False
    then show ?thesis using Cons.IH [of "cur @ [x]"] Cons.prems by simp
  qed
qed

text \<open>No line is longer than the buffer can hold with its newline.\<close>

definition short :: "byte list \<Rightarrow> bool" where
  "short d \<longleftrightarrow> (\<forall>u v w. d = u @ v @ w \<longrightarrow> NL \<notin> set v \<longrightarrow> length v \<le> BUFSIZE - 2)"

lemma grep_lines:
  assumes "\<forall>i. 0 < k i" and "0 \<notin> set pend" and "0 \<notin> set data" and "NL \<notin> set pend" and "short (pend @ data)"
  shows "grep re k j data pend = selected re (lines_of pend data)"
  using assms
proof (induction "length data" arbitrary: j data pend rule: less_induct)
  case less
  have l: "length pend \<le> BUFSIZE - 2" using less.prems(4,5) unfolding short_def by (metis append_Nil)
  define n where "n = min (k j) (min (BUFSIZE - length pend - 1) (length data))"
  show ?case
  proof (cases "data = []")
    case True
    then show ?thesis by (simp add: grep.simps [of re k j])
  next
    case False
    have kj: "0 < k j" using less.prems(1) by blast
    have n: "0 < n" "n \<le> length data" using False l kj by (auto simp: n_def BUFSIZE_def)
    let ?l = "left_of pend (take n data)"
    have d: "data = take n data @ drop n data" by simp
    have z: "0 \<notin> set (take n data)" "0 \<notin> set (drop n data)"
      using less.prems(3) set_take_subset set_drop_subset by fastforce+
    obtain u where u: "pend @ take n data = u @ ?l" using left_suffix by blast
    have nl: "NL \<notin> set ?l" by (rule left_NL [OF less.prems(4)])
    have "set ?l \<subseteq> set pend \<union> set (take n data)" using arg_cong [OF u, of set] by auto
    then have z': "0 \<notin> set ?l" using less.prems(2) z(1) by auto
    have "short (?l @ drop n data)"
      unfolding short_def
    proof (intro allI impI)
      fix a v w assume "?l @ drop n data = a @ v @ w" "NL \<notin> set v"
      moreover from this have "pend @ data = (u @ a) @ v @ w" using u d by (metis append.assoc)
      ultimately show "length v \<le> BUFSIZE - 2" using less.prems(5) unfolding short_def by blast
    qed
    then have ih: "grep re k (Suc j) (drop n data) ?l = selected re (lines_of ?l (drop n data))"
      using less.hyps [OF _ less.prems(1) z' z(2) nl, of "Suc j"] n by simp
    have "grep re k j data pend = selected re (lines_of pend (take n data)) @ grep re k (Suc j) (drop n data) ?l"
      unfolding grep.simps [of re k j] Let_def n_def [symmetric]
      using n(1) scan_lines [OF less.prems(2) z(1) less.prems(4), of re] by simp
    also have "\<dots> = selected re (lines_of pend (take n data @ drop n data))"
      unfolding ih lines_append by simp
    finally show ?thesis by simp
  qed
qed

section \<open>Properties\<close>

text \<open>
  C19. \<^verbatim>\<open>match\<close> decides the language of its pattern: with a leading \<^verbatim>\<open>^\<close> it accepts exactly the texts with a prefix
  in the language of the rest of the pattern, otherwise exactly those with such a substring, and a final
  \<^verbatim>\<open>$\<close> asks that the match reach the end of the text.
\<close>

theorem match_correct:
  "match re tx \<longleftrightarrow>
     (if re \<noteq> [] \<and> hd re = CARET then here (tl re) tx else (\<exists>k\<le>length tx. here re (drop k tx)))"
  by (simp add: match_def match_here match_from_here)



end
