(* ===== verification/Printf.thy ===== *)
theory Printf
  imports Prelude
begin

text \<open>
  \<^verbatim>\<open>kernel/printf.c\<close>, \<^verbatim>\<open>user/printf.c\<close> and \<^verbatim>\<open>atoi\<close> of \<^verbatim>\<open>user/ulib.c\<close>.  The functions return the bytes they print, in order.  A
  C string is the list of its bytes without the terminating zero; an argument after the format is a
  64-bit integer or a string pointer, and \<^verbatim>\<open>va_arg\<close> at the wrong kind or past the last one is undefined.  A
  store past the end of \<^verbatim>\<open>buf[16]\<close> is undefined as well.
\<close>

section \<open>Integers\<close>

definition bytes :: "string \<Rightarrow> byte list" where
  "bytes s = map of_char s"

definition digits :: "byte list" where
  "digits = bytes ''0123456789abcdef''"

definition udigits :: "byte list" where
  "udigits = bytes ''0123456789ABCDEF''"

definition BUF :: nat where
  "BUF = 16"

text \<open>The \<^verbatim>\<open>do\<close> loop of \<^verbatim>\<open>printint\<close>; \<open>buf\<close> holds the cells written so far, and \<^verbatim>\<open>i\<close> is their number.\<close>

function print_digits :: "byte list \<Rightarrow> 'a::len word \<Rightarrow> 'a word \<Rightarrow> byte list \<Rightarrow> byte list result" where
  "print_digits tab x base buf =
     (if length buf \<ge> BUF then undef ''printint: buf''
      else let buf1 = buf @ [tab ! unat (x mod base)]; x1 = x div base
           in if x1 \<noteq> 0 then print_digits tab x1 base buf1 else Inr buf1)"
  by pat_completeness auto
termination
  by (relation "measure (\<lambda>(tab, x, base, buf). BUF - length buf)") auto

declare print_digits.simps [simp del]

definition print_sign :: "byte list \<Rightarrow> bool \<Rightarrow> byte list result" where
  "print_sign buf neg =
     (if neg then if length buf \<ge> BUF then undef ''printint: buf'' else Inr (buf @ bytes ''-'') else Inr buf)"

text \<open>\<^verbatim>\<open>printint\<close> of the kernel works on \<^verbatim>\<open>long long\<close>.\<close>

definition printint :: "uint64 \<Rightarrow> uint64 \<Rightarrow> bool \<Rightarrow> byte list result" where
  "printint xx base sign =
     (let neg = (sign \<and> sint xx < 0); x = (if neg then - xx else xx)
      in ebind (print_digits digits x base []) (\<lambda>buf.
         ebind (print_sign buf neg) (\<lambda>buf. Inr (rev buf))))"

text \<open>\<^verbatim>\<open>printint\<close> of the user library takes an \<^verbatim>\<open>int\<close>.\<close>

definition uprintint :: "uint32 \<Rightarrow> uint32 \<Rightarrow> bool \<Rightarrow> byte list result" where
  "uprintint xx base sign =
     (let neg = (sign \<and> sint xx < 0); x = (if neg then - xx else xx)
      in ebind (print_digits udigits x base []) (\<lambda>buf.
         ebind (print_sign buf neg) (\<lambda>buf. Inr (rev buf))))"

fun ptr_digits :: "byte list \<Rightarrow> uint64 \<Rightarrow> nat \<Rightarrow> byte list" where
  "ptr_digits tab x 0 = []"
| "ptr_digits tab x (Suc i) = tab ! unat (drop_bit 60 x) # ptr_digits tab (push_bit 4 x) i"

definition printptr :: "uint64 \<Rightarrow> byte list" where
  "printptr x = bytes ''0x'' @ ptr_digits digits x 16"

definition uprintptr :: "uint64 \<Rightarrow> byte list" where
  "uprintptr x = bytes ''0x'' @ ptr_digits udigits x 16"

section \<open>Formats\<close>

datatype arg = AInt uint64 | AStr "byte list option"

fun arg_word :: "arg list \<Rightarrow> (uint64 \<times> arg list) result" where
  "arg_word (AInt x # ap) = Inr (x, ap)"
| "arg_word ap = undef ''va_arg''"

fun arg_str :: "arg list \<Rightarrow> (byte list \<times> arg list) result" where
  "arg_str (AStr (Some s) # ap) = Inr (s, ap)"
| "arg_str (AStr None # ap) = Inr (bytes ''(null)'', ap)"
| "arg_str ap = undef ''va_arg''"

text \<open>\<^verbatim>\<open>va_arg(ap, int)\<close> passed on as a \<^verbatim>\<open>long long\<close>: the low half of the slot, sign-extended.\<close>

definition as_int :: "uint64 \<Rightarrow> uint64" where
  "as_int x = scast (ucast x :: uint32)"

text \<open>
  One conversion after \<^verbatim>\<open>%\<close>: what is printed, the arguments left and the number of format bytes consumed.
  \<open>pint\<close> prints an argument, fetched as an \<^verbatim>\<open>int\<close> if its first argument is \<open>True\<close>.  \<open>None\<close> is the end of the
  format.
\<close>

definition conv :: "(bool \<Rightarrow> uint64 \<Rightarrow> nat \<Rightarrow> bool \<Rightarrow> byte list result) \<Rightarrow> (uint64 \<Rightarrow> byte list) \<Rightarrow> byte list \<Rightarrow> arg list \<Rightarrow>
    (byte list \<times> arg list \<times> nat) option result" where
  "conv pint pptr f ap =
     (let at = (\<lambda>k. if k < length f then f ! k else 0);
          c0 = at 0; c1 = (if c0 \<noteq> 0 then at 1 else 0); c2 = (if c1 \<noteq> 0 then at 2 else 0);
          num = (\<lambda>narrow base sign used. ebind (arg_word ap) (\<lambda>(x, ap1).
                   ebind (pint narrow x base sign) (\<lambda>out. Inr (Some (out, ap1, used)))))
      in if c0 = 0x64 then num True 10 True 1
         else if c0 = 0x6c \<and> c1 = 0x64 then num False 10 True 2
         else if c0 = 0x6c \<and> c1 = 0x6c \<and> c2 = 0x64 then num False 10 True 3
         else if c0 = 0x75 then num True 10 False 1
         else if c0 = 0x6c \<and> c1 = 0x75 then num False 10 False 2
         else if c0 = 0x6c \<and> c1 = 0x6c \<and> c2 = 0x75 then num False 10 False 3
         else if c0 = 0x78 then num True 16 False 1
         else if c0 = 0x6c \<and> c1 = 0x78 then num False 16 False 2
         else if c0 = 0x6c \<and> c1 = 0x6c \<and> c2 = 0x78 then num False 16 False 3
         else if c0 = 0x70 then ebind (arg_word ap) (\<lambda>(x, ap1). Inr (Some (pptr x, ap1, 1)))
         else if c0 = 0x73 then ebind (arg_str ap) (\<lambda>(s, ap1). Inr (Some (s, ap1, 1)))
         else if c0 = 0x25 then Inr (Some (bytes ''%'', ap, 1))
         else if c0 = 0 then Inr None
         else Inr (Some (bytes ''%'' @ [c0], ap, 1)))"

definition kconv :: "byte list \<Rightarrow> arg list \<Rightarrow> (byte list \<times> arg list \<times> nat) option result" where
  "kconv = conv (\<lambda>narrow x base sign. printint (if narrow then as_int x else x) (of_nat base) sign) printptr"

definition uconv :: "byte list \<Rightarrow> arg list \<Rightarrow> (byte list \<times> arg list \<times> nat) option result" where
  "uconv = conv (\<lambda>narrow x base sign. uprintint (ucast x) (of_nat base) sign) uprintptr"

lemma conv_used: "conv pint pptr f ap = Inr (Some (out, ap1, used)) \<Longrightarrow> 0 < used"
  unfolding conv_def Let_def ebind_def by (auto split: if_splits prod.splits sum.splits)

function printf :: "byte list \<Rightarrow> arg list \<Rightarrow> byte list result" where
  "printf [] ap = Inr []"
| "printf (c # f) ap =
     (if c \<noteq> 0x25 then ebind (printf f ap) (\<lambda>out. Inr (c # out))
      else ebind (kconv f ap) (\<lambda>r.
        case r of None \<Rightarrow> Inr []
        | Some (out, ap1, used) \<Rightarrow> ebind (printf (drop used f) ap1) (\<lambda>rest. Inr (out @ rest))))"
  by pat_completeness auto
termination
  by (relation "measure (\<lambda>(f, ap). length f)") auto

text \<open>What \<^verbatim>\<open>panic\<close> prints before it stops the machine.\<close>

definition panic_prints :: "byte list \<Rightarrow> byte list result" where
  "panic_prints s =
     ebind (printf (bytes ''panic: '') []) (\<lambda>a.
     ebind (printf (bytes ''%s'' @ [10]) [AStr (Some s)]) (\<lambda>b. Inr (a @ b)))"

text \<open>\<^verbatim>\<open>vprintf\<close> of the user library; the flag is \<^verbatim>\<open>state == '%'\<close>.\<close>

function vprintf :: "bool \<Rightarrow> byte list \<Rightarrow> arg list \<Rightarrow> byte list result" where
  "vprintf st [] ap = Inr []"
| "vprintf False (c # f) ap =
     (if c = 0x25 then vprintf True f ap else ebind (vprintf False f ap) (\<lambda>out. Inr (c # out)))"
| "vprintf True (c # f) ap =
     ebind (uconv (c # f) ap) (\<lambda>r.
       case r of None \<Rightarrow> Inr []
       | Some (out, ap1, used) \<Rightarrow> ebind (vprintf False (drop used (c # f)) ap1) (\<lambda>rest. Inr (out @ rest)))"
  by pat_completeness auto
termination
  by (relation "measure (\<lambda>(st, f, ap). length f)") (auto simp: uconv_def dest: conv_used)

text \<open>\<^verbatim>\<open>atoi\<close>: arithmetic on \<^verbatim>\<open>int\<close>.\<close>

fun atoi_from :: "uint32 \<Rightarrow> byte list \<Rightarrow> uint32" where
  "atoi_from n [] = n"
| "atoi_from n (c # s) = (if 0x30 \<le> c \<and> c \<le> 0x39 then atoi_from (n * 10 + ucast c - 0x30) s else n)"

definition atoi :: "byte list \<Rightarrow> uint32" where
  "atoi s = atoi_from 0 s"

section \<open>The digits of a number\<close>

function dgs :: "nat \<Rightarrow> nat \<Rightarrow> nat list" where
  "dgs b n = n mod b # (if b \<le> 1 \<or> n div b = 0 then [] else dgs b (n div b))"
  by pat_completeness auto
termination
  by (relation "measure snd") (auto intro!: div_less_dividend gr0I)

declare dgs.simps [simp del]

fun dval :: "nat \<Rightarrow> nat list \<Rightarrow> nat" where
  "dval b [] = 0"
| "dval b (d # ds) = d + b * dval b ds"

lemma dval_dgs: "1 < b \<Longrightarrow> dval b (dgs b n) = n"
proof (induction b n rule: dgs.induct)
  case (1 b n)
  have "dval b (dgs b n) = n mod b + b * (n div b)"
    using 1 by (subst dgs.simps) (cases "n div b = 0", simp_all)
  then show ?case by simp
qed

lemma dgs_less: "1 < b \<Longrightarrow> d \<in> set (dgs b n) \<Longrightarrow> d < b"
proof (induction b n rule: dgs.induct)
  case (1 b n)
  then show ?case by (subst (asm) (2) dgs.simps) (auto split: if_splits)
qed

lemma dgs_length: "1 < b \<Longrightarrow> length (dgs b n) \<le> Suc k \<longleftrightarrow> n < b ^ Suc k"
proof (induction b n arbitrary: k rule: dgs.induct)
  case (1 b n)
  show ?case
  proof (cases "n div b = 0")
    case True
    then have "n < b" using 1(2) by (simp add: div_eq_0_iff)
    moreover have "b \<le> b ^ Suc k" using 1(2) by simp
    ultimately show ?thesis using True by (subst dgs.simps) (simp add: order.strict_trans2)
  next
    case False
    have l: "length (dgs b n) = Suc (length (dgs b (n div b)))" using False 1(2) by (subst dgs.simps) simp
    have "0 < length (dgs b (n div b))" by (subst dgs.simps) simp
    moreover have "b \<le> n" using False by (simp add: div_eq_0_iff not_less)
    moreover have "n div b < b ^ Suc j \<longleftrightarrow> n < b ^ Suc (Suc j)" for j
      using 1(2) by (simp add: div_less_iff_less_mult mult.commute)
    ultimately show ?thesis using 1(1) [of "k - 1"] 1(2) False l by (cases k) auto
  qed
qed

lemma print_digits_eq:
  fixes x base :: "'a::len word"
  shows "1 < unat base \<Longrightarrow> print_digits tab x base buf =
    (if length buf + length (dgs (unat base) (unat x)) \<le> BUF
     then Inr (buf @ map ((!) tab) (dgs (unat base) (unat x))) else undef ''printint: buf'')"
proof (induction tab x base buf rule: print_digits.induct)
  case (1 tab x base buf)
  let ?b = "unat base" and ?buf = "buf @ [tab ! unat (x mod base)]"
  have m: "unat (x mod base) = unat x mod ?b" "unat (x div base) = unat x div ?b"
    by (simp_all add: unat_mod unat_div)
  have z: "x div base = 0 \<longleftrightarrow> unat x div ?b = 0" using m(2) by (metis unsigned_0 unsigned_word_eqI)
  show ?case
  proof (cases "BUF \<le> length buf")
    case True
    have "0 < length (dgs ?b (unat x))" by (subst dgs.simps) simp
    then have "\<not> length buf + length (dgs ?b (unat x)) \<le> BUF" using True by linarith
    then show ?thesis using True by (subst print_digits.simps) simp
  next
    case False
    show ?thesis
    proof (cases "x div base = 0")
      case True
      then have "dgs ?b (unat x) = [unat x mod ?b]" using z by (subst dgs.simps) simp
      then show ?thesis using True False m by (subst print_digits.simps) simp
    next
      case ne: False
      have d: "dgs ?b (unat x) = unat x mod ?b # dgs ?b (unat (x div base))"
        using 1(2) ne z m(2) by (subst dgs.simps) simp
      have "print_digits tab x base buf = print_digits tab (x div base) base ?buf"
        using False ne by (subst print_digits.simps) simp
      also have "\<dots> = (if length ?buf + length (dgs ?b (unat (x div base))) \<le> BUF
          then Inr (?buf @ map ((!) tab) (dgs ?b (unat (x div base)))) else undef ''printint: buf'')"
        using 1(1) [OF False refl refl ne 1(2)] .
      finally show ?thesis unfolding d using m(1) by simp
    qed
  qed
qed

section \<open>Reading a number back\<close>

lemma digit_byte: "d < 10 \<Longrightarrow> udigits ! d = 0x30 + of_nat d \<and> digits ! d = 0x30 + of_nat d"
proof -
  have "\<forall>d\<in>set [0..<10]. udigits ! d = 0x30 + of_nat d \<and> digits ! d = 0x30 + of_nat d" by code_simp
  then show "d < 10 \<Longrightarrow> udigits ! d = 0x30 + of_nat d \<and> digits ! d = 0x30 + of_nat d" by auto
qed

lemma digit_range:
  assumes "d < 10"
  shows "0x30 \<le> (0x30 + of_nat d :: byte)" and "(0x30 + of_nat d :: byte) \<le> 0x39"
    and "ucast (0x30 + of_nat d :: byte) = (0x30 + of_nat d :: uint32)"
proof -
  have "\<forall>d\<in>set [0..<10]. 0x30 \<le> (0x30 + of_nat d :: byte) \<and> (0x30 + of_nat d :: byte) \<le> 0x39 \<and>
      ucast (0x30 + of_nat d :: byte) = (0x30 + of_nat d :: uint32)" by code_simp
  then show "0x30 \<le> (0x30 + of_nat d :: byte)" "(0x30 + of_nat d :: byte) \<le> 0x39"
    "ucast (0x30 + of_nat d :: byte) = (0x30 + of_nat d :: uint32)" using assms by auto
qed

lemma atoi_snoc:
  assumes "\<forall>c\<in>set xs. 0x30 \<le> c \<and> c \<le> 0x39" and "d < 10"
  shows "atoi_from n (xs @ [0x30 + of_nat d]) = atoi_from n xs * 10 + of_nat d"
  using assms by (induction xs arbitrary: n) (auto simp: digit_range)

lemma atoi_digits:
  assumes "\<forall>d\<in>set ds. d < 10"
  shows "atoi_from 0 (rev (map (\<lambda>d. 0x30 + of_nat d) ds)) = of_nat (dval 10 ds)"
  using assms
proof (induction ds)
  case (Cons d ds)
  have "\<forall>c\<in>set (rev (map (\<lambda>d. 0x30 + of_nat d) ds)). 0x30 \<le> (c :: byte) \<and> c \<le> 0x39"
    using Cons.prems by (auto simp: digit_range)
  then show ?case using Cons by (simp add: atoi_snoc)
qed simp

lemma conv_d: "conv pint pptr (bytes ''d'') [AInt x] = ebind (pint True x 10 True) (\<lambda>out. Inr (Some (out, [], 1)))"
  by (simp add: conv_def bytes_def Let_def)

lemma conv_ld: "conv pint pptr (bytes ''ld'') [AInt x] = ebind (pint False x 10 True) (\<lambda>out. Inr (Some (out, [], 2)))"
  by (simp add: conv_def bytes_def Let_def)

lemma ebind_id: "ebind r Inr = r"
  by (cases r) simp_all

lemma vprintf_conv:
  assumes "uconv (c # f) ap = ebind r (\<lambda>out. Inr (Some (out, [], length (c # f))))"
  shows "vprintf False (0x25 # c # f) ap = r"
  using assms by (cases r) simp_all

lemma vprintf_d: "vprintf False (bytes ''%d'') [AInt x] = uprintint (ucast x) 10 True"
proof -
  have c: "uconv [0x64] [AInt x] = ebind (uprintint (ucast x) 10 True) (\<lambda>out. Inr (Some (out, [], 1)))"
    using conv_d [of _ uprintptr x] by (simp add: bytes_def uconv_def)
  have "bytes ''%d'' = [0x25, 0x64]" by (simp add: bytes_def)
  then show ?thesis by (simp only:) (rule vprintf_conv, simp add: c)
qed

lemma vprintf_ld: "vprintf False (bytes ''%ld'') [AInt x] = uprintint (ucast x) 10 True"
proof -
  have c: "uconv [0x6c, 0x64] [AInt x] = ebind (uprintint (ucast x) 10 True) (\<lambda>out. Inr (Some (out, [], 2)))"
    using conv_ld [of _ uprintptr x] by (simp add: bytes_def uconv_def)
  have "bytes ''%ld'' = [0x25, 0x6c, 0x64]" by (simp add: bytes_def)
  then show ?thesis by (simp only:) (rule vprintf_conv, simp add: c numeral_2_eq_2)
qed

lemma sint_small: "unat (w :: uint32) < 2 ^ 31 \<Longrightarrow> sint w = int (unat w)"
proof -
  assume w: "unat w < 2 ^ 31"
  have "signed_take_bit 31 (int n) = int n" if "n < 2 ^ 31" for n
    using that by (intro signed_take_bit_int_eq_self) simp_all
  from this [OF w] show ?thesis by (simp add: sint_uint)
qed

section \<open>Properties\<close>



text \<open>
  C36. The digit buffer of the kernel's \<^verbatim>\<open>printint\<close> is too small for 64-bit numbers: it holds 16 bytes, so a decimal
  conversion is defined exactly below \<open>10\<^sup>1\<^sup>6\<close>, or for a negative number above \<open>- 10\<^sup>1\<^sup>5\<close>, and any larger number
  makes it store outside the array.
\<close>

theorem printint_overflow:
  "(\<exists>out. printint xx 10 sign = Inr out) \<longleftrightarrow>
     (if sign \<and> sint xx < 0 then unat (- xx) < 10 ^ 15 else unat xx < 10 ^ 16)"
proof (cases "sign \<and> sint xx < 0")
  case True
  have "length (dgs 10 (unat (- xx))) \<le> 15 \<longleftrightarrow> unat (- xx) < 10 ^ 15"
    using dgs_length [of 10 "unat (- xx)" 14] by simp
  then show ?thesis
    using True print_digits_eq [of "10 :: uint64" digits "- xx" "[]"]
    by (auto simp: printint_def print_sign_def BUF_def undef_def not_le)
next
  case False
  have "length (dgs 10 (unat xx)) \<le> 16 \<longleftrightarrow> unat xx < 10 ^ 16"
    using dgs_length [of 10 "unat xx" 15] by simp
  then show ?thesis
    using False print_digits_eq [of "10 :: uint64" digits xx "[]"]
    by (auto simp: printint_def print_sign_def BUF_def undef_def not_le)
qed

text \<open>
  C37. In the user library the conversions for long integers print an \<^verbatim>\<open>int\<close>: \<^verbatim>\<open>%ld\<close> prints the same as \<^verbatim>\<open>%d\<close> for every
  argument, and two arguments that agree in their low 32 bits print the same.
\<close>

theorem printf_long_truncates:
  "vprintf False (bytes ''%ld'') [AInt x] = vprintf False (bytes ''%d'') [AInt x] \<and>
   vprintf False (bytes ''%ld'') [AInt (x + 2 ^ 32)] = vprintf False (bytes ''%ld'') [AInt x]"
proof -
  have low: "unat (ucast y :: uint32) = unat y mod 2 ^ 32" for y :: uint64
    by (simp add: unsigned_ucast_eq take_bit_eq_mod)
  have "unat (x + 2 ^ 32) = (unat x + 2 ^ 32) mod 2 ^ 64" by (simp add: unat_word_ariths)
  moreover have "(unat x + 2 ^ 32) mod 2 ^ 64 mod 2 ^ 32 = unat x mod 2 ^ 32"
    by (subst mod_mod_cancel) simp_all
  ultimately have "unat (ucast (x + 2 ^ 32) :: uint32) = unat (ucast x :: uint32)" by (simp only: low)
  then have "(ucast (x + 2 ^ 32) :: uint32) = ucast x" by (rule unsigned_word_eqI)
  then show ?thesis by (simp only: vprintf_d vprintf_ld simp_thms)
qed

end
