(* ===== verification/Console.thy ===== *)
theory Console
  imports Ring Vm
begin

text \<open>
  \<^verbatim>\<open>kernel/uart.c\<close> and \<^verbatim>\<open>kernel/console.c\<close>.  The UART's registers are the device: the \<open>k\<close>-th read of the line status
  register returns \<open>lsr k\<close> and the \<open>k\<close>-th read of the receive register \<open>rhr k\<close>, for any sequences; what is
  written to the transmit register is recorded in order in \<open>thr\<close>, what \<^verbatim>\<open>uartinit\<close> writes in \<open>conf\<close>.  A
  function that spins until the device is idle returns an option, \<open>None\<close> if it spins for ever.
\<close>

section \<open>The UART\<close>

definition UART_TX_BUF_SIZE :: nat where
  "UART_TX_BUF_SIZE = 32"

record uart =
  uart_tx_buf :: "byte list"
  uart_tx_w :: uint64
  uart_tx_r :: uint64
  panicked :: bool
  thr :: "byte list"
  conf :: "(nat \<times> byte) list"
  lsr :: "nat \<Rightarrow> byte"
  polls :: nat
  rhr :: "nat \<Rightarrow> byte"
  reads :: nat

definition LSR_RX_READY :: byte where "LSR_RX_READY = 1"
definition LSR_TX_IDLE :: byte where "LSR_TX_IDLE = 32"

definition uartinit :: "uart \<Rightarrow> uart" where
  "uartinit u = u\<lparr>conf := conf u @ [(1, 0), (3, 0x80), (0, 3), (1, 0), (3, 3), (2, 7), (1, 3)]\<rparr>"

definition poll_lsr :: "uart \<Rightarrow> byte \<times> uart" where
  "poll_lsr u = (lsr u (polls u), u\<lparr>polls := polls u + 1\<rparr>)"

definition put_thr :: "uart \<Rightarrow> byte \<Rightarrow> uart" where
  "put_thr u c = u\<lparr>thr := thr u @ [c]\<rparr>"

function uartstart :: "uart \<Rightarrow> uart" where
  "uartstart u =
     (if uart_tx_w u = uart_tx_r u then u
      else case poll_lsr u of (st, u1) \<Rightarrow>
        if st AND LSR_TX_IDLE = 0 then u1
        else let c = uart_tx_buf u1 ! (unat (uart_tx_r u1) mod UART_TX_BUF_SIZE)
             in uartstart (put_thr (u1\<lparr>uart_tx_r := uart_tx_r u1 + 1\<rparr>) c))"
  by pat_completeness auto
termination
  by (relation "measure (\<lambda>u. unat (uart_tx_w u - uart_tx_r u))")
    (auto simp: poll_lsr_def put_thr_def unat_diff_pop [of "uart_tx_w _" "uart_tx_r _"])

declare uartstart.simps [simp del]

text \<open>What a call that may have to wait does: it goes on, sleeps, or never returns.\<close>

datatype 'a wait = Go 'a | Wait | Hang

definition uartputc :: "uart \<Rightarrow> byte \<Rightarrow> uart wait" where
  "uartputc u c =
     (if panicked u then Hang
      else if uart_tx_w u = uart_tx_r u + of_nat UART_TX_BUF_SIZE then Wait
      else Go (uartstart (u\<lparr>uart_tx_buf := (uart_tx_buf u)[unat (uart_tx_w u) mod UART_TX_BUF_SIZE := c],
                            uart_tx_w := uart_tx_w u + 1\<rparr>)))"

partial_function (option) uart_spin :: "uart \<Rightarrow> uart option" where
  "uart_spin u = (case poll_lsr u of (st, u1) \<Rightarrow> if st AND LSR_TX_IDLE = 0 then uart_spin u1 else Some u1)"

declare uart_spin.simps [code]

definition uartputc_sync :: "uart \<Rightarrow> byte \<Rightarrow> uart option" where
  "uartputc_sync u c =
     (if panicked u then None else map_option (\<lambda>u1. put_thr u1 c) (uart_spin u))"

definition uartgetc :: "uart \<Rightarrow> byte option \<times> uart" where
  "uartgetc u =
     (case poll_lsr u of (st, u1) \<Rightarrow>
        if st AND LSR_RX_READY \<noteq> 0 then (Some (rhr u1 (reads u1)), u1\<lparr>reads := reads u1 + 1\<rparr>)
        else (None, u1))"

section \<open>The console\<close>

definition INPUT_BUF_SIZE :: nat where
  "INPUT_BUF_SIZE = 128"

record cons =
  cbuf :: "byte list"
  cr :: uint32
  cw :: uint32
  ce :: uint32

text \<open>\<open>consputc_back\<close> is \<^verbatim>\<open>consputc(BACKSPACE)\<close>.\<close>

definition consputc :: "uart \<Rightarrow> byte \<Rightarrow> uart option" where
  "consputc u c = uartputc_sync u c"

definition consputc_back :: "uart \<Rightarrow> uart option" where
  "consputc_back u =
     Option.bind (uartputc_sync u 8) (\<lambda>u1. Option.bind (uartputc_sync u1 0x20) (\<lambda>u2. uartputc_sync u2 8))"

fun consputs :: "uart \<Rightarrow> byte list \<Rightarrow> uart option" where
  "consputs u [] = Some u"
| "consputs u (c # cs) = Option.bind (consputc u c) (\<lambda>u1. consputs u1 cs)"

definition either_copyout :: "pmem \<Rightarrow> bool \<Rightarrow> addr \<Rightarrow> uint64 \<Rightarrow> addr \<Rightarrow> uint64 \<Rightarrow> bool \<times> pmem" where
  "either_copyout s user_dst pagetable dst src len =
     (if user_dst then copyout s pagetable dst src len
      else (True, s\<lparr>ram := memmove (ram s) (unat dst) src (unat len)\<rparr>))"

definition either_copyin :: "pmem \<Rightarrow> addr \<Rightarrow> bool \<Rightarrow> addr \<Rightarrow> uint64 \<Rightarrow> uint64 \<Rightarrow> bool \<times> pmem" where
  "either_copyin s dst user_src pagetable src len =
     (if user_src then copyin s pagetable dst src len
      else (True, s\<lparr>ram := memmove (ram s) dst (unat src) (unat len)\<rparr>))"

text \<open>
  \<^verbatim>\<open>consolewrite\<close> from index \<open>i\<close> until it returns or \<^verbatim>\<open>uartputc\<close> sleeps, holding the byte \<^verbatim>\<open>c\<close>; \<open>cw_resume\<close> is the call
  woken up.  \<open>ch\<close> is the address of the local \<^verbatim>\<open>c\<close>.
\<close>

datatype cwrun = CWRet int | CWSleep int byte | CWHang

function consolewrite :: "uart \<Rightarrow> pmem \<Rightarrow> addr \<Rightarrow> addr \<Rightarrow> bool \<Rightarrow> uint64 \<Rightarrow> int \<Rightarrow> int \<Rightarrow> cwrun \<times> uart \<times> pmem" where
  "consolewrite u s pagetable ch user_src src n i =
     (if i < n then
        case either_copyin s ch user_src pagetable (src + of_int i) 1 of (ok, s1) \<Rightarrow>
          if \<not> ok then (CWRet i, u, s1)
          else case uartputc u (ram s1 ch) of
            Go u1 \<Rightarrow> consolewrite u1 s1 pagetable ch user_src src n (i + 1)
          | Wait \<Rightarrow> (CWSleep i (ram s1 ch), u, s1)
          | Hang \<Rightarrow> (CWHang, u, s1)
      else (CWRet i, u, s))"
  by pat_completeness auto
termination
  by (relation "measure (\<lambda>(u, s, pagetable, ch, user_src, src, n, i). nat (n - i))") auto

declare consolewrite.simps [simp del]

definition cw_resume :: "uart \<Rightarrow> pmem \<Rightarrow> addr \<Rightarrow> addr \<Rightarrow> bool \<Rightarrow> uint64 \<Rightarrow> int \<Rightarrow> int \<Rightarrow> byte \<Rightarrow> cwrun \<times> uart \<times> pmem" where
  "cw_resume u s pagetable ch user_src src n i c =
     (case uartputc u c of
        Go u1 \<Rightarrow> consolewrite u1 s pagetable ch user_src src n (i + 1)
      | Wait \<Rightarrow> (CWSleep i c, u, s)
      | Hang \<Rightarrow> (CWHang, u, s))"

text \<open>
  \<^verbatim>\<open>consoleread\<close> until it returns or sleeps; \<open>CRSleep\<close> carries \<^verbatim>\<open>dst\<close> and \<^verbatim>\<open>n\<close>, from which it goes on.  \<open>cb\<close> is the
  address of the local \<^verbatim>\<open>cbuf\<close>.
\<close>

datatype crrun = CRRet int | CRSleep uint64 int

function consoleread :: "cons \<Rightarrow> pmem \<Rightarrow> addr \<Rightarrow> addr \<Rightarrow> bool \<Rightarrow> bool \<Rightarrow> int \<Rightarrow> uint64 \<Rightarrow> int \<Rightarrow> crrun \<times> cons \<times> pmem" where
  "consoleread co s pagetable cb killed user_dst target dst n =
     (if n > 0 then
        if cr co = cw co then (if killed then CRRet (-1) else CRSleep dst n, co, s)
        else
          let c = cbuf co ! (unat (cr co) mod INPUT_BUF_SIZE); co1 = co\<lparr>cr := cr co + 1\<rparr>
          in if c = 4 then (CRRet (target - n), if n < target then co1\<lparr>cr := cr co1 - 1\<rparr> else co1, s)
             else case either_copyout (s\<lparr>ram := (ram s)(cb := c)\<rparr>) user_dst pagetable dst cb 1 of (ok, s1) \<Rightarrow>
               if \<not> ok then (CRRet (target - n), co1, s1)
               else if c = 10 then (CRRet (target - (n - 1)), co1, s1)
               else consoleread co1 s1 pagetable cb killed user_dst target (dst + 1) (n - 1)
      else (CRRet (target - n), co, s))"
  by pat_completeness auto
termination
  by (relation "measure (\<lambda>(co, s, pagetable, cb, killed, user_dst, target, dst, n). nat n)") auto

declare consoleread.simps [simp del]

function kill_line :: "cons \<Rightarrow> uart \<Rightarrow> (cons \<times> uart) option" where
  "kill_line co u =
     (if ce co \<noteq> cw co \<and> cbuf co ! (unat (ce co - 1) mod INPUT_BUF_SIZE) \<noteq> 10 then
        case consputc_back u of None \<Rightarrow> None
        | Some u1 \<Rightarrow> kill_line (co\<lparr>ce := ce co - 1\<rparr>) u1
      else Some (co, u))"
  by pat_completeness auto
termination
  by (relation "measure (\<lambda>(co, u). unat (ce co - cw co))")
    (auto simp: unat_diff_minus1 [of "ce _" "cw _"] algebra_simps)

declare kill_line.simps [simp del]

text \<open>
  \<^verbatim>\<open>consoleintr\<close>: the console and the UART afterwards and whether readers are woken up.  \<open>dump\<close> is the text that
  \<^verbatim>\<open>procdump\<close> prints.
\<close>

definition consoleintr :: "byte list \<Rightarrow> cons \<Rightarrow> uart \<Rightarrow> byte \<Rightarrow> (cons \<times> uart \<times> bool) option" where
  "consoleintr dump co u c =
     (if c = 0x10 then map_option (\<lambda>u1. (co, u1, False)) (consputs u dump)
      else if c = 0x15 then map_option (\<lambda>(co1, u1). (co1, u1, False)) (kill_line co u)
      else if c = 8 \<or> c = 0x7f then
        if ce co \<noteq> cw co then map_option (\<lambda>u1. (co\<lparr>ce := ce co - 1\<rparr>, u1, False)) (consputc_back u)
        else Some (co, u, False)
      else if c \<noteq> 0 \<and> unat (ce co - cr co) < INPUT_BUF_SIZE then
        let c1 = (if c = 0xd then 0xa else c)
        in map_option (\<lambda>u1.
             let co1 = co\<lparr>cbuf := (cbuf co)[unat (ce co) mod INPUT_BUF_SIZE := c1], ce := ce co + 1\<rparr>
             in if c1 = 0xa \<or> c1 = 4 \<or> unat (ce co1 - cr co1) = INPUT_BUF_SIZE
                then (co1\<lparr>cw := ce co1\<rparr>, u1, True) else (co1, u1, False)) (consputc u c1)
      else Some (co, u, False))"

definition consoleinit :: "uart \<Rightarrow> uart" where
  "consoleinit u = uartinit u"

partial_function (option) uart_rx :: "byte list \<Rightarrow> cons \<Rightarrow> uart \<Rightarrow> (cons \<times> uart) option" where
  "uart_rx dump co u =
     (case uartgetc u of
        (None, u1) \<Rightarrow> Some (co, u1)
      | (Some c, u1) \<Rightarrow>
          Option.bind (consoleintr dump co u1 c) (\<lambda>(co1, u2, wk). uart_rx dump co1 u2))"

declare uart_rx.simps [code]

definition uartintr :: "byte list \<Rightarrow> cons \<Rightarrow> uart \<Rightarrow> (cons \<times> uart) option" where
  "uartintr dump co u = map_option (\<lambda>(co1, u1). (co1, uartstart u1)) (uart_rx dump co u)"

section \<open>Output in order\<close>

interpretation ut: ring UART_TX_BUF_SIZE "TYPE(64)"
  by unfold_locales (simp_all add: UART_TX_BUF_SIZE_def)

definition waiting :: "uart \<Rightarrow> byte list" where
  "waiting u = ring_items UART_TX_BUF_SIZE (uart_tx_buf u) (uart_tx_r u) (uart_tx_w u)"

definition uart_inv :: "uart \<Rightarrow> bool" where
  "uart_inv u \<longleftrightarrow> length (uart_tx_buf u) = UART_TX_BUF_SIZE \<and> length (waiting u) \<le> UART_TX_BUF_SIZE"

lemma uartstart_ok:
  "uart_inv u \<Longrightarrow> uart_inv (uartstart u) \<and> thr (uartstart u) @ waiting (uartstart u) = thr u @ waiting u \<and>
     lsr (uartstart u) = lsr u \<and> panicked (uartstart u) = panicked u \<and>
     (waiting (uartstart u) = [] \<or> polls u < polls (uartstart u) \<and> lsr u (polls (uartstart u) - 1) AND LSR_TX_IDLE = 0)"
proof (induction u rule: uartstart.induct)
  case (1 u)
  let ?u1 = "u\<lparr>polls := polls u + 1\<rparr>"
  show ?case
  proof (cases "uart_tx_w u = uart_tx_r u")
    case True
    then show ?thesis using 1(2) by (simp add: uartstart.simps [of u] waiting_def)
  next
    case ne: False
    show ?thesis
    proof (cases "lsr u (polls u) AND LSR_TX_IDLE = 0")
      case True
      then have "uartstart u = ?u1" using ne by (simp add: uartstart.simps [of u] poll_lsr_def)
      then show ?thesis using 1(2) True by (simp add: uart_inv_def waiting_def)
    next
      case False
      define v where "v = put_thr (?u1\<lparr>uart_tx_r := uart_tx_r u + 1\<rparr>) (uart_tx_buf u ! (unat (uart_tx_r u) mod UART_TX_BUF_SIZE))"
      have st: "uartstart u = uartstart v"
        using ne False by (subst uartstart.simps) (simp add: poll_lsr_def v_def)
      have w: "waiting u = uart_tx_buf u ! (unat (uart_tx_r u) mod UART_TX_BUF_SIZE) # waiting v"
        using ut.pop [OF ne] by (simp add: waiting_def v_def put_thr_def)
      have "length (waiting v) \<le> length (waiting u)" unfolding w by simp
      then have "uart_inv v" using 1(2) by (simp add: uart_inv_def) (simp add: v_def put_thr_def)
      moreover have "thr v @ waiting v = thr u @ waiting u" unfolding w by (simp add: v_def put_thr_def)
      moreover have "polls v = polls u + 1" "lsr v = lsr u" "panicked v = panicked u" by (simp_all add: v_def put_thr_def)
      ultimately show ?thesis
        unfolding st using 1(1) [OF ne _ False, of ?u1] by (auto simp: poll_lsr_def v_def)
    qed
  qed
qed

lemma uart_full_iff: "uart_tx_w u = uart_tx_r u + of_nat UART_TX_BUF_SIZE \<longleftrightarrow> length (waiting u) = UART_TX_BUF_SIZE"
  using ut.full_iff [of "uart_tx_w u" "uart_tx_r u"] by (simp add: waiting_def)

text \<open>
  C25. The UART driver sends characters in the order they were accepted and loses none, with counters that
  wrap at 64 bits.  \<^verbatim>\<open>uartputc\<close> sleeps exactly when the buffer is full; otherwise the bytes sent followed by
  the bytes waiting have the new byte at the end, and bytes are left waiting only if the device said it
  was busy.  \<^verbatim>\<open>uartstart\<close> alone neither adds nor loses a byte.
\<close>

theorem uart_in_order:
  assumes "uart_inv u" and "\<not> panicked u"
  shows "(uartputc u c = Wait \<longleftrightarrow> length (waiting u) = UART_TX_BUF_SIZE) \<and>
    (length (waiting u) < UART_TX_BUF_SIZE \<longrightarrow> (\<exists>v. uartputc u c = Go v \<and> uart_inv v \<and>
       thr v @ waiting v = thr u @ waiting u @ [c] \<and>
       (waiting v = [] \<or> polls u < polls v \<and> lsr u (polls v - 1) AND LSR_TX_IDLE = 0))) \<and>
    uart_inv (uartstart u) \<and> thr (uartstart u) @ waiting (uartstart u) = thr u @ waiting u"
proof -
  have "\<exists>v. uartputc u c = Go v \<and> uart_inv v \<and> thr v @ waiting v = thr u @ waiting u @ [c] \<and>
      (waiting v = [] \<or> polls u < polls v \<and> lsr u (polls v - 1) AND LSR_TX_IDLE = 0)"
    if l: "length (waiting u) < UART_TX_BUF_SIZE"
  proof -
    define w where "w = u\<lparr>uart_tx_buf := (uart_tx_buf u)[unat (uart_tx_w u) mod UART_TX_BUF_SIZE := c],
      uart_tx_w := uart_tx_w u + 1\<rparr>"
    have ww: "waiting w = waiting u @ [c]"
      using l assms(1) by (simp add: waiting_def w_def uart_inv_def ut.push)
    then have "uart_inv w" using assms(1) l by (simp add: uart_inv_def) (simp add: w_def)
    moreover have "uartputc u c = Go (uartstart w)" using l assms(2) uart_full_iff [of u] by (simp add: uartputc_def w_def)
    moreover have "thr w = thr u" "lsr w = lsr u" "polls w = polls u" by (simp_all add: w_def)
    ultimately show ?thesis using uartstart_ok [of w] ww by simp
  qed
  then show ?thesis using assms uart_full_iff [of u] uartstart_ok [of u] by (auto simp: uartputc_def)
qed

definition uart0 :: uart where
  "uart0 = \<lparr>uart_tx_buf = replicate 32 0, uart_tx_w = - 1, uart_tx_r = - 1, panicked = False, thr = [], conf = [],
     lsr = (\<lambda>k. if even k then 0 else 32), polls = 0, rhr = (\<lambda>_. 0), reads = 0\<rparr>"

theorem uart_in_order_witness: "\<exists>v. uartputc uart0 65 = Go v \<and> thr v @ waiting v = [65]"
proof -
  have "uart_inv uart0" "\<not> panicked uart0" "waiting uart0 = []" "thr uart0 = []"
    by (simp_all add: uart_inv_def uart0_def waiting_def UART_TX_BUF_SIZE_def)
  then show ?thesis using uart_in_order [of uart0 65] by (auto simp: UART_TX_BUF_SIZE_def)
qed

section \<open>The device in use\<close>

definition idle_often :: "uart \<Rightarrow> bool" where
  "idle_often u \<longleftrightarrow> \<not> panicked u \<and> (\<forall>p. \<exists>j\<ge>p. lsr u j AND LSR_TX_IDLE \<noteq> 0)"

text \<open>\<open>echoed u bs v\<close>: the device has sent \<open>bs\<close> and is otherwise as before, up to the number of polls.\<close>

definition echoed :: "uart \<Rightarrow> byte list \<Rightarrow> uart \<Rightarrow> bool" where
  "echoed u bs v \<longleftrightarrow> (\<exists>p. v = u\<lparr>polls := p, thr := thr u @ bs\<rparr>)"

lemma echoed_refl: "echoed u [] u"
  unfolding echoed_def by (intro exI [of _ "polls u"]) simp

lemma echoed_trans: "echoed u bs v \<Longrightarrow> echoed v cs w \<Longrightarrow> echoed u (bs @ cs) w"
  by (auto simp: echoed_def)

lemma echoed_idle: "echoed u bs v \<Longrightarrow> idle_often v = idle_often u"
  by (auto simp: echoed_def idle_often_def)

lemma spin_ok:
  assumes "lsr u j AND LSR_TX_IDLE \<noteq> 0" and "polls u \<le> j"
  shows "\<exists>p. uart_spin u = Some (u\<lparr>polls := p\<rparr>)"
  using assms
proof (induction "j - polls u" arbitrary: u)
  case 0
  then have "polls u = j" by simp
  then show ?case using 0 by (subst uart_spin.simps) (auto simp: poll_lsr_def)
next
  case (Suc d)
  let ?u = "u\<lparr>polls := polls u + 1\<rparr>"
  show ?case
  proof (cases "lsr u (polls u) AND LSR_TX_IDLE = 0")
    case True
    have "d = j - polls ?u" "polls ?u \<le> j" using Suc.hyps(2) by auto
    then obtain p where "uart_spin ?u = Some (?u\<lparr>polls := p\<rparr>)" using Suc.hyps(1) [of ?u] Suc.prems(1) by auto
    then show ?thesis using True by (subst uart_spin.simps) (auto simp: poll_lsr_def)
  next
    case False
    then show ?thesis by (subst uart_spin.simps) (auto simp: poll_lsr_def)
  qed
qed

lemma putc_sync_ok:
  assumes "idle_often u"
  obtains v where "uartputc_sync u c = Some v" "echoed u [c] v"
proof -
  obtain j where "polls u \<le> j" "lsr u j AND LSR_TX_IDLE \<noteq> 0" using assms by (auto simp: idle_often_def)
  then obtain p where p: "uart_spin u = Some (u\<lparr>polls := p\<rparr>)" using spin_ok by blast
  have "uartputc_sync u c = Some (put_thr (u\<lparr>polls := p\<rparr>) c)"
    using p assms by (simp add: uartputc_sync_def idle_often_def)
  then show ?thesis using that by (auto simp: echoed_def put_thr_def)
qed

lemma consputc_back_ok:
  assumes "idle_often u"
  obtains v where "consputc_back u = Some v" "echoed u [8, 0x20, 8] v"
proof -
  obtain a where a: "uartputc_sync u 8 = Some a" "echoed u [8] a" by (rule putc_sync_ok [OF assms])
  obtain b where b: "uartputc_sync a 0x20 = Some b" "echoed a [0x20] b"
    by (rule putc_sync_ok [of a]) (use a(2) assms echoed_idle in auto)
  obtain c where c: "uartputc_sync b 8 = Some c" "echoed b [8] c"
    by (rule putc_sync_ok [of b]) (use a(2) b(2) assms echoed_idle in auto)
  have "consputc_back u = Some c" using a(1) b(1) c(1) by (simp add: consputc_back_def)
  moreover have "echoed u [8, 0x20, 8] c" using echoed_trans [OF a(2) echoed_trans [OF b(2) c(2)]] by simp
  ultimately show ?thesis using that by blast
qed

lemma consputs_ok:
  assumes "idle_often u"
  obtains v where "consputs u bs = Some v" "echoed u bs v"
  using assms
proof (induction bs arbitrary: u thesis)
  case Nil
  then show ?case using echoed_refl by simp
next
  case (Cons b bs)
  obtain a where a: "uartputc_sync u b = Some a" "echoed u [b] a" by (rule putc_sync_ok [OF Cons.prems(2)])
  obtain v where v: "consputs a bs = Some v" "echoed a bs v"
    using Cons.IH [of a] Cons.prems(2) echoed_idle [OF a(2)] by blast
  show ?case using Cons.prems(1) [of v] a v echoed_trans [OF a(2) v(2)] by (simp add: consputc_def)
qed

section \<open>The line editor\<close>

interpretation co: ring INPUT_BUF_SIZE "TYPE(32)"
  by unfold_locales (simp_all add: INPUT_BUF_SIZE_def)

definition ready :: "cons \<Rightarrow> byte list" where
  "ready co = ring_items INPUT_BUF_SIZE (cbuf co) (cr co) (cw co)"

definition editing :: "cons \<Rightarrow> byte list" where
  "editing co = ring_items INPUT_BUF_SIZE (cbuf co) (cw co) (ce co)"

definition cons_inv :: "cons \<Rightarrow> bool" where
  "cons_inv co \<longleftrightarrow> length (cbuf co) = INPUT_BUF_SIZE \<and> unat (ce co - cr co) \<le> INPUT_BUF_SIZE \<and>
     unat (cw co - cr co) + unat (ce co - cw co) = unat (ce co - cr co) \<and> 10 \<notin> set (editing co)"

text \<open>The specification: completed input and the line being typed, what a key does to them and what it echoes.\<close>

definition erase :: "byte list" where
  "erase = [8, 0x20, 8]"

definition key_spec :: "byte \<Rightarrow> byte list \<times> byte list \<Rightarrow> byte list \<times> byte list" where
  "key_spec c = (\<lambda>(rd, ed).
     if c = 0x10 then (rd, ed)
     else if c = 0x15 then (rd, [])
     else if c = 8 \<or> c = 0x7f then (rd, butlast ed)
     else if c = 0 \<or> length rd + length ed \<ge> INPUT_BUF_SIZE then (rd, ed)
     else let c1 = (if c = 0xd then 0xa else c); ed1 = ed @ [c1]
          in if c1 = 0xa \<or> c1 = 4 \<or> length rd + length ed1 = INPUT_BUF_SIZE then (rd @ ed1, []) else (rd, ed1))"

definition echo_spec :: "byte list \<Rightarrow> byte \<Rightarrow> byte list \<times> byte list \<Rightarrow> byte list" where
  "echo_spec dump c = (\<lambda>(rd, ed).
     if c = 0x10 then dump
     else if c = 0x15 then concat (replicate (length ed) erase)
     else if c = 8 \<or> c = 0x7f then if ed = [] then [] else erase
     else if c = 0 \<or> length rd + length ed \<ge> INPUT_BUF_SIZE then []
     else [if c = 0xd then 0xa else c])"

lemma editing_empty: "editing co = [] \<longleftrightarrow> ce co = cw co"
proof -
  have "editing co = [] \<longleftrightarrow> unat (ce co - cw co) = 0" by (simp add: editing_def ring_items_def)
  then show ?thesis by (auto simp: unsigned_eq_0_iff)
qed

lemma cons_all: "cons_inv co \<Longrightarrow> ring_items INPUT_BUF_SIZE (cbuf co) (cr co) (ce co) = ready co @ editing co"
  unfolding ready_def editing_def by (rule ring_split) (simp add: cons_inv_def)

lemma cons_length: "cons_inv co \<Longrightarrow> unat (ce co - cr co) = length (ready co) + length (editing co)"
  by (simp add: cons_inv_def ready_def editing_def)

lemma erase_one:
  assumes inv: "cons_inv co" and ne: "ce co \<noteq> cw co"
  defines "co1 \<equiv> co\<lparr>ce := ce co - 1\<rparr>"
  shows "editing co = editing co1 @ [cbuf co ! (unat (ce co - 1) mod INPUT_BUF_SIZE)]" and "ready co1 = ready co"
    and "cons_inv co1"
proof -
  show e: "editing co = editing co1 @ [cbuf co ! (unat (ce co - 1) mod INPUT_BUF_SIZE)]"
    using co.unpush [OF ne] by (simp add: editing_def co1_def)
  show r: "ready co1 = ready co" by (simp add: ready_def co1_def)
  have d: "unat (ce co - cw co) = unat (ce co - 1 - cw co) + 1" by (rule unat_diff_minus1 [OF ne])
  then have "unat (ce co - cr co) \<noteq> 0" using inv by (simp add: cons_inv_def)
  then have "ce co \<noteq> cr co" by auto
  then have "unat (ce co - cr co) = unat (ce co - 1 - cr co) + 1" by (rule unat_diff_minus1)
  moreover have "set (editing co1) \<subseteq> set (editing co)" unfolding e by auto
  ultimately show "cons_inv co1" using inv d unfolding cons_inv_def by (auto simp: co1_def)
qed

lemma kill_line_ok:
  assumes "cons_inv co" and "idle_often u"
  shows "\<exists>co' u'. kill_line co u = Some (co', u') \<and> cons_inv co' \<and> ready co' = ready co \<and> editing co' = [] \<and>
    echoed u (concat (replicate (length (editing co)) erase)) u'"
  using assms
proof (induction "length (editing co)" arbitrary: co u)
  case 0
  then have "ce co = cw co" using editing_empty by simp
  then show ?case using 0 echoed_refl by (subst kill_line.simps) auto
next
  case (Suc n)
  have ne: "ce co \<noteq> cw co" using Suc.hyps(2) editing_empty [of co] by auto
  note e = erase_one [OF Suc.prems(1) ne]
  obtain v where v: "consputc_back u = Some v" "echoed u erase v"
    unfolding erase_def by (rule consputc_back_ok [OF Suc.prems(2)])
  have "cbuf co ! (unat (ce co - 1) mod INPUT_BUF_SIZE) \<in> set (editing co)" by (subst e(1)) simp
  then have "cbuf co ! (unat (ce co - 1) mod INPUT_BUF_SIZE) \<noteq> 10" using Suc.prems(1) by (auto simp: cons_inv_def)
  then have k: "kill_line co u = kill_line (co\<lparr>ce := ce co - 1\<rparr>) v"
    using ne v(1) by (subst kill_line.simps) simp
  have l: "length (editing co) = Suc (length (editing (co\<lparr>ce := ce co - 1\<rparr>)))" by (subst e(1)) simp
  have iv: "idle_often v" using Suc.prems(2) echoed_idle [OF v(2)] by simp
  obtain co' u' where r: "kill_line (co\<lparr>ce := ce co - 1\<rparr>) v = Some (co', u')" "cons_inv co'" "ready co' = ready co"
    "editing co' = []" "echoed v (concat (replicate (length (editing (co\<lparr>ce := ce co - 1\<rparr>))) erase)) u'"
    using Suc.hyps(1) [OF _ e(3) iv] l Suc.hyps(2) e(2) by auto
  then show ?case using k echoed_trans [OF v(2) r(5)] unfolding l by auto
qed

lemma type_one:
  fixes c :: byte
  assumes inv: "cons_inv co" and lt: "unat (ce co - cr co) < INPUT_BUF_SIZE"
  defines "co1 \<equiv> co\<lparr>cbuf := (cbuf co)[unat (ce co) mod INPUT_BUF_SIZE := c], ce := ce co + 1\<rparr>"
  shows "ready co1 = ready co" and "editing co1 = editing co @ [c]"
    and "unat (ce co1 - cr co1) = unat (ce co - cr co) + 1"
    and "unat (cw co1 - cr co1) + unat (ce co1 - cw co1) = unat (ce co1 - cr co1)"
proof -
  have small: "INPUT_BUF_SIZE < 2 ^ 32 - 1" by (simp add: INPUT_BUF_SIZE_def)
  have d: "unat (ce co + 1 - cr co) = unat (ce co - cr co) + 1"
    using lt small by (intro unat_diff_plus1) simp
  have d': "unat (ce co + 1 - cw co) = unat (ce co - cw co) + 1"
    using lt small inv by (intro unat_diff_plus1) (simp add: cons_inv_def)
  show "unat (ce co1 - cr co1) = unat (ce co - cr co) + 1" using d by (simp add: co1_def)
  show s: "unat (cw co1 - cr co1) + unat (ce co1 - cw co1) = unat (ce co1 - cr co1)"
    using d d' inv by (simp add: co1_def cons_inv_def)
  have "ready co1 @ editing co1 = ring_items INPUT_BUF_SIZE (cbuf co1) (cr co1) (ce co1)"
    unfolding ready_def editing_def by (rule ring_split [OF s, symmetric])
  also have "\<dots> = ring_items INPUT_BUF_SIZE (cbuf co) (cr co) (ce co) @ [c]"
    using co.push [OF lt, of "cbuf co" c] inv by (simp add: co1_def cons_inv_def)
  finally have e: "ready co1 @ editing co1 = ready co @ (editing co @ [c])" by (simp add: cons_all [OF inv])
  have "length (ready co1) = length (ready co)" by (simp add: ready_def co1_def)
  then show "ready co1 = ready co" "editing co1 = editing co @ [c]" using e by auto
qed



end
