(* ===== verification/Bio.thy ===== *)
theory Bio
  imports ListC
begin

text \<open>
  \<^verbatim>\<open>kernel/bio.c\<close>: the buffer cache.  Buffers are numbered, their \<^verbatim>\<open>next\<close> and \<^verbatim>\<open>prev\<close> fields are cells of \<open>ListC\<close> with
  \<^verbatim>\<open>bcache.head\<close> as number \<open>NBUF\<close>.  The sleep lock of a buffer is the process that holds it; a call that must
  wait for it has the outcome \<open>None\<close>.  \<^verbatim>\<open>virtio_disk_rw\<close> is one atomic transfer of a block, and \<open>trace\<close> records
  the transfers to the disk in order.  Reference counts are natural numbers; taking one below zero is a
  fault.
\<close>

section \<open>State and operations\<close>

type_synonym block = "byte list"
type_synonym blkno = "uint32 \<times> uint32"

definition BSIZE :: nat where
  "BSIZE = 1024"

definition NBUF :: nat where
  "NBUF = 30"

record buf =
  valid :: bool
  key :: blkno
  holder :: "nat option"
  refcnt :: nat
  data :: block

record bcache =
  bufs :: "nat \<Rightarrow> buf"
  links :: list_heap
  disk :: "blkno \<Rightarrow> block"
  trace :: "(blkno \<times> block) list"

definition upd :: "bcache \<Rightarrow> nat \<Rightarrow> (buf \<Rightarrow> buf) \<Rightarrow> bcache" where
  "upd st b f = st\<lparr>bufs := (bufs st)(b := f (bufs st b))\<rparr>"

text \<open>The four assignments that put a buffer behind the head, and the two that take it out of the list.\<close>

definition link_front :: "list_heap \<Rightarrow> nat \<Rightarrow> list_heap" where
  "link_front h b =
     (let h1 = h\<lparr>next := (next h)(b := next h NBUF)\<rparr>;
          h2 = h1\<lparr>prev := (prev h1)(b := NBUF)\<rparr>;
          h3 = h2\<lparr>prev := (prev h2)(next h2 NBUF := b)\<rparr>
      in h3\<lparr>next := (next h3)(NBUF := b)\<rparr>)"

definition unlink :: "list_heap \<Rightarrow> nat \<Rightarrow> list_heap" where
  "unlink h b =
     (let h1 = h\<lparr>prev := (prev h)(next h b := prev h b)\<rparr>
      in h1\<lparr>next := (next h1)(prev h1 b := next h1 b)\<rparr>)"

fun binit_loop :: "list_heap \<Rightarrow> nat \<Rightarrow> list_heap" where
  "binit_loop h 0 = h"
| "binit_loop h (Suc b) = link_front (binit_loop h b) b"

definition binit :: "bcache \<Rightarrow> bcache" where
  "binit st = st\<lparr>links := binit_loop (lst_init (links st) NBUF) NBUF\<rparr>"

text \<open>The two searches of \<^verbatim>\<open>bget\<close>, forward for the block and backward for an unused buffer.\<close>

partial_function (option) find_block :: "bcache \<Rightarrow> blkno \<Rightarrow> nat \<Rightarrow> nat option option" where
  "find_block st k b =
     (if b = NBUF then Some None
      else if key (bufs st b) = k then Some (Some b)
      else find_block st k (next (links st) b))"

partial_function (option) find_unused :: "bcache \<Rightarrow> nat \<Rightarrow> nat option option" where
  "find_unused st b =
     (if b = NBUF then Some None
      else if refcnt (bufs st b) = 0 then Some (Some b)
      else find_unused st (prev (links st) b))"

declare find_block.simps [code] find_unused.simps [code]

definition acquire_buf :: "bcache \<Rightarrow> nat \<Rightarrow> nat \<Rightarrow> bcache outcome" where
  "acquire_buf st pid b =
     (if holder (bufs st b) = None then ret (upd st b (\<lambda>x. x\<lparr>holder := Some pid\<rparr>)) else None)"

definition bget :: "bcache \<Rightarrow> nat \<Rightarrow> blkno \<Rightarrow> (nat \<times> bcache) outcome" where
  "bget st pid k =
     (case find_block st k (next (links st) NBUF) of
        None \<Rightarrow> None
      | Some (Some b) \<Rightarrow>
          rbind (acquire_buf (upd st b (\<lambda>x. x\<lparr>refcnt := refcnt x + 1\<rparr>)) pid b) (\<lambda>st1. ret (b, st1))
      | Some None \<Rightarrow>
          (case find_unused st (prev (links st) NBUF) of
             None \<Rightarrow> None
           | Some (Some b) \<Rightarrow>
               rbind (acquire_buf (upd st b (\<lambda>x. x\<lparr>key := k, valid := False, refcnt := 1\<rparr>)) pid b) (\<lambda>st1. ret (b, st1))
           | Some None \<Rightarrow> halt ''bget: no buffers''))"

definition virtio_disk_rw :: "bcache \<Rightarrow> nat \<Rightarrow> bool \<Rightarrow> bcache" where
  "virtio_disk_rw st b write =
     (let x = bufs st b
      in if write then st\<lparr>disk := (disk st)(key x := data x), trace := trace st @ [(key x, data x)]\<rparr>
         else upd st b (\<lambda>x. x\<lparr>data := disk st (key x)\<rparr>))"

definition bread :: "bcache \<Rightarrow> nat \<Rightarrow> blkno \<Rightarrow> (nat \<times> bcache) outcome" where
  "bread st pid k =
     rbind (bget st pid k) (\<lambda>(b, st1).
       if \<not> valid (bufs st1 b) then ret (b, upd (virtio_disk_rw st1 b False) b (\<lambda>x. x\<lparr>valid := True\<rparr>))
       else ret (b, st1))"

definition bwrite :: "bcache \<Rightarrow> nat \<Rightarrow> nat \<Rightarrow> bcache outcome" where
  "bwrite st pid b =
     (if holder (bufs st b) \<noteq> Some pid then halt ''bwrite'' else ret (virtio_disk_rw st b True))"

definition brelse :: "bcache \<Rightarrow> nat \<Rightarrow> nat \<Rightarrow> bcache outcome" where
  "brelse st pid b =
     (if holder (bufs st b) \<noteq> Some pid then halt ''brelse''
      else if refcnt (bufs st b) = 0 then Some (undef ''brelse: refcnt'')
      else let st1 = upd st b (\<lambda>x. x\<lparr>holder := None, refcnt := refcnt x - 1\<rparr>)
           in ret (if refcnt (bufs st1 b) = 0 then st1\<lparr>links := link_front (unlink (links st1) b) b\<rparr> else st1))"

definition bpin :: "bcache \<Rightarrow> nat \<Rightarrow> bcache" where
  "bpin st b = upd st b (\<lambda>x. x\<lparr>refcnt := refcnt x + 1\<rparr>)"

definition bunpin :: "bcache \<Rightarrow> nat \<Rightarrow> bcache outcome" where
  "bunpin st b =
     (if refcnt (bufs st b) = 0 then Some (undef ''bunpin: refcnt'')
      else ret (upd st b (\<lambda>x. x\<lparr>refcnt := refcnt x - 1\<rparr>)))"

text \<open>Changing the contents of a buffer, as the holder of its lock does.\<close>

definition set_data :: "bcache \<Rightarrow> nat \<Rightarrow> block \<Rightarrow> bcache" where
  "set_data st b d = upd st b (\<lambda>x. x\<lparr>data := d\<rparr>)"

section \<open>The list of buffers\<close>

declare split_paired_All [simp del] split_paired_Ex [simp del]

lemma link_front_push: "link_front h b = lst_push h NBUF b"
  by (simp add: link_front_def lst_push_def Let_def)

lemma unlink_remove:
  assumes "dlist h NBUF xs" and "b \<in> set xs"
  shows "unlink h b = lst_remove h b"
proof -
  obtain us vs where xs: "xs = us @ b # vs" using assms(2) by (meson split_list)
  have d: "distinct (NBUF # us @ b # vs)" "seg h NBUF us b" "seg h b vs NBUF"
    using assms(1) xs by (auto simp: dlist_def seg_append)
  have "prev h b \<noteq> b" "next h b \<noteq> b"
    using seg_prev_last [OF d(2)] seg_next_first [OF d(3)] d(1) by (auto split: if_splits simp: hd_append)
  then show ?thesis by (simp add: unlink_def lst_remove_def Let_def)
qed

lemma binit_list: "b \<le> NBUF \<Longrightarrow> dlist (binit_loop (lst_init h NBUF) b) NBUF (rev [0..<b])"
proof (induction b)
  case 0
  then show ?case by (simp add: dlist_init)
next
  case (Suc b)
  then have "dlist (binit_loop (lst_init h NBUF) b) NBUF (rev [0..<b])" by simp
  then have "dlist (lst_push (binit_loop (lst_init h NBUF) b) NBUF b) NBUF (b # rev [0..<b])"
    using Suc.prems by (intro dlist_push) auto
  then show ?case by (simp add: link_front_push)
qed

lemma find_block_seg:
  "seg (links st) a xs NBUF \<Longrightarrow> NBUF \<notin> set xs \<Longrightarrow>
   find_block st k (next (links st) a) = Some (find (\<lambda>b. key (bufs st b) = k) xs)"
proof (induction xs arbitrary: a)
  case Nil
  then show ?case by (subst find_block.simps) simp
next
  case (Cons x xs)
  then show ?case by (subst find_block.simps) auto
qed

lemma find_unused_seg:
  "seg (links st) NBUF xs c \<Longrightarrow> NBUF \<notin> set xs \<Longrightarrow>
   find_unused st (prev (links st) c) = Some (find (\<lambda>b. refcnt (bufs st b) = 0) (rev xs))"
proof (induction xs arbitrary: c rule: rev_induct)
  case Nil
  then show ?case by (subst find_unused.simps) simp
next
  case (snoc x xs)
  then show ?case by (subst find_unused.simps) (auto simp: seg_append)
qed

section \<open>The invariant and the view of the clients\<close>

text \<open>
  Device 0 is the state of a buffer that was never used.  For every other device a block has at most one
  buffer, and a buffer that nobody references has the contents of the disk.
\<close>

definition real :: "blkno \<Rightarrow> bool" where
  "real k \<longleftrightarrow> fst k \<noteq> 0"

definition buf_ok :: "(blkno \<Rightarrow> block) \<Rightarrow> buf \<Rightarrow> bool" where
  "buf_ok d x \<longleftrightarrow> (holder x \<noteq> None \<longrightarrow> 0 < refcnt x) \<and> (0 < refcnt x \<longrightarrow> real (key x)) \<and>
     (real (key x) \<and> valid x \<and> refcnt x = 0 \<longrightarrow> data x = d (key x))"

definition bc_inv :: "bcache \<Rightarrow> bool" where
  "bc_inv st \<longleftrightarrow> (\<exists>xs. dlist (links st) NBUF xs \<and> set xs = {..<NBUF}) \<and>
     (\<forall>a<NBUF. \<forall>b<NBUF. real (key (bufs st a)) \<and> key (bufs st a) = key (bufs st b) \<longrightarrow> a = b) \<and>
     (\<forall>b<NBUF. buf_ok (disk st) (bufs st b))"

definition slot :: "bcache \<Rightarrow> blkno \<Rightarrow> nat option" where
  "slot st k = find (\<lambda>b. key (bufs st b) = k) [0..<NBUF]"

record cview =
  ct :: "blkno \<Rightarrow> block"
  pn :: "blkno \<Rightarrow> nat"
  lkd :: "blkno \<Rightarrow> nat option"
  dk :: "blkno \<Rightarrow> block"

definition content :: "(blkno \<Rightarrow> block) \<Rightarrow> buf \<Rightarrow> block" where
  "content d x = (if valid x then data x else d (key x))"

text \<open>The contents of each block as a reader sees it, the references and the lock on it, and the disk.\<close>

definition look :: "bcache \<Rightarrow> blkno \<Rightarrow> block \<times> nat \<times> nat option" where
  "look st k = (case slot st k of
     Some b \<Rightarrow> (content (disk st) (bufs st b), refcnt (bufs st b), holder (bufs st b))
   | None \<Rightarrow> (disk st k, 0, None))"

definition view_of :: "bcache \<Rightarrow> cview" where
  "view_of st =
     \<lparr>ct = (\<lambda>k. if real k then fst (look st k) else []), pn = (\<lambda>k. if real k then fst (snd (look st k)) else 0),
      lkd = (\<lambda>k. if real k then snd (snd (look st k)) else None), dk = disk st\<rparr>"

lemma find_unique:
  assumes "\<forall>a\<in>set xs. \<forall>b\<in>set xs. P a \<and> P b \<longrightarrow> a = b"
  shows "find P xs = Some b \<longleftrightarrow> b \<in> set xs \<and> P b"
  using assms by (induction xs) (auto split: if_splits)

lemma slot_iff:
  assumes "bc_inv st" and "real k"
  shows "slot st k = Some b \<longleftrightarrow> b < NBUF \<and> key (bufs st b) = k"
  unfolding slot_def using assms by (subst find_unique) (auto simp: bc_inv_def)

lemma slot_None: "bc_inv st \<Longrightarrow> real k \<Longrightarrow> slot st k = None \<longleftrightarrow> (\<forall>b<NBUF. key (bufs st b) \<noteq> k)"
  by (auto simp: slot_def find_None_iff)

lemma bc_invD:
  assumes "bc_inv st"
  shows "\<exists>xs. dlist (links st) NBUF xs \<and> set xs = {..<NBUF}"
    and "a < NBUF \<Longrightarrow> b < NBUF \<Longrightarrow> real (key (bufs st a)) \<Longrightarrow> key (bufs st a) = key (bufs st b) \<Longrightarrow> a = b"
    and "b < NBUF \<Longrightarrow> buf_ok (disk st) (bufs st b)"
  using assms unfolding bc_inv_def by blast+

text \<open>The searches find the buffer of a block, or else one that is not referenced.\<close>

lemma find_block_slot:
  assumes "bc_inv st" and "real k"
  shows "find_block st k (next (links st) NBUF) = Some (slot st k)"
proof -
  obtain xs where xs: "dlist (links st) NBUF xs" "set xs = {..<NBUF}" using bc_invD(1) [OF assms(1)] by blast
  then have "find_block st k (next (links st) NBUF) = Some (find (\<lambda>b. key (bufs st b) = k) xs)"
    by (intro find_block_seg) (auto simp: dlist_def)
  moreover have "find (\<lambda>b. key (bufs st b) = k) xs = slot st k"
  proof (cases "slot st k")
    case None
    then show ?thesis using slot_None [OF assms] xs(2) by (auto simp: find_None_iff)
  next
    case (Some b)
    then have "b < NBUF" "key (bufs st b) = k" using slot_iff [OF assms] by auto
    moreover have "\<forall>a\<in>set xs. \<forall>b\<in>set xs. key (bufs st a) = k \<and> key (bufs st b) = k \<longrightarrow> a = b"
      using bc_invD(2) [OF assms(1)] assms(2) xs(2) by auto
    ultimately show ?thesis using Some find_unique [of xs] xs(2) by auto
  qed
  ultimately show ?thesis by simp
qed

lemma find_unused_ok:
  assumes "bc_inv st"
  shows "(\<exists>b<NBUF. refcnt (bufs st b) = 0) \<Longrightarrow>
      \<exists>b<NBUF. find_unused st (prev (links st) NBUF) = Some (Some b) \<and> refcnt (bufs st b) = 0"
    and "\<not> (\<exists>b<NBUF. refcnt (bufs st b) = 0) \<Longrightarrow> find_unused st (prev (links st) NBUF) = Some None"
proof -
  obtain xs where xs: "dlist (links st) NBUF xs" "set xs = {..<NBUF}" using bc_invD(1) [OF assms] by blast
  then have f: "find_unused st (prev (links st) NBUF) = Some (find (\<lambda>b. refcnt (bufs st b) = 0) (rev xs))"
    by (intro find_unused_seg) (auto simp: dlist_def)
  show "\<exists>b<NBUF. find_unused st (prev (links st) NBUF) = Some (Some b) \<and> refcnt (bufs st b) = 0"
    if ex: "\<exists>b<NBUF. refcnt (bufs st b) = 0"
  proof -
    have "find (\<lambda>b. refcnt (bufs st b) = 0) (rev xs) \<noteq> None" using ex xs(2) by (auto simp: find_None_iff)
    then obtain b where b: "find (\<lambda>b. refcnt (bufs st b) = 0) (rev xs) = Some b" by blast
    then have "b \<in> set xs \<and> refcnt (bufs st b) = 0" unfolding find_Some_iff by (metis nth_mem set_rev)
    then have "b < NBUF" "refcnt (bufs st b) = 0" using xs(2) by auto
    then show ?thesis using f b by (intro exI [of _ b]) simp
  qed
  show "find_unused st (prev (links st) NBUF) = Some None" if "\<not> (\<exists>b<NBUF. refcnt (bufs st b) = 0)"
    using that f xs(2) by (auto simp: find_None_iff)
qed

section \<open>The operations on the view\<close>

text \<open>A change of one buffer that keeps its block, and one that gives an unreferenced buffer to a new block.\<close>

lemma upd_simps [simp]:
  "bufs (upd st b f) = (bufs st)(b := f (bufs st b))" "links (upd st b f) = links st"
  "disk (upd st b f) = disk st" "trace (upd st b f) = trace st"
  by (simp_all add: upd_def)

definition set_view :: "cview \<Rightarrow> (blkno \<Rightarrow> block) \<Rightarrow> blkno \<Rightarrow> buf \<Rightarrow> cview" where
  "set_view v d k x = v\<lparr>ct := (ct v)(k := content d x), pn := (pn v)(k := refcnt x), lkd := (lkd v)(k := holder x)\<rparr>"

lemma view_set:
  assumes "real k" and "disk st' = disk st" and "look st' k = (content (disk st) x, refcnt x, holder x)"
    and "\<forall>j. real j \<and> j \<noteq> k \<longrightarrow> look st' j = look st j"
  shows "view_of st' = set_view (view_of st) (disk st) k x"
  using assms by (auto simp: view_of_def set_view_def intro!: ext)

lemma slot_keep: "key (f (bufs st b)) = key (bufs st b) \<Longrightarrow> slot (upd st b f) = slot st"
  unfolding slot_def by (intro ext find_cong) simp_all

lemma bc_inv_upd:
  assumes inv: "bc_inv st" and ok: "buf_ok (disk st) (f (bufs st b))"
    and new: "\<forall>a<NBUF. a \<noteq> b \<and> real (key (f (bufs st b))) \<longrightarrow> key (bufs st a) \<noteq> key (f (bufs st b))"
  shows "bc_inv (upd st b f)"
  unfolding bc_inv_def
proof (intro conjI)
  show "\<exists>xs. dlist (links (upd st b f)) NBUF xs \<and> set xs = {..<NBUF}" using bc_invD(1) [OF inv] by simp
  show "\<forall>a<NBUF. buf_ok (disk (upd st b f)) (bufs (upd st b f) a)" using bc_invD(3) [OF inv] ok by simp
  have "a = c" if "a < NBUF" "c < NBUF" "real (key (bufs (upd st b f) a))"
      "key (bufs (upd st b f) a) = key (bufs (upd st b f) c)" for a c
    using that new bc_invD(2) [OF inv, of a c] by (cases "a = b"; cases "c = b") auto
  then show "\<forall>a<NBUF. \<forall>c<NBUF. real (key (bufs (upd st b f) a)) \<and>
      key (bufs (upd st b f) a) = key (bufs (upd st b f) c) \<longrightarrow> a = c" by blast
qed

lemma upd_keep:
  assumes "bc_inv st" and "b < NBUF" and "key (f (bufs st b)) = key (bufs st b)" and "buf_ok (disk st) (f (bufs st b))"
  shows "bc_inv (upd st b f)"
    and "real (key (bufs st b)) \<Longrightarrow>
      view_of (upd st b f) = set_view (view_of st) (disk st) (key (bufs st b)) (f (bufs st b))"
proof -
  show "bc_inv (upd st b f)"
    using bc_invD(2) [OF assms(1)] assms(2-4) by (intro bc_inv_upd [OF assms(1)]) auto
  show "view_of (upd st b f) = set_view (view_of st) (disk st) (key (bufs st b)) (f (bufs st b))"
    if r: "real (key (bufs st b))"
  proof -
    have s: "slot st k = Some b \<longleftrightarrow> key (bufs st b) = k" if "real k" for k
      using slot_iff [OF assms(1) that] assms(2) by auto
    have k: "slot st (key (bufs st b)) = Some b" using s [OF r] by simp
    moreover have u: "slot (upd st b f) = slot st" using assms(3) by (rule slot_keep)
    ultimately show ?thesis
      using s by (intro view_set [OF r]) (auto simp: look_def split: option.splits)
  qed
qed

lemma upd_take:
  assumes inv: "bc_inv st" and b: "b < NBUF" and z: "refcnt (bufs st b) = 0" and no: "slot st k = None" and k: "real k"
    and f: "key (f (bufs st b)) = k" and ok: "buf_ok (disk st) (f (bufs st b))"
  shows "bc_inv (upd st b f)" and "view_of (upd st b f) = set_view (view_of st) (disk st) k (f (bufs st b))"
proof -
  have none: "\<forall>a<NBUF. key (bufs st a) \<noteq> k" using slot_None [OF inv k] no by simp
  show inv1: "bc_inv (upd st b f)"
    using f ok none by (intro bc_inv_upd [OF inv]) auto
  have other: "slot (upd st b f) j = (if slot st j = Some b then None else slot st j)" if "real j" "j \<noteq> k" for j
  proof (cases "slot st j")
    case None
    then show ?thesis using slot_None [OF inv that(1)] slot_None [OF inv1 that(1)] that(2) f by auto
  next
    case (Some a)
    then have a: "a < NBUF" "key (bufs st a) = j" using slot_iff [OF inv that(1)] by auto
    show ?thesis
    proof (cases "a = b")
      case True
      then have "\<forall>c<NBUF. key (bufs (upd st b f) c) \<noteq> j"
        using a b that f bc_invD(2) [OF inv] by (metis fun_upd_apply upd_simps(1))
      then show ?thesis using slot_None [OF inv1 that(1)] Some True by simp
    next
      case False
      then show ?thesis using slot_iff [OF inv1 that(1)] a Some by simp
    qed
  qed
  have here: "slot (upd st b f) k = Some b" using slot_iff [OF inv1 k] b f by simp
  have old: "content (disk st) (bufs st b) = disk st j \<and> holder (bufs st b) = None" if "real j" "slot st j = Some b" for j
    using slot_iff [OF inv that(1), of b] that bc_invD(3) [OF inv b] z by (simp add: buf_ok_def content_def)
  show "view_of (upd st b f) = set_view (view_of st) (disk st) k (f (bufs st b))"
    using other here old z
    by (intro view_set [OF k]) (auto simp: look_def split: option.splits)
qed

text \<open>A buffer handle: the buffer holds the block and its contents have been read.\<close>

definition buf_at :: "bcache \<Rightarrow> nat \<Rightarrow> blkno \<Rightarrow> bool" where
  "buf_at st b k \<longleftrightarrow> b < NBUF \<and> real k \<and> key (bufs st b) = k \<and> valid (bufs st b)"

definition keeps :: "bcache \<Rightarrow> bcache \<Rightarrow> bool" where
  "keeps st st' \<longleftrightarrow> (\<forall>b k. buf_at st b k \<and> 0 < pn (view_of st) k \<longrightarrow> buf_at st' b k)"

lemma keepsD: "keeps st st' \<Longrightarrow> buf_at st b k \<Longrightarrow> 0 < pn (view_of st) k \<Longrightarrow> buf_at st' b k"
  by (auto simp: keeps_def)

lemma view_at:
  assumes "bc_inv st" and "b < NBUF" and "real k" and "key (bufs st b) = k"
  shows "ct (view_of st) k = content (disk st) (bufs st b)" "pn (view_of st) k = refcnt (bufs st b)"
    "lkd (view_of st) k = holder (bufs st b)" "dk (view_of st) = disk st"
  using slot_iff [OF assms(1,3), of b] assms by (simp_all add: view_of_def look_def)

lemma buf_at_view:
  assumes "bc_inv st" and "buf_at st b k"
  shows "data (bufs st b) = ct (view_of st) k" "refcnt (bufs st b) = pn (view_of st) k"
    "holder (bufs st b) = lkd (view_of st) k" "key (bufs st b) = k"
  using assms view_at [OF assms(1), of b k] by (auto simp: buf_at_def content_def)

lemma dk_disk: "dk (view_of st) = disk st"
  by (simp add: view_of_def)

lemma unused_buffer:
  assumes "bc_inv st" and "card {k. 0 < pn (view_of st) k} < NBUF"
  shows "\<exists>b<NBUF. refcnt (bufs st b) = 0"
proof (rule ccontr)
  assume none: "\<not> ?thesis"
  let ?f = "\<lambda>b. key (bufs st b)"
  have r: "real (?f b)" if "b < NBUF" for b
    using none that bc_invD(3) [OF assms(1) that] by (auto simp: buf_ok_def)
  have "inj_on ?f {..<NBUF}" using bc_invD(2) [OF assms(1)] r by (auto simp: inj_on_def)
  then have c: "card (?f ` {..<NBUF}) = NBUF" by (simp add: card_image)
  have "{k. 0 < pn (view_of st) k} = ?f ` {..<NBUF}"
  proof (rule set_eqI)
    show "k \<in> {k. 0 < pn (view_of st) k} \<longleftrightarrow> k \<in> ?f ` {..<NBUF}" for k
    proof
      assume "k \<in> {k. 0 < pn (view_of st) k}"
      then have "real k" "slot st k \<noteq> None" by (auto simp: view_of_def look_def split: if_splits option.splits)
      then show "k \<in> ?f ` {..<NBUF}" using slot_iff [OF assms(1)] by auto
    next
      assume "k \<in> ?f ` {..<NBUF}"
      then obtain b where "b < NBUF" "k = ?f b" by auto
      then show "k \<in> {k. 0 < pn (view_of st) k}" using view_at(2) [OF assms(1)] r none by auto
    qed
  qed
  then show False using c assms(2) by simp
qed

text \<open>Each operation as a change of the view.\<close>

definition pin :: "blkno \<Rightarrow> cview \<Rightarrow> cview" where
  "pin k v = v\<lparr>pn := (pn v)(k := pn v k + 1)\<rparr>"

definition unpin :: "blkno \<Rightarrow> cview \<Rightarrow> cview" where
  "unpin k v = v\<lparr>pn := (pn v)(k := pn v k - 1)\<rparr>"

definition lock :: "nat option \<Rightarrow> blkno \<Rightarrow> cview \<Rightarrow> cview" where
  "lock p k v = v\<lparr>lkd := (lkd v)(k := p)\<rparr>"

definition put :: "blkno \<Rightarrow> block \<Rightarrow> cview \<Rightarrow> cview" where
  "put k d v = v\<lparr>ct := (ct v)(k := d)\<rparr>"

definition flush :: "blkno \<Rightarrow> cview \<Rightarrow> cview" where
  "flush k v = v\<lparr>dk := (dk v)(k := ct v k)\<rparr>"

lemmas view_defs = pin_def unpin_def lock_def put_def flush_def

lemma upd_at:
  assumes "bc_inv st" and "b < NBUF" and "real k" and "key (bufs st b) = k" and "key (f (bufs st b)) = k"
    and "valid (bufs st b) \<longrightarrow> valid (f (bufs st b))" and "buf_ok (disk st) (f (bufs st b))"
  shows "bc_inv (upd st b f)" "keeps st (upd st b f)" "view_of (upd st b f) = set_view (view_of st) (disk st) k (f (bufs st b))"
  using upd_keep [OF assms(1,2), of f] assms by (auto simp: keeps_def buf_at_def)

lemma buf_at_ok: "bc_inv st \<Longrightarrow> buf_at st b k \<Longrightarrow> buf_ok (disk st) (bufs st b)"
  by (simp add: bc_invD(3) buf_at_def)

lemma locked_pinned: "bc_inv st \<Longrightarrow> buf_at st b k \<Longrightarrow> lkd (view_of st) k \<noteq> None \<Longrightarrow> 0 < pn (view_of st) k"
  using buf_at_ok [of st b k] buf_at_view [of st b k] by (simp add: buf_ok_def)

lemma set_data_ok:
  assumes "bc_inv st" and "buf_at st b k" and "lkd (view_of st) k \<noteq> None"
  shows "bc_inv (set_data st b d)" "keeps st (set_data st b d)" "view_of (set_data st b d) = put k d (view_of st)"
    "trace (set_data st b d) = trace st"
proof -
  have "buf_ok (disk st) (bufs st b\<lparr>data := d\<rparr>)"
    using buf_at_ok [OF assms(1,2)] locked_pinned [OF assms] buf_at_view(2) [OF assms(1,2)] by (simp add: buf_ok_def)
  then have u: "bc_inv (set_data st b d)" "keeps st (set_data st b d)"
      "view_of (set_data st b d) = set_view (view_of st) (disk st) k (bufs st b\<lparr>data := d\<rparr>)"
    using upd_at [OF assms(1), of b k "\<lambda>x. x\<lparr>data := d\<rparr>"] assms(2) by (auto simp: set_data_def buf_at_def)
  then show "bc_inv (set_data st b d)" "keeps st (set_data st b d)" by blast+
  show "view_of (set_data st b d) = put k d (view_of st)"
    using u(3) buf_at_view [OF assms(1,2)] assms(2)
    by (simp add: set_view_def put_def content_def buf_at_def)
  show "trace (set_data st b d) = trace st" by (simp add: set_data_def)
qed

lemma bpin_ok:
  assumes "bc_inv st" and "buf_at st b k"
  shows "bc_inv (bpin st b)" "keeps st (bpin st b)" "view_of (bpin st b) = pin k (view_of st)"
    "trace (bpin st b) = trace st"
proof -
  have "buf_ok (disk st) (bufs st b\<lparr>refcnt := refcnt (bufs st b) + 1\<rparr>)"
    using buf_at_ok [OF assms(1,2)] assms(2) by (simp add: buf_ok_def buf_at_def)
  then have u: "bc_inv (bpin st b)" "keeps st (bpin st b)"
      "view_of (bpin st b) = set_view (view_of st) (disk st) k (bufs st b\<lparr>refcnt := refcnt (bufs st b) + 1\<rparr>)"
    using upd_at [OF assms(1), of b k "\<lambda>x. x\<lparr>refcnt := refcnt x + 1\<rparr>"] assms(2) by (auto simp: bpin_def buf_at_def)
  then show "bc_inv (bpin st b)" "keeps st (bpin st b)" by blast+
  show "view_of (bpin st b) = pin k (view_of st)"
    using u(3) buf_at_view [OF assms(1,2)] assms(2)
    by (simp add: set_view_def pin_def content_def buf_at_def)
  show "trace (bpin st b) = trace st" by (simp add: bpin_def)
qed

text \<open>Giving up a reference is safe when others remain or the contents are on the disk.\<close>

lemma drop_ref:
  assumes "bc_inv st" and "buf_at st b k" and "0 < pn (view_of st) k"
    and "pn (view_of st) k = 1 \<longrightarrow> ct (view_of st) k = dk (view_of st) k \<and> h = None"
  defines "st1 \<equiv> upd st b (\<lambda>x. x\<lparr>holder := h, refcnt := refcnt x - 1\<rparr>)"
  shows "bc_inv st1" "keeps st st1" "view_of st1 = unpin k (lock h k (view_of st))" "trace st1 = trace st"
proof -
  have "buf_ok (disk st) (bufs st b\<lparr>holder := h, refcnt := refcnt (bufs st b) - 1\<rparr>)"
    using buf_at_ok [OF assms(1,2)] assms(2-4) buf_at_view [OF assms(1,2)]
    by (auto simp: buf_ok_def buf_at_def dk_disk)
  then have u: "bc_inv st1" "keeps st st1"
      "view_of st1 = set_view (view_of st) (disk st) k (bufs st b\<lparr>holder := h, refcnt := refcnt (bufs st b) - 1\<rparr>)"
    using upd_at [OF assms(1), of b k "\<lambda>x. x\<lparr>holder := h, refcnt := refcnt x - 1\<rparr>"] assms(2)
    by (auto simp: st1_def buf_at_def)
  then show "bc_inv st1" "keeps st st1" by blast+
  show "view_of st1 = unpin k (lock h k (view_of st))"
    using u(3) buf_at_view [OF assms(1,2)] assms(2)
    by (simp add: set_view_def unpin_def lock_def content_def buf_at_def)
  show "trace st1 = trace st" by (simp add: st1_def)
qed

lemma lock_same: "lock (lkd v k) k v = v"
  by (simp add: lock_def)

lemma bunpin_ok:
  assumes "bc_inv st" and "buf_at st b k" and "0 < pn (view_of st) k"
    and "pn (view_of st) k = 1 \<longrightarrow> ct (view_of st) k = dk (view_of st) k \<and> lkd (view_of st) k = None"
  shows "\<exists>st1. bunpin st b = ret st1 \<and> bc_inv st1 \<and> keeps st st1 \<and> view_of st1 = unpin k (view_of st) \<and> trace st1 = trace st"
proof -
  let ?st1 = "upd st b (\<lambda>x. x\<lparr>holder := lkd (view_of st) k, refcnt := refcnt x - 1\<rparr>)"
  have "bufs st b\<lparr>holder := lkd (view_of st) k\<rparr> = bufs st b" using buf_at_view(3) [OF assms(1,2), symmetric] by simp
  then have "bunpin st b = ret ?st1"
    using assms(3) buf_at_view(2) [OF assms(1,2)] by (simp add: bunpin_def upd_def)
  then show ?thesis using drop_ref [OF assms] by (auto simp: lock_same)
qed

lemma view_links [simp]: "view_of (st\<lparr>links := h\<rparr>) = view_of st"
proof -
  have "look (st\<lparr>links := h\<rparr>) = look st" by (intro ext) (simp add: look_def slot_def split: option.split)
  then show ?thesis by (simp add: view_of_def cong: if_cong)
qed

lemma keeps_links [simp]: "keeps st (st1\<lparr>links := h\<rparr>) = keeps st st1"
  by (simp add: keeps_def buf_at_def)

lemma to_front:
  assumes inv: "bc_inv st" and b: "b < NBUF"
  shows "bc_inv (st\<lparr>links := link_front (unlink (links st) b) b\<rparr>)"
proof -
  obtain xs where xs: "dlist (links st) NBUF xs" "set xs = {..<NBUF}" using bc_invD(1) [OF inv] by blast
  have "dlist (lst_remove (links st) b) NBUF (remove1 b xs)" using xs b dlist_remove by simp
  then have "dlist (lst_push (lst_remove (links st) b) NBUF b) NBUF (b # remove1 b xs)"
    using b xs(1) by (intro dlist_push) (auto simp: dlist_def)
  then have "dlist (link_front (unlink (links st) b) b) NBUF (b # remove1 b xs)"
    using unlink_remove [OF xs(1)] xs(2) b by (simp add: link_front_push)
  moreover have "set (b # remove1 b xs) = {..<NBUF}"
    using xs b by (auto simp: dlist_def set_remove1_eq)
  ultimately show ?thesis using inv unfolding bc_inv_def by (intro conjI) auto
qed

lemma brelse_ok:
  assumes "bc_inv st" and "buf_at st b k" and "lkd (view_of st) k = Some pid"
    and "pn (view_of st) k = 1 \<longrightarrow> ct (view_of st) k = dk (view_of st) k"
  shows "\<exists>st1. brelse st pid b = ret st1 \<and> bc_inv st1 \<and> keeps st st1 \<and>
      view_of st1 = unpin k (lock None k (view_of st)) \<and> trace st1 = trace st"
proof -
  have p: "0 < pn (view_of st) k" using locked_pinned assms(1-3) by simp
  let ?st1 = "upd st b (\<lambda>x. x\<lparr>holder := None, refcnt := refcnt x - 1\<rparr>)"
  have d: "bc_inv ?st1" "keeps st ?st1" "view_of ?st1 = unpin k (lock None k (view_of st))" "trace ?st1 = trace st"
    using drop_ref [OF assms(1,2) p, of None] assms(4) by auto
  have "bc_inv (?st1\<lparr>links := link_front (unlink (links ?st1) b) b\<rparr>)"
    using to_front [OF d(1)] assms(2) by (simp add: buf_at_def)
  then show ?thesis
    using d p assms(3) buf_at_view [OF assms(1,2)] by (simp add: brelse_def Let_def)
qed

lemma bwrite_ok:
  assumes inv: "bc_inv st" and at: "buf_at st b k" and l: "lkd (view_of st) k = Some pid"
  shows "\<exists>st1. bwrite st pid b = ret st1 \<and> bc_inv st1 \<and> keeps st st1 \<and>
      view_of st1 = flush k (view_of st) \<and> trace st1 = trace st @ [(k, ct (view_of st) k)]"
proof -
  note v = buf_at_view [OF inv at]
  let ?st1 = "st\<lparr>disk := (disk st)(k := ct (view_of st) k), trace := trace st @ [(k, ct (view_of st) k)]\<rparr>"
  have b: "b < NBUF" "real k" "valid (bufs st b)" using at by (auto simp: buf_at_def)
  have w: "bwrite st pid b = ret ?st1" using v l by (simp add: bwrite_def virtio_disk_rw_def Let_def)
  have ok: "buf_ok (disk ?st1) (bufs st a)" if "a < NBUF" for a
    using bc_invD(3) [OF inv that] bc_invD(2) [OF inv that b(1)] v b by (auto simp: buf_ok_def)
  have inv1: "bc_inv ?st1" unfolding bc_inv_def
  proof (intro conjI allI impI)
    show "a = c" if "a < NBUF" "c < NBUF" "real (key (bufs ?st1 a)) \<and> key (bufs ?st1 a) = key (bufs ?st1 c)" for a c
      using bc_invD(2) [OF inv, of a c] that by auto
  qed (use bc_invD(1) [OF inv] ok in simp_all)
  have slots: "slot ?st1 = slot st" by (intro ext) (simp add: slot_def)
  have s: "slot st j = Some b \<longleftrightarrow> j = k" if "real j" for j
    using slot_iff [OF inv that, of b] b v by auto
  have "look ?st1 j = look st j" if "real j" for j
  proof (cases "slot st j")
    case None
    then show ?thesis using s [OF that] s [OF b(2)] slots by (auto simp: look_def)
  next
    case (Some a)
    then show ?thesis
      using s [OF that] slots slot_iff [OF inv that, of a] b v by (auto simp: look_def content_def)
  qed
  then have "view_of ?st1 = flush k (view_of st)"
    by (auto simp: view_of_def flush_def intro!: ext)
  then show ?thesis using w inv1 by (auto simp: keeps_def buf_at_def)
qed

lemma valid_same: "valid x \<Longrightarrow> x\<lparr>valid := True\<rparr> = (x :: buf)"
  by (cases x) simp

lemma bread_ok:
  assumes inv: "bc_inv st" and k: "real k" and free: "lkd (view_of st) k = None"
    and room: "0 < pn (view_of st) k \<or> card {j. 0 < pn (view_of st) j} < NBUF"
  shows "\<exists>b st1. bread st pid k = ret (b, st1) \<and> bc_inv st1 \<and> keeps st st1 \<and> buf_at st1 b k \<and>
      view_of st1 = pin k (lock (Some pid) k (view_of st)) \<and> trace st1 = trace st"
proof (cases "slot st k")
  case (Some b)
  then have b: "b < NBUF" "key (bufs st b) = k" using slot_iff [OF inv k] by auto
  note v = view_at [OF inv b(1) k b(2)]
  let ?x = "bufs st b\<lparr>refcnt := refcnt (bufs st b) + 1, holder := Some pid, data := ct (view_of st) k, valid := True\<rparr>"
  let ?st1 = "upd st b (\<lambda>_. ?x)"
  have "buf_ok (disk st) ?x" using k b by (simp add: buf_ok_def)
  then have u: "bc_inv ?st1" "keeps st ?st1" "view_of ?st1 = set_view (view_of st) (disk st) k ?x"
    using upd_at [OF inv b(1) k b(2), of "\<lambda>_. ?x"] b by auto
  have "bread st pid k = ret (b, ?st1)"
    using find_block_slot [OF inv k] Some free v b
    by (auto simp: bread_def bget_def acquire_buf_def virtio_disk_rw_def content_def upd_def valid_same)
  moreover have "view_of ?st1 = pin k (lock (Some pid) k (view_of st))"
    using u(3) v(2) by (simp add: set_view_def pin_def lock_def content_def)
  ultimately show ?thesis using u(1,2) b k by (auto simp: buf_at_def)
next
  case None
  then have z: "pn (view_of st) k = 0" "ct (view_of st) k = disk st k" using k by (auto simp: view_of_def look_def)
  then obtain b where b: "b < NBUF" "find_unused st (prev (links st) NBUF) = Some (Some b)" "refcnt (bufs st b) = 0"
    using find_unused_ok(1) [OF inv] unused_buffer [OF inv] room by auto
  have h: "holder (bufs st b) = None" using bc_invD(3) [OF inv b(1)] b(3) by (auto simp: buf_ok_def)
  let ?x = "bufs st b\<lparr>key := k, refcnt := 1, holder := Some pid, data := disk st k, valid := True\<rparr>"
  let ?st1 = "upd st b (\<lambda>_. ?x)"
  have u: "bc_inv ?st1" "view_of ?st1 = set_view (view_of st) (disk st) k ?x"
    using upd_take [OF inv b(1,3) None k, of "\<lambda>_. ?x"] k by (auto simp: buf_ok_def)
  have "keeps st ?st1"
    using view_at(2) [OF inv b(1), of "key (bufs st b)"] b by (auto simp: keeps_def buf_at_def)
  moreover have "bread st pid k = ret (b, ?st1)"
    using find_block_slot [OF inv k] None b h
    by (auto simp: bread_def bget_def acquire_buf_def virtio_disk_rw_def upd_def)
  moreover have "view_of ?st1 = pin k (lock (Some pid) k (view_of st))"
    using u(2) z(1) by (simp add: set_view_def pin_def lock_def content_def z(2) [symmetric])
  ultimately show ?thesis using u(1) b k by (auto simp: buf_at_def)
qed

end
