(* ===== verification/Log.thy ===== *)
theory Log
  imports Bio
begin

text \<open>
  \<^verbatim>\<open>kernel/log.c\<close>: the redo log that makes the writes of a file system call atomic.  The in-memory state \<open>log\<close> is
  passed beside the buffer cache.  \<^verbatim>\<open>log.lock\<close> is held over \<open>begin_op\<close>, \<open>log_write\<close> and the two parts of \<open>end_op\<close>, so
  each is one step; a call of \<open>begin_op\<close> that has to sleep has the outcome \<open>None\<close>.  The block numbers and the count
  of the header are C ints: the count is an \<open>int\<close>, a block number is used as an unsigned one.  The main theorem
  is that a crash between any two disk writes of a commit leaves either all of the old or all of the new blocks
  after recovery.
\<close>

section \<open>State and operations\<close>

definition MAXOPBLOCKS :: int where
  "MAXOPBLOCKS = 10"

definition LOGSIZE :: nat where
  "LOGSIZE = 30"

record superblock =
  magic :: uint32
  sb_size :: uint32
  nblocks :: uint32
  ninodes :: uint32
  nlog :: uint32
  logstart :: uint32
  inodestart :: uint32
  bmapstart :: uint32

record log =
  log_start :: uint32
  log_size :: int
  outstanding :: int
  committing :: bool
  log_dev :: uint32
  lh_n :: int
  lh_block :: "uint32 list"

definition header_key :: "log \<Rightarrow> blkno" where
  "header_key l = (log_dev l, log_start l)"

definition log_key :: "log \<Rightarrow> nat \<Rightarrow> blkno" where
  "log_key l tail = (log_dev l, log_start l + of_nat tail + 1)"

definition lh_at :: "log \<Rightarrow> nat \<Rightarrow> uint32 outcome" where
  "lh_at l i = (if i < length (lh_block l) then ret (lh_block l ! i) else Some (undef ''log.lh.block''))"

text \<open>The last argument of a loop is the number of rounds left.\<close>

fun install_loop :: "log \<Rightarrow> nat \<Rightarrow> bool \<Rightarrow> bcache \<Rightarrow> nat \<Rightarrow> nat \<Rightarrow> bcache outcome" where
  "install_loop l pid recovering st tail 0 = ret st"
| "install_loop l pid recovering st tail (Suc m) =
     rbind (bread st pid (log_key l tail)) (\<lambda>(lbuf, s1).
     rbind (lh_at l tail) (\<lambda>no.
     rbind (bread s1 pid (log_dev l, no)) (\<lambda>(dbuf, s2).
     rbind (bwrite (set_data s2 dbuf (data (bufs s2 lbuf))) pid dbuf) (\<lambda>s3.
     rbind (if \<not> recovering then bunpin s3 dbuf else ret s3) (\<lambda>s4.
     rbind (brelse s4 pid lbuf) (\<lambda>s5.
     rbind (brelse s5 pid dbuf) (\<lambda>s6.
       install_loop l pid recovering s6 (Suc tail) m)))))))"

definition install_trans :: "log \<Rightarrow> nat \<Rightarrow> bool \<Rightarrow> bcache \<Rightarrow> bcache outcome" where
  "install_trans l pid recovering st = install_loop l pid recovering st 0 (nat (lh_n l))"

fun get_blocks :: "block \<Rightarrow> uint32 list \<Rightarrow> nat \<Rightarrow> nat \<Rightarrow> uint32 list outcome" where
  "get_blocks d bs i 0 = ret bs"
| "get_blocks d bs i (Suc m) =
     (if i < length bs then get_blocks d (bs[i := rd32 d (4 + 4 * i)]) (Suc i) m else Some (undef ''log.lh.block''))"

definition read_head :: "log \<Rightarrow> nat \<Rightarrow> bcache \<Rightarrow> (log \<times> bcache) outcome" where
  "read_head l pid st =
     rbind (bread st pid (header_key l)) (\<lambda>(b, s1).
     let d = data (bufs s1 b); n = sint (rd32 d 0) in
     rbind (get_blocks d (lh_block l) 0 (nat n)) (\<lambda>bs.
     rbind (brelse s1 pid b) (\<lambda>s2.
       ret (l\<lparr>lh_n := n, lh_block := bs\<rparr>, s2))))"

fun put_blocks :: "uint32 list \<Rightarrow> block \<Rightarrow> nat \<Rightarrow> nat \<Rightarrow> block outcome" where
  "put_blocks bs d i 0 = ret d"
| "put_blocks bs d i (Suc m) =
     (if i < length bs then put_blocks bs (overwrite d (4 + 4 * i) (le32 (bs ! i))) (Suc i) m
      else Some (undef ''log.lh.block''))"

definition write_head :: "log \<Rightarrow> nat \<Rightarrow> bcache \<Rightarrow> bcache outcome" where
  "write_head l pid st =
     rbind (bread st pid (header_key l)) (\<lambda>(b, s1).
     rbind (put_blocks (lh_block l) (overwrite (data (bufs s1 b)) 0 (le32 (of_int (lh_n l)))) 0 (nat (lh_n l))) (\<lambda>d.
     rbind (bwrite (set_data s1 b d) pid b) (\<lambda>s2.
       brelse s2 pid b)))"

definition recover_from_log :: "log \<Rightarrow> nat \<Rightarrow> bcache \<Rightarrow> (log \<times> bcache) outcome" where
  "recover_from_log l pid st =
     rbind (read_head l pid st) (\<lambda>(l1, s1).
     rbind (install_trans l1 pid True s1) (\<lambda>s2.
     rbind (write_head (l1\<lparr>lh_n := 0\<rparr>) pid s2) (\<lambda>s3.
       ret (l1\<lparr>lh_n := 0\<rparr>, s3))))"

definition initlog :: "log \<Rightarrow> nat \<Rightarrow> bcache \<Rightarrow> uint32 \<Rightarrow> superblock \<Rightarrow> (log \<times> bcache) outcome" where
  "initlog l pid st dev sb =
     (if 4 + 4 * LOGSIZE \<ge> BSIZE then halt ''initlog: too big logheader''
      else recover_from_log (l\<lparr>log_start := logstart sb, log_size := sint (nlog sb), log_dev := dev\<rparr>) pid st)"

definition begin_op :: "log \<Rightarrow> log outcome" where
  "begin_op l =
     (if committing l then None
      else if lh_n l + (outstanding l + 1) * MAXOPBLOCKS > int LOGSIZE then None
      else ret (l\<lparr>outstanding := outstanding l + 1\<rparr>))"

fun write_log_loop :: "log \<Rightarrow> nat \<Rightarrow> bcache \<Rightarrow> nat \<Rightarrow> nat \<Rightarrow> bcache outcome" where
  "write_log_loop l pid st tail 0 = ret st"
| "write_log_loop l pid st tail (Suc m) =
     rbind (bread st pid (log_key l tail)) (\<lambda>(to, s1).
     rbind (lh_at l tail) (\<lambda>no.
     rbind (bread s1 pid (log_dev l, no)) (\<lambda>(frm, s2).
     rbind (bwrite (set_data s2 to (data (bufs s2 frm))) pid to) (\<lambda>s3.
     rbind (brelse s3 pid frm) (\<lambda>s4.
     rbind (brelse s4 pid to) (\<lambda>s5.
       write_log_loop l pid s5 (Suc tail) m))))))"

definition write_log :: "log \<Rightarrow> nat \<Rightarrow> bcache \<Rightarrow> bcache outcome" where
  "write_log l pid st = write_log_loop l pid st 0 (nat (lh_n l))"

definition commit :: "log \<Rightarrow> nat \<Rightarrow> bcache \<Rightarrow> (log \<times> bcache) outcome" where
  "commit l pid st =
     (if lh_n l > 0 then
        rbind (write_log l pid st) (\<lambda>s1.
        rbind (write_head l pid s1) (\<lambda>s2.
        rbind (install_trans l pid False s2) (\<lambda>s3.
        rbind (write_head (l\<lparr>lh_n := 0\<rparr>) pid s3) (\<lambda>s4.
          ret (l\<lparr>lh_n := 0\<rparr>, s4)))))
      else ret (l, st))"

definition end_op :: "log \<Rightarrow> nat \<Rightarrow> bcache \<Rightarrow> (log \<times> bcache) outcome" where
  "end_op l pid st =
     (let l1 = l\<lparr>outstanding := outstanding l - 1\<rparr>
      in if committing l1 then halt ''log.committing''
         else if outstanding l1 = 0 then
           rbind (commit (l1\<lparr>committing := True\<rparr>) pid st) (\<lambda>(l2, s2).
             ret (l2\<lparr>committing := False\<rparr>, s2))
         else ret (l1, st))"

fun log_pos :: "uint32 list \<Rightarrow> uint32 \<Rightarrow> nat \<Rightarrow> nat \<Rightarrow> nat" where
  "log_pos bs no i 0 = i"
| "log_pos bs no i (Suc m) = (if bs ! i = no then i else log_pos bs no (Suc i) m)"

definition log_write :: "log \<Rightarrow> bcache \<Rightarrow> nat \<Rightarrow> (log \<times> bcache) outcome" where
  "log_write l st b =
     (if lh_n l \<ge> int LOGSIZE \<or> lh_n l \<ge> log_size l - 1 then halt ''too big a transaction''
      else if outstanding l < 1 then halt ''log_write outside of trans''
      else let no = snd (key (bufs st b));
               i = log_pos (lh_block l) no 0 (nat (lh_n l));
               l1 = l\<lparr>lh_block := (lh_block l)[i := no]\<rparr>
           in if int i = lh_n l then ret (l1\<lparr>lh_n := lh_n l + 1\<rparr>, bpin st b) else ret (l1, st))"

section \<open>Blocks read and written through the cache\<close>

text \<open>A disk after a sequence of block writes.\<close>

definition after :: "(blkno \<times> block) list \<Rightarrow> (blkno \<Rightarrow> block) \<Rightarrow> blkno \<Rightarrow> block" where
  "after ws d = foldl (\<lambda>d (k, b). d(k := b)) d ws"

lemma after_simps [simp]:
  "after [] d = d" "after (w # ws) d = after ws (d(fst w := snd w))" "after (ws @ vs) d = after vs (after ws d)"
  by (simp_all add: after_def split_beta)

lemma after_other: "k \<notin> fst ` set ws \<Longrightarrow> after ws d k = d k"
  by (induction ws arbitrary: d) auto

definition pinned :: "cview \<Rightarrow> blkno set" where
  "pinned v = {k. 0 < pn v k}"

lemma pinned_finite:
  assumes "bc_inv st"
  shows "finite (pinned (view_of st))"
proof (rule finite_subset)
  show "pinned (view_of st) \<subseteq> (\<lambda>b. key (bufs st b)) ` {..<NBUF}"
    using slot_iff [OF assms] by (force simp: pinned_def view_of_def look_def split: if_splits option.splits)
qed simp

lemma pinned_view_simps [simp]:
  "pinned (pin k v) = insert k (pinned v)" "pinned (lock p k v) = pinned v" "pinned (put k d v) = pinned v"
  "pinned (flush k v) = pinned v"
  by (auto simp: pinned_def view_defs)

lemma clean_unpinned:
  assumes "bc_inv st" and "real k" and "pn (view_of st) k = 0"
  shows "ct (view_of st) k = dk (view_of st) k"
proof (cases "slot st k")
  case None
  then show ?thesis using assms(2) by (simp add: view_of_def look_def)
next
  case (Some b)
  then have b: "b < NBUF" "key (bufs st b) = k" using slot_iff [OF assms(1,2)] by auto
  then show ?thesis
    using view_at [OF assms(1) b(1) assms(2) b(2)] bc_invD(3) [OF assms(1) b(1)] assms(2,3)
    by (simp add: content_def buf_ok_def)
qed

text \<open>The laws of the cache with its view and its trace as one assertion.\<close>

definition cache :: "bcache \<Rightarrow> cview \<Rightarrow> (blkno \<times> block) list \<Rightarrow> bool" where
  "cache st v T \<longleftrightarrow> bc_inv st \<and> view_of st = v \<and> trace st = T"

lemma c_bread:
  assumes "cache st v T" and "real k" and "lkd v k = None" and "0 < pn v k \<or> card (pinned v) < NBUF"
  shows "\<exists>b s1. bread st pid k = ret (b, s1) \<and> cache s1 (pin k (lock (Some pid) k v)) T \<and> buf_at s1 b k \<and>
      data (bufs s1 b) = ct v k \<and> keeps st s1"
proof -
  obtain b s1 where "bread st pid k = ret (b, s1)" "bc_inv s1" "keeps st s1" "buf_at s1 b k"
      "view_of s1 = pin k (lock (Some pid) k v)" "trace s1 = T"
    using bread_ok [of st k pid] assms by (auto simp: cache_def pinned_def)
  then show ?thesis using buf_at_view(1) [of s1 b k] by (auto simp: cache_def view_defs)
qed

lemma c_set_data:
  assumes "cache st v T" and "buf_at st b k" and "lkd v k \<noteq> None"
  shows "cache (set_data st b d) (put k d v) T" "keeps st (set_data st b d)"
  using set_data_ok [of st b k d] assms by (auto simp: cache_def)

lemma c_bwrite:
  assumes "cache st v T" and "buf_at st b k" and "lkd v k = Some pid"
  shows "\<exists>s1. bwrite st pid b = ret s1 \<and> cache s1 (flush k v) (T @ [(k, ct v k)]) \<and> keeps st s1"
  using bwrite_ok [of st b k pid] assms by (auto simp: cache_def)

lemma c_bunpin:
  assumes "cache st v T" and "buf_at st b k" and "1 < pn v k"
  shows "\<exists>s1. bunpin st b = ret s1 \<and> cache s1 (unpin k v) T \<and> keeps st s1"
  using bunpin_ok [of st b k] assms by (auto simp: cache_def)

lemma c_brelse:
  assumes "cache st v T" and "buf_at st b k" and "lkd v k = Some pid" and "pn v k = 1 \<longrightarrow> ct v k = dk v k"
  shows "\<exists>s1. brelse st pid b = ret s1 \<and> cache s1 (unpin k (lock None k v)) T \<and> keeps st s1"
  using brelse_ok [of st b k pid] assms by (auto simp: cache_def)

lemma c_clean: "cache st v T \<Longrightarrow> real k \<Longrightarrow> pn v k = 0 \<Longrightarrow> ct v k = dk v k"
  using clean_unpinned [of st k] by (auto simp: cache_def)

lemma c_keeps: "keeps st s1 \<Longrightarrow> cache st v T \<Longrightarrow> buf_at st b k \<Longrightarrow> 0 < pn v k \<Longrightarrow> buf_at s1 b k"
  by (auto simp: cache_def keeps_def)

lemma c_data: "cache st v T \<Longrightarrow> buf_at st b k \<Longrightarrow> data (bufs st b) = ct v k"
  using buf_at_view(1) [of st b k] by (auto simp: cache_def)

lemma c_card: "cache st v T \<Longrightarrow> card (insert k (pinned v)) \<le> Suc (card (pinned v))"
  using pinned_finite [of st] by (auto simp: cache_def card_insert_if)

text \<open>One round of \<open>install_trans\<close> and one of \<open>write_log\<close>: a block is copied and written.\<close>

definition copied :: "blkno \<Rightarrow> blkno \<Rightarrow> nat \<Rightarrow> cview \<Rightarrow> cview" where
  "copied src dst p v = v\<lparr>ct := (ct v)(dst := ct v src), dk := (dk v)(dst := ct v src), pn := (pn v)(dst := p)\<rparr>"

lemma install_round:
  assumes c: "cache st v T" and k: "real lk" "real hk" "lk \<noteq> hk" "lkd v lk = None" "lkd v hk = None"
    and room: "card (pinned v) < NBUF" and sec: "0 < pn v hk \<or> recovering \<and> Suc (card (pinned v)) < NBUF"
  shows "\<exists>lbuf s1 dbuf s2 s3 s4 s5 s6. bread st pid lk = ret (lbuf, s1) \<and> bread s1 pid hk = ret (dbuf, s2) \<and>
      bwrite (set_data s2 dbuf (data (bufs s2 lbuf))) pid dbuf = ret s3 \<and>
      (if \<not> recovering then bunpin s3 dbuf else ret s3) = ret s4 \<and> brelse s4 pid lbuf = ret s5 \<and>
      brelse s5 pid dbuf = ret s6 \<and>
      cache s6 (copied lk hk (pn v hk - (if recovering then 0 else 1)) v) (T @ [(hk, ct v lk)])"
proof -
  obtain lbuf s1 where 1: "bread st pid lk = ret (lbuf, s1)" "cache s1 (pin lk (lock (Some pid) lk v)) T" "buf_at s1 lbuf lk"
    using c_bread [OF c k(1,4)] room by blast
  let ?v1 = "pin lk (lock (Some pid) lk v)"
  have v1: "lkd ?v1 hk = None" "pn ?v1 hk = pn v hk" using k by (auto simp: view_defs)
  have "0 < pn ?v1 hk \<or> card (pinned ?v1) < NBUF" unfolding v1(2) using sec c_card [OF c, of lk] by auto
  then obtain dbuf s2 where 2: "bread s1 pid hk = ret (dbuf, s2)" "keeps s1 s2" "buf_at s2 dbuf hk"
      "cache s2 (pin hk (lock (Some pid) hk (pin lk (lock (Some pid) lk v)))) T"
    using c_bread [OF 1(2) k(2) v1(1), of pid] by blast
  have l2: "buf_at s2 lbuf lk" using c_keeps [OF 2(2) 1(2,3)] by (simp add: view_defs)
  have d: "data (bufs s2 lbuf) = ct v lk" using c_data [OF 2(4) l2] by (simp add: view_defs)
  let ?v2 = "put hk (ct v lk) (pin hk (lock (Some pid) hk (pin lk (lock (Some pid) lk v))))"
  let ?s = "set_data s2 dbuf (ct v lk)"
  have s: "cache ?s ?v2 T" "keeps s2 ?s" using c_set_data [OF 2(4,3)] by (auto simp: view_defs)
  have b: "buf_at ?s lbuf lk" "buf_at ?s dbuf hk"
    using c_keeps [OF s(2) 2(4)] l2 2(3) k(3) by (auto simp: view_defs)
  obtain s3 where 3: "bwrite ?s pid dbuf = ret s3" "cache s3 (flush hk ?v2) (T @ [(hk, ct v lk)])" "keeps ?s s3"
    using c_bwrite [OF s(1) b(2), of pid] by (auto simp: view_defs)
  have b3: "buf_at s3 lbuf lk" "buf_at s3 dbuf hk" using c_keeps [OF 3(3) s(1)] b k(3) by (auto simp: view_defs)
  let ?v4 = "(flush hk ?v2)\<lparr>pn := (pn ?v2)(hk := pn v hk + (if recovering then 1 else 0))\<rparr>"
  have v4: "?v4 = (if recovering then flush hk ?v2 else unpin hk (flush hk ?v2))" using k(3) by (auto simp: view_defs)
  obtain s4 where 4: "(if \<not> recovering then bunpin s3 dbuf else ret s3) = ret s4" "cache s4 ?v4 (T @ [(hk, ct v lk)])" "buf_at s4 lbuf lk" "buf_at s4 dbuf hk"
  proof (cases recovering)
    case True
    then show ?thesis using that 3(2) b3 unfolding v4 by simp
  next
    case False
    then obtain s4 where "bunpin s3 dbuf = ret s4" "cache s4 (unpin hk (flush hk ?v2)) (T @ [(hk, ct v lk)])" "keeps s3 s4"
      using c_bunpin [OF 3(2) b3(2)] sec k(3) by (auto simp: view_defs)
    then show ?thesis using that [unfolded v4] False c_keeps [OF _ 3(2)] b3 k(3) by (auto simp: view_defs)
  qed
  obtain s5 where 5: "brelse s4 pid lbuf = ret s5" "cache s5 (unpin lk (lock None lk ?v4)) (T @ [(hk, ct v lk)])" "keeps s4 s5"
    using c_brelse [OF 4(2,3), of pid] k c_clean [OF c k(1)] by (auto simp: view_defs)
  have b5: "buf_at s5 dbuf hk" using c_keeps [OF 5(3) 4(2,4)] k(3) sec by (auto simp: view_defs)
  obtain s6 where 6: "brelse s5 pid dbuf = ret s6"
      "cache s6 (unpin hk (lock None hk (unpin lk (lock None lk ?v4)))) (T @ [(hk, ct v lk)])"
    using c_brelse [OF 5(2) b5, of pid] k by (auto simp: view_defs)
  have "unpin hk (lock None hk (unpin lk (lock None lk ?v4))) = copied lk hk (pn v hk - (if recovering then 0 else 1)) v"
    using k sec by (cases v) (auto simp: view_defs copied_def fun_eq_iff)
  then show ?thesis using 1(1) 2(1) 3(1) 4(1) 5(1) 6 d by (intro exI conjI) auto
qed

lemma write_log_round:
  assumes c: "cache st v T" and k: "real lk" "real hk" "lk \<noteq> hk" "lkd v lk = None" "lkd v hk = None"
    and room: "card (pinned v) < NBUF" and p: "0 < pn v hk"
  shows "\<exists>to s1 frm s2 s3 s4 s5. bread st pid lk = ret (to, s1) \<and> bread s1 pid hk = ret (frm, s2) \<and>
      bwrite (set_data s2 to (data (bufs s2 frm))) pid to = ret s3 \<and> brelse s3 pid frm = ret s4 \<and>
      brelse s4 pid to = ret s5 \<and> cache s5 (copied hk lk (pn v lk) v) (T @ [(lk, ct v hk)])"
proof -
  let ?v1 = "pin lk (lock (Some pid) lk v)"
  obtain to s1 where 1: "bread st pid lk = ret (to, s1)" "cache s1 ?v1 T" "buf_at s1 to lk"
    using c_bread [OF c k(1,4)] room by blast
  have v1: "lkd ?v1 hk = None" "pn ?v1 hk = pn v hk" "ct ?v1 hk = ct v hk" using k by (auto simp: view_defs)
  obtain frm s2 where 2: "bread s1 pid hk = ret (frm, s2)" "keeps s1 s2" "buf_at s2 frm hk"
      "cache s2 (pin hk (lock (Some pid) hk ?v1)) T" "data (bufs s2 frm) = ct v hk"
    using c_bread [OF 1(2) k(2) v1(1), of pid] p v1 by auto
  have l2: "buf_at s2 to lk" using c_keeps [OF 2(2) 1(2,3)] by (simp add: view_defs)
  let ?v2 = "put lk (ct v hk) (pin hk (lock (Some pid) hk ?v1))"
  let ?s = "set_data s2 to (ct v hk)"
  have s: "cache ?s ?v2 T" "keeps s2 ?s" using c_set_data [OF 2(4) l2] by (auto simp: view_defs)
  have b: "buf_at ?s to lk" "buf_at ?s frm hk"
    using c_keeps [OF s(2) 2(4)] l2 2(3) k(3) by (auto simp: view_defs)
  obtain s3 where 3: "bwrite ?s pid to = ret s3" "cache s3 (flush lk ?v2) (T @ [(lk, ct v hk)])" "keeps ?s s3"
    using c_bwrite [OF s(1) b(1), of pid] k by (auto simp: view_defs)
  have b3: "buf_at s3 to lk" "buf_at s3 frm hk" using c_keeps [OF 3(3) s(1)] b k(3) by (auto simp: view_defs)
  obtain s4 where 4: "brelse s3 pid frm = ret s4" "cache s4 (unpin hk (lock None hk (flush lk ?v2))) (T @ [(lk, ct v hk)])" "keeps s3 s4"
    using c_brelse [OF 3(2) b3(2), of pid] k p by (auto simp: view_defs)
  have b4: "buf_at s4 to lk" using c_keeps [OF 4(3) 3(2) b3(1)] k(3) by (auto simp: view_defs)
  obtain s5 where 5: "brelse s4 pid to = ret s5"
      "cache s5 (unpin lk (lock None lk (unpin hk (lock None hk (flush lk ?v2))))) (T @ [(lk, ct v hk)])"
    using c_brelse [OF 4(2) b4, of pid] k by (auto simp: view_defs)
  have "unpin lk (lock None lk (unpin hk (lock None hk (flush lk ?v2)))) = copied hk lk (pn v lk) v"
    using k by (cases v) (auto simp: view_defs copied_def fun_eq_iff)
  then show ?thesis using 1(1) 2(1,5) 3(1) 4(1) 5 by (intro exI conjI) auto
qed

section \<open>The loops over the log\<close>

definition home :: "log \<Rightarrow> nat \<Rightarrow> blkno" where
  "home l i = (log_dev l, lh_block l ! i)"

definition in_log :: "log \<Rightarrow> blkno \<Rightarrow> bool" where
  "in_log l k \<longleftrightarrow> (\<exists>i<LOGSIZE. k = (log_dev l, log_start l + of_nat i))"

text \<open>The blocks listed from \<open>a\<close> to \<open>b\<close> have numbers in the array and homes outside the log.\<close>

definition listed :: "log \<Rightarrow> nat \<Rightarrow> nat \<Rightarrow> bool" where
  "listed l a b \<longleftrightarrow> log_dev l \<noteq> 0 \<and> length (lh_block l) = LOGSIZE \<and> b < LOGSIZE \<and> (\<forall>i. a \<le> i \<and> i < b \<longrightarrow> \<not> in_log l (home l i))"

lemma log_key_in [simp]: "Suc i < LOGSIZE \<Longrightarrow> in_log l (log_key l i)"
  unfolding in_log_def log_key_def by (intro exI [of _ "Suc i"]) simp

lemma header_in [simp]: "in_log l (header_key l)"
  unfolding in_log_def header_key_def by (intro exI [of _ 0]) (simp add: LOGSIZE_def)

lemma log_key_header: "i < LOGSIZE \<Longrightarrow> log_key l i \<noteq> header_key l"
proof
  assume i: "i < LOGSIZE" and "log_key l i = header_key l"
  then have "of_nat (Suc i) = (0 :: uint32)" by (simp add: log_key_def header_key_def add.assoc add.commute)
  then have "unat (of_nat (Suc i) :: uint32) = 0" by simp
  then show False using i by (simp add: unat_of_nat LOGSIZE_def take_bit_nat_def del: of_nat_Suc)
qed

lemma log_key_inj:
  assumes "i < LOGSIZE" and "j < LOGSIZE" and "log_key l i = log_key l j"
  shows "i = j"
proof -
  have "(of_nat i :: uint32) = of_nat j" using assms(3) by (simp add: log_key_def)
  then have "unat (of_nat i :: uint32) = unat (of_nat j :: uint32)" by simp
  then show ?thesis using assms(1,2) by (simp add: unat_of_nat LOGSIZE_def take_bit_nat_def)
qed

lemma real_keys [simp]: "log_dev l \<noteq> 0 \<Longrightarrow> real (log_key l i)" "log_dev l \<noteq> 0 \<Longrightarrow> real (home l i)" "log_dev l \<noteq> 0 \<Longrightarrow> real (header_key l)"
  by (simp_all add: real_def log_key_def home_def header_key_def)

definition to_home :: "log \<Rightarrow> (blkno \<Rightarrow> block) \<Rightarrow> nat \<Rightarrow> nat \<Rightarrow> (blkno \<times> block) list" where
  "to_home l f a b = map (\<lambda>i. (home l i, f (log_key l i))) [a..<b]"

definition to_log :: "log \<Rightarrow> (blkno \<Rightarrow> block) \<Rightarrow> nat \<Rightarrow> nat \<Rightarrow> (blkno \<times> block) list" where
  "to_log l f a b = map (\<lambda>i. (log_key l i, f (home l i))) [a..<b]"

lemma install_loop_ok:
  assumes "cache st v T" and "listed l tail (tail + m)" and "lkd v = (\<lambda>_. None)" and "card (pinned v) < NBUF"
    and "if recovering then Suc (card (pinned v)) < NBUF
         else (\<forall>i. tail \<le> i \<and> i < tail + m \<longrightarrow> 0 < pn v (home l i)) \<and> inj_on (home l) {tail..<tail + m}"
  shows "yields (install_loop l pid recovering st tail m) (\<lambda>s. cache s
      (v\<lparr>ct := after (to_home l (ct v) tail (tail + m)) (ct v), dk := after (to_home l (ct v) tail (tail + m)) (dk v),
         pn := (\<lambda>k. if \<not> recovering \<and> k \<in> home l ` {tail..<tail + m} then pn v k - 1 else pn v k)\<rparr>)
      (T @ to_home l (ct v) tail (tail + m)))"
  using assms
proof (induction m arbitrary: st v T tail)
  case 0
  then show ?case by (simp add: to_home_def)
next
  case (Suc m)
  have L: "listed l tail (tail + Suc m)" by fact
  have dev: "log_dev l \<noteq> 0" and tl: "tail < length (lh_block l)" "Suc tail < LOGSIZE" "\<not> in_log l (home l tail)"
    using L by (auto simp: listed_def)
  have ne: "log_key l i \<noteq> home l tail" if "Suc i < LOGSIZE" for i using tl(3) that by (metis log_key_in)
  have sec: "0 < pn v (home l tail) \<or> recovering \<and> Suc (card (pinned v)) < NBUF"
    using Suc.prems(5) by (auto split: if_splits)
  let ?v1 = "copied (log_key l tail) (home l tail) (pn v (home l tail) - (if recovering then 0 else 1)) v"
  let ?T1 = "T @ [(home l tail, ct v (log_key l tail))]"
  obtain lbuf s1 dbuf s2 s3 s4 s5 s6 where r: "bread st pid (log_key l tail) = ret (lbuf, s1)"
      "bread s1 pid (home l tail) = ret (dbuf, s2)" "bwrite (set_data s2 dbuf (data (bufs s2 lbuf))) pid dbuf = ret s3"
      "(if \<not> recovering then bunpin s3 dbuf else ret s3) = ret s4" "brelse s4 pid lbuf = ret s5" "brelse s5 pid dbuf = ret s6"
      "cache s6 ?v1 ?T1"
    using install_round [OF Suc.prems(1), of "log_key l tail" "home l tail" recovering pid]
      Suc.prems(3,4) dev ne [OF tl(2)] sec by auto
  have step: "install_loop l pid recovering st tail (Suc m) = install_loop l pid recovering s6 (Suc tail) m"
    using r(1-6) tl(1) by (simp add: lh_at_def home_def del: if_split)
  have sub: "pinned ?v1 \<subseteq> pinned v" using sec by (auto simp: pinned_def copied_def split: if_splits)
  have fin: "finite (pinned v)" using pinned_finite Suc.prems(1) by (auto simp: cache_def)
  have card: "card (pinned ?v1) \<le> card (pinned v)" by (rule card_mono [OF fin sub])
  have keys: "ct ?v1 (log_key l i) = ct v (log_key l i)" if "Suc i < LOGSIZE" for i
    using ne [OF that] by (simp add: copied_def)
  have ws: "to_home l (ct v) tail (tail + Suc m) = (home l tail, ct v (log_key l tail)) # to_home l (ct ?v1) (Suc tail) (Suc tail + m)"
    using L keys by (auto simp: to_home_def upt_conv_Cons listed_def simp del: upt_Suc)
  have inj: "home l i \<noteq> home l tail" if "\<not> recovering" "Suc tail \<le> i" "i < Suc tail + m" for i
    using Suc.prems(5) that inj_onD [of "home l" "{tail..<tail + Suc m}" i tail] by auto
  have "yields (install_loop l pid recovering s6 (Suc tail) m) (\<lambda>s. cache s
      (?v1\<lparr>ct := after (to_home l (ct ?v1) (Suc tail) (Suc tail + m)) (ct ?v1),
         dk := after (to_home l (ct ?v1) (Suc tail) (Suc tail + m)) (dk ?v1),
         pn := (\<lambda>k. if \<not> recovering \<and> k \<in> home l ` {Suc tail..<Suc tail + m} then pn ?v1 k - 1 else pn ?v1 k)\<rparr>)
      (?T1 @ to_home l (ct ?v1) (Suc tail) (Suc tail + m)))"
  proof (rule Suc.IH [OF r(7)])
    show "listed l (Suc tail) (Suc tail + m)" using L by (auto simp: listed_def)
    show "lkd ?v1 = (\<lambda>_. None)" using Suc.prems(3) by (simp add: copied_def)
    show "card (pinned ?v1) < NBUF" using card Suc.prems(4) by simp
    show "if recovering then Suc (card (pinned ?v1)) < NBUF
        else (\<forall>i. Suc tail \<le> i \<and> i < Suc tail + m \<longrightarrow> 0 < pn ?v1 (home l i)) \<and> inj_on (home l) {Suc tail..<Suc tail + m}"
      using Suc.prems(5) card inj by (auto simp: copied_def inj_on_def split: if_splits)
  qed
  moreover have "{tail..<tail + Suc m} = insert tail {Suc tail..<Suc tail + m}" by auto
  moreover have "(\<lambda>k. if \<not> recovering \<and> k \<in> home l ` {Suc tail..<Suc tail + m} then pn ?v1 k - 1 else pn ?v1 k) =
      (\<lambda>k. if \<not> recovering \<and> k \<in> home l ` insert tail {Suc tail..<Suc tail + m} then pn v k - 1 else pn v k)"
    using inj by (fastforce simp: copied_def fun_eq_iff)
  ultimately show ?case unfolding step ws by (simp add: copied_def)
qed

lemma write_log_loop_ok:
  assumes "cache st v T" and "listed l tail (tail + m)" and "lkd v = (\<lambda>_. None)" and "card (pinned v) < NBUF"
    and "\<forall>i. tail \<le> i \<and> i < tail + m \<longrightarrow> 0 < pn v (home l i)"
  shows "yields (write_log_loop l pid st tail m) (\<lambda>s. cache s
      (v\<lparr>ct := after (to_log l (ct v) tail (tail + m)) (ct v), dk := after (to_log l (ct v) tail (tail + m)) (dk v)\<rparr>)
      (T @ to_log l (ct v) tail (tail + m)))"
  using assms
proof (induction m arbitrary: st v T tail)
  case 0
  then show ?case by (simp add: to_log_def)
next
  case (Suc m)
  have L: "listed l tail (tail + Suc m)" by fact
  have dev: "log_dev l \<noteq> 0" and tl: "tail < length (lh_block l)" "Suc tail < LOGSIZE" using L by (auto simp: listed_def)
  have ne: "log_key l tail \<noteq> home l i" if "tail \<le> i" "i < tail + Suc m" for i
    using L that tl(2) by (metis listed_def log_key_in)
  let ?v1 = "copied (home l tail) (log_key l tail) (pn v (log_key l tail)) v"
  let ?T1 = "T @ [(log_key l tail, ct v (home l tail))]"
  obtain to s1 frm s2 s3 s4 s5 where r: "bread st pid (log_key l tail) = ret (to, s1)"
      "bread s1 pid (home l tail) = ret (frm, s2)" "bwrite (set_data s2 to (data (bufs s2 frm))) pid to = ret s3"
      "brelse s3 pid frm = ret s4" "brelse s4 pid to = ret s5" "cache s5 ?v1 ?T1"
    using write_log_round [OF Suc.prems(1), of "log_key l tail" "home l tail" pid] Suc.prems(3-5) dev ne [of tail] by auto
  have step: "write_log_loop l pid st tail (Suc m) = write_log_loop l pid s5 (Suc tail) m"
    using r(1-5) tl(1) by (simp add: lh_at_def home_def)
  have pn: "pn ?v1 = pn v" "pinned ?v1 = pinned v" by (auto simp: copied_def pinned_def)
  have keys: "ct ?v1 (home l i) = ct v (home l i)" if "tail \<le> i" "i < tail + Suc m" for i
    using ne [OF that] by (simp add: copied_def)
  have ws: "to_log l (ct v) tail (tail + Suc m) = (log_key l tail, ct v (home l tail)) # to_log l (ct ?v1) (Suc tail) (Suc tail + m)"
    using keys by (auto simp: to_log_def upt_conv_Cons simp del: upt_Suc)
  have "yields (write_log_loop l pid s5 (Suc tail) m) (\<lambda>s. cache s
      (?v1\<lparr>ct := after (to_log l (ct ?v1) (Suc tail) (Suc tail + m)) (ct ?v1),
         dk := after (to_log l (ct ?v1) (Suc tail) (Suc tail + m)) (dk ?v1)\<rparr>)
      (?T1 @ to_log l (ct ?v1) (Suc tail) (Suc tail + m)))"
    using L Suc.prems(3-5) by (intro Suc.IH [OF r(6)]) (auto simp: listed_def pn, simp add: copied_def)
  then show ?case unfolding step ws by (simp add: copied_def)
qed

section \<open>The header\<close>

definition says :: "block \<Rightarrow> int \<Rightarrow> uint32 list \<Rightarrow> bool" where
  "says d n bs \<longleftrightarrow> length d = BSIZE \<and> sint (rd32 d 0) = n \<and> (\<forall>j<nat n. rd32 d (4 + 4 * j) = bs ! j)"

lemma put_blocks_ok:
  "i + m \<le> length bs \<Longrightarrow> 4 + 4 * (i + m) \<le> length d \<Longrightarrow>
   yields (put_blocks bs d i m) (\<lambda>e. length e = length d \<and> (\<forall>j. i \<le> j \<and> j < i + m \<longrightarrow> rd32 e (4 + 4 * j) = bs ! j) \<and>
     (\<forall>p. p \<le> 4 * i \<longrightarrow> rd32 e p = rd32 d p))"
proof (induction m arbitrary: i d)
  case 0
  then show ?case by auto
next
  case (Suc m)
  let ?d = "overwrite d (4 + 4 * i) (le32 (bs ! i))"
  have l: "length ?d = length d" using Suc.prems by simp
  have "yields (put_blocks bs ?d (Suc i) m) (\<lambda>e. length e = length ?d \<and>
      (\<forall>j. Suc i \<le> j \<and> j < Suc i + m \<longrightarrow> rd32 e (4 + 4 * j) = bs ! j) \<and> (\<forall>p. p \<le> 4 * Suc i \<longrightarrow> rd32 e p = rd32 ?d p))"
    using Suc.prems l by (intro Suc.IH) auto
  moreover have "rd32 ?d (4 + 4 * i) = bs ! i" using Suc.prems by (intro rd32_le32) simp
  moreover have "rd32 ?d p = rd32 d p" if "p \<le> 4 * i" for p
    using Suc.prems that by (intro rd32_overwrite_other) auto
  ultimately have "yields (put_blocks bs ?d (Suc i) m) (\<lambda>e. length e = length d \<and>
      (\<forall>j. i \<le> j \<and> j < i + Suc m \<longrightarrow> rd32 e (4 + 4 * j) = bs ! j) \<and> (\<forall>p. p \<le> 4 * i \<longrightarrow> rd32 e p = rd32 d p))"
  proof (elim yields_mono, intro conjI allI impI)
    fix e j
    assume e: "length e = length ?d \<and> (\<forall>j. Suc i \<le> j \<and> j < Suc i + m \<longrightarrow> rd32 e (4 + 4 * j) = bs ! j) \<and>
        (\<forall>p. p \<le> 4 * Suc i \<longrightarrow> rd32 e p = rd32 ?d p)" and j: "i \<le> j \<and> j < i + Suc m"
      and i: "rd32 ?d (4 + 4 * i) = bs ! i"
    show "rd32 e (4 + 4 * j) = bs ! j" using e j i by (cases "j = i") auto
  qed (use l in auto)
  then show ?case using Suc.prems by simp
qed

lemma get_blocks_ok:
  "i + m \<le> length bs \<Longrightarrow>
   yields (get_blocks d bs i m) (\<lambda>cs. length cs = length bs \<and> (\<forall>j<i. cs ! j = bs ! j) \<and>
     (\<forall>j. i \<le> j \<and> j < i + m \<longrightarrow> cs ! j = rd32 d (4 + 4 * j)))"
proof (induction m arbitrary: i bs)
  case 0
  then show ?case by auto
next
  case (Suc m)
  let ?bs = "bs[i := rd32 d (4 + 4 * i)]"
  have "yields (get_blocks d ?bs (Suc i) m) (\<lambda>cs. length cs = length ?bs \<and> (\<forall>j<Suc i. cs ! j = ?bs ! j) \<and>
      (\<forall>j. Suc i \<le> j \<and> j < Suc i + m \<longrightarrow> cs ! j = rd32 d (4 + 4 * j)))"
    using Suc.prems by (intro Suc.IH) simp
  then have "yields (get_blocks d ?bs (Suc i) m) (\<lambda>cs. length cs = length bs \<and> (\<forall>j<i. cs ! j = bs ! j) \<and>
      (\<forall>j. i \<le> j \<and> j < i + Suc m \<longrightarrow> cs ! j = rd32 d (4 + 4 * j)))"
  proof (elim yields_mono, intro conjI allI impI)
    fix cs j
    assume cs: "length cs = length ?bs \<and> (\<forall>j<Suc i. cs ! j = ?bs ! j) \<and>
        (\<forall>j. Suc i \<le> j \<and> j < Suc i + m \<longrightarrow> cs ! j = rd32 d (4 + 4 * j))" and j: "i \<le> j \<and> j < i + Suc m"
    show "cs ! j = rd32 d (4 + 4 * j)" using cs j Suc.prems by (cases "j = i") auto
  qed auto
  then show ?case using Suc.prems by simp
qed

lemma c_peek:
  assumes c: "cache st v T" and k: "real k" "lkd v k = None" and room: "0 < pn v k \<or> card (pinned v) < NBUF"
  shows "\<exists>b s1 s2. bread st pid k = ret (b, s1) \<and> data (bufs s1 b) = ct v k \<and> buf_at s1 b k \<and>
      brelse s1 pid b = ret s2 \<and> cache s2 v T"
proof -
  obtain b s1 where 1: "bread st pid k = ret (b, s1)" "cache s1 (pin k (lock (Some pid) k v)) T" "buf_at s1 b k" "data (bufs s1 b) = ct v k"
    using c_bread [OF c k room] by blast
  obtain s2 where 2: "brelse s1 pid b = ret s2" "cache s2 (unpin k (lock None k (pin k (lock (Some pid) k v)))) T"
    using c_brelse [OF 1(2,3), of pid] c_clean [OF c k(1)] by (auto simp: view_defs)
  have "unpin k (lock None k (pin k (lock (Some pid) k v))) = v"
    using k(2) by (cases v) (auto simp: view_defs fun_eq_iff)
  then show ?thesis using 1 2 by auto
qed

lemma c_rewrite:
  assumes c: "cache st v T" and k: "real k" "lkd v k = None" and room: "0 < pn v k \<or> card (pinned v) < NBUF"
  shows "\<exists>b s1. bread st pid k = ret (b, s1) \<and> data (bufs s1 b) = ct v k \<and>
      (\<forall>d. yields (bwrite (set_data s1 b d) pid b) (\<lambda>s2. yields (brelse s2 pid b)
        (\<lambda>s3. cache s3 (v\<lparr>ct := (ct v)(k := d), dk := (dk v)(k := d)\<rparr>) (T @ [(k, d)]))))"
proof -
  let ?v1 = "pin k (lock (Some pid) k v)"
  obtain b s1 where 1: "bread st pid k = ret (b, s1)" "cache s1 ?v1 T" "buf_at s1 b k" "data (bufs s1 b) = ct v k"
    using c_bread [OF c k room] by blast
  have "yields (bwrite (set_data s1 b d) pid b) (\<lambda>s2. yields (brelse s2 pid b)
        (\<lambda>s3. cache s3 (v\<lparr>ct := (ct v)(k := d), dk := (dk v)(k := d)\<rparr>) (T @ [(k, d)])))" for d
  proof -
    have s: "cache (set_data s1 b d) (put k d ?v1) T" "keeps s1 (set_data s1 b d)"
      using c_set_data [OF 1(2,3)] by (auto simp: view_defs)
    have b: "buf_at (set_data s1 b d) b k" using c_keeps [OF s(2) 1(2,3)] by (simp add: view_defs)
    obtain s2 where 2: "bwrite (set_data s1 b d) pid b = ret s2" "cache s2 (flush k (put k d ?v1)) (T @ [(k, d)])" "keeps (set_data s1 b d) s2"
      using c_bwrite [OF s(1) b, of pid] by (auto simp: view_defs)
    have b2: "buf_at s2 b k" using c_keeps [OF 2(3) s(1) b] by (simp add: view_defs)
    obtain s3 where 3: "brelse s2 pid b = ret s3" "cache s3 (unpin k (lock None k (flush k (put k d ?v1)))) (T @ [(k, d)])"
      using c_brelse [OF 2(2) b2, of pid] by (auto simp: view_defs)
    have "unpin k (lock None k (flush k (put k d ?v1))) = v\<lparr>ct := (ct v)(k := d), dk := (dk v)(k := d)\<rparr>"
      using k(2) by (cases v) (auto simp: view_defs fun_eq_iff)
    then show ?thesis using 2(1) 3 by simp
  qed
  then show ?thesis using 1 by blast
qed

lemma sint_of_small: "0 \<le> n \<Longrightarrow> n < 2 ^ 31 \<Longrightarrow> sint (of_int n :: uint32) = n"
  by (simp add: signed_of_int signed_take_bit_int_eq_self)

lemma write_head_ok:
  assumes c: "cache st v T" and dev: "log_dev l \<noteq> 0" and len: "length (lh_block l) = LOGSIZE" and n: "0 \<le> lh_n l" "lh_n l \<le> int LOGSIZE"
    and lk: "lkd v (header_key l) = None" and room: "card (pinned v) < NBUF" and blk: "length (ct v (header_key l)) = BSIZE"
  shows "yields (write_head l pid st) (\<lambda>s. \<exists>d. says d (lh_n l) (lh_block l) \<and>
      cache s (v\<lparr>ct := (ct v)(header_key l := d), dk := (dk v)(header_key l := d)\<rparr>) (T @ [(header_key l, d)]))"
proof -
  obtain b s1 where 1: "bread st pid (header_key l) = ret (b, s1)" "data (bufs s1 b) = ct v (header_key l)"
      "\<forall>d. yields (bwrite (set_data s1 b d) pid b) (\<lambda>s2. yields (brelse s2 pid b)
        (\<lambda>s3. cache s3 (v\<lparr>ct := (ct v)(header_key l := d), dk := (dk v)(header_key l := d)\<rparr>) (T @ [(header_key l, d)])))"
    using c_rewrite [OF c, of "header_key l" pid] dev lk room by auto
  let ?d = "overwrite (ct v (header_key l)) 0 (le32 (of_int (lh_n l)))"
  have l: "length ?d = BSIZE" using blk by (simp add: BSIZE_def)
  have n0: "sint (rd32 ?d 0) = lh_n l"
    using rd32_le32 [of 0 "ct v (header_key l)"] blk sint_of_small [of "lh_n l"] n by (simp add: BSIZE_def LOGSIZE_def)
  have "nat (lh_n l) \<le> LOGSIZE" using n by linarith
  then have "yields (put_blocks (lh_block l) ?d 0 (nat (lh_n l))) (\<lambda>e. says e (lh_n l) (lh_block l))"
    using put_blocks_ok [of 0 "nat (lh_n l)" "lh_block l" ?d] l len n0
    by (auto elim!: yields_mono simp: says_def BSIZE_def LOGSIZE_def)
  then obtain e where e: "put_blocks (lh_block l) ?d 0 (nat (lh_n l)) = ret e" "says e (lh_n l) (lh_block l)"
    by (auto simp: yields_def)
  then show ?thesis using 1(1,2) 1(3) [rule_format, of e] by (auto elim!: yields_mono simp: write_head_def)
qed

lemma read_head_ok:
  assumes c: "cache st v T" and dev: "log_dev l \<noteq> 0" and len: "length (lh_block l) = LOGSIZE"
    and lk: "lkd v (header_key l) = None" and room: "card (pinned v) < NBUF"
    and n: "sint (rd32 (ct v (header_key l)) 0) = n" "n \<le> int LOGSIZE"
  shows "yields (read_head l pid st) (\<lambda>(l1, s). \<exists>bs. l1 = l\<lparr>lh_n := n, lh_block := bs\<rparr> \<and> length bs = LOGSIZE \<and>
      (\<forall>j<nat n. bs ! j = rd32 (ct v (header_key l)) (4 + 4 * j)) \<and> cache s v T)"
proof -
  obtain b s1 s2 where 1: "bread st pid (header_key l) = ret (b, s1)" "data (bufs s1 b) = ct v (header_key l)"
      "brelse s1 pid b = ret s2" "cache s2 v T"
    using c_peek [OF c, of "header_key l" pid] dev lk room by auto
  have "nat n \<le> LOGSIZE" using n(2) by linarith
  then show ?thesis
    using get_blocks_ok [of 0 "nat n" "lh_block l" "ct v (header_key l)"] 1 n(1) len
    by (auto elim!: yields_mono simp: read_head_def Let_def)
qed

section \<open>Recovery\<close>

text \<open>The state after a restart: the zeroed static variables, with the buffers linked by \<open>binit\<close>.\<close>

definition boot :: "(blkno \<Rightarrow> block) \<Rightarrow> bcache" where
  "boot d = binit \<lparr>bufs = (\<lambda>_. \<lparr>valid = False, key = (0, 0), holder = None, refcnt = 0, data = replicate BSIZE 0\<rparr>),
     links = \<lparr>next = (\<lambda>_. 0), prev = (\<lambda>_. 0)\<rparr>, disk = d, trace = []\<rparr>"

definition log0 :: log where
  "log0 = \<lparr>log_start = 0, log_size = 0, outstanding = 0, committing = False, log_dev = 0, lh_n = 0, lh_block = replicate LOGSIZE 0\<rparr>"

definition fresh :: "(blkno \<Rightarrow> block) \<Rightarrow> cview" where
  "fresh d = \<lparr>ct = (\<lambda>k. if real k then d k else []), pn = (\<lambda>_. 0), lkd = (\<lambda>_. None), dk = d\<rparr>"

lemma boot_cache: "cache (boot d) (fresh d) []"
proof -
  have "dlist (links (boot d)) NBUF (rev [0..<NBUF])" unfolding boot_def binit_def using binit_list by simp
  then have "\<exists>xs. dlist (links (boot d)) NBUF xs \<and> set xs = {..<NBUF}" by (intro exI [of _ "rev [0..<NBUF]"]) auto
  then have inv: "bc_inv (boot d)" unfolding bc_inv_def by (auto simp: boot_def binit_def buf_ok_def real_def)
  have "slot (boot d) k = None" if "real k" for k
    using that slot_None [OF inv that] by (auto simp: boot_def binit_def real_def)
  moreover have "disk (boot d) = d" "trace (boot d) = []" by (simp_all add: boot_def binit_def)
  ultimately show ?thesis using inv by (auto simp: cache_def view_of_def fresh_def look_def intro!: ext)
qed

lemma pinned_fresh [simp]: "pinned (fresh d) = {}"
  by (simp add: pinned_def fresh_def)

lemma log_upd_simps [simp]:
  "in_log (l\<lparr>lh_n := n\<rparr>) = in_log l" "in_log (l\<lparr>lh_block := bs\<rparr>) = in_log l"
  "log_key (l\<lparr>lh_n := n\<rparr>) = log_key l" "log_key (l\<lparr>lh_block := bs\<rparr>) = log_key l"
  "header_key (l\<lparr>lh_n := n\<rparr>) = header_key l" "header_key (l\<lparr>lh_block := bs\<rparr>) = header_key l"
  "home (l\<lparr>lh_n := n\<rparr>) = home l"
  by (auto simp: in_log_def log_key_def header_key_def home_def fun_eq_iff)

definition replay :: "log \<Rightarrow> (blkno \<Rightarrow> block) \<Rightarrow> uint32 list \<Rightarrow> nat \<Rightarrow> (blkno \<times> block) list" where
  "replay l d bs n = map (\<lambda>i. ((log_dev l, bs ! i), d (log_key l i))) [0..<n]"

lemma recover_ok:
  assumes dev: "log_dev l \<noteq> 0" and len: "length (lh_block l) = LOGSIZE" and h: "says (d (header_key l)) n bs"
    and n: "0 \<le> n" "n < int LOGSIZE" and out: "\<forall>i<nat n. \<not> in_log l (log_dev l, bs ! i)"
  shows "yields (recover_from_log l pid (boot d)) (\<lambda>(l1, s). lh_n l1 = 0 \<and>
      (\<forall>k. \<not> in_log l k \<longrightarrow> disk s k = after (replay l d bs (nat n)) d k))"
proof -
  let ?v = "fresh d"
  have hk: "ct ?v (header_key l) = d (header_key l)" using dev by (simp add: fresh_def)
  obtain l1 s1 cs where 1: "read_head l pid (boot d) = ret (l1, s1)" "l1 = l\<lparr>lh_n := n, lh_block := cs\<rparr>"
      "length cs = LOGSIZE" "\<forall>j<nat n. cs ! j = bs ! j" "cache s1 ?v []"
    using read_head_ok [OF boot_cache dev len, of d n pid] h n unfolding hk
    by (auto simp: yields_def says_def fresh_def NBUF_def pinned_fresh [unfolded fresh_def])
  have hm: "home l1 i = (log_dev l, bs ! i)" if "i < nat n" for i using 1(2,4) that by (simp add: home_def)
  have L: "listed l1 0 (nat n)" using 1(2,3) dev n out hm by (auto simp: listed_def)
  let ?ws = "to_home l1 (ct ?v) 0 (nat n)"
  have ws: "?ws = replay l d bs (nat n)"
    using hm 1(2) dev by (auto simp: to_home_def replay_def fresh_def)
  have nb: "card (pinned ?v) < NBUF" "Suc (card (pinned ?v)) < NBUF" by (simp_all add: NBUF_def)
  have "yields (install_loop l1 pid True s1 0 (nat n)) (\<lambda>s. cache s
      (?v\<lparr>ct := after ?ws (ct ?v), dk := after ?ws (dk ?v)\<rparr>) ([] @ ?ws))"
    using install_loop_ok [OF 1(5), of l1 0 "nat n" True pid] L nb by (simp add: fresh_def)
  then obtain s2 where 2: "install_trans l1 pid True s1 = ret s2"
      "cache s2 (?v\<lparr>ct := after ?ws (ct ?v), dk := after ?ws (dk ?v)\<rparr>) ?ws"
    using 1(2) by (auto simp: install_trans_def yields_def)
  have "header_key l \<notin> fst ` set ?ws"
    unfolding ws using out n by (auto simp: replay_def) (metis header_in)
  then have hl: "length (after ?ws (ct ?v) (header_key l)) = BSIZE"
    using hk h by (simp add: after_other says_def)
  let ?v2 = "?v\<lparr>ct := after ?ws (ct ?v), dk := after ?ws (dk ?v)\<rparr>"
  have p2: "pinned ?v2 = {}" by (simp add: pinned_def fresh_def)
  have "yields (write_head (l1\<lparr>lh_n := 0\<rparr>) pid s2) (\<lambda>s. \<exists>e. cache s (?v2\<lparr>ct := (ct ?v2)(header_key l := e),
      dk := (dk ?v2)(header_key l := e)\<rparr>) (?ws @ [(header_key l, e)]))"
    using write_head_ok [OF 2(2), of "l1\<lparr>lh_n := 0\<rparr>" pid] 1(2,3) dev hl p2
    by (auto elim!: yields_mono simp: fresh_def NBUF_def)
  then obtain s3 e where 3: "write_head (l1\<lparr>lh_n := 0\<rparr>) pid s2 = ret s3"
      "dk (view_of s3) = (dk ?v2)(header_key l := e)"
    by (auto simp: yields_def cache_def)
  have "disk s3 k = after (replay l d bs (nat n)) d k" if "\<not> in_log l k" for k
  proof -
    have "k \<noteq> header_key l" using that header_in [of l] by metis
    then show ?thesis using 3(2) ws by (simp add: dk_disk fresh_def)
  qed
  then show ?thesis using 1(1,2) 2(1) 3(1) by (simp add: recover_from_log_def)
qed

section \<open>Commit\<close>

definition logged :: "log \<Rightarrow> blkno set" where
  "logged l = home l ` {..<nat (lh_n l)}"

text \<open>
  The log between two steps: \<open>H\<close> are the blocks whose buffers process \<open>pid\<close> holds, and nobody holds another.
  Every logged block is pinned once, and every other block is the same in the cache and on the disk, where
  the header says that there is nothing to recover.
\<close>

definition log_ok :: "log \<Rightarrow> bool" where
  "log_ok l \<longleftrightarrow> log_dev l \<noteq> 0 \<and> length (lh_block l) = LOGSIZE \<and> 0 \<le> lh_n l \<and> lh_n l < int LOGSIZE \<and> log_size l \<le> int LOGSIZE \<and>
     distinct (take (nat (lh_n l)) (lh_block l)) \<and> (\<forall>k\<in>logged l. \<not> in_log l k)"

definition log_inv :: "log \<Rightarrow> nat \<Rightarrow> blkno set \<Rightarrow> cview \<Rightarrow> bool" where
  "log_inv l pid H v \<longleftrightarrow> log_ok l \<and>
     pn v = (\<lambda>k. (if k \<in> logged l then 1 else 0) + (if k \<in> H then 1 else 0)) \<and>
     lkd v = (\<lambda>k. if k \<in> H then Some pid else None) \<and>
     (\<forall>k. real k \<and> k \<notin> logged l \<longrightarrow> ct v k = dk v k) \<and> (\<forall>k. real k \<longrightarrow> length (ct v k) = BSIZE) \<and>
     sint (rd32 (ct v (header_key l)) 0) = 0"

lemma log_okD:
  assumes "log_ok l"
  shows "nat (lh_n l) < LOGSIZE" "listed l 0 (nat (lh_n l))" "inj_on (home l) {..<nat (lh_n l)}"
proof -
  show n: "nat (lh_n l) < LOGSIZE" using assms by (auto simp: log_ok_def)
  show "listed l 0 (nat (lh_n l))" using assms n by (auto simp: log_ok_def listed_def logged_def)
  have "distinct (take (nat (lh_n l)) (lh_block l))" "length (lh_block l) = LOGSIZE" using assms by (auto simp: log_ok_def)
  then show "inj_on (home l) {..<nat (lh_n l)}"
    using n nth_eq_iff_index_eq [of "take (nat (lh_n l)) (lh_block l)"] by (intro inj_onI) (simp add: home_def)
qed

lemma card_logged: "log_ok l \<Longrightarrow> card (logged l) = nat (lh_n l)"
  using log_okD(3) [of l] by (simp add: logged_def card_image)

lemma header_not_logged: "log_ok l \<Longrightarrow> header_key l \<notin> logged l"
  unfolding log_ok_def by (metis header_in)

lemma after_map: "after (map (\<lambda>i. (f i, g (f i))) xs) d k = (if k \<in> f ` set xs then g k else d k)"
  by (induction xs arbitrary: d) auto

lemma after_inj: "inj_on f (set xs) \<Longrightarrow> i \<in> set xs \<Longrightarrow> after (map (\<lambda>i. (f i, g i)) xs) d (f i) = g i"
proof (induction xs rule: rev_induct)
  case Nil
  then show ?case by simp
next
  case (snoc x xs)
  then show ?case by (cases "i = x") (auto simp: inj_on_def)
qed

lemma after_same: "f k = g k \<Longrightarrow> after ws f k = after ws g k"
proof (induction ws arbitrary: f g)
  case Nil
  then show ?case by simp
next
  case (Cons w ws)
  show ?case unfolding after_simps by (rule Cons.IH) (use Cons.prems in simp)
qed

lemma after_all: "P (f k) \<Longrightarrow> \<forall>w\<in>set ws. P (snd w) \<Longrightarrow> P (after ws f k)"
proof (induction ws arbitrary: f)
  case Nil
  then show ?case by simp
next
  case (Cons w ws)
  show ?case unfolding after_simps by (rule Cons.IH) (use Cons.prems in simp_all)
qed

lemma after_take_other: "k \<notin> fst ` set ws \<Longrightarrow> after (take j ws) d k = d k"
  by (rule after_other) (use set_take_subset [of j ws] in auto)

definition home_writes :: "log \<Rightarrow> (blkno \<Rightarrow> block) \<Rightarrow> (blkno \<times> block) list" where
  "home_writes l f = map (\<lambda>i. (home l i, f (home l i))) [0..<nat (lh_n l)]"

definition log_writes :: "log \<Rightarrow> (blkno \<Rightarrow> block) \<Rightarrow> (blkno \<times> block) list" where
  "log_writes l f = to_log l f 0 (nat (lh_n l))"

lemma writes_keys:
  assumes "log_ok l"
  shows "fst ` set (home_writes l f) = logged l" "k \<in> fst ` set (log_writes l f) \<Longrightarrow> in_log l k \<and> k \<noteq> header_key l"
    "i < nat (lh_n l) \<Longrightarrow> after (log_writes l f) d (log_key l i) = f (home l i)"
    "after (home_writes l f) d k = (if k \<in> logged l then f k else d k)"
proof -
  note n = log_okD(1) [OF assms]
  show "fst ` set (home_writes l f) = logged l" by (force simp: home_writes_def logged_def)
  show "in_log l k \<and> k \<noteq> header_key l" if "k \<in> fst ` set (log_writes l f)"
    using that n log_key_header [of _ l] by (auto simp: log_writes_def to_log_def)
  show "after (log_writes l f) d (log_key l i) = f (home l i)" if "i < nat (lh_n l)"
    unfolding log_writes_def to_log_def
    by (rule after_inj) (use that n log_key_inj [of _ _ l] in \<open>auto simp: inj_on_def\<close>)
  show "after (home_writes l f) d k = (if k \<in> logged l then f k else d k)"
    unfolding home_writes_def after_map by (auto simp: logged_def)
qed

lemma commit_ok:
  assumes c: "cache st v T" and inv: "log_inv l pid {} v" and pos: "0 < lh_n l"
  shows "yields (commit l pid st) (\<lambda>(l1, s). l1 = l\<lparr>lh_n := 0\<rparr> \<and> (\<exists>h1 h2 v1. says h1 (lh_n l) (lh_block l) \<and> says h2 0 (lh_block l) \<and>
      cache s v1 (T @ log_writes l (ct v) @ [(header_key l, h1)] @ home_writes l (ct v) @ [(header_key l, h2)]) \<and>
      log_inv l1 pid {} v1 \<and> (\<forall>k. \<not> in_log l k \<longrightarrow> ct v1 k = ct v k) \<and>
      dk v1 = after (log_writes l (ct v) @ [(header_key l, h1)] @ home_writes l (ct v) @ [(header_key l, h2)]) (dk v)))"
proof -
  let ?n = "nat (lh_n l)" and ?h = "header_key l"
  have ok: "log_ok l" and pn: "pn v = (\<lambda>k. if k \<in> logged l then 1 else 0)" and lk: "lkd v = (\<lambda>_. None)"
    and eq: "\<And>k. real k \<Longrightarrow> k \<notin> logged l \<Longrightarrow> ct v k = dk v k" and len: "\<And>k. real k \<Longrightarrow> length (ct v k) = BSIZE"
    using inv by (auto simp: log_inv_def)
  have dev: "log_dev l \<noteq> 0" and bl: "length (lh_block l) = LOGSIZE" using ok by (auto simp: log_ok_def)
  have n: "0 \<le> lh_n l" "lh_n l \<le> int LOGSIZE" using ok by (auto simp: log_ok_def)
  have pv: "pinned v = logged l" by (auto simp: pinned_def pn)
  have room: "card (logged l) < NBUF" using card_logged [OF ok] log_okD(1) [OF ok] by (simp add: NBUF_def LOGSIZE_def)
  let ?w1 = "log_writes l (ct v)"
  let ?v1 = "v\<lparr>ct := after ?w1 (ct v), dk := after ?w1 (dk v)\<rparr>"
  have "yields (write_log_loop l pid st 0 ?n) (\<lambda>s. cache s ?v1 (T @ ?w1))"
    using write_log_loop_ok [OF c, of l 0 ?n pid] log_okD(2) [OF ok] lk room pv
    by (simp add: pn logged_def log_writes_def)
  then obtain s1 where 1: "write_log l pid st = ret s1" "cache s1 ?v1 (T @ ?w1)"
    by (auto simp: write_log_def yields_def)
  have hw: "?h \<notin> fst ` set ?w1" using writes_keys(2) [OF ok] by blast
  have "yields (write_head l pid s1) (\<lambda>s. \<exists>d. says d (lh_n l) (lh_block l) \<and>
      cache s (?v1\<lparr>ct := (ct ?v1)(?h := d), dk := (dk ?v1)(?h := d)\<rparr>) ((T @ ?w1) @ [(?h, d)]))"
    using write_head_ok [OF 1(2) dev bl n, of pid] lk room pv len [of ?h] dev hw
    by (simp add: pinned_def after_other)
  then obtain s2 h1 where 2: "write_head l pid s1 = ret s2" "says h1 (lh_n l) (lh_block l)"
      "cache s2 (?v1\<lparr>ct := (ct ?v1)(?h := h1), dk := (dk ?v1)(?h := h1)\<rparr>) ((T @ ?w1) @ [(?h, h1)])"
    unfolding yields_def by blast
  let ?v2 = "?v1\<lparr>ct := (ct ?v1)(?h := h1), dk := (dk ?v1)(?h := h1)\<rparr>"
  have ws: "to_home l (ct ?v2) 0 ?n = home_writes l (ct v)"
    using writes_keys(3) [OF ok, of _ "ct v" "ct v"] log_key_header [of _ l] log_okD(1) [OF ok]
    by (auto simp: to_home_def home_writes_def)
  have p2: "pn ?v2 = pn v" "pinned ?v2 = pinned v" "lkd ?v2 = lkd v" by (simp_all add: pinned_def)
  let ?w2 = "home_writes l (ct v)"
  let ?v3 = "?v2\<lparr>ct := after ?w2 (ct ?v2), dk := after ?w2 (dk ?v2), pn := (\<lambda>_. 0)\<rparr>"
  have pz: "(\<lambda>k. if k \<in> home l ` {0..<?n} then pn v k - 1 else pn v k) = (\<lambda>_. 0)"
    unfolding pn by (auto simp: logged_def lessThan_atLeast0)
  have "yields (install_loop l pid False s2 0 ?n) (\<lambda>s. cache s ?v3 (((T @ ?w1) @ [(?h, h1)]) @ ?w2))"
    using install_loop_ok [OF 2(3), of l 0 ?n False pid] log_okD(2,3) [OF ok] lk room pv
    unfolding p2 add_0 ws by (simp add: pz) (auto simp: pn logged_def lessThan_atLeast0)
  then obtain s3 where 3: "install_trans l pid False s2 = ret s3" "cache s3 ?v3 (((T @ ?w1) @ [(?h, h1)]) @ ?w2)"
    by (auto simp: install_trans_def yields_def)
  have hl: "after ?w2 (ct ?v2) ?h = h1" using header_not_logged [OF ok] writes_keys(4) [OF ok] by simp
  have "yields (write_head (l\<lparr>lh_n := 0\<rparr>) pid s3) (\<lambda>s. \<exists>d. says d 0 (lh_block l) \<and>
      cache s (?v3\<lparr>ct := (ct ?v3)(?h := d), dk := (dk ?v3)(?h := d)\<rparr>) ((((T @ ?w1) @ [(?h, h1)]) @ ?w2) @ [(?h, d)]))"
    using write_head_ok [OF 3(2), of "l\<lparr>lh_n := 0\<rparr>" pid] dev bl lk hl 2(2)
    by (simp add: pinned_def NBUF_def says_def)
  then obtain s4 h2 where 4: "write_head (l\<lparr>lh_n := 0\<rparr>) pid s3 = ret s4" "says h2 0 (lh_block l)"
      "cache s4 (?v3\<lparr>ct := (ct ?v3)(?h := h2), dk := (dk ?v3)(?h := h2)\<rparr>) ((((T @ ?w1) @ [(?h, h1)]) @ ?w2) @ [(?h, h2)])"
    unfolding yields_def by blast
  let ?v4 = "?v3\<lparr>ct := (ct ?v3)(?h := h2), dk := (dk ?v3)(?h := h2)\<rparr>"
  have run: "commit l pid st = ret (l\<lparr>lh_n := 0\<rparr>, s4)"
    using pos 1(1) 2(1) 3(1) 4(1) by (simp add: commit_def)
  note wk = writes_keys(4) [OF ok]
  have "log_ok (l\<lparr>lh_n := 0\<rparr>)" and none: "logged (l\<lparr>lh_n := 0\<rparr>) = {}" using ok by (auto simp: log_ok_def logged_def LOGSIZE_def)
  moreover have "pn ?v4 = (\<lambda>_. 0)" "lkd ?v4 = (\<lambda>_. None)" by (simp_all add: lk)
  moreover have "ct ?v4 k = dk ?v4 k" if "real k" for k
    using eq [OF that] after_same [of "ct v" k "dk v" ?w1] by (simp add: wk)
  moreover have "length (ct ?v4 k) = BSIZE" if "real k" for k
  proof -
    have "length (after ?w1 (ct v) k) = BSIZE"
      by (rule after_all) (use len that dev in \<open>auto simp: log_writes_def to_log_def\<close>)
    then show ?thesis using 2(2) 4(2) len [OF that] by (simp add: wk says_def)
  qed
  moreover have "sint (rd32 (ct ?v4 (header_key (l\<lparr>lh_n := 0\<rparr>))) 0) = 0" using 4(2) by (simp add: says_def)
  ultimately have "log_inv (l\<lparr>lh_n := 0\<rparr>) pid {} ?v4" unfolding log_inv_def none by simp
  moreover have "ct ?v4 k = ct v k" if "\<not> in_log l k" for k
  proof -
    have "k \<noteq> ?h" "k \<notin> fst ` set ?w1" using that writes_keys(2) [OF ok] header_in [of l] by metis+
    then show ?thesis by (simp add: wk after_other)
  qed
  moreover have "dk ?v4 = after (?w1 @ [(?h, h1)] @ ?w2 @ [(?h, h2)]) (dk v)" by simp
  ultimately show ?thesis using 2(2) 4(2,3) unfolding run by (simp only: yields_simps prod.case append_assoc) blast
qed

section \<open>Logged changes of blocks\<close>

text \<open>
  The state as the file system sees it: the contents \<open>f\<close> of the blocks, and the buffers \<open>M\<close> that process \<open>pid\<close>
  holds.
\<close>

definition fsc :: "bcache \<Rightarrow> log \<Rightarrow> nat \<Rightarrow> (blkno \<rightharpoonup> nat) \<Rightarrow> (blkno \<Rightarrow> block) \<Rightarrow> bool" where
  "fsc st l pid M f \<longleftrightarrow> bc_inv st \<and> log_inv l pid (dom M) (view_of st) \<and> (\<forall>k. real k \<longrightarrow> ct (view_of st) k = f k) \<and>
     (\<forall>k b. M k = Some b \<longrightarrow> buf_at st b k)"

definition enlog :: "log \<Rightarrow> blkno \<Rightarrow> log" where
  "enlog l k = (if k \<in> logged l then l else l\<lparr>lh_n := lh_n l + 1, lh_block := (lh_block l)[nat (lh_n l) := snd k]\<rparr>)"

lemma fsc_cache: "fsc st l pid M f \<Longrightarrow> cache st (view_of st) (trace st)"
  by (simp add: fsc_def cache_def)

lemma fs_data: "fsc st l pid M f \<Longrightarrow> M k = Some b \<Longrightarrow> data (bufs st b) = f k"
  using buf_at_view(1) [of st b k] by (auto simp: fsc_def buf_at_def)

lemma log_inv_lk: "log_inv l pid H v \<Longrightarrow> lkd v k = (if k \<in> H then Some pid else None)"
  by (simp add: log_inv_def)

lemma log_inv_pinned: "log_inv l pid H v \<Longrightarrow> pinned v = logged l \<union> H"
  by (auto simp: log_inv_def pinned_def)

lemma fs_keeps:
  assumes F: "fsc st l pid M f" and K: "keeps st s1" and j: "M j = Some c"
  shows "buf_at s1 c j"
proof (rule c_keeps [OF K fsc_cache [OF F]])
  show "buf_at st c j" using F j by (simp add: fsc_def)
  show "0 < pn (view_of st) j" using F j by (auto simp: fsc_def log_inv_def)
qed

lemma fs_bread:
  assumes F: "fsc st l pid M f" and k: "real k" "M k = None" and room: "nat (lh_n l) + card (dom M) < NBUF"
  shows "yields (bread st pid k) (\<lambda>(b, s). fsc s l pid (M(k \<mapsto> b)) f \<and> data (bufs s b) = f k)"
proof -
  let ?v = "view_of st"
  have inv: "log_inv l pid (dom M) ?v" and ok: "log_ok l" using F by (auto simp: fsc_def log_inv_def)
  have "finite (pinned ?v)" using F by (intro pinned_finite) (simp add: fsc_def)
  then have "card (pinned ?v) \<le> card (logged l) + card (dom M)"
    unfolding log_inv_pinned [OF inv] by (intro card_Un_le)
  then have r: "card (pinned ?v) < NBUF" using room card_logged [OF ok] by simp
  obtain b s1 where 1: "bread st pid k = ret (b, s1)" "cache s1 (pin k (lock (Some pid) k ?v)) (trace st)" "buf_at s1 b k"
      "data (bufs s1 b) = ct ?v k" "keeps st s1"
    using c_bread [OF fsc_cache [OF F] k(1), of pid] log_inv_lk [OF inv, of k] k(2) r by (auto simp: domIff)
  have "log_inv l pid (insert k (dom M)) (pin k (lock (Some pid) k ?v))"
    using inv k(2) by (auto simp: log_inv_def view_defs fun_eq_iff)
  moreover have "buf_at s1 c j" if "M j = Some c" for c j
    by (rule fs_keeps [OF F 1(5) that])
  ultimately have "fsc s1 l pid (M(k \<mapsto> b)) f"
    using F 1(2,3) by (auto simp: fsc_def cache_def view_defs)
  then show ?thesis using 1(1,4) F k(1) by (simp add: fsc_def)
qed

lemma fs_brelse:
  assumes F: "fsc st l pid M f" and k: "M k = Some b"
  shows "yields (brelse st pid b) (\<lambda>s. fsc s l pid (M(k := None)) f)"
proof -
  let ?v = "view_of st"
  have inv: "log_inv l pid (dom M) ?v" and at: "buf_at st b k" using F k by (auto simp: fsc_def)
  have r: "real k" using at by (simp add: buf_at_def)
  have lk: "lkd ?v k = Some pid" using log_inv_lk [OF inv, of k] k by auto
  have clean: "pn ?v k = 1 \<longrightarrow> ct ?v k = dk ?v k" using inv k r by (auto simp: log_inv_def split: if_splits)
  obtain s1 where 1: "brelse st pid b = ret s1" "cache s1 (unpin k (lock None k ?v)) (trace st)" "keeps st s1"
    using c_brelse [OF fsc_cache [OF F] at lk clean] by blast
  have "log_inv l pid (dom M - {k}) (unpin k (lock None k ?v))"
    using inv k by (auto simp: log_inv_def view_defs fun_eq_iff)
  moreover have "buf_at s1 c j" if "M j = Some c" for c j
    by (rule fs_keeps [OF F 1(3) that])
  ultimately have "fsc s1 l pid (M(k := None)) f"
    using F 1(2) by (auto simp: fsc_def cache_def view_defs split: if_splits)
  then show ?thesis using 1(1) by simp
qed

lemma log_pos_ok:
  "i \<le> length bs \<Longrightarrow> i + m \<le> length bs \<Longrightarrow>
   i \<le> log_pos bs no i m \<and> log_pos bs no i m \<le> i + m \<and> (log_pos bs no i m < i + m \<longrightarrow> bs ! log_pos bs no i m = no) \<and>
   (\<forall>j. i \<le> j \<and> j < log_pos bs no i m \<longrightarrow> bs ! j \<noteq> no)"
proof (induction m arbitrary: i)
  case 0
  then show ?case by auto
next
  case (Suc m)
  show ?case
  proof (cases "bs ! i = no")
    case True
    then show ?thesis by auto
  next
    case False
    have "i \<le> j \<and> j < log_pos bs no (Suc i) m \<longrightarrow> bs ! j \<noteq> no" for j
      using Suc.IH [of "Suc i"] Suc.prems False by (cases "j = i") auto
    then show ?thesis using False Suc.IH [of "Suc i"] Suc.prems by auto
  qed
qed

lemma logged_iff: "fst k = log_dev l \<Longrightarrow> k \<in> logged l \<longleftrightarrow> (\<exists>i<nat (lh_n l). lh_block l ! i = snd k)"
  by (cases k) (auto simp: logged_def home_def)

lemma log_write_eq:
  assumes ok: "log_ok l" and out: "1 \<le> outstanding l" and sp: "lh_n l < log_size l - 1"
    and k: "key (bufs st b) = k" "fst k = log_dev l"
  shows "log_write l st b = ret (enlog l k, if k \<in> logged l then st else bpin st b)"
proof -
  let ?n = "nat (lh_n l)" and ?i = "log_pos (lh_block l) (snd k) 0 (nat (lh_n l))"
  have n: "?n < LOGSIZE" "int ?n = lh_n l" "length (lh_block l) = LOGSIZE" using ok log_okD(1) [OF ok] by (auto simp: log_ok_def)
  have p: "?i \<le> ?n" "?i < ?n \<longrightarrow> lh_block l ! ?i = snd k" "\<forall>j<?i. lh_block l ! j \<noteq> snd k"
    using log_pos_ok [of 0 "lh_block l" ?n "snd k"] n by auto
  have iff: "k \<in> logged l \<longleftrightarrow> ?i < ?n" unfolding logged_iff [OF k(2)] using p by (metis le_neq_implies_less)
  have "\<not> (lh_n l \<ge> int LOGSIZE \<or> lh_n l \<ge> log_size l - 1)" "\<not> outstanding l < 1" using n(1,2) out sp by linarith+
  moreover have "int ?i = lh_n l \<longleftrightarrow> \<not> ?i < ?n" using p(1) n(2) by linarith
  moreover have "?i < ?n \<Longrightarrow> (lh_block l)[?i := snd k] = lh_block l" using p(2) n by (metis list_update_id)
  moreover have "\<not> ?i < ?n \<Longrightarrow> ?i = ?n" using p(1) by simp
  ultimately show ?thesis unfolding log_write_def iff enlog_def k(1) Let_def by auto
qed

lemma enlog_ok:
  assumes ok: "log_ok l" and sp: "lh_n l < log_size l - 1" and k: "fst k = log_dev l" "\<not> in_log l k"
  shows "log_ok (enlog l k)" "logged (enlog l k) = insert k (logged l)" "in_log (enlog l k) = in_log l"
    "header_key (enlog l k) = header_key l" "log_dev (enlog l k) = log_dev l" "outstanding (enlog l k) = outstanding l"
    "log_size (enlog l k) = log_size l" "lh_n (enlog l k) \<le> lh_n l + 1"
proof -
  show "in_log (enlog l k) = in_log l" "header_key (enlog l k) = header_key l" "log_dev (enlog l k) = log_dev l"
    "outstanding (enlog l k) = outstanding l" "log_size (enlog l k) = log_size l" "lh_n (enlog l k) \<le> lh_n l + 1"
    by (auto simp: enlog_def)
  let ?n = "nat (lh_n l)"
  have n: "?n < LOGSIZE" "length (lh_block l) = LOGSIZE" "0 \<le> lh_n l" "log_size l \<le> int LOGSIZE"
    using ok log_okD(1) [OF ok] by (auto simp: log_ok_def)
  have n1: "nat (lh_n l + 1) = Suc ?n" using n(3) by simp
  have "k = (log_dev l, snd k)" using k(1) by (cases k) simp
  then have hm: "home (l\<lparr>lh_n := m, lh_block := (lh_block l)[?n := snd k]\<rparr>) i = (if i = ?n then k else home l i)" for m i
    using n by (auto simp: home_def nth_list_update)
  have set: "logged (enlog l k) = insert k (logged l)"
  proof (cases "k \<in> logged l")
    case True
    then show ?thesis by (auto simp: enlog_def)
  next
    case False
    have "logged (l\<lparr>lh_n := lh_n l + 1, lh_block := (lh_block l)[?n := snd k]\<rparr>) = insert k (logged l)"
      unfolding logged_def by (auto simp: hm n1 lessThan_Suc image_def)
    then show ?thesis using False by (simp add: enlog_def)
  qed
  then show "logged (enlog l k) = insert k (logged l)" .
  have "distinct (take (nat (lh_n (enlog l k))) (lh_block (enlog l k)))"
  proof (cases "k \<in> logged l")
    case True
    then show ?thesis using ok by (simp add: enlog_def log_ok_def)
  next
    case False
    then have "snd k \<notin> set (take ?n (lh_block l))"
      using logged_iff [OF k(1)] n by (auto simp: in_set_conv_nth)
    then have "distinct (take ?n (lh_block l) @ [snd k])" using ok by (simp add: log_ok_def)
    moreover have "take (Suc ?n) ((lh_block l)[?n := snd k]) = take ?n (lh_block l) @ [snd k]"
      using n by (simp add: take_Suc_conv_app_nth)
    ultimately show ?thesis using False by (simp add: enlog_def n1)
  qed
  moreover have "\<forall>j\<in>logged (enlog l k). \<not> in_log (enlog l k) j"
    unfolding set using ok k(2) by (auto simp: log_ok_def enlog_def)
  ultimately show "log_ok (enlog l k)"
    unfolding log_ok_def using ok sp n by (auto simp: log_ok_def enlog_def)
qed

lemma fs_write:
  assumes F: "fsc st l pid M f" and k: "M k = Some b" "fst k = log_dev l" "\<not> in_log l k" and d: "length d = BSIZE"
    and out: "1 \<le> outstanding l" and sp: "lh_n l < log_size l - 1"
  shows "yields (log_write l (set_data st b d) b) (\<lambda>(l1, s). l1 = enlog l k \<and> fsc s l1 pid M (f(k := d)))"
proof -
  let ?v = "view_of st"
  have inv: "log_inv l pid (dom M) ?v" and at: "buf_at st b k" and ok: "log_ok l" using F k by (auto simp: fsc_def log_inv_def)
  note e = enlog_ok [OF ok sp k(2,3)]
  have "lkd ?v k \<noteq> None" using log_inv_lk [OF inv, of k] k(1) by (simp add: domIff)
  note s = c_set_data [OF fsc_cache [OF F] at this, of d]
  have at1: "buf_at (set_data st b d) c j" if "M j = Some c" for c j by (rule fs_keeps [OF F s(2) that])
  have key: "key (bufs (set_data st b d) b) = k" using at1 [OF k(1)] by (simp add: buf_at_def)
  let ?s2 = "if k \<in> logged l then set_data st b d else bpin (set_data st b d) b"
  let ?v2 = "if k \<in> logged l then put k d ?v else pin k (put k d ?v)"
  have w: "log_write l (set_data st b d) b = ret (enlog l k, ?s2)"
    by (rule log_write_eq [OF ok out sp key k(2)])
  have p: "bc_inv (bpin (set_data st b d) b)" "view_of (bpin (set_data st b d) b) = pin k (put k d ?v)" "keeps (set_data st b d) (bpin (set_data st b d) b)"
    using bpin_ok [OF _ at1 [OF k(1)]] s(1) by (auto simp: cache_def)
  have c2: "bc_inv ?s2" "view_of ?s2 = ?v2" using s(1) p(1,2) by (auto simp: cache_def)
  have at2: "buf_at ?s2 c j" if "M j = Some c" for c j
  proof -
    have "0 < pn ?v j" using inv that by (auto simp: log_inv_def)
    then show ?thesis using c_keeps [OF p(3) s(1) at1 [OF that]] at1 [OF that] by (simp add: view_defs)
  qed
  have "header_key l \<noteq> k" using k(3) header_in [of l] by metis
  then have "log_inv (enlog l k) pid (dom M) ?v2"
    using inv e d k(1) unfolding log_inv_def by (auto simp: view_defs fun_eq_iff)
  then show ?thesis using F w c2 at2 by (auto simp: fsc_def view_defs)
qed

end
