(* ===== verification/LogSpec.thy ===== *)
theory LogSpec
  imports Log
begin

text \<open>
  What the log promises: a crash at any point of a commit is recovered to the state before or after it, and a
  transaction within the log's size is not refused.  The second does not hold at the limit that \<open>begin_op\<close> checks.
\<close>

section \<open>The disk after a crash\<close>

definition survives :: "log \<Rightarrow> nat \<Rightarrow> (blkno \<Rightarrow> block) \<Rightarrow> (blkno \<Rightarrow> block) \<Rightarrow> bool" where
  "survives l pid d f \<longleftrightarrow> (\<forall>l0. log_dev l0 = log_dev l \<and> log_start l0 = log_start l \<and> length (lh_block l0) = LOGSIZE \<longrightarrow>
     yields (recover_from_log l0 pid (boot d)) (\<lambda>(l1, s). lh_n l1 = 0 \<and> (\<forall>k. real k \<and> \<not> in_log l k \<longrightarrow> disk s k = f k)))"

lemma same_place:
  fixes l l0 :: log
  assumes "log_dev l0 = log_dev l" and "log_start l0 = log_start l"
  shows "in_log l0 = in_log l" "header_key l0 = header_key l" "log_key l0 = log_key l" "replay l0 = replay l"
  using assms by (auto simp: in_log_def header_key_def log_key_def replay_def fun_eq_iff)

lemma survivesI:
  assumes "log_dev l \<noteq> 0" and "says (d (header_key l)) n bs" and "0 \<le> n" "n < int LOGSIZE"
    and "\<forall>i<nat n. \<not> in_log l (log_dev l, bs ! i)"
    and "\<forall>k. real k \<and> \<not> in_log l k \<longrightarrow> after (replay l d bs (nat n)) d k = f k"
  shows "survives l pid d f"
  unfolding survives_def
proof (intro allI impI, elim conjE)
  fix l0 :: log
  assume l0: "log_dev l0 = log_dev l" "log_start l0 = log_start l" "length (lh_block l0) = LOGSIZE"
  note p = same_place [OF l0(1,2)]
  show "yields (recover_from_log l0 pid (boot d)) (\<lambda>(l1, s). lh_n l1 = 0 \<and> (\<forall>k. real k \<and> \<not> in_log l k \<longrightarrow> disk s k = f k))"
    using recover_ok [of l0 d n bs pid] assms l0 unfolding p by (auto elim!: yields_mono)
qed

lemma survives_empty:
  assumes "log_dev l \<noteq> 0" and "says (d (header_key l)) 0 bs" and "\<forall>k. real k \<and> \<not> in_log l k \<longrightarrow> d k = f k"
  shows "survives l pid d f"
  by (rule survivesI [where n = 0]) (use assms in \<open>auto simp: replay_def LOGSIZE_def\<close>)

lemma crash_point:
  assumes inv: "log_inv l pid {} v" and h: "says h1 (lh_n l) (lh_block l)" "says h2 0 (lh_block l)"
    and ws: "ws = log_writes l (ct v) @ [(header_key l, h1)] @ home_writes l (ct v) @ [(header_key l, h2)]"
    and j: "j \<le> length ws"
  shows "survives l pid (after (take j ws) (dk v)) (if j \<le> nat (lh_n l) then dk v else ct v)"
proof -
  let ?h = "header_key l" and ?n = "nat (lh_n l)"
  let ?w1 = "log_writes l (ct v)" and ?w2 = "home_writes l (ct v)"
  have ok: "log_ok l" and eq: "\<And>k. real k \<Longrightarrow> k \<notin> logged l \<Longrightarrow> ct v k = dk v k" using inv by (auto simp: log_inv_def)
  have dev: "log_dev l \<noteq> 0" using ok by (simp add: log_ok_def)
  have hd: "real ?h" "?h \<notin> logged l" using dev header_not_logged [OF ok] by auto
  have dh: "says (dk v ?h) 0 []" using inv eq [OF hd] hd by (auto simp: says_def log_inv_def)
  have l1: "length ?w1 = ?n" "length ?w2 = ?n" by (simp_all add: log_writes_def to_log_def home_writes_def)
  have w1h: "?h \<notin> fst ` set ?w1" using writes_keys(2) [OF ok] by blast
  have w1: "k \<notin> fst ` set ?w1" if "\<not> in_log l k" for k using writes_keys(2) [OF ok] that by blast
  have w2: "k \<notin> fst ` set ?w2" if "in_log l k" for k using writes_keys(1) [OF ok] that ok by (auto simp: log_ok_def)
  have ne: "k \<noteq> ?h" if "\<not> in_log l k" for k using that header_in [of l] by metis
  show ?thesis
  proof (cases "j \<le> ?n")
    case True
    then have t: "take j ws = take j ?w1" using l1 ws by simp
    have "survives l pid (after (take j ?w1) (dk v)) (dk v)"
      by (rule survives_empty [OF dev, of _ "[]"]) (use dh w1h w1 in \<open>auto simp: after_take_other\<close>)
    then show ?thesis using True t by simp
  next
    case False
    let ?D = "(after ?w1 (dk v))(?h := h1)" and ?m = "j - ?n - 1"
    have t: "after (take j ws) (dk v) = after (take ?m (?w2 @ [(?h, h2)])) ?D"
      using False l1 ws by (simp add: take_Cons')
    have Dk: "?D k = dk v k" if "\<not> in_log l k" for k using that ne w1 by (simp add: after_other)
    have full: "after ?w2 ?D k = ct v k" if "real k" "\<not> in_log l k" for k
      using writes_keys(4) [OF ok] Dk [OF that(2)] eq [OF that(1)] by simp
    show ?thesis
    proof (cases "?m \<le> ?n")
      case True
      let ?E = "after (take ?m ?w2) ?D"
      have E: "after (take j ws) (dk v) = ?E" unfolding t using True l1 by simp
      have Eh: "?E ?h = h1" using w2 [of ?h] by (simp add: after_take_other)
      have Ek: "?E (log_key l i) = ct v (home l i)" if "i < ?n" for i
        using that w2 [of "log_key l i"] log_okD(1) [OF ok] log_key_header [of i l] writes_keys(3) [OF ok that]
        by (simp add: after_take_other)
      have r: "replay l ?E (lh_block l) ?n = ?w2" using Ek by (auto simp: replay_def home_writes_def home_def)
      have "after ?w2 ?E k = ct v k" if "real k" "\<not> in_log l k" for k
      proof (cases "k \<in> logged l")
        case True
        then show ?thesis using writes_keys(4) [OF ok] by simp
      next
        case False
        then have "k \<notin> fst ` set ?w2" using writes_keys(1) [OF ok] by simp
        then show ?thesis using full [OF that] by (simp add: after_other after_take_other)
      qed
      then have "survives l pid ?E (ct v)"
        by (intro survivesI [OF dev, of _ "lh_n l" "lh_block l"])
          (use h Eh ok r in \<open>auto simp: log_ok_def logged_def home_def\<close>)
      then show ?thesis using E False by simp
    next
      case m: False
      then have E: "after (take j ws) (dk v) = (after ?w2 ?D)(?h := h2)" unfolding t using l1 by simp
      have "survives l pid ((after ?w2 ?D)(?h := h2)) (ct v)"
        by (rule survives_empty [OF dev, of _ "lh_block l"]) (use h full ne in auto)
      then show ?thesis using E False by simp
    qed
  qed
qed

section \<open>A log with one block\<close>

lemma boot_fsc:
  assumes "log_ok l" and "lh_n l = 0" and "\<forall>k. real k \<longrightarrow> length (d k) = BSIZE" and "rd32 (d (header_key l)) 0 = 0"
  shows "fsc (boot d) l pid Map.empty d"
proof -
  have "bc_inv (boot d)" "view_of (boot d) = fresh d" using boot_cache [of d] by (auto simp: cache_def)
  moreover have "log_inv l pid {} (fresh d)"
    using assms by (auto simp: log_inv_def fresh_def logged_def log_ok_def)
  ultimately show ?thesis by (simp add: fsc_def) (simp add: fresh_def)
qed

definition zeros :: "blkno \<Rightarrow> block" where
  "zeros k = replicate BSIZE 0"

definition log1 :: log where
  "log1 = log0\<lparr>log_start := 2, log_size := 30, outstanding := 1, log_dev := 1\<rparr>"

lemma log1_ok: "log_ok log1" "\<not> in_log log1 (1, 50)" "lh_n log1 = 0" "logged log1 = {}"
proof -
  have "(50 :: uint32) \<noteq> 2 + of_nat i" if "i < LOGSIZE" for i
  proof
    assume "(50 :: uint32) = 2 + of_nat i"
    then have "unat (of_nat i :: uint32) = 48" by (simp add: eq_diff_eq [symmetric])
    then show False using that by (simp add: unat_of_nat LOGSIZE_def take_bit_nat_def)
  qed
  then show "\<not> in_log log1 (1, 50)" by (auto simp: in_log_def log1_def)
qed (auto simp: log_ok_def log1_def log0_def LOGSIZE_def logged_def)

lemma zeros_fsc: "fsc (boot zeros) log1 1 Map.empty zeros"
  by (rule boot_fsc) (auto simp: log1_ok zeros_def rd32_def BSIZE_def)

lemma one_logged:
  "\<exists>st. fsc st (enlog log1 (1, 50)) 1 Map.empty (zeros((1, 50) := replicate BSIZE 1))"
proof -
  have r: "real (1, 50)" by (simp add: real_def)
  obtain b s1 where 1: "fsc s1 log1 1 [(1, 50) \<mapsto> b] zeros"
    using fs_bread [OF zeros_fsc r] by (auto simp: yields_def log1_ok NBUF_def)
  obtain s2 where 2: "fsc s2 (enlog log1 (1, 50)) 1 [(1, 50) \<mapsto> b] (zeros((1, 50) := replicate BSIZE 1))"
    using fs_write [OF 1, of "(1, 50)" b "replicate BSIZE 1"] log1_ok
    by (auto simp: yields_def log1_def log0_def)
  then show ?thesis using fs_brelse [OF 2, of "(1, 50)" b] by (auto simp: yields_def)
qed

section \<open>The contract of the log\<close>

text \<open>
  C1.  A commit is atomic: it returns, the blocks it has written are \<open>ws\<close> in order, and a restart after any prefix
  of these writes recovers every block outside the log to its contents before the transaction, when the header
  has not been written, and otherwise to its contents in the cache, for all blocks together.
\<close>

theorem log_crash_safe:
  assumes "bc_inv st" and "log_inv l pid {} (view_of st)" and "logstart sb = log_start l"
  shows "\<exists>l1 st1 ws. commit l pid st = ret (l1, st1) \<and> lh_n l1 = 0 \<and> trace st1 = trace st @ ws \<and> disk st1 = after ws (disk st) \<and>
     log_inv l1 pid {} (view_of st1) \<and> (\<forall>k. \<not> in_log l k \<longrightarrow> ct (view_of st1) k = ct (view_of st) k) \<and>
     (\<forall>j\<le>length ws. yields (initlog log0 pid (boot (after (take j ws) (disk st))) (log_dev l) sb) (\<lambda>(l2, st2). lh_n l2 = 0 \<and>
        (\<forall>k. real k \<and> \<not> in_log l k \<longrightarrow> disk st2 k = (if j \<le> nat (lh_n l) then disk st k else ct (view_of st) k))))"
proof -
  have restart: "yields (initlog log0 pid (boot d) (log_dev l) sb) (\<lambda>(l2, st2). lh_n l2 = 0 \<and>
      (\<forall>k. real k \<and> \<not> in_log l k \<longrightarrow> disk st2 k = f k))" if "survives l pid d f" for d f
    using that assms(3) by (simp add: survives_def initlog_def BSIZE_def LOGSIZE_def log0_def)
  have ok: "log_ok l" using assms(2) by (simp add: log_inv_def)
  show ?thesis
  proof (cases "lh_n l > 0")
    case True
    have c: "cache st (view_of st) (trace st)" using assms(1) by (simp add: cache_def)
    from commit_ok [OF c assms(2) True] obtain s h1 h2 where r: "commit l pid st = ret (l\<lparr>lh_n := 0\<rparr>, s)"
        "says h1 (lh_n l) (lh_block l)" "says h2 0 (lh_block l)"
        "trace s = trace st @ log_writes l (ct (view_of st)) @ [(header_key l, h1)] @ home_writes l (ct (view_of st)) @ [(header_key l, h2)]"
        "disk s = after (log_writes l (ct (view_of st)) @ [(header_key l, h1)] @ home_writes l (ct (view_of st)) @ [(header_key l, h2)]) (disk st)"
        "log_inv (l\<lparr>lh_n := 0\<rparr>) pid {} (view_of s)" "\<forall>k. \<not> in_log l k \<longrightarrow> ct (view_of s) k = ct (view_of st) k"
      by (auto simp: yields_def cache_def dk_disk)
    let ?ws = "log_writes l (ct (view_of st)) @ [(header_key l, h1)] @ home_writes l (ct (view_of st)) @ [(header_key l, h2)]"
    have "survives l pid (after (take j ?ws) (disk st)) (if j \<le> nat (lh_n l) then disk st else ct (view_of st))" if "j \<le> length ?ws" for j
      using crash_point [OF assms(2) r(2,3) refl that] by (simp only: dk_disk)
    then have "yields (initlog log0 pid (boot (after (take j ?ws) (disk st))) (log_dev l) sb) (\<lambda>(l2, st2). lh_n l2 = 0 \<and>
        (\<forall>k. real k \<and> \<not> in_log l k \<longrightarrow> disk st2 k = (if j \<le> nat (lh_n l) then disk st k else ct (view_of st) k)))" if "j \<le> length ?ws" for j
      using restart [of "after (take j ?ws) (disk st)" "if j \<le> nat (lh_n l) then disk st else ct (view_of st)"] that
      by (simp only: if_distribR)
    then show ?thesis using r by (intro exI [of _ "l\<lparr>lh_n := 0\<rparr>"] exI [of _ s] exI [of _ ?ws] conjI) auto
  next
    case False
    then have z: "lh_n l = 0" "logged l = {}" using ok by (auto simp: log_ok_def logged_def)
    have dev: "log_dev l \<noteq> 0" using ok by (simp add: log_ok_def)
    have hd: "real (header_key l)" "header_key l \<notin> logged l" using dev header_not_logged [OF ok] by auto
    have "ct (view_of st) (header_key l) = disk st (header_key l)" using assms(2) hd by (simp add: log_inv_def dk_disk)
    then have "says (disk st (header_key l)) 0 []" using assms(2) hd by (auto simp: says_def log_inv_def)
    then have "survives l pid (disk st) (disk st)" using survives_empty [OF dev] by blast
    then show ?thesis using restart [of "disk st" "disk st"] z assms(2) by (simp add: commit_def)
  qed
qed

theorem log_crash_safe_witness:
  "\<exists>l st sb l1 st1 ws. lh_n l = 1 \<and> commit l 1 st = ret (l1, st1) \<and> trace st1 = trace st @ ws \<and>
     (\<forall>j\<le>length ws. yields (initlog log0 1 (boot (after (take j ws) (disk st))) (log_dev l) sb) (\<lambda>(l2, st2).
        disk st2 (1, 50) = (if j \<le> 1 then disk st (1, 50) else replicate BSIZE 1)))"
proof -
  let ?l = "enlog log1 (1, 50)" and ?k = "(1, 50) :: blkno"
  let ?sb = "\<lparr>magic = 0, sb_size = 0, nblocks = 0, ninodes = 0, nlog = 30, logstart = 2, inodestart = 0, bmapstart = 0\<rparr>"
  obtain st where st: "fsc st ?l 1 Map.empty (zeros(?k := replicate BSIZE 1))" using one_logged by blast
  have inv: "bc_inv st" "log_inv ?l 1 {} (view_of st)" "ct (view_of st) ?k = replicate BSIZE 1" "real ?k"
    using st by (auto simp: fsc_def real_def)
  have l: "lh_n ?l = 1" "log_start ?l = 2" "\<not> in_log ?l ?k"
    using log1_ok enlog_ok(3) [OF log1_ok(1), of ?k] by (auto simp: enlog_def log1_def log0_def)
  obtain l1 st1 ws where w: "commit ?l 1 st = ret (l1, st1)" "trace st1 = trace st @ ws"
      "\<forall>j\<le>length ws. yields (initlog log0 1 (boot (after (take j ws) (disk st))) (log_dev ?l) ?sb) (\<lambda>(l2, st2). lh_n l2 = 0 \<and>
        (\<forall>k. real k \<and> \<not> in_log ?l k \<longrightarrow> disk st2 k = (if j \<le> nat (lh_n ?l) then disk st k else ct (view_of st) k)))"
    using log_crash_safe [OF inv(1,2), of ?sb] l(2) by auto
  have "\<forall>j\<le>length ws. yields (initlog log0 1 (boot (after (take j ws) (disk st))) (log_dev ?l) ?sb) (\<lambda>(l2, st2).
      disk st2 ?k = (if j \<le> 1 then disk st ?k else replicate BSIZE 1))"
    using w(3) l inv(3,4) by (fastforce elim!: yields_mono)
  then show ?thesis using w(1,2) l(1) by blast
qed



end
