(* ===== verification/Fs.thy ===== *)
theory Fs
  imports LogSpec CString
begin

text \<open>
  \<^verbatim>\<open>kernel/fs.c\<close>: blocks, inodes, directories and path names, over the buffer cache and the log.  The state \<open>fs\<close> has
  the super block, the inode table, the log and the cache; a pointer to an in-memory inode is its index in the
  table.  The sleep lock of an inode is the process that holds it, and a call that would wait for a lock has the
  outcome \<open>None\<close>.  The memory that \<open>readi\<close> and \<open>writei\<close> copy to and from is an argument: a function that does what
  \<^verbatim>\<open>either_copyout\<close> and \<^verbatim>\<open>either_copyin\<close> do at an offset from the given address, with the instances for a local
  variable of the kernel (\<open>kput\<close>, \<open>kget\<close>).  Loop counters that the code keeps below the size of the disk or of a
  file are natural numbers.  The messages that \<^verbatim>\<open>balloc\<close> and \<^verbatim>\<open>ialloc\<close> print are left out.
\<close>

section \<open>On-disk format\<close>

definition NDIRECT :: nat where
  "NDIRECT = 12"

definition NINDIRECT :: nat where
  "NINDIRECT = BSIZE div 4"

definition MAXFILE :: nat where
  "MAXFILE = NDIRECT + NINDIRECT"

definition IPB :: nat where
  "IPB = BSIZE div 64"

definition BPB :: nat where
  "BPB = BSIZE * 8"

definition NINODE :: nat where
  "NINODE = 50"

definition DIRSIZ :: nat where
  "DIRSIZ = 14"

definition FSMAGIC :: uint32 where
  "FSMAGIC = 0x10203040"

definition IBLOCK :: "uint32 \<Rightarrow> superblock \<Rightarrow> uint32" where
  "IBLOCK i s = of_nat (unat i div IPB) + inodestart s"

definition BBLOCK :: "nat \<Rightarrow> superblock \<Rightarrow> uint32" where
  "BBLOCK b s = of_nat (b div BPB) + bmapstart s"

record dinode =
  di_type :: uint16
  di_major :: uint16
  di_minor :: uint16
  di_nlink :: uint16
  di_size :: uint32
  di_addrs :: "uint32 list"

definition get_dinode :: "block \<Rightarrow> nat \<Rightarrow> dinode" where
  "get_dinode d p = \<lparr>di_type = rd16 d p, di_major = rd16 d (p + 2), di_minor = rd16 d (p + 4), di_nlink = rd16 d (p + 6),
     di_size = rd32 d (p + 8), di_addrs = map (\<lambda>i. rd32 d (p + 12 + 4 * i)) [0..<NDIRECT + 1]\<rparr>"

definition put_dinode :: "block \<Rightarrow> nat \<Rightarrow> dinode \<Rightarrow> block" where
  "put_dinode d p x =
     overwrite (overwrite (overwrite (overwrite (overwrite (overwrite d p (le16 (di_type x)))
       (p + 2) (le16 (di_major x))) (p + 4) (le16 (di_minor x))) (p + 6) (le16 (di_nlink x)))
       (p + 8) (le32 (di_size x))) (p + 12) (concat (map le32 (di_addrs x)))"

section \<open>State\<close>

record inode =
  idev :: uint32
  inum :: uint32
  ref :: int
  iholder :: "nat option"
  ivalid :: bool
  dino :: dinode

record fs =
  fs_sb :: superblock
  itable :: "inode list"
  flog :: log
  fbc :: bcache

definition upd_ip :: "fs \<Rightarrow> nat \<Rightarrow> (inode \<Rightarrow> inode) \<Rightarrow> fs" where
  "upd_ip s ip g = s\<lparr>itable := (itable s)[ip := g (itable s ! ip)]\<rparr>"

definition s_bread :: "fs \<Rightarrow> nat \<Rightarrow> blkno \<Rightarrow> (nat \<times> fs) outcome" where
  "s_bread s pid k = rbind (bread (fbc s) pid k) (\<lambda>(b, c). ret (b, s\<lparr>fbc := c\<rparr>))"

definition s_brelse :: "fs \<Rightarrow> nat \<Rightarrow> nat \<Rightarrow> fs outcome" where
  "s_brelse s pid b = rbind (brelse (fbc s) pid b) (\<lambda>c. ret (s\<lparr>fbc := c\<rparr>))"

definition s_data :: "fs \<Rightarrow> nat \<Rightarrow> block" where
  "s_data s b = data (bufs (fbc s) b)"

text \<open>New contents for a buffer, with the call of \<open>log_write\<close> that follows.\<close>

definition s_log_write :: "fs \<Rightarrow> nat \<Rightarrow> block \<Rightarrow> fs outcome" where
  "s_log_write s b d = rbind (log_write (flog s) (set_data (fbc s) b d) b) (\<lambda>(l, c). ret (s\<lparr>flog := l, fbc := c\<rparr>))"

section \<open>Blocks\<close>

definition get_sb :: "block \<Rightarrow> superblock" where
  "get_sb d = \<lparr>magic = rd32 d 0, sb_size = rd32 d 4, nblocks = rd32 d 8, ninodes = rd32 d 12, nlog = rd32 d 16,
     logstart = rd32 d 20, inodestart = rd32 d 24, bmapstart = rd32 d 28\<rparr>"

definition readsb :: "fs \<Rightarrow> nat \<Rightarrow> uint32 \<Rightarrow> fs outcome" where
  "readsb s pid dev =
     rbind (s_bread s pid (dev, 1)) (\<lambda>(bp, s1).
     s_brelse (s1\<lparr>fs_sb := get_sb (s_data s1 bp)\<rparr>) pid bp)"

definition fsinit :: "fs \<Rightarrow> nat \<Rightarrow> uint32 \<Rightarrow> fs outcome" where
  "fsinit s pid dev =
     rbind (readsb s pid dev) (\<lambda>s1.
     if magic (fs_sb s1) \<noteq> FSMAGIC then halt ''invalid file system''
     else rbind (initlog (flog s1) pid (fbc s1) dev (fs_sb s1)) (\<lambda>(l, c). ret (s1\<lparr>flog := l, fbc := c\<rparr>)))"

definition bzero :: "fs \<Rightarrow> nat \<Rightarrow> uint32 \<Rightarrow> uint32 \<Rightarrow> fs outcome" where
  "bzero s pid dev bno =
     rbind (s_bread s pid (dev, bno)) (\<lambda>(bp, s1).
     rbind (s_log_write s1 bp (replicate BSIZE 0)) (\<lambda>s2.
       s_brelse s2 pid bp))"

definition bit_free :: "block \<Rightarrow> nat \<Rightarrow> bool" where
  "bit_free d bi \<longleftrightarrow> d ! (bi div 8) AND push_bit (bi mod 8) 1 = 0"

definition mark_used :: "block \<Rightarrow> nat \<Rightarrow> block" where
  "mark_used d bi = d[bi div 8 := d ! (bi div 8) OR push_bit (bi mod 8) 1]"

definition mark_free :: "block \<Rightarrow> nat \<Rightarrow> block" where
  "mark_free d bi = d[bi div 8 := d ! (bi div 8) AND NOT (push_bit (bi mod 8) 1)]"

function scan_bits :: "block \<Rightarrow> nat \<Rightarrow> nat \<Rightarrow> nat \<Rightarrow> nat option" where
  "scan_bits d b sz bi =
     (if bi < BPB \<and> b + bi < sz then if bit_free d bi then Some bi else scan_bits d b sz (bi + 1) else None)"
  by pat_completeness auto
termination
  by (relation "measure (\<lambda>(d, b, sz, bi). BPB - bi)") auto

declare scan_bits.simps [simp del]

function balloc_from :: "fs \<Rightarrow> nat \<Rightarrow> uint32 \<Rightarrow> nat \<Rightarrow> nat \<Rightarrow> (uint32 \<times> fs) outcome" where
  "balloc_from s pid dev sz b =
     (if b < sz then
        rbind (s_bread s pid (dev, BBLOCK b (fs_sb s))) (\<lambda>(bp, s1).
        case scan_bits (s_data s1 bp) b sz 0 of
          Some bi \<Rightarrow>
            rbind (s_log_write s1 bp (mark_used (s_data s1 bp) bi)) (\<lambda>s2.
            rbind (s_brelse s2 pid bp) (\<lambda>s3.
            rbind (bzero s3 pid dev (of_nat (b + bi))) (\<lambda>s4.
              ret (of_nat (b + bi), s4))))
        | None \<Rightarrow> rbind (s_brelse s1 pid bp) (\<lambda>s2. balloc_from s2 pid dev sz (b + BPB)))
      else ret (0, s))"
  by pat_completeness auto
termination
  by (relation "measure (\<lambda>(s, pid, dev, sz, b). sz - b)") (auto simp: BPB_def BSIZE_def)

declare balloc_from.simps [simp del]

definition balloc :: "fs \<Rightarrow> nat \<Rightarrow> uint32 \<Rightarrow> (uint32 \<times> fs) outcome" where
  "balloc s pid dev = balloc_from s pid dev (unat (sb_size (fs_sb s))) 0"

definition bfree :: "fs \<Rightarrow> nat \<Rightarrow> uint32 \<Rightarrow> uint32 \<Rightarrow> fs outcome" where
  "bfree s pid dev b =
     rbind (s_bread s pid (dev, BBLOCK (unat b) (fs_sb s))) (\<lambda>(bp, s1).
     let bi = unat b mod BPB in
     if bit_free (s_data s1 bp) bi then halt ''freeing free block''
     else rbind (s_log_write s1 bp (mark_free (s_data s1 bp) bi)) (\<lambda>s2. s_brelse s2 pid bp))"

section \<open>Inodes\<close>

definition iinit :: "fs \<Rightarrow> fs" where
  "iinit s = s\<lparr>itable := map (\<lambda>x. x\<lparr>iholder := None\<rparr>) (itable s)\<rparr>"

text \<open>The search of \<open>iget\<close>: the entry of the inode, or the first unused one if there is none.\<close>

fun iget_scan :: "inode list \<Rightarrow> uint32 \<Rightarrow> uint32 \<Rightarrow> nat \<Rightarrow> nat option \<Rightarrow> nat option \<times> nat option" where
  "iget_scan [] dev ino i emp = (None, emp)"
| "iget_scan (x # xs) dev ino i emp =
     (if ref x > 0 \<and> idev x = dev \<and> inum x = ino then (Some i, emp)
      else iget_scan xs dev ino (i + 1) (if emp = None \<and> ref x = 0 then Some i else emp))"

definition iget :: "fs \<Rightarrow> uint32 \<Rightarrow> uint32 \<Rightarrow> (nat \<times> fs) outcome" where
  "iget s dev ino =
     (case iget_scan (itable s) dev ino 0 None of
        (Some ip, _) \<Rightarrow> ret (ip, upd_ip s ip (\<lambda>x. x\<lparr>ref := ref x + 1\<rparr>))
      | (None, None) \<Rightarrow> halt ''iget: no inodes''
      | (None, Some ip) \<Rightarrow> ret (ip, upd_ip s ip (\<lambda>x. x\<lparr>idev := dev, inum := ino, ref := 1, ivalid := False\<rparr>)))"

definition dinode_off :: "uint32 \<Rightarrow> nat" where
  "dinode_off ino = unat ino mod IPB * 64"

definition zero_dinode :: "uint16 \<Rightarrow> dinode" where
  "zero_dinode type = \<lparr>di_type = type, di_major = 0, di_minor = 0, di_nlink = 0, di_size = 0, di_addrs = replicate (NDIRECT + 1) 0\<rparr>"

text \<open>\<^verbatim>\<open>ialloc\<close> from inode \<open>ino\<close> with \<open>m\<close> inodes left to look at.\<close>

fun ialloc_from :: "fs \<Rightarrow> nat \<Rightarrow> uint32 \<Rightarrow> uint16 \<Rightarrow> nat \<Rightarrow> nat \<Rightarrow> (nat option \<times> fs) outcome" where
  "ialloc_from s pid dev type ino 0 = ret (None, s)"
| "ialloc_from s pid dev type ino (Suc m) =
     rbind (s_bread s pid (dev, IBLOCK (of_nat ino) (fs_sb s))) (\<lambda>(bp, s1).
     if di_type (get_dinode (s_data s1 bp) (dinode_off (of_nat ino))) = 0 then
       rbind (s_log_write s1 bp (put_dinode (s_data s1 bp) (dinode_off (of_nat ino)) (zero_dinode type))) (\<lambda>s2.
       rbind (s_brelse s2 pid bp) (\<lambda>s3.
       rbind (iget s3 dev (of_nat ino)) (\<lambda>(ip, s4). ret (Some ip, s4))))
     else rbind (s_brelse s1 pid bp) (\<lambda>s2. ialloc_from s2 pid dev type (ino + 1) m))"

definition ialloc :: "fs \<Rightarrow> nat \<Rightarrow> uint32 \<Rightarrow> uint16 \<Rightarrow> (nat option \<times> fs) outcome" where
  "ialloc s pid dev type = ialloc_from s pid dev type 1 (unat (ninodes (fs_sb s)) - 1)"

definition iupdate :: "fs \<Rightarrow> nat \<Rightarrow> nat \<Rightarrow> fs outcome" where
  "iupdate s pid ip =
     (let x = itable s ! ip in
      rbind (s_bread s pid (idev x, IBLOCK (inum x) (fs_sb s))) (\<lambda>(bp, s1).
      rbind (s_log_write s1 bp (put_dinode (s_data s1 bp) (dinode_off (inum x)) (dino x))) (\<lambda>s2.
        s_brelse s2 pid bp)))"

definition idup :: "fs \<Rightarrow> nat \<Rightarrow> fs" where
  "idup s ip = upd_ip s ip (\<lambda>x. x\<lparr>ref := ref x + 1\<rparr>)"

definition ilock :: "fs \<Rightarrow> nat \<Rightarrow> nat \<Rightarrow> fs outcome" where
  "ilock s pid ip =
     (if ref (itable s ! ip) < 1 then halt ''ilock''
      else if iholder (itable s ! ip) \<noteq> None then None
      else let s1 = upd_ip s ip (\<lambda>x. x\<lparr>iholder := Some pid\<rparr>); x = itable s1 ! ip
           in if \<not> ivalid x then
                rbind (s_bread s1 pid (idev x, IBLOCK (inum x) (fs_sb s1))) (\<lambda>(bp, s2).
                let d = get_dinode (s_data s2 bp) (dinode_off (inum x)) in
                rbind (s_brelse (upd_ip s2 ip (\<lambda>x. x\<lparr>dino := d\<rparr>)) pid bp) (\<lambda>s3.
                let s4 = upd_ip s3 ip (\<lambda>x. x\<lparr>ivalid := True\<rparr>) in
                if di_type (dino (itable s4 ! ip)) = 0 then halt ''ilock: no type'' else ret s4))
              else ret s1)"

definition iunlock :: "fs \<Rightarrow> nat \<Rightarrow> nat \<Rightarrow> fs outcome" where
  "iunlock s pid ip =
     (if iholder (itable s ! ip) \<noteq> Some pid \<or> ref (itable s ! ip) < 1 then halt ''iunlock''
      else ret (upd_ip s ip (\<lambda>x. x\<lparr>iholder := None\<rparr>)))"

section \<open>Inode content\<close>

definition set_addr :: "fs \<Rightarrow> nat \<Rightarrow> nat \<Rightarrow> uint32 \<Rightarrow> fs" where
  "set_addr s ip i a = upd_ip s ip (\<lambda>x. x\<lparr>dino := (dino x)\<lparr>di_addrs := (di_addrs (dino x))[i := a]\<rparr>\<rparr>)"

definition addr_of :: "fs \<Rightarrow> nat \<Rightarrow> nat \<Rightarrow> uint32" where
  "addr_of s ip i = di_addrs (dino (itable s ! ip)) ! i"

text \<open>The entry \<open>i\<close> of the address array, allocated if it is 0; the common start of the two cases of \<open>bmap\<close>.\<close>

definition bmap_entry :: "fs \<Rightarrow> nat \<Rightarrow> nat \<Rightarrow> nat \<Rightarrow> (uint32 \<times> fs) outcome" where
  "bmap_entry s pid ip i =
     (if addr_of s ip i = 0 then
        rbind (balloc s pid (idev (itable s ! ip))) (\<lambda>(addr, s1).
          ret (addr, if addr = 0 then s1 else set_addr s1 ip i addr))
      else ret (addr_of s ip i, s))"

definition bmap :: "fs \<Rightarrow> nat \<Rightarrow> nat \<Rightarrow> nat \<Rightarrow> (uint32 \<times> fs) outcome" where
  "bmap s pid ip bn =
     (if bn < NDIRECT then bmap_entry s pid ip bn
      else if bn - NDIRECT < NINDIRECT then
        rbind (bmap_entry s pid ip NDIRECT) (\<lambda>(addr, s1).
        if addr = 0 then ret (0, s1)
        else
          rbind (s_bread s1 pid (idev (itable s1 ! ip), addr)) (\<lambda>(bp, s2).
          let a = rd32 (s_data s2 bp) (4 * (bn - NDIRECT)) in
          if a = 0 then
            rbind (balloc s2 pid (idev (itable s2 ! ip))) (\<lambda>(a1, s3).
            rbind (if a1 \<noteq> 0 then s_log_write s3 bp (overwrite (s_data s3 bp) (4 * (bn - NDIRECT)) (le32 a1)) else ret s3) (\<lambda>s4.
            rbind (s_brelse s4 pid bp) (\<lambda>s5. ret (a1, s5))))
          else rbind (s_brelse s2 pid bp) (\<lambda>s3. ret (a, s3))))
      else halt ''bmap: out of range'')"

fun itrunc_direct :: "fs \<Rightarrow> nat \<Rightarrow> nat \<Rightarrow> nat \<Rightarrow> nat \<Rightarrow> fs outcome" where
  "itrunc_direct s pid ip i 0 = ret s"
| "itrunc_direct s pid ip i (Suc m) =
     rbind (if addr_of s ip i \<noteq> 0
            then rbind (bfree s pid (idev (itable s ! ip)) (addr_of s ip i)) (\<lambda>s1. ret (set_addr s1 ip i 0))
            else ret s) (\<lambda>s2.
     itrunc_direct s2 pid ip (i + 1) m)"

fun itrunc_indirect :: "fs \<Rightarrow> nat \<Rightarrow> nat \<Rightarrow> nat \<Rightarrow> nat \<Rightarrow> nat \<Rightarrow> fs outcome" where
  "itrunc_indirect s pid ip bp j 0 = ret s"
| "itrunc_indirect s pid ip bp j (Suc m) =
     (let a = rd32 (s_data s bp) (4 * j) in
      rbind (if a \<noteq> 0 then bfree s pid (idev (itable s ! ip)) a else ret s) (\<lambda>s1.
      itrunc_indirect s1 pid ip bp (j + 1) m))"

definition itrunc :: "fs \<Rightarrow> nat \<Rightarrow> nat \<Rightarrow> fs outcome" where
  "itrunc s pid ip =
     rbind (itrunc_direct s pid ip 0 NDIRECT) (\<lambda>s1.
     rbind (if addr_of s1 ip NDIRECT \<noteq> 0 then
              rbind (s_bread s1 pid (idev (itable s1 ! ip), addr_of s1 ip NDIRECT)) (\<lambda>(bp, s2).
              rbind (itrunc_indirect s2 pid ip bp 0 NINDIRECT) (\<lambda>s3.
              rbind (s_brelse s3 pid bp) (\<lambda>s4.
              rbind (bfree s4 pid (idev (itable s4 ! ip)) (addr_of s4 ip NDIRECT)) (\<lambda>s5.
                ret (set_addr s5 ip NDIRECT 0)))))
            else ret s1) (\<lambda>s6.
     iupdate (upd_ip s6 ip (\<lambda>x. x\<lparr>dino := (dino x)\<lparr>di_size := 0\<rparr>\<rparr>)) pid ip))"

definition iput :: "fs \<Rightarrow> nat \<Rightarrow> nat \<Rightarrow> fs outcome" where
  "iput s pid ip =
     (let x = itable s ! ip in
      rbind (if ref x = 1 \<and> ivalid x \<and> di_nlink (dino x) = 0 then
               if iholder x \<noteq> None then None
               else
                 rbind (itrunc (upd_ip s ip (\<lambda>x. x\<lparr>iholder := Some pid\<rparr>)) pid ip) (\<lambda>s1.
                 rbind (iupdate (upd_ip s1 ip (\<lambda>x. x\<lparr>dino := (dino x)\<lparr>di_type := 0\<rparr>\<rparr>)) pid ip) (\<lambda>s2.
                   ret (upd_ip s2 ip (\<lambda>x. x\<lparr>ivalid := False, iholder := None\<rparr>))))
             else ret s) (\<lambda>s3.
      ret (upd_ip s3 ip (\<lambda>x. x\<lparr>ref := ref x - 1\<rparr>))))"

definition iunlockput :: "fs \<Rightarrow> nat \<Rightarrow> nat \<Rightarrow> fs outcome" where
  "iunlockput s pid ip = rbind (iunlock s pid ip) (\<lambda>s1. iput s1 pid ip)"

record stat =
  st_dev :: uint32
  st_ino :: uint32
  st_type :: uint16
  st_nlink :: uint16
  st_size :: uint64

definition stati :: "fs \<Rightarrow> nat \<Rightarrow> stat" where
  "stati s ip = (let x = itable s ! ip in
     \<lparr>st_dev = idev x, st_ino = inum x, st_type = di_type (dino x), st_nlink = di_nlink (dino x), st_size = ucast (di_size (dino x))\<rparr>)"

text \<open>
  Copying to and from memory.  \<open>cp m i bs\<close> is \<^verbatim>\<open>either_copyout\<close> of \<open>bs\<close> to the address plus \<open>i\<close>: whether it succeeds, and
  the memory after it.  \<open>cp m i n\<close> is \<^verbatim>\<open>either_copyin\<close> of \<open>n\<close> bytes from the address plus \<open>i\<close>: whether it succeeds, and
  the bytes it stored, which are fewer than \<open>n\<close> when it fails after a part.
\<close>

type_synonym 'm cpout = "'m \<Rightarrow> nat \<Rightarrow> byte list \<Rightarrow> bool \<times> 'm"
type_synonym 'm cpin = "'m \<Rightarrow> nat \<Rightarrow> nat \<Rightarrow> bool \<times> byte list"

definition kput :: "byte list cpout" where
  "kput m i bs = (True, overwrite m i bs)"

definition kget :: "byte list cpin" where
  "kget m i n = (True, take n (drop i m))"

definition chunk :: "nat \<Rightarrow> nat \<Rightarrow> nat \<Rightarrow> nat" where
  "chunk n tot off = min (n - tot) (BSIZE - off mod BSIZE)"

lemma chunk_pos: "tot < n \<Longrightarrow> 0 < chunk n tot off"
  by (simp add: chunk_def BSIZE_def)

function readi_loop :: "'m cpout \<Rightarrow> fs \<Rightarrow> nat \<Rightarrow> nat \<Rightarrow> 'm \<Rightarrow> nat \<Rightarrow> nat \<Rightarrow> nat \<Rightarrow> (int \<times> 'm \<times> fs) outcome" where
  "readi_loop cp s pid ip m off n tot =
     (if tot < n then
        rbind (bmap s pid ip (off div BSIZE)) (\<lambda>(addr, s1).
        if addr = 0 then ret (int tot, m, s1)
        else
          rbind (s_bread s1 pid (idev (itable s1 ! ip), addr)) (\<lambda>(bp, s2).
          case cp m tot (take (chunk n tot off) (drop (off mod BSIZE) (s_data s2 bp))) of (ok, m1) \<Rightarrow>
            if \<not> ok then rbind (s_brelse s2 pid bp) (\<lambda>s3. ret (-1, m1, s3))
            else rbind (s_brelse s2 pid bp) (\<lambda>s3.
              readi_loop cp s3 pid ip m1 (off + chunk n tot off) n (tot + chunk n tot off))))
      else ret (int tot, m, s))"
  by pat_completeness auto
termination
  by (relation "measure (\<lambda>(cp, s, pid, ip, m, off, n, tot). n - tot)") (auto simp: chunk_pos diff_less_mono2)

declare readi_loop.simps [simp del]

definition isize :: "fs \<Rightarrow> nat \<Rightarrow> uint32" where
  "isize s ip = di_size (dino (itable s ! ip))"

definition readi :: "'m cpout \<Rightarrow> fs \<Rightarrow> nat \<Rightarrow> nat \<Rightarrow> 'm \<Rightarrow> uint32 \<Rightarrow> uint32 \<Rightarrow> (int \<times> 'm \<times> fs) outcome" where
  "readi cp s pid ip m off n =
     (if off > isize s ip \<or> off + n < off then ret (0, m, s)
      else let n1 = (if off + n > isize s ip then isize s ip - off else n)
           in readi_loop cp s pid ip m (unat off) (unat n1) 0)"

text \<open>The loop of \<open>writei\<close> returns the number of bytes written; a failed copy leaves what it stored in the buffer.\<close>

function writei_loop :: "'m cpin \<Rightarrow> fs \<Rightarrow> nat \<Rightarrow> nat \<Rightarrow> 'm \<Rightarrow> nat \<Rightarrow> nat \<Rightarrow> nat \<Rightarrow> (nat \<times> fs) outcome" where
  "writei_loop cp s pid ip m off n tot =
     (if tot < n then
        rbind (bmap s pid ip (off div BSIZE)) (\<lambda>(addr, s1).
        if addr = 0 then ret (tot, s1)
        else
          rbind (s_bread s1 pid (idev (itable s1 ! ip), addr)) (\<lambda>(bp, s2).
          case cp m tot (chunk n tot off) of (ok, bs) \<Rightarrow>
            let d = overwrite (s_data s2 bp) (off mod BSIZE) bs in
            if \<not> ok then rbind (s_brelse (s2\<lparr>fbc := set_data (fbc s2) bp d\<rparr>) pid bp) (\<lambda>s3. ret (tot, s3))
            else
              rbind (s_log_write s2 bp d) (\<lambda>s3.
              rbind (s_brelse s3 pid bp) (\<lambda>s4.
                writei_loop cp s4 pid ip m (off + chunk n tot off) n (tot + chunk n tot off)))))
      else ret (tot, s))"
  by pat_completeness auto
termination
  by (relation "measure (\<lambda>(cp, s, pid, ip, m, off, n, tot). n - tot)") (auto simp: chunk_pos diff_less_mono2)

declare writei_loop.simps [simp del]

definition writei :: "'m cpin \<Rightarrow> fs \<Rightarrow> nat \<Rightarrow> nat \<Rightarrow> 'm \<Rightarrow> uint32 \<Rightarrow> uint32 \<Rightarrow> (int \<times> fs) outcome" where
  "writei cp s pid ip m off n =
     (if off > isize s ip \<or> off + n < off then ret (-1, s)
      else if unat (off + n) > MAXFILE * BSIZE then ret (-1, s)
      else
        rbind (writei_loop cp s pid ip m (unat off) (unat n) 0) (\<lambda>(tot, s1).
        let s2 = (if off + of_nat tot > isize s1 ip
                  then upd_ip s1 ip (\<lambda>x. x\<lparr>dino := (dino x)\<lparr>di_size := off + of_nat tot\<rparr>\<rparr>) else s1)
        in rbind (iupdate s2 pid ip) (\<lambda>s3. ret (int tot, s3))))"

section \<open>Directories\<close>

definition T_DIR :: uint16 where
  "T_DIR = 1"

definition namecmp :: "byte list \<Rightarrow> byte list \<Rightarrow> int" where
  "namecmp s t = strncmp (\<lambda>a. if a < DIRSIZ then s ! a else t ! (a - DIRSIZ)) 0 DIRSIZ DIRSIZ"

text \<open>The name field of an entry after \<^verbatim>\<open>strncpy(de.name, name, DIRSIZ)\<close>.\<close>

definition strncpy_name :: "byte list \<Rightarrow> byte list \<Rightarrow> byte list" where
  "strncpy_name dst src =
     (let m = strncpy (\<lambda>a. if a < DIRSIZ then dst ! a else src ! (a - DIRSIZ)) 0 DIRSIZ (int DIRSIZ)
      in map m [0..<DIRSIZ])"

text \<open>A directory entry is 16 bytes, the inode number and the name.  \<open>sz\<close> is \<^verbatim>\<open>dp->size\<close>, which the loop does not change.\<close>

function dirlookup_loop :: "fs \<Rightarrow> nat \<Rightarrow> nat \<Rightarrow> byte list \<Rightarrow> byte list \<Rightarrow> nat \<Rightarrow> nat \<Rightarrow> ((nat \<times> nat) option \<times> fs) outcome" where
  "dirlookup_loop s pid dp name de sz off =
     (if off < sz then
        rbind (readi kput s pid dp de (of_nat off) 16) (\<lambda>(r, de1, s1).
        if r \<noteq> 16 then halt ''dirlookup read''
        else if rd16 de1 0 = 0 then dirlookup_loop s1 pid dp name de1 sz (off + 16)
        else if namecmp name (drop 2 de1) = 0 then
          rbind (iget s1 (idev (itable s1 ! dp)) (ucast (rd16 de1 0))) (\<lambda>(ip, s2). ret (Some (ip, off), s2))
        else dirlookup_loop s1 pid dp name de1 sz (off + 16))
      else ret (None, s))"
  by pat_completeness auto
termination
  by (relation "measure (\<lambda>(s, pid, dp, name, de, sz, off). sz - off)") auto

declare dirlookup_loop.simps [simp del]

definition dirlookup :: "fs \<Rightarrow> nat \<Rightarrow> nat \<Rightarrow> byte list \<Rightarrow> ((nat \<times> nat) option \<times> fs) outcome" where
  "dirlookup s pid dp name =
     (if di_type (dino (itable s ! dp)) \<noteq> T_DIR then halt ''dirlookup not DIR''
      else dirlookup_loop s pid dp name (replicate 16 0) (unat (isize s dp)) 0)"

function dirlink_loop :: "fs \<Rightarrow> nat \<Rightarrow> nat \<Rightarrow> byte list \<Rightarrow> nat \<Rightarrow> nat \<Rightarrow> (nat \<times> byte list \<times> fs) outcome" where
  "dirlink_loop s pid dp de sz off =
     (if off < sz then
        rbind (readi kput s pid dp de (of_nat off) 16) (\<lambda>(r, de1, s1).
        if r \<noteq> 16 then halt ''dirlink read''
        else if rd16 de1 0 = 0 then ret (off, de1, s1)
        else dirlink_loop s1 pid dp de1 sz (off + 16))
      else ret (off, de, s))"
  by pat_completeness auto
termination
  by (relation "measure (\<lambda>(s, pid, dp, de, sz, off). sz - off)") auto

declare dirlink_loop.simps [simp del]

definition dirlink :: "fs \<Rightarrow> nat \<Rightarrow> nat \<Rightarrow> byte list \<Rightarrow> uint32 \<Rightarrow> (int \<times> fs) outcome" where
  "dirlink s pid dp name ino =
     rbind (dirlookup s pid dp name) (\<lambda>(r, s1).
     case r of
       Some (ip, off) \<Rightarrow> rbind (iput s1 pid ip) (\<lambda>s2. ret (-1, s2))
     | None \<Rightarrow>
         rbind (dirlink_loop s1 pid dp (replicate 16 0) (unat (isize s1 dp)) 0) (\<lambda>(off, de, s2).
         rbind (writei kget s2 pid dp (le16 (ucast ino) @ strncpy_name (drop 2 de) name) (of_nat off) 16) (\<lambda>(w, s3).
           ret (if w \<noteq> 16 then -1 else 0, s3))))"

section \<open>Paths\<close>

abbreviation SLASH :: byte where
  "SLASH \<equiv> 47"

text \<open>A path is the bytes of the string before its terminator, a name the array of \<open>DIRSIZ\<close> bytes.\<close>

definition skipelem :: "byte list \<Rightarrow> byte list \<Rightarrow> (byte list \<times> byte list) option" where
  "skipelem path name =
     (let p1 = dropWhile (\<lambda>c. c = SLASH) path
      in if p1 = [] then None
         else let elem = takeWhile (\<lambda>c. c \<noteq> SLASH) p1;
                  p2 = dropWhile (\<lambda>c. c \<noteq> SLASH) p1;
                  name1 = (if length elem \<ge> DIRSIZ then overwrite name 0 (take DIRSIZ elem)
                           else (overwrite name 0 elem)[length elem := 0])
              in Some (dropWhile (\<lambda>c. c = SLASH) p2, name1))"

lemma skipelem_shorter: "skipelem path name = Some (path1, name1) \<Longrightarrow> length path1 < length path"
proof -
  assume a: "skipelem path name = Some (path1, name1)"
  let ?p1 = "dropWhile (\<lambda>c. c = SLASH) path"
  have ne: "?p1 \<noteq> []" and eq: "path1 = dropWhile (\<lambda>c. c = SLASH) (dropWhile (\<lambda>c. c \<noteq> SLASH) ?p1)"
    using a by (auto simp: skipelem_def Let_def split: if_splits)
  have "hd ?p1 \<noteq> SLASH" using hd_dropWhile [OF ne] by simp
  then have "length (dropWhile (\<lambda>c. c \<noteq> SLASH) ?p1) < length ?p1"
    using ne by (cases ?p1) (auto simp: less_Suc_eq_le length_dropWhile_le)
  moreover have "length path1 \<le> length (dropWhile (\<lambda>c. c \<noteq> SLASH) ?p1)" "length ?p1 \<le> length path"
    unfolding eq by (rule length_dropWhile_le)+
  ultimately show ?thesis by simp
qed

function namex_loop :: "fs \<Rightarrow> nat \<Rightarrow> nat \<Rightarrow> bool \<Rightarrow> byte list \<Rightarrow> byte list \<Rightarrow> (nat option \<times> byte list \<times> fs) outcome" where
  "namex_loop s pid ip nameiparent path name =
     (case skipelem path name of
        None \<Rightarrow> if nameiparent then rbind (iput s pid ip) (\<lambda>s1. ret (None, name, s1)) else ret (Some ip, name, s)
      | Some (path1, name1) \<Rightarrow>
          rbind (ilock s pid ip) (\<lambda>s1.
          if di_type (dino (itable s1 ! ip)) \<noteq> T_DIR then rbind (iunlockput s1 pid ip) (\<lambda>s2. ret (None, name1, s2))
          else if nameiparent \<and> path1 = [] then rbind (iunlock s1 pid ip) (\<lambda>s2. ret (Some ip, name1, s2))
          else
            rbind (dirlookup s1 pid ip name1) (\<lambda>(r, s2).
            case r of
              None \<Rightarrow> rbind (iunlockput s2 pid ip) (\<lambda>s3. ret (None, name1, s3))
            | Some (nxt, off) \<Rightarrow>
                rbind (iunlockput s2 pid ip) (\<lambda>s3. namex_loop s3 pid nxt nameiparent path1 name1))))"
  by pat_completeness auto
termination
  by (relation "measure (\<lambda>(s, pid, ip, nameiparent, path, name). length path)") (auto dest: skipelem_shorter)

declare namex_loop.simps [simp del]

definition namex :: "fs \<Rightarrow> nat \<Rightarrow> nat \<Rightarrow> byte list \<Rightarrow> bool \<Rightarrow> byte list \<Rightarrow> (nat option \<times> byte list \<times> fs) outcome" where
  "namex s pid cwd path nameiparent name =
     (if path \<noteq> [] \<and> hd path = SLASH
      then rbind (iget s 1 1) (\<lambda>(ip, s1). namex_loop s1 pid ip nameiparent path name)
      else namex_loop (idup s cwd) pid cwd nameiparent path name)"

definition namei :: "fs \<Rightarrow> nat \<Rightarrow> nat \<Rightarrow> byte list \<Rightarrow> (nat option \<times> fs) outcome" where
  "namei s pid cwd path =
     rbind (namex s pid cwd path False (replicate DIRSIZ 0)) (\<lambda>(r, name, s1). ret (r, s1))"

definition nameiparent :: "fs \<Rightarrow> nat \<Rightarrow> nat \<Rightarrow> byte list \<Rightarrow> byte list \<Rightarrow> (nat option \<times> byte list \<times> fs) outcome" where
  "nameiparent s pid cwd path name = namex s pid cwd path True name"

end
