(* ===== verification/FsAlloc.thy ===== *)
theory FsAlloc
  imports Fs
begin

text \<open>
  The block layer of the file system: the assertion \<open>good\<close> under which file system code runs, the laws of buffer
  accesses under it, and the correctness of \<open>balloc\<close>, \<open>bzero\<close> and \<open>bfree\<close> on the free bitmap.
\<close>

section \<open>The state of a running operation\<close>

text \<open>The order of the areas on the disk; \<open>ls\<close> is the first block of the log.\<close>

definition meta :: "superblock \<Rightarrow> nat" where
  "meta sb = unat (bmapstart sb) + unat (sb_size sb) div BPB + 1"

definition layout :: "superblock \<Rightarrow> uint32 \<Rightarrow> bool" where
  "layout sb ls \<longleftrightarrow> unat ls + LOGSIZE \<le> unat (inodestart sb) \<and>
     unat (inodestart sb) + unat (ninodes sb) div IPB + 1 \<le> unat (bmapstart sb) \<and>
     meta sb \<le> unat (sb_size sb) \<and> unat (sb_size sb) < 2 ^ 31"

text \<open>
  In a transaction of process \<open>pid\<close> on device \<open>dev\<close> with room for \<open>m\<close> more calls of \<open>log_write\<close>: \<open>M\<close> are the buffers it
  holds, \<open>f\<close> the contents of the blocks and \<open>it\<close> the inode table.
\<close>

definition good :: "superblock \<Rightarrow> uint32 \<Rightarrow> nat \<Rightarrow> nat \<Rightarrow> (blkno \<rightharpoonup> nat) \<Rightarrow> (blkno \<Rightarrow> block) \<Rightarrow> inode list \<Rightarrow> fs \<Rightarrow> bool" where
  "good sb dev pid m M f it s \<longleftrightarrow> fs_sb s = sb \<and> itable s = it \<and> log_dev (flog s) = dev \<and> layout sb (log_start (flog s)) \<and>
     fsc (fbc s) (flog s) pid M f \<and> (0 < m \<longrightarrow> 1 \<le> outstanding (flog s)) \<and> lh_n (flog s) + int m < log_size (flog s)"

lemma good_dev: "good sb dev pid m M f it s \<Longrightarrow> dev \<noteq> 0"
  by (auto simp: good_def fsc_def log_inv_def log_ok_def)

lemma good_table: "good sb dev pid m M f it s \<Longrightarrow> itable s = it" "good sb dev pid m M f it s \<Longrightarrow> fs_sb s = sb"
  by (auto simp: good_def)

lemma good_len: "good sb dev pid m M f it s \<Longrightarrow> length (f (dev, b)) = BSIZE"
  using good_dev [of sb dev pid m M f it s] by (auto simp: good_def fsc_def log_inv_def real_def)

lemma good_layout: "good sb dev pid m M f it s \<Longrightarrow> layout sb (log_start (flog s))"
  by (simp add: good_def)

lemma good_less: "good sb dev pid m M f it s \<Longrightarrow> m1 \<le> m \<Longrightarrow> good sb dev pid m1 M f it s"
  by (auto simp: good_def)

lemma good_upd_ip:
  "good sb dev pid m M f it s \<Longrightarrow> good sb dev pid m M f (it[ip := g (it ! ip)]) (upd_ip s ip g)"
  by (simp add: good_def upd_ip_def)

lemma g_data: "good sb dev pid m M f it s \<Longrightarrow> M k = Some bp \<Longrightarrow> s_data s bp = f k"
  using fs_data [of "fbc s" "flog s" pid M f k bp] by (auto simp: good_def s_data_def)

lemma g_bread:
  assumes g: "good sb dev pid m M f it s" and k: "M (dev, b) = None" and c: "card (dom M) \<le> m"
  shows "yields (s_bread s pid (dev, b)) (\<lambda>(bp, s1). good sb dev pid m (M((dev, b) \<mapsto> bp)) f it s1 \<and> s_data s1 bp = f (dev, b))"
proof -
  have F: "fsc (fbc s) (flog s) pid M f" and ok: "log_ok (flog s)" using g by (auto simp: good_def fsc_def log_inv_def)
  have r: "real (dev, b)" using good_dev [OF g] by (simp add: real_def)
  have "nat (lh_n (flog s)) + card (dom M) < NBUF"
    using g c ok by (auto simp: good_def log_ok_def NBUF_def LOGSIZE_def)
  then show ?thesis
    using fs_bread [OF F r k] g unfolding s_bread_def by (auto elim!: yields_mono simp: good_def s_data_def)
qed

lemma g_brelse:
  assumes g: "good sb dev pid m M f it s" and k: "M k = Some bp"
  shows "yields (s_brelse s pid bp) (good sb dev pid m (M(k := None)) f it)"
  using fs_brelse [of "fbc s" "flog s" pid M f k bp] g k by (auto elim!: yields_mono simp: good_def s_brelse_def)

lemma not_in_log:
  assumes "unat (log_start l) + LOGSIZE \<le> unat b"
  shows "\<not> in_log l (dev, b)"
proof
  assume "in_log l (dev, b)"
  then obtain i where i: "i < LOGSIZE" "b = log_start l + of_nat i" by (auto simp: in_log_def)
  have "unat b < 2 ^ 32" using unsigned_less [of b] by simp
  then have "unat (of_nat i :: uint32) = i" "unat (log_start l) + i < 2 ^ 32"
    using i(1) assms by (auto simp: unat_of_nat LOGSIZE_def take_bit_nat_def)
  then have "unat b = unat (log_start l) + i" using i(2) by (simp add: unat_word_ariths)
  then show False using i(1) assms by simp
qed

lemma g_write:
  assumes g: "good sb dev pid (Suc m) M f it s" and k: "M (dev, b) = Some bp" and d: "length d = BSIZE"
    and b: "unat (inodestart sb) \<le> unat b"
  shows "yields (s_log_write s bp d) (good sb dev pid m M (f((dev, b) := d)) it)"
proof -
  let ?l = "flog s"
  have F: "fsc (fbc s) ?l pid M f" and ok: "log_ok ?l" and out: "1 \<le> outstanding ?l" and sp: "lh_n ?l < log_size ?l - 1"
    and dev: "fst (dev, b) = log_dev ?l"
    using g by (auto simp: good_def fsc_def log_inv_def)
  have nl: "\<not> in_log ?l (dev, b)" using g b by (intro not_in_log) (auto simp: good_def layout_def)
  note e = enlog_ok [OF ok sp dev nl]
  have "log_start (enlog ?l (dev, b)) = log_start ?l" by (simp add: enlog_def)
  then show ?thesis
    using fs_write [OF F k dev nl d out sp] g e(5-8) unfolding s_log_write_def
    by (auto elim!: yields_mono simp: good_def)
qed

section \<open>The free bitmap\<close>

lemma bit_free_iff: "bit_free d bi \<longleftrightarrow> \<not> bit (d ! (bi div 8)) (bi mod 8)"
proof
  assume "bit_free d bi"
  then have "\<not> bit (d ! (bi div 8) AND push_bit (bi mod 8) 1) (bi mod 8)" by (simp add: bit_free_def)
  then show "\<not> bit (d ! (bi div 8)) (bi mod 8)" by (auto simp: bit_simps)
next
  assume "\<not> bit (d ! (bi div 8)) (bi mod 8)"
  then have "d ! (bi div 8) AND push_bit (bi mod 8) 1 = 0"
    by (intro bit_word_eqI) (auto simp: bit_simps)
  then show "bit_free d bi" by (simp add: bit_free_def)
qed

lemma length_marks [simp]: "length (mark_used d bi) = length d" "length (mark_free d bi) = length d"
  by (simp_all add: mark_used_def mark_free_def)

lemma same_bit: "(a div 8 = b div 8 \<and> a mod 8 = b mod 8) \<longleftrightarrow> a = (b :: nat)"
  by (metis div_mult_mod_eq)

lemma bit_free_marks:
  assumes "a < 8 * length d" and "b < 8 * length d"
  shows "bit_free (mark_used d a) b \<longleftrightarrow> a \<noteq> b \<and> bit_free d b" "bit_free (mark_free d a) b \<longleftrightarrow> a = b \<or> bit_free d b"
proof -
  have l: "a div 8 < length d" "b div 8 < length d" using assms by auto
  show "bit_free (mark_used d a) b \<longleftrightarrow> a \<noteq> b \<and> bit_free d b"
    using l same_bit [of a b] by (auto simp: bit_free_iff mark_used_def nth_list_update bit_simps)
  show "bit_free (mark_free d a) b \<longleftrightarrow> a = b \<or> bit_free d b"
    using l same_bit [of a b] by (auto simp: bit_free_iff mark_free_def nth_list_update bit_simps)
qed

lemma scan_bits_ok:
  "case scan_bits d b sz bi of
     Some i \<Rightarrow> bi \<le> i \<and> i < BPB \<and> b + i < sz \<and> bit_free d i \<and> (\<forall>j. bi \<le> j \<and> j < i \<longrightarrow> \<not> bit_free d j)
   | None \<Rightarrow> \<forall>j. bi \<le> j \<and> j < BPB \<and> b + j < sz \<longrightarrow> \<not> bit_free d j"
proof (induction d b sz bi rule: scan_bits.induct)
  case (1 d b sz bi)
  show ?case
  proof (cases "bi < BPB \<and> b + bi < sz \<and> \<not> bit_free d bi")
    case True
    then have s: "scan_bits d b sz bi = scan_bits d b sz (bi + 1)" by (subst scan_bits.simps) simp
    have "j = bi \<or> bi + 1 \<le> j" if "bi \<le> j" for j using that by auto
    then show ?thesis using 1 True unfolding s by (fastforce split: option.splits)
  next
    case False
    then show ?thesis by (subst scan_bits.simps) auto
  qed
qed

definition used :: "superblock \<Rightarrow> uint32 \<Rightarrow> (blkno \<Rightarrow> block) \<Rightarrow> nat \<Rightarrow> bool" where
  "used sb dev f b \<longleftrightarrow> \<not> bit_free (f (dev, BBLOCK b sb)) (b mod BPB)"

text \<open>The blocks after block \<open>b\<close> has been allocated, and after it has been freed.\<close>

definition taken :: "superblock \<Rightarrow> uint32 \<Rightarrow> (blkno \<Rightarrow> block) \<Rightarrow> nat \<Rightarrow> blkno \<Rightarrow> block" where
  "taken sb dev f b = f((dev, BBLOCK b sb) := mark_used (f (dev, BBLOCK b sb)) (b mod BPB), (dev, of_nat b) := replicate BSIZE 0)"

definition released :: "superblock \<Rightarrow> uint32 \<Rightarrow> (blkno \<Rightarrow> block) \<Rightarrow> nat \<Rightarrow> blkno \<Rightarrow> block" where
  "released sb dev f b = f((dev, BBLOCK b sb) := mark_free (f (dev, BBLOCK b sb)) (b mod BPB))"

lemma upd_back: "M k = None \<Longrightarrow> M(k := x, k := None) = M"
  by (simp add: fun_upd_idem)

lemma unat_small: "n < 2 ^ 32 \<Longrightarrow> unat (of_nat n :: uint32) = n"
  by (simp add: unat_of_nat take_bit_nat_def)

lemma unat_BBLOCK:
  assumes "layout sb ls" and "b < unat (sb_size sb)"
  shows "unat (BBLOCK b sb) = b div BPB + unat (bmapstart sb)"
proof -
  have "b div BPB \<le> unat (sb_size sb) div BPB" using assms(2) by (intro div_le_mono) simp
  then have "b div BPB + unat (bmapstart sb) < 2 ^ 31" using assms(1) by (auto simp: layout_def meta_def)
  then show ?thesis by (simp add: BBLOCK_def unat_word_ariths unat_small)
qed

lemma BBLOCK_bounds:
  assumes "layout sb ls" and "b < unat (sb_size sb)"
  shows "unat (inodestart sb) \<le> unat (BBLOCK b sb)" "unat (bmapstart sb) \<le> unat (BBLOCK b sb)" "unat (BBLOCK b sb) < meta sb"
proof -
  have "b div BPB \<le> unat (sb_size sb) div BPB" using assms(2) by (intro div_le_mono) simp
  then show "unat (BBLOCK b sb) < meta sb" using unat_BBLOCK [OF assms] by (simp add: meta_def)
  show "unat (inodestart sb) \<le> unat (BBLOCK b sb)" "unat (bmapstart sb) \<le> unat (BBLOCK b sb)"
    using unat_BBLOCK [OF assms] assms(1) by (auto simp: layout_def)
qed

lemma BBLOCK_eq_iff:
  assumes "layout sb ls" and "b < unat (sb_size sb)" and "c < unat (sb_size sb)"
  shows "BBLOCK b sb = BBLOCK c sb \<longleftrightarrow> b div BPB = c div BPB"
  using unat_BBLOCK [OF assms(1,2)] unat_BBLOCK [OF assms(1,3)] by (metis BBLOCK_def add_right_cancel)

lemma data_not_bitmap:
  assumes "layout sb ls" and "c < unat (sb_size sb)" and "meta sb \<le> unat a"
  shows "a \<noteq> BBLOCK c sb"
  using BBLOCK_bounds(3) [OF assms(1,2)] assms(3) by auto

lemma mod_eq_div: "(b :: nat) div n = c div n \<Longrightarrow> b mod n = c mod n \<Longrightarrow> b = c"
  by (metis div_mult_mod_eq)

lemma used_taken:
  assumes L: "layout sb ls" and len: "\<forall>b. length (f (dev, b)) = BSIZE" and b: "meta sb \<le> b" "b < unat (sb_size sb)" and c: "c < unat (sb_size sb)"
  shows "used sb dev (taken sb dev f b) c \<longleftrightarrow> used sb dev f c \<or> c = b"
proof -
  have u: "unat (of_nat b :: uint32) = b" using b(2) L by (intro unat_small) (simp add: layout_def)
  have ne: "of_nat b \<noteq> BBLOCK c sb" using data_not_bitmap [OF L c] u b(1) by simp
  have i: "b mod BPB < 8 * BSIZE" "c mod BPB < 8 * BSIZE" by (simp_all add: BPB_def BSIZE_def)
  show ?thesis
  proof (cases "b div BPB = c div BPB")
    case True
    then have "BBLOCK b sb = BBLOCK c sb" "b mod BPB = c mod BPB \<longleftrightarrow> b = c"
      using mod_eq_div [OF True] by (auto simp: BBLOCK_def)
    then show ?thesis using ne len i by (auto simp: used_def taken_def bit_free_marks)
  next
    case False
    then have "BBLOCK b sb \<noteq> BBLOCK c sb" "b \<noteq> c" using BBLOCK_eq_iff [OF L b(2) c] by auto
    then show ?thesis using ne by (simp add: used_def taken_def)
  qed
qed

lemma used_released:
  assumes L: "layout sb ls" and len: "\<forall>b. length (f (dev, b)) = BSIZE" and b: "b < unat (sb_size sb)" and c: "c < unat (sb_size sb)"
  shows "used sb dev (released sb dev f b) c \<longleftrightarrow> used sb dev f c \<and> c \<noteq> b"
proof -
  have i: "b mod BPB < 8 * BSIZE" "c mod BPB < 8 * BSIZE" by (simp_all add: BPB_def BSIZE_def)
  show ?thesis
  proof (cases "b div BPB = c div BPB")
    case True
    then have "BBLOCK b sb = BBLOCK c sb" "b mod BPB = c mod BPB \<longleftrightarrow> b = c"
      using mod_eq_div [OF True] by (auto simp: BBLOCK_def)
    then show ?thesis using len i by (auto simp: used_def released_def bit_free_marks)
  next
    case False
    then have "BBLOCK b sb \<noteq> BBLOCK c sb" "b \<noteq> c" using BBLOCK_eq_iff [OF L b c] by auto
    then show ?thesis by (simp add: used_def released_def)
  qed
qed

section \<open>Allocation and release\<close>

lemma bzero_ok:
  assumes g: "good sb dev pid (Suc m) M f it s" and k: "M (dev, b) = None" and c: "card (dom M) \<le> Suc m"
    and b: "unat (inodestart sb) \<le> unat b"
  shows "yields (bzero s pid dev b) (good sb dev pid m M (f((dev, b) := replicate BSIZE 0)) it)"
proof -
  obtain bp s1 where 1: "s_bread s pid (dev, b) = ret (bp, s1)" "good sb dev pid (Suc m) (M((dev, b) \<mapsto> bp)) f it s1"
    using g_bread [OF g k c] by (auto simp: yields_def)
  obtain s2 where 2: "s_log_write s1 bp (replicate BSIZE 0) = ret s2"
      "good sb dev pid m (M((dev, b) \<mapsto> bp)) (f((dev, b) := replicate BSIZE 0)) it s2"
    using g_write [OF 1(2), of b bp "replicate BSIZE 0"] b by (auto simp: yields_def)
  show ?thesis using g_brelse [OF 2(2), of "(dev, b)" bp] 1(1) 2(1) upd_back [of M, OF k] by (simp add: bzero_def)
qed

definition alloc_pre :: "superblock \<Rightarrow> uint32 \<Rightarrow> (blkno \<rightharpoonup> nat) \<Rightarrow> (blkno \<Rightarrow> block) \<Rightarrow> bool" where
  "alloc_pre sb dev M f \<longleftrightarrow> (\<forall>c<meta sb. used sb dev f c) \<and> (\<forall>c<unat (sb_size sb). M (dev, BBLOCK c sb) = None) \<and>
     (\<forall>c<unat (sb_size sb). \<not> used sb dev f c \<longrightarrow> M (dev, of_nat c) = None)"

definition alloc_post :: "superblock \<Rightarrow> uint32 \<Rightarrow> nat \<Rightarrow> nat \<Rightarrow> (blkno \<rightharpoonup> nat) \<Rightarrow> (blkno \<Rightarrow> block) \<Rightarrow> inode list \<Rightarrow> uint32 \<Rightarrow> fs \<Rightarrow> bool" where
  "alloc_post sb dev pid m M f it a s \<longleftrightarrow>
     (if a = 0 then (\<forall>c<unat (sb_size sb). used sb dev f c) \<and> good sb dev pid (m + 2) M f it s
      else meta sb \<le> unat a \<and> unat a < unat (sb_size sb) \<and> \<not> used sb dev f (unat a) \<and> (\<forall>c<unat a. used sb dev f c) \<and>
        good sb dev pid m M (taken sb dev f (unat a)) it s)"

lemma balloc_from_ok:
  assumes "good sb dev pid (m + 2) M f it s" and "alloc_pre sb dev M f" and "card (dom M) \<le> m + 1"
    and "b mod BPB = 0" and "sz = unat (sb_size sb)" and "\<forall>c<b. c < sz \<longrightarrow> used sb dev f c"
  shows "yields (balloc_from s pid dev sz b) (\<lambda>(a, s1). alloc_post sb dev pid m M f it a s1)"
  using assms
proof (induction "sz - b" arbitrary: s b rule: less_induct)
  case less
  note g = less.prems(1) and pre = less.prems(2) and c = less.prems(3) and sz = less.prems(5)
  have L: "layout sb (log_start (flog s))" by (rule good_layout [OF g])
  show ?case
  proof (cases "b < sz")
    case False
    then have "balloc_from s pid dev sz b = ret (0, s)" by (subst balloc_from.simps) simp
    then show ?thesis using less.prems False by (simp add: alloc_post_def)
  next
    case True
    then have bs: "b < unat (sb_size sb)" using sz by simp
    have none: "M (dev, BBLOCK b sb) = None" using pre bs by (simp add: alloc_pre_def)
    obtain bp s1 where 1: "s_bread s pid (dev, BBLOCK b sb) = ret (bp, s1)" "s_data s1 bp = f (dev, BBLOCK b sb)"
        "good sb dev pid (m + 2) (M((dev, BBLOCK b sb) \<mapsto> bp)) f it s1"
      using g_bread [OF g none] c by (auto simp: yields_def)
    have bb: "BBLOCK (b + i) sb = BBLOCK b sb \<and> (b + i) mod BPB = i" if "i < BPB" for i
    proof -
      obtain q where q: "b = q * BPB" using less.prems(4) by (auto simp: mod_eq_0_iff_dvd dvd_def mult.commute)
      then show ?thesis using that by (simp add: BBLOCK_def)
    qed
    have u: "used sb dev f (b + i) \<longleftrightarrow> \<not> bit_free (f (dev, BBLOCK b sb)) i" if "i < BPB" for i
      using bb [OF that] by (simp add: used_def)
    note scan = scan_bits_ok [where d = "f (dev, BBLOCK b sb)" and b = b and sz = sz and bi = 0]
    have split: "c < b \<or> (\<exists>i. c = b + i)" for c by (metis le_iff_add not_le)
    show ?thesis
    proof (cases "scan_bits (f (dev, BBLOCK b sb)) b sz 0")
      case None
      obtain s2 where 2: "s_brelse s1 pid bp = ret s2" "good sb dev pid (m + 2) M f it s2"
        using g_brelse [OF 1(3), of "(dev, BBLOCK b sb)" bp] upd_back [of M, OF none] by (auto simp: yields_def)
      have "used sb dev f c" if "c < b + BPB" "c < sz" for c
        using that scan None u less.prems(6) split [of c] by auto
      then have "yields (balloc_from s2 pid dev sz (b + BPB)) (\<lambda>(a, s1). alloc_post sb dev pid m M f it a s1)"
        using less.prems(4) True pre c sz by (intro less.hyps [OF _ 2(2)]) (auto simp: BPB_def BSIZE_def)
      moreover have "balloc_from s pid dev sz b = balloc_from s2 pid dev sz (b + BPB)"
        using True 1(1,2) 2(1) None good_table(2) [OF g] by (subst balloc_from.simps) simp
      ultimately show ?thesis by simp
    next
      case (Some i)
      then have i: "i < BPB" "b + i < sz" "bit_free (f (dev, BBLOCK b sb)) i" "\<forall>j<i. \<not> bit_free (f (dev, BBLOCK b sb)) j"
        using scan by auto
      have free: "\<not> used sb dev f (b + i)" using u [OF i(1)] i(3) by simp
      then have mt: "meta sb \<le> b + i" using pre unfolding alloc_pre_def by (metis not_le)
      have un: "unat (of_nat (b + i) :: uint32) = b + i" using i(2) sz L by (intro unat_small) (simp add: layout_def)
      let ?d = "mark_used (f (dev, BBLOCK b sb)) i"
      obtain s2 where 2: "s_log_write s1 bp ?d = ret s2"
          "good sb dev pid (m + 1) (M((dev, BBLOCK b sb) \<mapsto> bp)) (f((dev, BBLOCK b sb) := ?d)) it s2"
        using g_write [of sb dev pid "m + 1" "M((dev, BBLOCK b sb) \<mapsto> bp)" f it s1 "BBLOCK b sb" bp ?d] 1(3)
          good_len [OF g] BBLOCK_bounds(1) [OF L bs] by (auto simp: yields_def)
      obtain s3 where 3: "s_brelse s2 pid bp = ret s3" "good sb dev pid (m + 1) M (f((dev, BBLOCK b sb) := ?d)) it s3"
        using g_brelse [OF 2(2), of "(dev, BBLOCK b sb)" bp] upd_back [of M, OF none] by (auto simp: yields_def)
      have "M (dev, of_nat (b + i)) = None" using pre free i(2) sz by (simp add: alloc_pre_def del: of_nat_add)
      moreover have "unat (inodestart sb) \<le> unat (of_nat (b + i) :: uint32)"
        unfolding un using mt L by (simp add: meta_def layout_def)
      ultimately obtain s4 where 4: "bzero s3 pid dev (of_nat (b + i)) = ret s4" "good sb dev pid m M (taken sb dev f (b + i)) it s4"
        using bzero_ok [of sb dev pid m M _ it s3 "of_nat (b + i)"] 3(2) c bb [OF i(1)] by (auto simp: yields_def taken_def simp del: of_nat_add)
      have run: "balloc_from s pid dev sz b = ret (of_nat (b + i), s4)"
        using True 1(1,2) 2(1) 3(1) 4(1) Some good_table(2) [OF g] by (subst balloc_from.simps) (simp del: of_nat_add)
      have "used sb dev f c" if "c < b + i" for c
        using that i u less.prems(6) split [of c] by auto
      moreover have "(of_nat (b + i) :: uint32) \<noteq> 0" using un mt by (auto simp: meta_def simp del: of_nat_add)
      ultimately show ?thesis unfolding run using mt un i(2) sz free 4(2) by (simp add: alloc_post_def del: of_nat_add)
    qed
  qed
qed

lemma balloc_ok:
  assumes "good sb dev pid (m + 2) M f it s" and "alloc_pre sb dev M f" and "card (dom M) \<le> m + 1"
  shows "yields (balloc s pid dev) (\<lambda>(a, s1). alloc_post sb dev pid m M f it a s1)"
  unfolding balloc_def using balloc_from_ok [OF assms, of 0 "unat (sb_size sb)"] good_table(2) [OF assms(1)] by simp

lemma bfree_ok:
  assumes g: "good sb dev pid (Suc m) M f it s" and b: "unat b < unat (sb_size sb)" "used sb dev f (unat b)"
    and k: "M (dev, BBLOCK (unat b) sb) = None" and c: "card (dom M) \<le> Suc m"
  shows "yields (bfree s pid dev b) (good sb dev pid m M (released sb dev f (unat b)) it)"
proof -
  let ?k = "BBLOCK (unat b) sb"
  have L: "layout sb (log_start (flog s))" by (rule good_layout [OF g])
  obtain bp s1 where 1: "s_bread s pid (dev, ?k) = ret (bp, s1)" "s_data s1 bp = f (dev, ?k)"
      "good sb dev pid (Suc m) (M((dev, ?k) \<mapsto> bp)) f it s1"
    using g_bread [OF g k c] by (auto simp: yields_def)
  let ?d = "mark_free (f (dev, ?k)) (unat b mod BPB)"
  obtain s2 where 2: "s_log_write s1 bp ?d = ret s2" "good sb dev pid m (M((dev, ?k) \<mapsto> bp)) (f((dev, ?k) := ?d)) it s2"
    using g_write [OF 1(3), of ?k bp ?d] good_len [OF g] BBLOCK_bounds(1) [OF L b(1)] by (auto simp: yields_def)
  show ?thesis
    using g_brelse [OF 2(2), of "(dev, ?k)" bp] 1(1,2) 2(1) upd_back [of M, OF k] b(2) good_table(2) [OF g]
    by (simp add: bfree_def used_def released_def Let_def)
qed

end
