(* ===== verification/FsFile.thy ===== *)
theory FsFile
  imports FsAlloc
begin

text \<open>
  The inode layer: inodes on the disk and in memory, and the contents of a file as a sequence of bytes that \<open>bmap\<close>,
  \<open>readi\<close> and \<open>writei\<close> read and change.
\<close>

section \<open>Inodes on the disk\<close>

lemma length_concat_le32 [simp]: "length (concat (map le32 xs)) = 4 * length xs"
  by (induction xs) auto

lemma nth_concat_le32: "i < length xs \<Longrightarrow> j < 4 \<Longrightarrow> concat (map le32 xs) ! (4 * i + j) = le32 (xs ! i) ! j"
proof (induction xs arbitrary: i)
  case Nil
  then show ?case by simp
next
  case (Cons x xs)
  then show ?case by (cases i) (auto simp: nth_append)
qed

lemma rd32_concat:
  assumes "p + 4 * length xs \<le> length d" and "i < length xs"
  shows "rd32 (overwrite d p (concat (map le32 xs))) (p + 4 * i) = xs ! i"
proof -
  have "overwrite d p (concat (map le32 xs)) ! (p + 4 * i + j) = le32 (xs ! i) ! j" if "j < 4" for j
    using assms that nth_concat_le32 [OF assms(2) that] by (simp add: nth_overwrite add.assoc)
  from this [of 0] this [of 1] this [of 2] this [of 3] show ?thesis
    by (simp add: rd32_def le32_def ucast_split32 numeral_2_eq_2 numeral_3_eq_3)
qed

lemma rd16_overwrite_other:
  "i + length ys \<le> length bs \<Longrightarrow> j + 2 \<le> length bs \<Longrightarrow> j + 2 \<le> i \<or> i + length ys \<le> j \<Longrightarrow>
   rd16 (overwrite bs i ys) j = rd16 bs j"
  by (auto simp: rd16_def nth_overwrite)

lemma length_put_dinode: "p + 64 \<le> length d \<Longrightarrow> length (di_addrs x) = 13 \<Longrightarrow> length (put_dinode d p x) = length d"
  by (simp add: put_dinode_def)

lemma get_put_dinode:
  assumes "p + 64 \<le> length d" and "length (di_addrs x) = 13"
  shows "get_dinode (put_dinode d p x) p = x"
proof -
  have "map (\<lambda>i. rd32 (put_dinode d p x) (p + 12 + 4 * i)) [0..<NDIRECT + 1] = di_addrs x"
    using assms by (intro nth_equalityI) (auto simp: put_dinode_def NDIRECT_def rd32_concat simp del: upt_Suc)
  then show ?thesis
    using assms unfolding get_dinode_def
    by (cases x) (simp add: put_dinode_def rd16_overwrite_other rd32_overwrite_other rd16_le16 rd32_le32)
qed

lemma get_put_dinode_other:
  assumes "p + 64 \<le> length d" and "q + 64 \<le> length d" and "length (di_addrs x) = 13" and "p + 64 \<le> q \<or> q + 64 \<le> p"
  shows "get_dinode (put_dinode d p x) q = get_dinode d q"
  using assms unfolding get_dinode_def
  by (auto simp: put_dinode_def rd16_overwrite_other rd32_overwrite_other NDIRECT_def)

definition on_disk :: "superblock \<Rightarrow> uint32 \<Rightarrow> (blkno \<Rightarrow> block) \<Rightarrow> uint32 \<Rightarrow> dinode" where
  "on_disk sb dev f ino = get_dinode (f (dev, IBLOCK ino sb)) (dinode_off ino)"

definition stored :: "superblock \<Rightarrow> uint32 \<Rightarrow> (blkno \<Rightarrow> block) \<Rightarrow> uint32 \<Rightarrow> dinode \<Rightarrow> blkno \<Rightarrow> block" where
  "stored sb dev f ino x = f((dev, IBLOCK ino sb) := put_dinode (f (dev, IBLOCK ino sb)) (dinode_off ino) x)"

lemma dinode_off_bound: "dinode_off ino + 64 \<le> BSIZE"
proof -
  have "unat ino mod IPB < 16" by (simp add: IPB_def BSIZE_def)
  then show ?thesis by (simp add: dinode_off_def BSIZE_def)
qed

lemma IBLOCK_bounds:
  assumes "layout sb ls" and "unat ino < unat (ninodes sb)"
  shows "unat (IBLOCK ino sb) = unat ino div IPB + unat (inodestart sb)" "unat (IBLOCK ino sb) < unat (bmapstart sb)"
proof -
  have d: "unat ino div IPB \<le> unat (ninodes sb) div IPB" using assms(2) by (intro div_le_mono) simp
  then have "unat ino div IPB + unat (inodestart sb) < 2 ^ 31" using assms(1) by (auto simp: layout_def meta_def)
  then show u: "unat (IBLOCK ino sb) = unat ino div IPB + unat (inodestart sb)"
    by (simp add: IBLOCK_def unat_word_ariths unat_small)
  show "unat (IBLOCK ino sb) < unat (bmapstart sb)" using u d assms(1) by (simp add: layout_def)
qed

lemma on_disk_stored:
  assumes "layout sb ls" and "unat ino < unat (ninodes sb)" and "unat j < unat (ninodes sb)"
    and "length (f (dev, IBLOCK ino sb)) = BSIZE" and "length (di_addrs x) = 13"
  shows "on_disk sb dev (stored sb dev f ino x) j = (if j = ino then x else on_disk sb dev f j)"
proof (cases "IBLOCK j sb = IBLOCK ino sb")
  case True
  then have q: "unat j div IPB = unat ino div IPB"
    using IBLOCK_bounds(1) [OF assms(1,2)] IBLOCK_bounds(1) [OF assms(1,3)] by simp
  note o = dinode_off_bound [of j] dinode_off_bound [of ino]
  show ?thesis
  proof (cases "j = ino")
    case True
    then show ?thesis using o assms(4,5) by (simp add: on_disk_def stored_def get_put_dinode)
  next
    case False
    then have "unat j mod IPB \<noteq> unat ino mod IPB" using q mod_eq_div by (metis unsigned_word_eqI)
    then have "unat j mod IPB < unat ino mod IPB \<or> unat ino mod IPB < unat j mod IPB" by linarith
    then have "dinode_off ino + 64 \<le> dinode_off j \<or> dinode_off j + 64 \<le> dinode_off ino" unfolding dinode_off_def by linarith
    then show ?thesis using False True o assms(4,5) by (auto simp: on_disk_def stored_def get_put_dinode_other)
  qed
next
  case False
  then show ?thesis by (auto simp: on_disk_def stored_def)
qed

text \<open>An entry of the table that stands for an inode of the device.\<close>

definition entry :: "superblock \<Rightarrow> uint32 \<Rightarrow> inode list \<Rightarrow> nat \<Rightarrow> bool" where
  "entry sb dev it ip \<longleftrightarrow> ip < length it \<and> idev (it ! ip) = dev \<and> unat (inum (it ! ip)) < unat (ninodes sb) \<and>
     length (di_addrs (dino (it ! ip))) = 13"

lemma iupdate_ok:
  assumes g: "good sb dev pid (Suc m) M f it s" and e: "entry sb dev it ip"
    and k: "M (dev, IBLOCK (inum (it ! ip)) sb) = None" and c: "card (dom M) \<le> Suc m"
  shows "yields (iupdate s pid ip) (good sb dev pid m M (stored sb dev f (inum (it ! ip)) (dino (it ! ip))) it)"
proof -
  let ?x = "it ! ip"
  let ?b = "IBLOCK (inum ?x) sb"
  have L: "layout sb (log_start (flog s))" by (rule good_layout [OF g])
  have b: "unat (inodestart sb) \<le> unat ?b" using IBLOCK_bounds(1) [OF L] e by (simp add: entry_def)
  obtain bp s1 where 1: "s_bread s pid (dev, ?b) = ret (bp, s1)" "s_data s1 bp = f (dev, ?b)"
      "good sb dev pid (Suc m) (M((dev, ?b) \<mapsto> bp)) f it s1"
    using g_bread [OF g k c] by (auto simp: yields_def)
  let ?d = "put_dinode (f (dev, ?b)) (dinode_off (inum ?x)) (dino ?x)"
  have d: "length ?d = BSIZE" using e good_len [OF g] dinode_off_bound by (simp add: length_put_dinode entry_def)
  obtain s2 where 2: "s_log_write s1 bp ?d = ret s2" "good sb dev pid m (M((dev, ?b) \<mapsto> bp)) (f((dev, ?b) := ?d)) it s2"
    using g_write [OF 1(3), of ?b bp ?d] d b by (auto simp: yields_def)
  show ?thesis
    using g_brelse [OF 2(2), of "(dev, ?b)" bp] 1(1,2) 2(1) upd_back [of M, OF k] good_table [OF g] e
    by (simp add: iupdate_def stored_def Let_def entry_def)
qed

lemma ilock_ok:
  assumes g: "good sb dev pid m Map.empty f it s" and e: "entry sb dev it ip" and r: "1 \<le> ref (it ! ip)" "iholder (it ! ip) = None"
    and t: "di_type (if ivalid (it ! ip) then dino (it ! ip) else on_disk sb dev f (inum (it ! ip))) \<noteq> 0"
  shows "yields (ilock s pid ip) (good sb dev pid m Map.empty f (it[ip := (it ! ip)\<lparr>iholder := Some pid,
      dino := if ivalid (it ! ip) then dino (it ! ip) else on_disk sb dev f (inum (it ! ip)), ivalid := True\<rparr>]))"
proof -
  let ?s1 = "upd_ip s ip (\<lambda>x. x\<lparr>iholder := Some pid\<rparr>)" and ?x = "it ! ip" and ?it1 = "it[ip := (it ! ip)\<lparr>iholder := Some pid\<rparr>]"
  have ip: "ip < length it" and dev: "idev ?x = dev" using e by (auto simp: entry_def)
  have tab: "itable s = it" "fs_sb s = sb" using good_table [OF g] by auto
  have g1: "good sb dev pid m Map.empty f ?it1 ?s1" using good_upd_ip [OF g] by simp
  have tab1: "itable ?s1 = ?it1" "fs_sb ?s1 = sb" using good_table [OF g1] by auto
  show ?thesis
  proof (cases "ivalid ?x")
    case True
    then have "?it1 ! ip = (it ! ip)\<lparr>iholder := Some pid, dino := dino (it ! ip), ivalid := True\<rparr>" using ip by (cases "it ! ip") simp
    then have "?it1 = it[ip := (it ! ip)\<lparr>iholder := Some pid, dino := dino (it ! ip), ivalid := True\<rparr>]" by (metis list_update_id list_update_overwrite)
    then show ?thesis using g1 r tab tab1 ip True by (simp add: ilock_def Let_def)
  next
    case False
    let ?b = "IBLOCK (inum ?x) sb"
    obtain bp s2 where 2: "s_bread ?s1 pid (dev, ?b) = ret (bp, s2)" "s_data s2 bp = f (dev, ?b)"
        "good sb dev pid m [(dev, ?b) \<mapsto> bp] f ?it1 s2"
      using g_bread [OF g1, of ?b] by (auto simp: yields_def)
    let ?s3 = "upd_ip s2 ip (\<lambda>x. x\<lparr>dino := on_disk sb dev f (inum ?x)\<rparr>)"
    have g3: "good sb dev pid m [(dev, ?b) \<mapsto> bp] f (it[ip := (it ! ip)\<lparr>iholder := Some pid, dino := on_disk sb dev f (inum ?x)\<rparr>]) ?s3"
      using good_upd_ip [OF 2(3), of ip "\<lambda>x. x\<lparr>dino := on_disk sb dev f (inum ?x)\<rparr>"] ip by simp
    obtain s4 where 4: "s_brelse ?s3 pid bp = ret s4"
        "good sb dev pid m Map.empty f (it[ip := (it ! ip)\<lparr>iholder := Some pid, dino := on_disk sb dev f (inum ?x)\<rparr>]) s4"
      using g_brelse [OF g3, of "(dev, ?b)" bp] by (auto simp: yields_def)
    let ?s5 = "upd_ip s4 ip (\<lambda>x. x\<lparr>ivalid := True\<rparr>)"
    let ?it5 = "it[ip := (it ! ip)\<lparr>iholder := Some pid, dino := on_disk sb dev f (inum ?x), ivalid := True\<rparr>]"
    have g5: "good sb dev pid m Map.empty f ?it5 ?s5"
      using good_upd_ip [OF 4(2), of ip "\<lambda>x. x\<lparr>ivalid := True\<rparr>"] ip by simp
    have "ilock s pid ip = ret ?s5"
      using r tab tab1 ip False dev 2(1,2) 4(1) t good_table(1) [OF g5]
      by (simp add: ilock_def Let_def on_disk_def)
    then show ?thesis using g5 False by simp
  qed
qed

section \<open>The blocks of a file\<close>

definition baddr :: "uint32 \<Rightarrow> (blkno \<Rightarrow> block) \<Rightarrow> dinode \<Rightarrow> nat \<Rightarrow> uint32" where
  "baddr dev f x bn =
     (if bn < NDIRECT then di_addrs x ! bn
      else if di_addrs x ! NDIRECT = 0 then 0
      else rd32 (f (dev, di_addrs x ! NDIRECT)) (4 * (bn - NDIRECT)))"

definition data_blk :: "superblock \<Rightarrow> uint32 \<Rightarrow> (blkno \<Rightarrow> block) \<Rightarrow> uint32 \<Rightarrow> bool" where
  "data_blk sb dev f a \<longleftrightarrow> meta sb \<le> unat a \<and> unat a < unat (sb_size sb) \<and> used sb dev f (unat a)"

definition file_ok :: "superblock \<Rightarrow> uint32 \<Rightarrow> (blkno \<Rightarrow> block) \<Rightarrow> dinode \<Rightarrow> bool" where
  "file_ok sb dev f x \<longleftrightarrow> length (di_addrs x) = 13 \<and>
     (di_addrs x ! NDIRECT \<noteq> 0 \<longrightarrow> data_blk sb dev f (di_addrs x ! NDIRECT)) \<and>
     (\<forall>bn<MAXFILE. baddr dev f x bn \<noteq> 0 \<longrightarrow> data_blk sb dev f (baddr dev f x bn) \<and> baddr dev f x bn \<noteq> di_addrs x ! NDIRECT) \<and>
     (\<forall>bn<MAXFILE. \<forall>bn1<MAXFILE. baddr dev f x bn \<noteq> 0 \<and> baddr dev f x bn = baddr dev f x bn1 \<longrightarrow> bn = bn1)"

definition fcontent :: "uint32 \<Rightarrow> (blkno \<Rightarrow> block) \<Rightarrow> dinode \<Rightarrow> nat \<Rightarrow> byte" where
  "fcontent dev f x off =
     (let a = baddr dev f x (off div BSIZE) in if a = 0 then 0 else f (dev, a) ! (off mod BSIZE))"

definition disk_ok :: "superblock \<Rightarrow> uint32 \<Rightarrow> (blkno \<Rightarrow> block) \<Rightarrow> bool" where
  "disk_ok sb dev f \<longleftrightarrow> (\<forall>b. length (f (dev, b)) = BSIZE) \<and> (\<forall>c<meta sb. used sb dev f c)"

definition full :: "superblock \<Rightarrow> uint32 \<Rightarrow> (blkno \<Rightarrow> block) \<Rightarrow> bool" where
  "full sb dev f \<longleftrightarrow> (\<forall>c<unat (sb_size sb). used sb dev f c)"

text \<open>
  A change that may give blocks to the file, but keeps the bytes in it, the blocks it has, every other block in use
  and the inode blocks.
\<close>

definition ext :: "superblock \<Rightarrow> uint32 \<Rightarrow> (blkno \<Rightarrow> block) \<Rightarrow> dinode \<Rightarrow> (blkno \<Rightarrow> block) \<Rightarrow> dinode \<Rightarrow> bool" where
  "ext sb dev f x f1 x1 \<longleftrightarrow> disk_ok sb dev f1 \<and> file_ok sb dev f1 x1 \<and> x1 = x\<lparr>di_addrs := di_addrs x1\<rparr> \<and>
     (\<forall>bn<MAXFILE. baddr dev f1 x1 bn = baddr dev f x bn \<or> baddr dev f x bn = 0 \<and> \<not> data_blk sb dev f (baddr dev f1 x1 bn)) \<and>
     (\<forall>off<MAXFILE * BSIZE. fcontent dev f1 x1 off = fcontent dev f x off) \<and>
     (\<forall>c<unat (sb_size sb). used sb dev f c \<longrightarrow> used sb dev f1 c) \<and>
     (\<forall>b. unat b < unat (bmapstart sb) \<longrightarrow> f1 (dev, b) = f (dev, b)) \<and>
     (\<forall>b. data_blk sb dev f b \<and> b \<noteq> di_addrs x ! NDIRECT \<longrightarrow> f1 (dev, b) = f (dev, b) \<and> b \<noteq> di_addrs x1 ! NDIRECT)"

lemma ext_refl: "disk_ok sb dev f \<Longrightarrow> file_ok sb dev f x \<Longrightarrow> ext sb dev f x f x"
  by (simp add: ext_def)

lemma ext_trans:
  assumes a: "ext sb dev f x f1 x1" and b: "ext sb dev f1 x1 f2 x2"
  shows "ext sb dev f x f2 x2"
proof -
  have "x2 = x\<lparr>di_addrs := di_addrs x2\<rparr>"
  proof -
    have "x2 = x1\<lparr>di_addrs := di_addrs x2\<rparr>" "x1 = x\<lparr>di_addrs := di_addrs x1\<rparr>" using a b by (auto simp: ext_def)
    then show ?thesis by (metis dinode.surjective dinode.update_convs(6))
  qed
  moreover have d: "data_blk sb dev f1 c" if "data_blk sb dev f c" for c
    using that a by (auto simp: data_blk_def ext_def)
  moreover have "baddr dev f2 x2 bn = baddr dev f x bn \<or> baddr dev f x bn = 0 \<and> \<not> data_blk sb dev f (baddr dev f2 x2 bn)"
    if "bn < MAXFILE" for bn
    using a b that d unfolding ext_def by metis
  ultimately show ?thesis using a b unfolding ext_def by auto
qed

lemma data_blk_facts:
  assumes "layout sb ls" and "data_blk sb dev f a"
  shows "a \<noteq> 0" "unat (inodestart sb) \<le> unat a" "\<not> unat a < unat (bmapstart sb)" "c < unat (sb_size sb) \<Longrightarrow> a \<noteq> BBLOCK c sb"
  using assms data_not_bitmap [of sb ls c a] by (auto simp: data_blk_def layout_def meta_def)

text \<open>What allocating block \<open>a\<close> does to the blocks in use.\<close>

lemma taken_facts:
  assumes L: "layout sb ls" and D: "disk_ok sb dev f"
    and a: "meta sb \<le> unat a" "unat a < unat (sb_size sb)" "\<not> used sb dev f (unat a)"
  defines "f1 \<equiv> taken sb dev f (unat a)"
  shows "data_blk sb dev f b \<Longrightarrow> f1 (dev, b) = f (dev, b) \<and> data_blk sb dev f1 b \<and> b \<noteq> a" "data_blk sb dev f1 a"
    "f1 (dev, a) = replicate BSIZE 0" "disk_ok sb dev f1" "unat c < unat (bmapstart sb) \<Longrightarrow> f1 (dev, c) = f (dev, c)"
    "e < unat (sb_size sb) \<Longrightarrow> used sb dev f1 e \<longleftrightarrow> used sb dev f e \<or> e = unat a"
proof -
  have len: "\<forall>b. length (f (dev, b)) = BSIZE" using D by (simp add: disk_ok_def)
  show u: "used sb dev f1 e \<longleftrightarrow> used sb dev f e \<or> e = unat a" if "e < unat (sb_size sb)" for e
    unfolding f1_def using used_taken [OF L len a(1,2) that] .
  show "f1 (dev, b) = f (dev, b) \<and> data_blk sb dev f1 b \<and> b \<noteq> a" if b: "data_blk sb dev f b" for b
  proof -
    have "b \<noteq> a" using b a(3) by (auto simp: data_blk_def)
    moreover have "b \<noteq> BBLOCK (unat a) sb" using data_blk_facts(4) [OF L b a(2)] .
    ultimately show ?thesis using b u by (auto simp: data_blk_def f1_def taken_def)
  qed
  show "data_blk sb dev f1 a" using a u by (simp add: data_blk_def)
  show z: "f1 (dev, a) = replicate BSIZE 0" by (simp add: f1_def taken_def)
  have ms: "meta sb \<le> unat (sb_size sb)" using L by (simp add: layout_def)
  show "disk_ok sb dev f1"
    using D u ms len by (auto simp: disk_ok_def) (auto simp: f1_def taken_def)
  show "f1 (dev, c) = f (dev, c)" if c: "unat c < unat (bmapstart sb)"
  proof -
    have "c \<noteq> a" "c \<noteq> BBLOCK (unat a) sb"
      using c a(1) BBLOCK_bounds(2) [OF L a(2)] by (auto simp: meta_def)
    then show ?thesis by (simp add: f1_def taken_def)
  qed
qed

lemma baddr_indirect:
  "f1 (dev, di_addrs x ! NDIRECT) = f (dev, di_addrs x ! NDIRECT) \<Longrightarrow> baddr dev f1 x bn = baddr dev f x bn"
  by (simp add: baddr_def)

lemma file_okD:
  assumes "file_ok sb dev f x"
  shows "length (di_addrs x) = 13" "di_addrs x ! NDIRECT \<noteq> 0 \<Longrightarrow> data_blk sb dev f (di_addrs x ! NDIRECT)"
    "bn < MAXFILE \<Longrightarrow> baddr dev f x bn \<noteq> 0 \<Longrightarrow> data_blk sb dev f (baddr dev f x bn)"
    "bn < MAXFILE \<Longrightarrow> baddr dev f x bn \<noteq> 0 \<Longrightarrow> baddr dev f x bn \<noteq> di_addrs x ! NDIRECT"
    "bn < MAXFILE \<Longrightarrow> bn1 < MAXFILE \<Longrightarrow> baddr dev f x bn \<noteq> 0 \<Longrightarrow> baddr dev f x bn = baddr dev f x bn1 \<Longrightarrow> bn = bn1"
  using assms by (auto simp: file_ok_def)

lemma block_of_off: "off < MAXFILE * BSIZE \<Longrightarrow> off div BSIZE < MAXFILE"
  by (simp add: less_mult_imp_div_less)

lemma ext_step:
  fixes x :: dinode
  defines "ind \<equiv> di_addrs x ! NDIRECT"
  assumes F: "file_ok sb dev f x" and D1: "disk_ok sb dev f1" and x1: "x1 = x\<lparr>di_addrs := as\<rparr>" "length as = 13"
    and B: "\<forall>bn<MAXFILE. baddr dev f1 x1 bn = baddr dev f x bn \<or> baddr dev f x bn = 0 \<and> bn = t \<and> baddr dev f1 x1 bn = a"
    and I: "as ! NDIRECT = ind \<or> as ! NDIRECT = a \<and> (\<forall>bn<MAXFILE. baddr dev f1 x1 bn = baddr dev f x bn)"
    and a: "data_blk sb dev f1 a" "f1 (dev, a) = replicate BSIZE 0"
    and K: "\<forall>b. data_blk sb dev f b \<longrightarrow> data_blk sb dev f1 b \<and> b \<noteq> a \<and> (b \<noteq> ind \<longrightarrow> f1 (dev, b) = f (dev, b))"
    and U: "\<forall>c<unat (sb_size sb). used sb dev f c \<longrightarrow> used sb dev f1 c" and m: "\<forall>b. unat b < unat (bmapstart sb) \<longrightarrow> f1 (dev, b) = f (dev, b)"
  shows "ext sb dev f x f1 x1"
proof -
  have a0: "a \<noteq> 0" using a(1) by (auto simp: data_blk_def meta_def)
  have ad: "di_addrs x1 = as" using x1 by simp
  have blk: "data_blk sb dev f1 (baddr dev f1 x1 bn) \<and> baddr dev f1 x1 bn \<noteq> as ! NDIRECT"
    if "bn < MAXFILE" "baddr dev f1 x1 bn \<noteq> 0" for bn
  proof (cases "baddr dev f1 x1 bn = baddr dev f x bn")
    case True
    then show ?thesis using that file_okD(3,4) [OF F that(1)] K I by (auto simp: ind_def)
  next
    case False
    then have t: "baddr dev f1 x1 bn = a" "as ! NDIRECT = ind" using B I that(1) by auto
    have "ind \<noteq> a" using file_okD(2) [OF F] K a0 by (cases "ind = 0") (auto simp: ind_def)
    then show ?thesis using t a(1) by simp
  qed
  have inj: "bn = bn1" if "bn < MAXFILE" "bn1 < MAXFILE" "baddr dev f1 x1 bn \<noteq> 0" "baddr dev f1 x1 bn = baddr dev f1 x1 bn1" for bn bn1
  proof -
    have na: "baddr dev f x j \<noteq> a" if "j < MAXFILE" for j
      using file_okD(3) [OF F that] K a0 by (cases "baddr dev f x j = 0") auto
    have "baddr dev f1 x1 bn = baddr dev f x bn \<or> bn = t \<and> baddr dev f1 x1 bn = a"
      "baddr dev f1 x1 bn1 = baddr dev f x bn1 \<or> bn1 = t \<and> baddr dev f1 x1 bn1 = a" using B that(1,2) by blast+
    then show ?thesis using that na file_okD(5) [OF F that(1,2)] by metis
  qed
  have "data_blk sb dev f1 (as ! NDIRECT)" if "as ! NDIRECT \<noteq> 0"
    using that I a(1) K file_okD(2) [OF F] by (auto simp: ind_def)
  then have ok: "file_ok sb dev f1 x1" unfolding file_ok_def ad using x1(2) blk inj by blast
  have con: "fcontent dev f1 x1 off = fcontent dev f x off" if off: "off < MAXFILE * BSIZE" for off
  proof -
    let ?n = "off div BSIZE"
    have n: "?n < MAXFILE" by (rule block_of_off [OF off])
    show ?thesis
    proof (cases "baddr dev f1 x1 ?n = baddr dev f x ?n")
      case True
      then show ?thesis using K file_okD(3,4) [OF F n] by (auto simp: fcontent_def Let_def ind_def)
    next
      case False
      then have "baddr dev f x ?n = 0" "baddr dev f1 x1 ?n = a" using B n by auto
      then show ?thesis using a(2) by (simp add: fcontent_def Let_def BSIZE_def)
    qed
  qed
  have keep: "baddr dev f1 x1 bn = baddr dev f x bn \<or> baddr dev f x bn = 0 \<and> \<not> data_blk sb dev f (baddr dev f1 x1 bn)" if "bn < MAXFILE" for bn
    using B K that by metis
  have fr: "f1 (dev, b) = f (dev, b) \<and> b \<noteq> as ! NDIRECT" if "data_blk sb dev f b" "b \<noteq> ind" for b using K I that by auto
  show ?thesis unfolding ext_def using D1 ok x1 keep con U m fr by (auto simp: ind_def)
qed

text \<open>The three places where \<open>bmap\<close> stores a new block.\<close>

lemma ext_direct:
  assumes L: "layout sb ls" and D: "disk_ok sb dev f" and F: "file_ok sb dev f x"
    and a: "meta sb \<le> unat a" "unat a < unat (sb_size sb)" "\<not> used sb dev f (unat a)"
    and i: "i \<le> NDIRECT" "di_addrs x ! i = 0"
  shows "ext sb dev f x (taken sb dev f (unat a)) (x\<lparr>di_addrs := (di_addrs x)[i := a]\<rparr>)"
proof -
  let ?f1 = "taken sb dev f (unat a)" and ?x1 = "x\<lparr>di_addrs := (di_addrs x)[i := a]\<rparr>" and ?ind = "di_addrs x ! NDIRECT"
  note T = taken_facts [OF L D a]
  have len: "length (di_addrs x) = 13" by (rule file_okD(1) [OF F])
  have ind: "?f1 (dev, ?ind) = f (dev, ?ind)" if "?ind \<noteq> 0" using T(1) file_okD(2) [OF F that] by blast
  have B: "baddr dev ?f1 ?x1 bn = baddr dev f x bn \<or> baddr dev f x bn = 0 \<and> bn = i \<and> baddr dev ?f1 ?x1 bn = a" if "bn < MAXFILE" for bn
  proof (cases "i = NDIRECT")
    case True
    have "rd32 (replicate BSIZE 0) (4 * (bn - NDIRECT)) = 0"
      using that by (simp add: rd32_def BSIZE_def MAXFILE_def NINDIRECT_def NDIRECT_def)
    then show ?thesis using True i len T(3) by (auto simp: baddr_def NDIRECT_def)
  next
    case False
    then show ?thesis using i len ind by (auto simp: baddr_def nth_list_update NDIRECT_def)
  qed
  show ?thesis
  proof (rule ext_step [OF F T(4) refl, where t = i and a = a])
    show "\<forall>bn<MAXFILE. baddr dev ?f1 ?x1 bn = baddr dev f x bn \<or> baddr dev f x bn = 0 \<and> bn = i \<and> baddr dev ?f1 ?x1 bn = a"
      using B by blast
    show "(di_addrs x)[i := a] ! NDIRECT = ?ind \<or> (di_addrs x)[i := a] ! NDIRECT = a \<and> (\<forall>bn<MAXFILE. baddr dev ?f1 ?x1 bn = baddr dev f x bn)"
    proof (cases "i = NDIRECT")
      case True
      have "baddr dev ?f1 ?x1 bn = baddr dev f x bn" if "bn < MAXFILE" for bn
      proof -
        have "rd32 (replicate BSIZE 0) (4 * (bn - NDIRECT)) = 0"
          using that by (simp add: rd32_def BSIZE_def MAXFILE_def NINDIRECT_def NDIRECT_def)
        then show ?thesis using True i len T(3) by (auto simp: baddr_def NDIRECT_def)
      qed
      then show ?thesis using True len by (simp add: NDIRECT_def)
    next
      case False
      then show ?thesis by simp
    qed
  qed (use len T in auto)
qed

lemma ext_indirect:
  assumes L: "layout sb ls" and D: "disk_ok sb dev f" and F: "file_ok sb dev f x"
    and a: "meta sb \<le> unat a" "unat a < unat (sb_size sb)" "\<not> used sb dev f (unat a)"
    and bn: "NDIRECT \<le> bn" "bn < MAXFILE" "baddr dev f x bn = 0" and ind: "di_addrs x ! NDIRECT \<noteq> 0"
  defines "f1 \<equiv> taken sb dev f (unat a)" and "k \<equiv> (dev, di_addrs x ! NDIRECT)"
  defines "f2 \<equiv> f1(k := overwrite (f1 k) (4 * (bn - NDIRECT)) (le32 a))"
  shows "ext sb dev f x f2 x" "baddr dev f2 x bn = a"
proof -
  let ?ind = "di_addrs x ! NDIRECT"
  note T = taken_facts [OF L D a, folded f1_def]
  have db: "data_blk sb dev f ?ind" by (rule file_okD(2) [OF F ind])
  have fk: "f1 k = f k" using T(1) [OF db] by (simp add: k_def)
  have lk: "length (f1 k) = BSIZE" using T(4) by (simp add: disk_ok_def k_def)
  have off: "4 * (bn - NDIRECT) + 4 \<le> BSIZE" using bn by (simp add: MAXFILE_def NINDIRECT_def NDIRECT_def BSIZE_def)
  have B: "baddr dev f2 x j = (if j = bn then a else baddr dev f x j)" if "j < MAXFILE" for j
  proof (cases "j < NDIRECT \<or> j = bn")
    case True
    then show ?thesis using bn(1) ind lk off by (auto simp: baddr_def f2_def k_def rd32_le32)
  next
    case False
    then have "rd32 (overwrite (f1 k) (4 * (bn - NDIRECT)) (le32 a)) (4 * (j - NDIRECT)) = rd32 (f1 k) (4 * (j - NDIRECT))"
      using that bn lk off by (intro rd32_overwrite_other) (auto simp: MAXFILE_def NINDIRECT_def NDIRECT_def BSIZE_def)
    then show ?thesis using False ind fk by (simp add: baddr_def f2_def k_def)
  qed
  then show "baddr dev f2 x bn = a" using bn(2) by simp
  have us: "used sb dev f2 c = used sb dev f1 c" if "c < unat (sb_size sb)" for c
    using data_blk_facts(4) [OF L db that] by (auto simp: used_def f2_def k_def)
  have db2: "data_blk sb dev f2 b = data_blk sb dev f1 b" for b using us by (auto simp: data_blk_def)
  have ms: "meta sb \<le> unat (sb_size sb)" using L by (simp add: layout_def)
  have D2: "disk_ok sb dev f2"
    unfolding disk_ok_def
  proof (intro conjI allI impI)
    show "length (f2 (dev, b)) = BSIZE" for b using T(4) lk off by (auto simp: disk_ok_def f2_def k_def)
    show "used sb dev f2 c" if "c < meta sb" for c using T(4) us that ms by (auto simp: disk_ok_def)
  qed
  have na: "a \<noteq> ?ind" using T(1) [OF db] by blast
  show "ext sb dev f x f2 x"
  proof (rule ext_step [OF F D2, where t = bn and a = a and as = "di_addrs x"])
    show "x = x\<lparr>di_addrs := di_addrs x\<rparr>" by simp
    show "length (di_addrs x) = 13" by (rule file_okD(1) [OF F])
    show "\<forall>j<MAXFILE. baddr dev f2 x j = baddr dev f x j \<or> baddr dev f x j = 0 \<and> j = bn \<and> baddr dev f2 x j = a" using B bn(3) by simp
    show "data_blk sb dev f2 a" "f2 (dev, a) = replicate BSIZE 0" using T(2,3) db2 na by (auto simp: f2_def k_def)
    show "\<forall>b. data_blk sb dev f b \<longrightarrow> data_blk sb dev f2 b \<and> b \<noteq> a \<and> (b \<noteq> ?ind \<longrightarrow> f2 (dev, b) = f (dev, b))"
      using T(1) db2 by (auto simp: f2_def k_def)
    show "\<forall>c<unat (sb_size sb). used sb dev f c \<longrightarrow> used sb dev f2 c" using us T(6) by simp
    show "\<forall>b. unat b < unat (bmapstart sb) \<longrightarrow> f2 (dev, b) = f (dev, b)"
      using T(5) data_blk_facts(3) [OF L db] by (auto simp: f2_def k_def)
  qed simp
qed

end
