(* ===== verification/FsIO.thy ===== *)
theory FsIO
  imports FsFile
begin

text \<open>
  Reading and writing of files: \<open>bmap\<close> gives the block of an offset and allocates it when it is missing, \<open>readi\<close> and
  \<open>writei\<close> act on the bytes of the file.  The destination of \<open>readi\<close> is an interface, the locale \<open>sink\<close>.
\<close>

section \<open>bmap\<close>

definition set_dino :: "inode list \<Rightarrow> nat \<Rightarrow> dinode \<Rightarrow> inode list" where
  "set_dino it ip x = it[ip := (it ! ip)\<lparr>dino := x\<rparr>]"

lemma set_dino_length [simp]: "length (set_dino it ip x) = length it"
  by (simp add: set_dino_def)

lemma set_dino_nth [simp]: "ip < length it \<Longrightarrow> set_dino it ip x ! ip = (it ! ip)\<lparr>dino := x\<rparr>"
  by (simp add: set_dino_def)

lemma set_dino_twice [simp]: "ip < length it \<Longrightarrow> set_dino (set_dino it ip x) ip y = set_dino it ip y"
  by (simp add: set_dino_def)

lemma set_dino_same [simp]: "set_dino it ip (dino (it ! ip)) = it"
  by (simp add: set_dino_def)

lemma entry_set_dino: "entry sb dev it ip \<Longrightarrow> length (di_addrs x) = 13 \<Longrightarrow> entry sb dev (set_dino it ip x) ip"
  by (simp add: entry_def)

lemma alloc_pre_empty: "disk_ok sb dev f \<Longrightarrow> alloc_pre sb dev Map.empty f"
  by (simp add: alloc_pre_def disk_ok_def)

lemma alloc_pre_data:
  assumes "layout sb ls" and "disk_ok sb dev f" and "data_blk sb dev f b"
  shows "alloc_pre sb dev [(dev, b) \<mapsto> bp] f"
proof -
  have "b \<noteq> of_nat c" if "c < unat (sb_size sb)" "\<not> used sb dev f c" for c
  proof
    assume "b = of_nat c"
    moreover have "unat (of_nat c :: uint32) = c" using that(1) assms(1) by (intro unat_small) (simp add: layout_def)
    ultimately show False using that(2) assms(3) by (simp add: data_blk_def)
  qed
  then show ?thesis
    using assms(2) data_blk_facts(4) [OF assms(1,3)] by (auto simp: alloc_pre_def disk_ok_def)
qed

lemma good_disk_ok: "good sb dev pid m M f it s \<Longrightarrow> \<forall>c<meta sb. used sb dev f c \<Longrightarrow> disk_ok sb dev f"
  using good_len by (auto simp: disk_ok_def)

lemma bmap_entry_ok:
  assumes g: "good sb dev pid (m + 2) Map.empty f it s" and e: "entry sb dev it ip" and D: "disk_ok sb dev f"
    and F: "file_ok sb dev f (dino (it ! ip))" and i: "i \<le> NDIRECT"
  shows "yields (bmap_entry s pid ip i) (\<lambda>(a, s1). \<exists>f1 x1. good sb dev pid m Map.empty f1 (set_dino it ip x1) s1 \<and>
      ext sb dev f (dino (it ! ip)) f1 x1 \<and> (if a = 0 then full sb dev f1 else di_addrs x1 ! i = a))"
proof -
  let ?x = "dino (it ! ip)"
  have L: "layout sb (log_start (flog s))" by (rule good_layout [OF g])
  have tab: "itable s = it" using good_table(1) [OF g] .
  have ip: "ip < length it" "idev (it ! ip) = dev" using e by (auto simp: entry_def)
  have len: "length (di_addrs ?x) = 13" by (rule file_okD(1) [OF F])
  show ?thesis
  proof (cases "addr_of s ip i = 0")
    case False
    then have "bmap_entry s pid ip i = ret (di_addrs ?x ! i, s)" using tab by (simp add: bmap_entry_def addr_of_def)
    moreover have "good sb dev pid m Map.empty f (set_dino it ip ?x) s" using good_less [OF g] by simp
    ultimately show ?thesis using ext_refl [OF D F] False tab
      by (simp add: addr_of_def) (intro exI [of _ f] exI [of _ ?x], simp)
  next
    case True
    then have z: "di_addrs ?x ! i = 0" using tab by (simp add: addr_of_def)
    obtain a s1 where 1: "balloc s pid dev = ret (a, s1)" "alloc_post sb dev pid m Map.empty f it a s1"
      using balloc_ok [OF g alloc_pre_empty [OF D]] by (auto simp: yields_def)
    have run: "bmap_entry s pid ip i = ret (a, if a = 0 then s1 else set_addr s1 ip i a)"
      using True 1(1) tab ip by (simp add: bmap_entry_def)
    show ?thesis
    proof (cases "a = 0")
      case a: True
      then have "full sb dev f" "good sb dev pid m Map.empty f (set_dino it ip ?x) s1"
        using 1(2) good_less [of sb dev pid "m + 2" _ f it s1 m] by (auto simp: alloc_post_def full_def)
      then show ?thesis using run a ext_refl [OF D F] by simp (intro exI [of _ f] exI [of _ ?x], simp)
    next
      case a: False
      let ?f1 = "taken sb dev f (unat a)" and ?x1 = "?x\<lparr>di_addrs := (di_addrs ?x)[i := a]\<rparr>"
      have fr: "meta sb \<le> unat a" "unat a < unat (sb_size sb)" "\<not> used sb dev f (unat a)" "good sb dev pid m Map.empty ?f1 it s1"
        using 1(2) a by (auto simp: alloc_post_def)
      have "good sb dev pid m Map.empty ?f1 (set_dino it ip ?x1) (set_addr s1 ip i a)"
        using good_upd_ip [OF fr(4), of ip "\<lambda>x. x\<lparr>dino := (dino x)\<lparr>di_addrs := (di_addrs (dino x))[i := a]\<rparr>\<rparr>"]
        by (simp add: set_addr_def set_dino_def)
      moreover have "ext sb dev f ?x ?f1 ?x1" using ext_direct [OF L D F fr(1-3) i z] .
      moreover have "di_addrs ?x1 ! i = a" using len i by (simp add: NDIRECT_def)
      ultimately show ?thesis using run a by (simp only: yields_simps prod.case if_False) blast
    qed
  qed
qed

lemma bmap_present:
  assumes g: "good sb dev pid m Map.empty f it s" and e: "entry sb dev it ip" and F: "file_ok sb dev f (dino (it ! ip))"
    and bn: "bn < MAXFILE" "baddr dev f (dino (it ! ip)) bn \<noteq> 0"
  shows "yields (bmap s pid ip bn) (\<lambda>(a, s1). a = baddr dev f (dino (it ! ip)) bn \<and> good sb dev pid m Map.empty f it s1)"
proof -
  let ?x = "dino (it ! ip)"
  have tab: "itable s = it" using good_table(1) [OF g] .
  have ip: "ip < length it" "idev (it ! ip) = dev" using e by (auto simp: entry_def)
  show ?thesis
  proof (cases "bn < NDIRECT")
    case True
    then show ?thesis using bn g tab by (simp add: bmap_def bmap_entry_def addr_of_def baddr_def)
  next
    case False
    let ?ind = "di_addrs ?x ! NDIRECT"
    have ind: "?ind \<noteq> 0" "rd32 (f (dev, ?ind)) (4 * (bn - NDIRECT)) = baddr dev f ?x bn" using bn False by (auto simp: baddr_def split: if_splits)
    obtain bp s2 where 2: "s_bread s pid (dev, ?ind) = ret (bp, s2)" "s_data s2 bp = f (dev, ?ind)"
        "good sb dev pid m [(dev, ?ind) \<mapsto> bp] f it s2"
      using g_bread [OF g, of ?ind] by (auto simp: yields_def)
    obtain s3 where 3: "s_brelse s2 pid bp = ret s3" "good sb dev pid m Map.empty f it s3"
      using g_brelse [OF 2(3), of "(dev, ?ind)" bp] by (auto simp: yields_def)
    have "bn - NDIRECT < NINDIRECT" using bn(1) False by (simp add: MAXFILE_def)
    then show ?thesis using False ind bn tab ip 2(1,2) 3 by (simp add: bmap_def bmap_entry_def addr_of_def Let_def)
  qed
qed

lemma bmap_ok:
  assumes g: "good sb dev pid (m + 5) Map.empty f it s" and e: "entry sb dev it ip" and D: "disk_ok sb dev f"
    and F: "file_ok sb dev f (dino (it ! ip))" and bn: "bn < MAXFILE"
  shows "yields (bmap s pid ip bn) (\<lambda>(a, s1). \<exists>f1 x1. good sb dev pid m Map.empty f1 (set_dino it ip x1) s1 \<and>
      ext sb dev f (dino (it ! ip)) f1 x1 \<and> (if a = 0 then full sb dev f1 else baddr dev f1 x1 bn = a))"
proof (cases "bn < NDIRECT")
  case True
  have "good sb dev pid (m + 2) Map.empty f it s" using good_less [OF g] by simp
  then show ?thesis using bmap_entry_ok [OF _ e D F, of pid m s bn] True
    by (auto elim!: yields_mono simp: bmap_def baddr_def) (metis less_imp_le)
next
  case False
  let ?x = "dino (it ! ip)"
  have in_range: "bn - NDIRECT < NINDIRECT" using bn False by (simp add: MAXFILE_def)
  have g2: "good sb dev pid ((m + 3) + 2) Map.empty f it s" by (rule good_less [OF g]) simp
  obtain a s1 f1 x1 where 1: "bmap_entry s pid ip NDIRECT = ret (a, s1)" "good sb dev pid (m + 3) Map.empty f1 (set_dino it ip x1) s1"
      "ext sb dev f ?x f1 x1" "if a = 0 then full sb dev f1 else di_addrs x1 ! NDIRECT = a"
    using bmap_entry_ok [OF g2 e D F order_refl] by (auto simp: yields_def)
  show ?thesis
  proof (cases "a = 0")
    case True
    then have "bmap s pid ip bn = ret (0, s1)" using False in_range 1(1) by (simp add: bmap_def)
    then show ?thesis using 1 True good_less [OF 1(2), of m] by auto
  next
    case a: False
    let ?it1 = "set_dino it ip x1"
    have L: "layout sb (log_start (flog s1))" by (rule good_layout [OF 1(2)])
    have D1: "disk_ok sb dev f1" and F1: "file_ok sb dev f1 x1" using 1(3) by (auto simp: ext_def)
    have ind: "di_addrs x1 ! NDIRECT = a" using 1(4) a by simp
    have db: "data_blk sb dev f1 a" using file_okD(2) [OF F1] ind a by simp
    have tab1: "itable s1 = ?it1" using good_table(1) [OF 1(2)] .
    have ip: "ip < length it" "idev (it ! ip) = dev" using e by (auto simp: entry_def)
    obtain bp s2 where 2: "s_bread s1 pid (dev, a) = ret (bp, s2)" "s_data s2 bp = f1 (dev, a)"
        "good sb dev pid (m + 3) [(dev, a) \<mapsto> bp] f1 ?it1 s2"
      using g_bread [OF 1(2), of a] by (auto simp: yields_def)
    have tab2: "itable s2 = ?it1" using good_table(1) [OF 2(3)] .
    let ?off = "4 * (bn - NDIRECT)" and ?c = "rd32 (f1 (dev, a)) (4 * (bn - NDIRECT))"
    have bc: "baddr dev f1 x1 bn = ?c" using False a ind by (simp add: baddr_def)
    show ?thesis
    proof (cases "?c = 0")
      case c: False
      obtain s3 where 3: "s_brelse s2 pid bp = ret s3" "good sb dev pid (m + 3) Map.empty f1 ?it1 s3"
        using g_brelse [OF 2(3), of "(dev, a)" bp] by (auto simp: yields_def)
      have "bmap s pid ip bn = ret (?c, s3)"
        using False in_range 1(1) a 2(1,2) c 3(1) tab1 ip by (simp add: bmap_def Let_def)
      then show ?thesis using 1(3) bc c good_less [OF 3(2), of m] by auto
    next
      case c: True
      have g3: "good sb dev pid ((m + 1) + 2) [(dev, a) \<mapsto> bp] f1 ?it1 s2" by (rule good_less [OF 2(3)]) simp
      obtain a1 s3 where 3: "balloc s2 pid dev = ret (a1, s3)" "alloc_post sb dev pid (m + 1) [(dev, a) \<mapsto> bp] f1 ?it1 a1 s3"
        using balloc_ok [OF g3 alloc_pre_data [OF L D1 db]] by (auto simp: yields_def)
      show ?thesis
      proof (cases "a1 = 0")
        case True
        then have p: "full sb dev f1" "good sb dev pid m [(dev, a) \<mapsto> bp] f1 ?it1 s3"
          using 3(2) good_less [of sb dev pid "m + 1 + 2" _ f1 ?it1 s3 m] by (auto simp: alloc_post_def full_def)
        obtain s4 where 4: "s_brelse s3 pid bp = ret s4" "good sb dev pid m Map.empty f1 ?it1 s4"
          using g_brelse [OF p(2), of "(dev, a)" bp] by (auto simp: yields_def)
        have "bmap s pid ip bn = ret (0, s4)"
          using False in_range 1(1) a 2(1,2) c 3(1) 4(1) True tab1 tab2 ip by (simp add: bmap_def Let_def)
        then show ?thesis using p(1) 4(2) 1(3) by auto
      next
        case a1: False
        let ?f2 = "taken sb dev f1 (unat a1)"
        have fr: "meta sb \<le> unat a1" "unat a1 < unat (sb_size sb)" "\<not> used sb dev f1 (unat a1)"
            "good sb dev pid (Suc m) [(dev, a) \<mapsto> bp] ?f2 ?it1 s3"
          using 3(2) a1 by (auto simp: alloc_post_def)
        let ?d = "overwrite (?f2 (dev, a)) ?off (le32 a1)" and ?f3 = "?f2((dev, a) := overwrite (?f2 (dev, a)) ?off (le32 a1))"
        have "?off + 4 \<le> BSIZE" using in_range by (simp add: NINDIRECT_def BSIZE_def)
        then have "length ?d = BSIZE" using good_len [OF fr(4)] by simp
        then obtain s4 where 4: "s_log_write s3 bp ?d = ret s4" "good sb dev pid m [(dev, a) \<mapsto> bp] ?f3 ?it1 s4"
          using g_write [OF fr(4), of a bp ?d] data_blk_facts(2) [OF L db] by (auto simp: yields_def)
        obtain s5 where 5: "s_brelse s4 pid bp = ret s5" "good sb dev pid m Map.empty ?f3 ?it1 s5"
          using g_brelse [OF 4(2), of "(dev, a)" bp] by (auto simp: yields_def)
        have run: "bmap s pid ip bn = ret (a1, s5)"
          using False in_range 1(1) a 2(1,2) c 3(1) 4(1) 5(1) a1 tab1 tab2 ip g_data [OF fr(4), of "(dev, a)" bp]
          by (simp add: bmap_def Let_def)
        have nb: "NDIRECT \<le> bn" "baddr dev f1 x1 bn = 0" "di_addrs x1 ! NDIRECT \<noteq> 0" using False bc c ind a by auto
        have x: "ext sb dev f1 x1 ?f3 x1" "baddr dev ?f3 x1 bn = a1"
          using ext_indirect [OF L D1 F1 fr(1-3) nb(1) bn nb(2,3)] unfolding ind by auto
        have "ext sb dev f ?x ?f3 x1" by (rule ext_trans [OF 1(3) x(1)])
        then show ?thesis unfolding run using 5(2) x(2) a1 by (simp only: yields_simps prod.case if_False) blast
      qed
    qed
  qed
qed

section \<open>Writing\<close>

definition blocks :: "uint32 \<Rightarrow> (blkno \<Rightarrow> block) \<Rightarrow> dinode \<Rightarrow> uint32 set" where
  "blocks dev f x = {a. a \<noteq> 0 \<and> (a = di_addrs x ! NDIRECT \<or> (\<exists>bn<MAXFILE. baddr dev f x bn = a))}"

definition put_bytes :: "(nat \<Rightarrow> byte) \<Rightarrow> nat \<Rightarrow> byte list \<Rightarrow> nat \<Rightarrow> byte" where
  "put_bytes c off bs i = (if off \<le> i \<and> i < off + length bs then bs ! (i - off) else c i)"

text \<open>The file has the bytes \<open>c\<close> afterwards; the blocks in use that it did not have are unchanged, and not in it.\<close>

definition wrote :: "superblock \<Rightarrow> uint32 \<Rightarrow> (blkno \<Rightarrow> block) \<Rightarrow> dinode \<Rightarrow> (blkno \<Rightarrow> block) \<Rightarrow> dinode \<Rightarrow> (nat \<Rightarrow> byte) \<Rightarrow> bool" where
  "wrote sb dev f x f1 x1 c \<longleftrightarrow> disk_ok sb dev f1 \<and> file_ok sb dev f1 x1 \<and> x1 = x\<lparr>di_addrs := di_addrs x1\<rparr> \<and>
     (\<forall>bn<MAXFILE. baddr dev f x bn \<noteq> 0 \<longrightarrow> baddr dev f1 x1 bn \<noteq> 0) \<and>
     (\<forall>off<MAXFILE * BSIZE. fcontent dev f1 x1 off = c off) \<and>
     (\<forall>c<unat (sb_size sb). used sb dev f c \<longrightarrow> used sb dev f1 c) \<and>
     (\<forall>b. unat b < unat (bmapstart sb) \<longrightarrow> f1 (dev, b) = f (dev, b)) \<and>
     (\<forall>b. data_blk sb dev f b \<and> b \<notin> blocks dev f x \<longrightarrow> f1 (dev, b) = f (dev, b) \<and> b \<notin> blocks dev f1 x1)"

lemma wrote_data: "wrote sb dev f x f1 x1 c \<Longrightarrow> data_blk sb dev f b \<Longrightarrow> data_blk sb dev f1 b"
  by (auto simp: wrote_def data_blk_def)

lemma wrote_trans:
  assumes a: "wrote sb dev f x f1 x1 c1" and b: "wrote sb dev f1 x1 f2 x2 c2"
  shows "wrote sb dev f x f2 x2 c2"
proof -
  have "x2 = x\<lparr>di_addrs := di_addrs x2\<rparr>"
  proof -
    have "x2 = x1\<lparr>di_addrs := di_addrs x2\<rparr>" "x1 = x\<lparr>di_addrs := di_addrs x1\<rparr>" using a b by (auto simp: wrote_def)
    then show ?thesis by (metis dinode.surjective dinode.update_convs(6))
  qed
  then show ?thesis using a b wrote_data [OF a] unfolding wrote_def by auto
qed

lemma ext_wrote:
  assumes D: "disk_ok sb dev f" and x: "ext sb dev f x f1 x1"
  shows "wrote sb dev f x f1 x1 (fcontent dev f x)"
proof -
  have B: "baddr dev f1 x1 bn = baddr dev f x bn \<or> baddr dev f x bn = 0 \<and> \<not> data_blk sb dev f (baddr dev f1 x1 bn)" if "bn < MAXFILE" for bn
    using x that by (simp add: ext_def)
  have I: "f1 (dev, b) = f (dev, b) \<and> b \<noteq> di_addrs x1 ! NDIRECT" if "data_blk sb dev f b" "b \<noteq> di_addrs x ! NDIRECT" for b
    using x that by (simp add: ext_def)
  have "f1 (dev, b) = f (dev, b) \<and> b \<notin> blocks dev f1 x1" if b: "data_blk sb dev f b" "b \<notin> blocks dev f x" for b
  proof -
    have nz: "b \<noteq> 0" using b(1) by (auto simp: data_blk_def meta_def)
    then have "b \<noteq> di_addrs x ! NDIRECT" using b(2) by (auto simp: blocks_def)
    moreover have "baddr dev f1 x1 bn \<noteq> b" if "bn < MAXFILE" for bn
      using B [OF that] b nz that by (auto simp: blocks_def)
    ultimately show ?thesis using I [OF b(1)] by (auto simp: blocks_def)
  qed
  moreover have "baddr dev f1 x1 bn \<noteq> 0" if "bn < MAXFILE" "baddr dev f x bn \<noteq> 0" for bn using B [OF that(1)] that(2) by auto
  ultimately show ?thesis using x unfolding ext_def wrote_def by auto
qed

text \<open>New bytes in one block of the file.\<close>

lemma overwrite_block:
  assumes L: "layout sb ls" and D: "disk_ok sb dev f" and F: "file_ok sb dev f x" and bn: "bn < MAXFILE" and a: "baddr dev f x bn = a" "a \<noteq> 0"
    and o: "p + length bs \<le> BSIZE"
  defines "f1 \<equiv> f((dev, a) := overwrite (f (dev, a)) p bs)"
  shows "wrote sb dev f x f1 x (put_bytes (fcontent dev f x) (bn * BSIZE + p) bs)" "baddr dev f1 x = baddr dev f x"
proof -
  have da: "data_blk sb dev f a" "a \<noteq> di_addrs x ! NDIRECT" using file_okD(3,4) [OF F bn] a by auto
  have la: "length (f (dev, a)) = BSIZE" using D by (simp add: disk_ok_def)
  show B: "baddr dev f1 x = baddr dev f x" using da(2) by (intro ext) (simp add: baddr_def f1_def)
  have us: "used sb dev f1 c = used sb dev f c" if "c < unat (sb_size sb)" for c
    using data_blk_facts(4) [OF L da(1) that] by (auto simp: used_def f1_def)
  have db: "data_blk sb dev f1 = data_blk sb dev f" using us by (auto simp: data_blk_def fun_eq_iff)
  have ms: "meta sb \<le> unat (sb_size sb)" using L by (simp add: layout_def)
  have D1: "disk_ok sb dev f1" unfolding disk_ok_def
  proof (intro conjI allI impI)
    show "length (f1 (dev, b)) = BSIZE" for b using D la o by (auto simp: disk_ok_def f1_def)
    show "used sb dev f1 c" if "c < meta sb" for c using D us that ms by (auto simp: disk_ok_def)
  qed
  have F1: "file_ok sb dev f1 x" using F unfolding file_ok_def B db .
  have f1a: "f1 (dev, a) = overwrite (f (dev, a)) p bs" "\<And>b. b \<noteq> a \<Longrightarrow> f1 (dev, b) = f (dev, b)" by (auto simp: f1_def)
  have con: "fcontent dev f1 x i = put_bytes (fcontent dev f x) (bn * BSIZE + p) bs i" if i: "i < MAXFILE * BSIZE" for i
  proof (cases "i div BSIZE = bn")
    case True
    then have e: "i = bn * BSIZE + i mod BSIZE" "i mod BSIZE < BSIZE" by (metis div_mult_mod_eq, simp add: BSIZE_def)
    have c: "fcontent dev f1 x i = overwrite (f (dev, a)) p bs ! (i mod BSIZE)" "fcontent dev f x i = f (dev, a) ! (i mod BSIZE)"
      using True a by (auto simp: fcontent_def B f1a Let_def)
    have "(bn * BSIZE + p \<le> i \<and> i < bn * BSIZE + p + length bs) \<longleftrightarrow> p \<le> i mod BSIZE \<and> i mod BSIZE < p + length bs"
      "i - (bn * BSIZE + p) = i mod BSIZE - p"
      using e(1) by linarith+
    then show ?thesis using c o la e(2) by (simp add: put_bytes_def nth_overwrite)
  next
    case False
    have "baddr dev f x (i div BSIZE) \<noteq> a" using file_okD(5) [OF F block_of_off [OF i] bn] False a by auto
    moreover have "\<not> (bn * BSIZE + p \<le> i \<and> i < bn * BSIZE + p + length bs)"
    proof
      assume "bn * BSIZE + p \<le> i \<and> i < bn * BSIZE + p + length bs"
      then have "bn * BSIZE \<le> i" "i < Suc bn * BSIZE" using o by auto
      then have "i div BSIZE = bn" by (intro div_nat_eqI) (simp_all add: mult.commute)
      then show False using False by simp
    qed
    ultimately show ?thesis by (auto simp: put_bytes_def fcontent_def B f1a Let_def)
  qed
  have ib: "blocks dev f1 x = blocks dev f x" by (simp add: blocks_def B)
  have "f1 (dev, b) = f (dev, b)" if "b \<notin> blocks dev f x" for b
    using that bn a by (auto simp: blocks_def f1_def)
  moreover have "f1 (dev, b) = f (dev, b)" if "unat b < unat (bmapstart sb)" for b
    using data_blk_facts(3) [OF L da(1)] that by (auto simp: f1_def)
  ultimately show "wrote sb dev f x f1 x (put_bytes (fcontent dev f x) (bn * BSIZE + p) bs)"
    unfolding wrote_def ib B using D1 F1 con us by auto
qed

lemma within_block:
  assumes "off mod B + i < (B :: nat)"
  shows "(off + i) div B = off div B" "(off + i) mod B = off mod B + i"
proof -
  have o: "B * (off div B) + off mod B = off" by (rule mult_div_mod_eq)
  show d: "(off + i) div B = off div B"
  proof (rule div_nat_eqI)
    show "B * (off div B) \<le> off + i" using o by linarith
    show "off + i < B * Suc (off div B)" using o assms unfolding mult_Suc_right by linarith
  qed
  show "(off + i) mod B = off mod B + i" using mult_div_mod_eq [of B "off + i"] o unfolding d by linarith
qed

lemma put_bytes_Nil [simp]: "put_bytes c off [] = c"
  by (auto simp: put_bytes_def fun_eq_iff)

lemma put_bytes_append:
  "put_bytes (put_bytes c off xs) (off + length xs) ys = put_bytes c off (xs @ ys)"
  by (rule ext) (auto simp: put_bytes_def nth_append)

lemma wrote_cong: "wrote sb dev f x f1 x1 c \<Longrightarrow> \<forall>i<MAXFILE * BSIZE. c i = c1 i \<Longrightarrow> wrote sb dev f x f1 x1 c1"
  by (simp add: wrote_def)

lemma wroteD:
  assumes "wrote sb dev f x f1 x1 c"
  shows "disk_ok sb dev f1" "file_ok sb dev f1 x1" "bn < MAXFILE \<Longrightarrow> baddr dev f x bn \<noteq> 0 \<Longrightarrow> baddr dev f1 x1 bn \<noteq> 0"
    "i < MAXFILE * BSIZE \<Longrightarrow> fcontent dev f1 x1 i = c i" "unat b < unat (bmapstart sb) \<Longrightarrow> f1 (dev, b) = f (dev, b)"
    "data_blk sb dev f b \<Longrightarrow> b \<notin> blocks dev f x \<Longrightarrow> f1 (dev, b) = f (dev, b) \<and> b \<notin> blocks dev f1 x1"
    "di_size x1 = di_size x" "di_type x1 = di_type x" "length (di_addrs x1) = 13"
proof -
  have e: "x1 = x\<lparr>di_addrs := di_addrs x1\<rparr>" using assms by (simp add: wrote_def)
  show "di_size x1 = di_size x" "di_type x1 = di_type x" by (subst e, simp)+
qed (use assms in \<open>auto simp: wrote_def file_ok_def\<close>)

lemma chunk_block: "off mod BSIZE + chunk n tot off \<le> BSIZE"
  using mod_less_divisor [of BSIZE off] by (auto simp: chunk_def BSIZE_def)

text \<open>
  The loop of \<open>writei\<close> with \<open>K\<close> blocks to go.  Each round calls \<open>log_write\<close> at most six times: two for a new indirect block,
  two for a new data block, one for the entry and one for the data.
\<close>

lemma writei_loop_ok:
  assumes cp: "\<forall>i c. i + c \<le> n \<longrightarrow> cp mem i c = (True, take c (drop i bs))" and len: "length bs = n"
  shows "good sb dev pid (6 * K + m) Map.empty f it s \<Longrightarrow> entry sb dev it ip \<Longrightarrow> disk_ok sb dev f \<Longrightarrow> file_ok sb dev f (dino (it ! ip)) \<Longrightarrow>
    tot \<le> n \<Longrightarrow> off + (n - tot) \<le> MAXFILE * BSIZE \<Longrightarrow> (tot < n \<longrightarrow> off mod BSIZE + (n - tot) \<le> K * BSIZE) \<Longrightarrow>
    yields (writei_loop cp s pid ip mem off n tot) (\<lambda>(r, s1). \<exists>f1 x1. tot \<le> r \<and> r \<le> n \<and> good sb dev pid m Map.empty f1 (set_dino it ip x1) s1 \<and>
      wrote sb dev f (dino (it ! ip)) f1 x1 (put_bytes (fcontent dev f (dino (it ! ip))) off (take (r - tot) (drop tot bs))) \<and>
      (r < n \<longrightarrow> full sb dev f1) \<and> (\<forall>bn. tot < r \<and> off div BSIZE \<le> bn \<and> bn * BSIZE < off + (r - tot) \<longrightarrow> baddr dev f1 x1 bn \<noteq> 0))"
proof (induction "n - tot" arbitrary: s it f off tot K rule: less_induct)
  case less
  note g = less.prems(1) and e = less.prems(2) and D = less.prems(3) and F = less.prems(4)
  let ?x = "dino (it ! ip)"
  show ?case
  proof (cases "tot < n")
    case False
    then have run: "writei_loop cp s pid ip mem off n tot = ret (tot, s)" by (subst writei_loop.simps) simp
    have "wrote sb dev f ?x f ?x (put_bytes (fcontent dev f ?x) off (take (tot - tot) (drop tot bs)))"
      using ext_wrote [OF D ext_refl [OF D F]] by simp
    moreover have "good sb dev pid m Map.empty f (set_dino it ip ?x) s" using good_less [OF g, of m] by simp
    ultimately show ?thesis unfolding run using False less.prems(5) by simp (intro exI [of _ f] exI [of _ ?x], simp)
  next
    case True
    let ?c = "chunk n tot off" and ?bn = "off div BSIZE" and ?p = "off mod BSIZE"
    have c0: "0 < ?c" "?c \<le> n - tot" using chunk_pos [OF True] by (auto simp: chunk_def)
    have bn: "?bn < MAXFILE" using less.prems(6) True by (intro block_of_off) simp
    obtain K1 where K: "K = Suc K1" using less.prems(7) True c0 by (cases K) auto
    have g6: "good sb dev pid ((6 * K1 + m + 1) + 5) Map.empty f it s" by (rule good_less [OF g]) (simp add: K)
    obtain a s1 f1 x1 where 1: "bmap s pid ip ?bn = ret (a, s1)" "good sb dev pid (6 * K1 + m + 1) Map.empty f1 (set_dino it ip x1) s1"
        "ext sb dev f ?x f1 x1" "if a = 0 then full sb dev f1 else baddr dev f1 x1 ?bn = a"
      using bmap_ok [OF g6 e D F bn] by (auto simp: yields_def)
    have w1: "wrote sb dev f ?x f1 x1 (fcontent dev f ?x)" by (rule ext_wrote [OF D 1(3)])
    have ip: "ip < length it" "idev (it ! ip) = dev" using e by (auto simp: entry_def)
    show ?thesis
    proof (cases "a = 0")
      case a: True
      have run: "writei_loop cp s pid ip mem off n tot = ret (tot, s1)" using True 1(1) a by (subst writei_loop.simps) simp
      show ?thesis unfolding run using True a 1(4) w1 good_less [OF 1(2), of m] by simp blast
    next
      case a: False
      let ?it1 = "set_dino it ip x1"
      have D1: "disk_ok sb dev f1" and F1: "file_ok sb dev f1 x1" using wroteD [OF w1] by auto
      have ba: "baddr dev f1 x1 ?bn = a" using 1(4) a by simp
      have L: "layout sb (log_start (flog s1))" by (rule good_layout [OF 1(2)])
      have db: "data_blk sb dev f1 a" using file_okD(3) [OF F1 bn] ba a by simp
      obtain bp s2 where 2: "s_bread s1 pid (dev, a) = ret (bp, s2)" "s_data s2 bp = f1 (dev, a)"
          "good sb dev pid (Suc (6 * K1 + m)) [(dev, a) \<mapsto> bp] f1 ?it1 s2"
        using g_bread [OF 1(2), of a] by (auto simp: yields_def)
      let ?b = "take ?c (drop tot bs)"
      have lb: "length ?b = ?c" using len c0 by simp
      let ?d = "overwrite (f1 (dev, a)) ?p ?b" and ?f2 = "f1((dev, a) := overwrite (f1 (dev, a)) ?p ?b)"
      have "length ?d = BSIZE" using lb chunk_block [of off n tot] good_len [OF 1(2)] by simp
      then obtain s3 where 3: "s_log_write s2 bp ?d = ret s3" "good sb dev pid (6 * K1 + m) [(dev, a) \<mapsto> bp] ?f2 ?it1 s3"
        using g_write [OF 2(3), of a bp ?d] data_blk_facts(2) [OF L db] by (auto simp: yields_def)
      obtain s4 where 4: "s_brelse s3 pid bp = ret s4" "good sb dev pid (6 * K1 + m) Map.empty ?f2 ?it1 s4"
        using g_brelse [OF 3(2), of "(dev, a)" bp] by (auto simp: yields_def)
      have run: "writei_loop cp s pid ip mem off n tot = writei_loop cp s4 pid ip mem (off + ?c) n (tot + ?c)"
        using True 1(1) a 2(1,2) 3(1) 4(1) cp c0 ip good_table(1) [OF 1(2)] by (subst writei_loop.simps) (simp add: Let_def)
      note W = overwrite_block [OF L D1 F1 bn ba a, of ?p ?b]
      have w2: "wrote sb dev f1 x1 ?f2 x1 (put_bytes (fcontent dev f1 x1) off ?b)" and ba2: "baddr dev ?f2 x1 = baddr dev f1 x1"
        using W lb chunk_block [of off n tot] by auto
      have e1: "entry sb dev ?it1 ip" by (rule entry_set_dino [OF e]) (rule wroteD(9) [OF w1])
      have x1: "dino (?it1 ! ip) = x1" using ip by simp
      have nxt: "tot + ?c < n \<longrightarrow> (off + ?c) mod BSIZE + (n - (tot + ?c)) \<le> K1 * BSIZE"
      proof
        assume lt: "tot + ?c < n"
        then have "?c = BSIZE - ?p" by (auto simp: chunk_def)
        moreover have "?p < BSIZE" by (simp add: BSIZE_def)
        ultimately have "off + ?c = Suc ?bn * BSIZE" using div_mult_mod_eq [of off BSIZE] unfolding mult_Suc by linarith
        then have "(off + ?c) mod BSIZE = 0" by simp
        moreover have "n - (tot + ?c) + BSIZE = ?p + (n - tot)" using \<open>?c = BSIZE - ?p\<close> \<open>?p < BSIZE\<close> lt by linarith
        moreover have "?p + (n - tot) \<le> K1 * BSIZE + BSIZE" using less.prems(7) True K by simp
        ultimately show "(off + ?c) mod BSIZE + (n - (tot + ?c)) \<le> K1 * BSIZE" by linarith
      qed
      have "yields (writei_loop cp s4 pid ip mem (off + ?c) n (tot + ?c)) (\<lambda>(r, s1). \<exists>f3 x3. tot + ?c \<le> r \<and> r \<le> n \<and>
          good sb dev pid m Map.empty f3 (set_dino ?it1 ip x3) s1 \<and>
          wrote sb dev ?f2 (dino (?it1 ! ip)) f3 x3 (put_bytes (fcontent dev ?f2 (dino (?it1 ! ip))) (off + ?c) (take (r - (tot + ?c)) (drop (tot + ?c) bs))) \<and>
          (r < n \<longrightarrow> full sb dev f3) \<and> (\<forall>bn. tot + ?c < r \<and> (off + ?c) div BSIZE \<le> bn \<and> bn * BSIZE < off + ?c + (r - (tot + ?c)) \<longrightarrow> baddr dev f3 x3 bn \<noteq> 0))"
        using c0 True e1 4(2) wroteD(1,2) [OF w2] less.prems(6) nxt x1 by (intro less.hyps) auto
      then obtain r s5 f3 x3 where 5: "writei_loop cp s4 pid ip mem (off + ?c) n (tot + ?c) = ret (r, s5)" "tot + ?c \<le> r" "r \<le> n"
          "good sb dev pid m Map.empty f3 (set_dino it ip x3) s5"
          "wrote sb dev ?f2 x1 f3 x3 (put_bytes (fcontent dev ?f2 x1) (off + ?c) (take (r - (tot + ?c)) (drop (tot + ?c) bs)))"
          "r < n \<longrightarrow> full sb dev f3" "\<forall>bn. tot + ?c < r \<and> (off + ?c) div BSIZE \<le> bn \<and> bn * BSIZE < off + ?c + (r - (tot + ?c)) \<longrightarrow> baddr dev f3 x3 bn \<noteq> 0"
        using ip x1 by (auto simp: yields_def)
      have ws: "take (r - tot) (drop tot bs) = ?b @ take (r - (tot + ?c)) (drop (tot + ?c) bs)"
      proof -
        have "r - tot = ?c + (r - (tot + ?c))" using 5(2) by simp
        then show ?thesis using take_add [of ?c "r - (tot + ?c)" "drop tot bs"] by (simp add: add.commute)
      qed
      have con: "fcontent dev ?f2 x1 i = put_bytes (fcontent dev f ?x) off ?b i" if "i < MAXFILE * BSIZE" for i
        using wroteD(4) [OF w2 that] wroteD(4) [OF w1 that] by (simp add: put_bytes_def)
      have "wrote sb dev f ?x f3 x3 (put_bytes (fcontent dev f ?x) off (take (r - tot) (drop tot bs)))"
      proof (rule wrote_cong [OF wrote_trans [OF wrote_trans [OF w1 w2] 5(5)]], intro allI impI)
        fix i
        assume i: "i < MAXFILE * BSIZE"
        let ?t = "take (r - (tot + ?c)) (drop (tot + ?c) bs)"
        have "put_bytes (fcontent dev ?f2 x1) (off + ?c) ?t i = put_bytes (put_bytes (fcontent dev f ?x) off ?b) (off + length ?b) ?t i"
          using con [OF i] lb by (simp add: put_bytes_def)
        also have "\<dots> = put_bytes (fcontent dev f ?x) off (take (r - tot) (drop tot bs)) i"
          unfolding put_bytes_append ws ..
        finally show "put_bytes (fcontent dev ?f2 x1) (off + ?c) ?t i = put_bytes (fcontent dev f ?x) off (take (r - tot) (drop tot bs)) i" .
      qed
      moreover have "baddr dev f3 x3 j \<noteq> 0" if j: "?bn \<le> j" "j * BSIZE < off + (r - tot)" for j
      proof (cases "j = ?bn")
        case True
        then show ?thesis using wroteD(3) [OF 5(5) bn] ba ba2 a by simp
      next
        case False
        then have "Suc ?bn \<le> j" using j(1) by simp
        moreover have "off + ?c \<le> Suc ?bn * BSIZE"
        proof -
          show ?thesis using chunk_block [of off n tot] div_mult_mod_eq [of off BSIZE] unfolding mult_Suc by linarith
        qed
        moreover have "Suc ?bn * BSIZE \<le> j * BSIZE" using \<open>Suc ?bn \<le> j\<close> by (rule mult_le_mono1)
        ultimately have le: "off + ?c \<le> j * BSIZE" by linarith
        then have "(off + ?c) div BSIZE \<le> j" using div_le_mono [OF le, of BSIZE] by (simp add: BSIZE_def)
        moreover have "tot + ?c < r" using le j(2) 5(2) by linarith
        ultimately show ?thesis using 5(7) j(2) by auto
      qed
      ultimately show ?thesis unfolding run 5(1) using 5(2,3,4,6) by auto
    qed
  qed
qed

definition dense :: "uint32 \<Rightarrow> (blkno \<Rightarrow> block) \<Rightarrow> dinode \<Rightarrow> bool" where
  "dense dev f x \<longleftrightarrow> unat (di_size x) \<le> MAXFILE * BSIZE \<and> (\<forall>bn. bn * BSIZE < unat (di_size x) \<longrightarrow> baddr dev f x bn \<noteq> 0)"

text \<open>An inode block is none of the blocks of a file.\<close>

lemma same_data:
  assumes L: "layout sb ls" and same: "\<forall>b. unat (bmapstart sb) \<le> unat b \<longrightarrow> f1 (dev, b) = f (dev, b)"
  shows "c < unat (sb_size sb) \<Longrightarrow> used sb dev f1 c = used sb dev f c" "data_blk sb dev f1 b = data_blk sb dev f b"
    "file_ok sb dev f x \<Longrightarrow> baddr dev f1 x = baddr dev f x" "file_ok sb dev f x \<Longrightarrow> file_ok sb dev f1 x"
    "file_ok sb dev f x \<Longrightarrow> i < MAXFILE * BSIZE \<Longrightarrow> fcontent dev f1 x i = fcontent dev f x i"
proof -
  show u: "used sb dev f1 c = used sb dev f c" if "c < unat (sb_size sb)" for c
    using same BBLOCK_bounds(2) [OF L that] by (simp add: used_def)
  then show db: "data_blk sb dev f1 b = data_blk sb dev f b" for b by (auto simp: data_blk_def)
  have dat: "f1 (dev, b) = f (dev, b)" if "data_blk sb dev f b" for b
    using same data_blk_facts(3) [OF L that] by simp
  show B: "baddr dev f1 x = baddr dev f x" if "file_ok sb dev f x" for x
    using file_okD(2) [OF that] dat by (intro ext) (auto simp: baddr_def)
  show "file_ok sb dev f1 x" if "file_ok sb dev f x" using that unfolding file_ok_def B [OF that] db .
  show "fcontent dev f1 x i = fcontent dev f x i" if "file_ok sb dev f x" "i < MAXFILE * BSIZE"
    using file_okD(3) [OF that(1) block_of_off [OF that(2)]] dat unfolding fcontent_def B [OF that(1)] by (simp add: Let_def)
qed

lemma stored_other:
  "layout sb ls \<Longrightarrow> unat ino < unat (ninodes sb) \<Longrightarrow> unat (bmapstart sb) \<le> unat b \<Longrightarrow> stored sb dev f ino x (dev, b) = f (dev, b)"
  using IBLOCK_bounds(2) [of sb ls ino] by (auto simp: stored_def)

lemma file_ok_size [simp]: "file_ok sb dev f (x\<lparr>di_size := n\<rparr>) = file_ok sb dev f x" "baddr dev f (x\<lparr>di_size := n\<rparr>) = baddr dev f x"
    "fcontent dev f (x\<lparr>di_size := n\<rparr>) = fcontent dev f x" "blocks dev f (x\<lparr>di_size := n\<rparr>) = blocks dev f x"
proof -
  show B: "baddr dev f (x\<lparr>di_size := n\<rparr>) = baddr dev f x" by (intro ext) (simp add: baddr_def)
  show "file_ok sb dev f (x\<lparr>di_size := n\<rparr>) = file_ok sb dev f x" 
  proof -
    have "di_addrs (x\<lparr>di_size := n\<rparr>) = di_addrs x" by simp
    then show ?thesis unfolding file_ok_def B by metis
  qed
  show "fcontent dev f (x\<lparr>di_size := n\<rparr>) = fcontent dev f x" by (intro ext) (simp add: fcontent_def B)
  show "blocks dev f (x\<lparr>di_size := n\<rparr>) = blocks dev f x" by (simp add: blocks_def B)
qed

text \<open>What \<open>writei\<close> leaves: \<open>k\<close> bytes written, the inode on the disk, and the other inodes and files as they were.\<close>

definition written :: "superblock \<Rightarrow> uint32 \<Rightarrow> (blkno \<Rightarrow> block) \<Rightarrow> dinode \<Rightarrow> uint32 \<Rightarrow> nat \<Rightarrow> byte list \<Rightarrow> (blkno \<Rightarrow> block) \<Rightarrow> dinode \<Rightarrow> bool" where
  "written sb dev f x ino off bs f1 x1 \<longleftrightarrow> disk_ok sb dev f1 \<and> file_ok sb dev f1 x1 \<and> dense dev f1 x1 \<and> di_type x1 = di_type x \<and>
     unat (di_size x1) = max (unat (di_size x)) (off + length bs) \<and>
     (\<forall>i<MAXFILE * BSIZE. fcontent dev f1 x1 i = put_bytes (fcontent dev f x) off bs i) \<and>
     (\<forall>j. unat j < unat (ninodes sb) \<longrightarrow> on_disk sb dev f1 j = (if j = ino then x1 else on_disk sb dev f j)) \<and>
     (\<forall>b. data_blk sb dev f b \<and> b \<notin> blocks dev f x \<longrightarrow> f1 (dev, b) = f (dev, b) \<and> b \<notin> blocks dev f1 x1)"

lemma writei_ok:
  assumes g: "good sb dev pid (6 * K + Suc m) Map.empty f it s" and e: "entry sb dev it ip" and D: "disk_ok sb dev f"
    and F: "file_ok sb dev f (dino (it ! ip))" and dn: "dense dev f (dino (it ! ip))"
    and off: "unat off \<le> unat (di_size (dino (it ! ip)))" "unat off + unat n \<le> MAXFILE * BSIZE"
    and K: "unat off mod BSIZE + unat n \<le> K * BSIZE"
    and cp: "\<forall>i c. i + c \<le> unat n \<longrightarrow> cp mem i c = (True, take c (drop i bs))" and len: "length bs = unat n"
  shows "yields (writei cp s pid ip mem off n) (\<lambda>(r, s1). \<exists>k f1 x1. r = int k \<and> k \<le> unat n \<and> (k < unat n \<longrightarrow> full sb dev f1) \<and>
      good sb dev pid m Map.empty f1 (set_dino it ip x1) s1 \<and>
      written sb dev f (dino (it ! ip)) (inum (it ! ip)) (unat off) (take k bs) f1 x1)"
proof -
  let ?x = "dino (it ! ip)" and ?ino = "inum (it ! ip)"
  have L: "layout sb (log_start (flog s))" by (rule good_layout [OF g])
  have ip: "ip < length it" "unat ?ino < unat (ninodes sb)" using e by (auto simp: entry_def)
  have mx: "MAXFILE * BSIZE < 2 ^ 32" by (simp add: MAXFILE_def NDIRECT_def NINDIRECT_def BSIZE_def)
  have un: "unat (off + n) = unat off + unat n" using off(2) mx by (simp add: unat_word_ariths)
  have "\<not> (off > isize s ip \<or> off + n < off)" "\<not> unat (off + n) > MAXFILE * BSIZE"
    using off un good_table(1) [OF g] by (auto simp: isize_def word_less_nat_alt word_le_nat_alt)
  note guards = this
  obtain r s1 f1 x1 where 1: "writei_loop cp s pid ip mem (unat off) (unat n) 0 = ret (r, s1)" "r \<le> unat n"
      "good sb dev pid (Suc m) Map.empty f1 (set_dino it ip x1) s1"
      "wrote sb dev f ?x f1 x1 (put_bytes (fcontent dev f ?x) (unat off) (take r bs))" "r < unat n \<longrightarrow> full sb dev f1"
      "\<forall>bn. 0 < r \<and> unat off div BSIZE \<le> bn \<and> bn * BSIZE < unat off + r \<longrightarrow> baddr dev f1 x1 bn \<noteq> 0"
    using writei_loop_ok [of "unat n" cp mem bs sb dev pid K "Suc m" f it s ip 0 "unat off"] cp len g e D F off K
    by (auto simp: yields_def)
  note W = wroteD [OF 1(4)]
  have uo: "unat (off + of_nat r) = unat off + r"
    using 1(2) off(2) mx by (simp add: unat_word_ariths unat_small)
  have is1: "isize s1 ip = di_size ?x" using good_table(1) [OF 1(3)] ip W(7) by (simp add: isize_def)
  let ?x2 = "x1\<lparr>di_size := if off + of_nat r > di_size ?x then off + of_nat r else di_size ?x\<rparr>"
  let ?it2 = "set_dino it ip ?x2"
  let ?s2 = "if off + of_nat r > isize s1 ip then upd_ip s1 ip (\<lambda>x. x\<lparr>dino := (dino x)\<lparr>di_size := off + of_nat r\<rparr>\<rparr>) else s1"
  have g2: "good sb dev pid (Suc m) Map.empty f1 ?it2 ?s2"
  proof (cases "off + of_nat r > di_size ?x")
    case True
    then show ?thesis
      using good_upd_ip [OF 1(3), of ip "\<lambda>x. x\<lparr>dino := (dino x)\<lparr>di_size := off + of_nat r\<rparr>\<rparr>"] ip is1 by (simp add: set_dino_def)
  next
    case False
    have "x1\<lparr>di_size := di_size ?x\<rparr> = x1" using W(7) by (cases x1) simp
    then show ?thesis using False 1(3) is1 by simp
  qed
  have sz: "unat (di_size ?x2) = max (unat (di_size ?x)) (unat off + r)"
    using uo by (auto simp: word_less_nat_alt)
  have e2: "entry sb dev ?it2 ip" by (rule entry_set_dino [OF e]) (simp add: W(9))
  let ?f2 = "stored sb dev f1 ?ino ?x2"
  have "yields (iupdate ?s2 pid ip) (good sb dev pid m Map.empty ?f2 ?it2)"
    using iupdate_ok [OF g2 e2] ip by simp
  then obtain s3 where 3: "iupdate ?s2 pid ip = ret s3" "good sb dev pid m Map.empty ?f2 ?it2 s3" by (auto simp: yields_def)
  have run: "writei cp s pid ip mem off n = ret (int r, s3)" using guards 1(1) 3(1) by (simp add: writei_def Let_def)
  have same: "\<forall>b. unat (bmapstart sb) \<le> unat b \<longrightarrow> ?f2 (dev, b) = f1 (dev, b)" using stored_other [OF L ip(2)] by simp
  note S = same_data [OF L same]
  have F2: "file_ok sb dev ?f2 ?x2" using S(4) [OF W(2)] by simp
  have B2: "baddr dev ?f2 ?x2 = baddr dev f1 x1" using S(3) [OF W(2)] by simp
  have len1: "\<forall>b. length (f1 (dev, b)) = BSIZE" using W(1) by (simp add: disk_ok_def)
  have D2: "disk_ok sb dev ?f2"
    using good_disk_ok [OF 3(2)] S(1) W(1) L by (auto simp: disk_ok_def layout_def)
  have dn2: "dense dev ?f2 ?x2" unfolding dense_def B2 sz
  proof (intro conjI allI impI)
    show "max (unat (di_size ?x)) (unat off + r) \<le> MAXFILE * BSIZE" using dn off 1(2) by (simp add: dense_def)
    fix bn
    assume bn: "bn * BSIZE < max (unat (di_size ?x)) (unat off + r)"
    show "baddr dev f1 x1 bn \<noteq> 0"
    proof (cases "bn * BSIZE < unat (di_size ?x)")
      case True
      then have "bn < MAXFILE" using dn unfolding dense_def by (metis less_le_trans mult_less_cancel2)
      then show ?thesis using W(3) dn True by (simp add: dense_def)
    next
      case False
      then have "unat off \<le> bn * BSIZE" "bn * BSIZE < unat off + r" using off(1) bn by auto
      moreover from this(1) have "unat off div BSIZE \<le> bn" using div_le_mono [of "unat off" "bn * BSIZE" BSIZE] by (simp add: BSIZE_def)
      ultimately show ?thesis using 1(6) by auto
    qed
  qed
  have con: "fcontent dev ?f2 ?x2 i = put_bytes (fcontent dev f ?x) (unat off) (take r bs) i" if "i < MAXFILE * BSIZE" for i
    using S(5) [OF W(2) that] W(4) [OF that] by simp
  have od: "on_disk sb dev ?f2 j = (if j = ?ino then ?x2 else on_disk sb dev f j)" if j: "unat j < unat (ninodes sb)" for j
  proof -
    have "on_disk sb dev f1 j = on_disk sb dev f j" using W(5) IBLOCK_bounds(2) [OF L j] by (simp add: on_disk_def)
    then show ?thesis using on_disk_stored [OF L ip(2) j, of f1 dev ?x2] len1 W(9) by simp
  qed
  have fr: "?f2 (dev, b) = f (dev, b) \<and> b \<notin> blocks dev ?f2 ?x2" if b: "data_blk sb dev f b" "b \<notin> blocks dev f ?x" for b
  proof -
    have "blocks dev ?f2 ?x2 = blocks dev f1 x1" using S(3) [OF W(2)] by (simp add: blocks_def)
    then show ?thesis using W(6) [OF b] same data_blk_facts(3) [OF L b(1)] by simp
  qed
  have "written sb dev f ?x ?ino (unat off) (take r bs) ?f2 ?x2"
    unfolding written_def using D2 F2 dn2 sz con od fr W(8) 1(2) len by simp
  moreover have "full sb dev ?f2" if "r < unat n" using that 1(5) S(1) by (simp add: full_def)
  ultimately show ?thesis unfolding run using 1(2) 3(2) by (simp only: yields_simps prod.case) blast
qed

section \<open>Reading\<close>

text \<open>
  A destination that takes \<open>n\<close> bytes: every copy within it succeeds, and two adjacent copies are one.
\<close>

locale sink =
  fixes cp :: "'m cpout" and wr :: "'m \<Rightarrow> nat \<Rightarrow> byte list \<Rightarrow> 'm" and takes :: "'m \<Rightarrow> nat \<Rightarrow> bool"
  assumes cp_wr: "takes m n \<Longrightarrow> i + length bs \<le> n \<Longrightarrow> cp m i bs = (True, wr m i bs)"
    and takes_wr: "takes m n \<Longrightarrow> i + length bs \<le> n \<Longrightarrow> takes (wr m i bs) n"
    and wr_append: "takes m n \<Longrightarrow> i + length xs + length ys \<le> n \<Longrightarrow> wr (wr m i xs) (i + length xs) ys = wr m i (xs @ ys)"
    and wr_Nil: "takes m n \<Longrightarrow> i \<le> n \<Longrightarrow> wr m i [] = m"
begin

lemma readi_loop_ok:
  "good sb dev pid m Map.empty f it s \<Longrightarrow> entry sb dev it ip \<Longrightarrow> disk_ok sb dev f \<Longrightarrow> file_ok sb dev f (dino (it ! ip)) \<Longrightarrow> dense dev f (dino (it ! ip)) \<Longrightarrow>
   takes mem n \<Longrightarrow> tot \<le> n \<Longrightarrow> off + (n - tot) \<le> unat (di_size (dino (it ! ip))) \<Longrightarrow>
   yields (readi_loop cp s pid ip mem off n tot) (\<lambda>(r, mem1, s1). r = int n \<and> good sb dev pid m Map.empty f it s1 \<and>
     mem1 = wr mem tot (map (fcontent dev f (dino (it ! ip))) [off..<off + (n - tot)]))"
proof (induction "n - tot" arbitrary: s mem off tot rule: less_induct)
  case less
  note g = less.prems(1) and e = less.prems(2) and D = less.prems(3) and F = less.prems(4) and dn = less.prems(5)
  let ?x = "dino (it ! ip)"
  show ?case
  proof (cases "tot < n")
    case False
    then show ?thesis using less.prems wr_Nil [of mem n tot] by (subst readi_loop.simps) simp
  next
    case True
    let ?c = "chunk n tot off" and ?bn = "off div BSIZE" and ?p = "off mod BSIZE"
    have c0: "0 < ?c" "?c \<le> n - tot" using chunk_pos [OF True] by (auto simp: chunk_def)
    have lt: "off < unat (di_size ?x)" using less.prems(8) True by simp
    then have bn: "?bn < MAXFILE" using dn by (intro block_of_off) (simp add: dense_def)
    have "?bn * BSIZE < unat (di_size ?x)" using lt div_mult_mod_eq [of off BSIZE] by linarith
    then have nz: "baddr dev f ?x ?bn \<noteq> 0" using dn by (simp add: dense_def)
    let ?a = "baddr dev f ?x ?bn"
    have ip: "ip < length it" "idev (it ! ip) = dev" using e by (auto simp: entry_def)
    obtain s1 where 1: "bmap s pid ip ?bn = ret (?a, s1)" "good sb dev pid m Map.empty f it s1"
      using bmap_present [OF g e F bn nz] by (auto simp: yields_def)
    obtain bp s2 where 2: "s_bread s1 pid (dev, ?a) = ret (bp, s2)" "s_data s2 bp = f (dev, ?a)"
        "good sb dev pid m [(dev, ?a) \<mapsto> bp] f it s2"
      using g_bread [OF 1(2), of ?a] by (auto simp: yields_def)
    obtain s3 where 3: "s_brelse s2 pid bp = ret s3" "good sb dev pid m Map.empty f it s3"
      using g_brelse [OF 2(3), of "(dev, ?a)" bp] by (auto simp: yields_def)
    let ?b = "take ?c (drop ?p (f (dev, ?a)))"
    have la: "length (f (dev, ?a)) = BSIZE" using D by (simp add: disk_ok_def)
    have lb: "length ?b = ?c" using la chunk_block [of off n tot] by simp
    have b: "?b = map (fcontent dev f ?x) [off..<off + ?c]"
    proof (rule nth_equalityI)
      show "length ?b = length (map (fcontent dev f ?x) [off..<off + ?c])" using lb by simp
      fix i
      assume "i < length ?b"
      then have i: "i < ?c" using lb by simp
      have "?p + i < BSIZE" using chunk_block [of off n tot] i by linarith
      note within_block [OF this]
      moreover have "?p \<le> length (f (dev, ?a))" unfolding la by (simp add: BSIZE_def)
      ultimately show "?b ! i = map (fcontent dev f ?x) [off..<off + ?c] ! i" using i nz by (simp add: fcontent_def Let_def)
    qed
    have cpb: "cp mem tot ?b = (True, wr mem tot ?b)" using cp_wr [OF less.prems(6)] lb c0 less.prems(7) by simp
    have run: "readi_loop cp s pid ip mem off n tot = readi_loop cp s3 pid ip (wr mem tot ?b) (off + ?c) n (tot + ?c)"
      using True 1(1) nz 2(1,2) 3(1) cpb ip good_table(1) [OF 1(2)] by (subst readi_loop.simps) simp
    have "yields (readi_loop cp s3 pid ip (wr mem tot ?b) (off + ?c) n (tot + ?c)) (\<lambda>(r, mem1, s1). r = int n \<and> good sb dev pid m Map.empty f it s1 \<and>
        mem1 = wr (wr mem tot ?b) (tot + ?c) (map (fcontent dev f ?x) [off + ?c..<off + ?c + (n - (tot + ?c))]))"
      using less.prems c0 3(2) takes_wr [OF less.prems(6), of tot ?b] lb by (intro less.hyps) auto
    moreover have "wr (wr mem tot ?b) (tot + ?c) (map (fcontent dev f ?x) [off + ?c..<off + ?c + (n - (tot + ?c))]) =
        wr mem tot (map (fcontent dev f ?x) [off..<off + (n - tot)])"
    proof -
      have "[off..<off + (n - tot)] = [off..<off + ?c] @ [off + ?c..<off + ?c + (n - (tot + ?c))]"
        using c0 by (metis add.assoc diff_diff_left le_add1 le_add_diff_inverse upt_add_eq_append)
      then show ?thesis using wr_append [OF less.prems(6), of tot ?b] lb b c0 less.prems(7) by simp
    qed
    ultimately show ?thesis unfolding run by simp
  qed
qed

lemma readi_ok:
  assumes "good sb dev pid m Map.empty f it s" and "entry sb dev it ip" and "disk_ok sb dev f" and "file_ok sb dev f (dino (it ! ip))"
    and "dense dev f (dino (it ! ip))" and "unat off \<le> unat (di_size (dino (it ! ip)))" and "unat off + unat n < 2 ^ 32"
    and "takes mem (min (unat n) (unat (di_size (dino (it ! ip))) - unat off))"
  defines "k \<equiv> min (unat n) (unat (di_size (dino (it ! ip))) - unat off)"
  shows "yields (readi cp s pid ip mem off n) (\<lambda>(r, mem1, s1). r = int k \<and> good sb dev pid m Map.empty f it s1 \<and>
     mem1 = wr mem 0 (map (fcontent dev f (dino (it ! ip))) [unat off..<unat off + k]))"
proof -
  let ?sz = "di_size (dino (it ! ip))"
  have un: "unat (off + n) = unat off + unat n" using assms(7) by (simp add: unat_word_ariths)
  let ?n = "if off + n > ?sz then ?sz - off else n"
  have k: "unat ?n = k" using assms(6) un by (auto simp: k_def word_less_nat_alt unat_sub word_le_nat_alt)
  have "readi cp s pid ip mem off n = readi_loop cp s pid ip mem (unat off) (unat ?n) 0"
    using assms(6) un good_table(1) [OF assms(1)] by (auto simp: readi_def isize_def Let_def word_less_nat_alt)
  then show ?thesis
    using readi_loop_ok [OF assms(1-5), of mem k 0 "unat off"] assms(6,8) k by (simp add: k_def)
qed

end

text \<open>A local variable of the kernel as the destination.\<close>

interpretation ks: sink kput overwrite "\<lambda>m n. n \<le> length m"
  by unfold_locales (auto simp: kput_def overwrite_def ac_simps)

text \<open>Kernel memory at an address, where \<open>either_copyout\<close> is \<open>memmove\<close>.\<close>

definition mput :: "addr \<Rightarrow> mem cpout" where
  "mput dst m i bs = (True, \<lambda>a. if dst + i \<le> a \<and> a < dst + i + length bs then bs ! (a - (dst + i)) else m a)"

interpretation ms: sink "mput dst" "\<lambda>m i bs. snd (mput dst m i bs)" "\<lambda>m n. True" for dst
  by unfold_locales (auto simp: mput_def nth_append fun_eq_iff add.assoc)

end
