(* ===== verification/FsDir.thy ===== *)
theory FsDir
  imports FsIO
begin

text \<open>
  Directories: the inode table search of \<open>iget\<close>, and \<open>dirlookup\<close> and \<open>dirlink\<close> on the entries of a directory.
\<close>

section \<open>The inode table\<close>

definition iget_res :: "inode list \<Rightarrow> uint32 \<Rightarrow> uint32 \<Rightarrow> (nat \<times> inode list) option" where
  "iget_res it dev ino =
     (case find (\<lambda>i. ref (it ! i) > 0 \<and> idev (it ! i) = dev \<and> inum (it ! i) = ino) [0..<length it] of
        Some ip \<Rightarrow> Some (ip, it[ip := (it ! ip)\<lparr>ref := ref (it ! ip) + 1\<rparr>])
      | None \<Rightarrow> (case find (\<lambda>i. ref (it ! i) = 0) [0..<length it] of
          Some ip \<Rightarrow> Some (ip, it[ip := (it ! ip)\<lparr>idev := dev, inum := ino, ref := 1, ivalid := False\<rparr>])
        | None \<Rightarrow> None))"

lemma find_map: "find P (map g xs) = map_option g (find (\<lambda>x. P (g x)) xs)"
  by (induction xs) auto

lemma find_snoc: "find P (xs @ [x]) = (case find P xs of Some y \<Rightarrow> Some y | None \<Rightarrow> if P x then Some x else None)"
  by (induction xs) auto

lemma iget_scan_eq:
  "iget_scan xs dev ino i emp =
     (let hit = find (\<lambda>j. ref (xs ! j) > 0 \<and> idev (xs ! j) = dev \<and> inum (xs ! j) = ino) [0..<length xs] in
      (map_option (\<lambda>j. i + j) hit,
       if emp \<noteq> None then emp
       else map_option (\<lambda>j. i + j) (find (\<lambda>j. ref (xs ! j) = 0) [0..<case hit of None \<Rightarrow> length xs | Some h \<Rightarrow> h])))"
proof (induction xs arbitrary: i emp)
  case Nil
  then show ?case by simp
next
  case (Cons x xs)
  have shift: "find P [0..<Suc n] = (if P 0 then Some 0 else map_option Suc (find (\<lambda>j. P (Suc j)) [0..<n]))" for P n
  proof -
    have "[0..<Suc n] = 0 # map Suc [0..<n]" by (metis upt_conv_Cons zero_less_Suc map_Suc_upt)
    then show ?thesis by (simp add: find_map)
  qed
  have plus: "(+) (Suc i) = (\<lambda>j. Suc (i + j))" by auto
  show ?case
  proof (cases "ref x > 0 \<and> idev x = dev \<and> inum x = ino")
    case True
    then show ?thesis by (simp add: shift del: upt_Suc)
  next
    case False
    then show ?thesis
      unfolding iget_scan.simps if_not_P [OF False] Cons.IH
      by (auto simp: shift plus Let_def option.map_comp comp_def simp del: upt_Suc split: option.splits)
  qed
qed

lemma iget_eq:
  "iget s dev ino = (case iget_res (itable s) dev ino of
     Some (ip, it) \<Rightarrow> ret (ip, s\<lparr>itable := it\<rparr>) | None \<Rightarrow> halt ''iget: no inodes'')"
  by (auto simp: iget_def iget_res_def iget_scan_eq upd_ip_def Let_def split: option.splits)

lemma iget_res_spare:
  assumes "x \<in> set it" and "ref x = 0"
  shows "iget_res it dev ino \<noteq> None"
proof -
  have "find (\<lambda>i. ref (it ! i) = 0) [0..<length it] \<noteq> None"
    using assms by (auto simp: find_None_iff in_set_conv_nth)
  then show ?thesis by (auto simp: iget_res_def split: option.splits)
qed

lemma iget_res_SomeD:
  assumes "iget_res it dev ino = Some (ip, it1)"
  shows "ip < length it" "length it1 = length it" "idev (it1 ! ip) = dev" "inum (it1 ! ip) = ino"
    "\<forall>j. j \<noteq> ip \<longrightarrow> it1 ! j = it ! j"
    "ref (it ! ip) > 0 \<and> it1 ! ip = (it ! ip)\<lparr>ref := ref (it ! ip) + 1\<rparr> \<or>
     ref (it ! ip) = 0 \<and> ref (it1 ! ip) = 1 \<and> \<not> ivalid (it1 ! ip)"
  using assms by (auto simp: iget_res_def find_Some_iff split: option.splits)

section \<open>Directory entries\<close>

definition dent :: "(nat \<Rightarrow> byte) \<Rightarrow> nat \<Rightarrow> byte list" where
  "dent c off = map c [off..<off + 16]"

definition name_of :: "byte list \<Rightarrow> byte list" where
  "name_of bs = cstr (\<lambda>a. bs ! a) 0 DIRSIZ"

definition matches :: "(nat \<Rightarrow> byte) \<Rightarrow> byte list \<Rightarrow> nat \<Rightarrow> bool" where
  "matches c name off \<longleftrightarrow> rd16 (dent c off) 0 \<noteq> 0 \<and> name_of name = name_of (drop 2 (dent c off))"

abbreviation slots :: "nat \<Rightarrow> nat \<Rightarrow> nat list" where
  "slots i k \<equiv> map ((*) 16) [i..<k]"

definition dlook :: "(nat \<Rightarrow> byte) \<Rightarrow> nat \<Rightarrow> byte list \<Rightarrow> nat option" where
  "dlook c k name = find (matches c name) (slots 0 k)"

definition dfree :: "(nat \<Rightarrow> byte) \<Rightarrow> nat \<Rightarrow> nat" where
  "dfree c k = (case find (\<lambda>off. rd16 (dent c off) 0 = 0) (slots 0 k) of Some off \<Rightarrow> off | None \<Rightarrow> 16 * k)"

lemma dent_length [simp]: "length (dent c off) = 16"
  by (simp add: dent_def)

lemma namecmp_iff: "namecmp s t = 0 \<longleftrightarrow> name_of s = name_of t"
proof -
  let ?m = "\<lambda>a. if a < DIRSIZ then s ! a else t ! (a - DIRSIZ)"
  have "cstr ?m 0 DIRSIZ = name_of s" "cstr ?m DIRSIZ DIRSIZ = name_of t"
    unfolding name_of_def by (auto intro!: cstr_cong)
  then show ?thesis by (simp add: namecmp_def strncmp_zero_iff)
qed

lemma name_of_strncpy: "name_of (strncpy_name dst src) = name_of src" and strncpy_name_length [simp]: "length (strncpy_name dst src) = DIRSIZ"
proof -
  let ?m = "\<lambda>a. if a < DIRSIZ then dst ! a else src ! (a - DIRSIZ)"
  have "name_of (strncpy_name dst src) = cstr (strncpy ?m 0 DIRSIZ (int DIRSIZ)) 0 DIRSIZ"
    unfolding name_of_def strncpy_name_def Let_def by (intro cstr_cong) simp
  also have "\<dots> = cstr ?m DIRSIZ DIRSIZ" using cstr_strncpy(1) [of "int DIRSIZ" 0 DIRSIZ ?m] by simp
  also have "\<dots> = name_of src" unfolding name_of_def by (intro cstr_cong) simp
  finally show "name_of (strncpy_name dst src) = name_of src" .
qed (simp add: strncpy_name_def Let_def)

section \<open>Reading an entry\<close>

definition dir_ok :: "superblock \<Rightarrow> uint32 \<Rightarrow> (blkno \<Rightarrow> block) \<Rightarrow> inode list \<Rightarrow> nat \<Rightarrow> nat \<Rightarrow> bool" where
  "dir_ok sb dev f it dp k \<longleftrightarrow> entry sb dev it dp \<and> disk_ok sb dev f \<and> file_ok sb dev f (dino (it ! dp)) \<and>
     dense dev f (dino (it ! dp)) \<and> di_type (dino (it ! dp)) = T_DIR \<and> unat (di_size (dino (it ! dp))) = 16 * k"

abbreviation dcontent :: "uint32 \<Rightarrow> (blkno \<Rightarrow> block) \<Rightarrow> inode list \<Rightarrow> nat \<Rightarrow> nat \<Rightarrow> byte" where
  "dcontent dev f it dp \<equiv> fcontent dev f (dino (it ! dp))"

lemma dir_bound: "dir_ok sb dev f it dp k \<Longrightarrow> 16 * k \<le> MAXFILE * BSIZE"
  by (auto simp: dir_ok_def dense_def)

lemma read_dent:
  assumes g: "good sb dev pid m Map.empty f it s" and d: "dir_ok sb dev f it dp k" and i: "i < k" and de: "length de = 16"
  shows "yields (readi kput s pid dp de (of_nat (16 * i)) 16) (\<lambda>(r, de1, s1). r = 16 \<and> de1 = dent (dcontent dev f it dp) (16 * i) \<and>
      good sb dev pid m Map.empty f it s1)"
proof -
  have mx: "MAXFILE * BSIZE < 2 ^ 31" by (simp add: MAXFILE_def NDIRECT_def NINDIRECT_def BSIZE_def)
  have un: "unat (of_nat (16 * i) :: uint32) = 16 * i" using i dir_bound [OF d] mx by (intro unat_small) simp
  have k: "min (unat (16 :: uint32)) (unat (di_size (dino (it ! dp))) - unat (of_nat (16 * i) :: uint32)) = 16"
    using d i unfolding un by (auto simp: dir_ok_def)
  have "yields (readi kput s pid dp de (of_nat (16 * i)) 16) (\<lambda>(r, mem1, s1). r = int 16 \<and> good sb dev pid m Map.empty f it s1 \<and>
     mem1 = overwrite de 0 (map (dcontent dev f it dp) [16 * i..<16 * i + 16]))"
    using ks.readi_ok [of sb dev pid m f it s dp "of_nat (16 * i)" 16 de] g d i de k mx dir_bound [OF d] unfolding un
    by (auto simp: dir_ok_def)
  then show ?thesis by (elim yields_mono) (auto simp: overwrite_def dent_def de)
qed

section \<open>Looking up a name\<close>

lemma good_itable: "good sb dev pid m M f it s \<Longrightarrow> good sb dev pid m M f it1 (s\<lparr>itable := it1\<rparr>)"
  by (simp add: good_def)

definition found :: "superblock \<Rightarrow> uint32 \<Rightarrow> nat \<Rightarrow> nat \<Rightarrow> (blkno \<Rightarrow> block) \<Rightarrow> inode list \<Rightarrow> (nat \<Rightarrow> byte) \<Rightarrow> nat option \<Rightarrow> (nat \<times> nat) option \<Rightarrow> fs \<Rightarrow> bool" where
  "found sb dev pid m f it c at r s1 \<longleftrightarrow>
     (case at of
        None \<Rightarrow> r = None \<and> good sb dev pid m Map.empty f it s1
      | Some off \<Rightarrow> \<exists>ip it1. r = Some (ip, off) \<and> iget_res it dev (ucast (rd16 (dent c off) 0)) = Some (ip, it1) \<and>
          good sb dev pid m Map.empty f it1 s1)"

lemma dirlookup_loop_ok:
  assumes d: "dir_ok sb dev f it dp k" and sp: "x \<in> set it" "ref x = 0"
  defines "c \<equiv> dcontent dev f it dp"
  shows "good sb dev pid m Map.empty f it s \<Longrightarrow> length de = 16 \<Longrightarrow> i \<le> k \<Longrightarrow>
    yields (dirlookup_loop s pid dp name de (16 * k) (16 * i)) (\<lambda>(r, s1). found sb dev pid m f it c (find (matches c name) (slots i k)) r s1)"
proof (induction "k - i" arbitrary: s de i)
  case 0
  then show ?case by (subst dirlookup_loop.simps) (simp add: found_def)
next
  case (Suc n)
  then have i: "i < k" by simp
  obtain s1 where 1: "readi kput s pid dp de (of_nat (16 * i)) 16 = ret (16, dent c (16 * i), s1)" "good sb dev pid m Map.empty f it s1"
    using read_dent [OF Suc.prems(1) d i Suc.prems(2)] by (auto simp: yields_def c_def)
  have dev: "idev (itable s1 ! dp) = dev" using d good_table(1) [OF 1(2)] by (simp add: dir_ok_def entry_def)
  have up: "[i..<k] = i # [Suc i..<k]" using i by (simp add: upt_conv_Cons)
  show ?case
  proof (cases "matches c name (16 * i)")
    case True
    let ?ino = "ucast (rd16 (dent c (16 * i)) 0) :: uint32"
    obtain ip it1 where r: "iget_res it dev ?ino = Some (ip, it1)" using iget_res_spare [OF sp] by fastforce
    have "dirlookup_loop s pid dp name de (16 * k) (16 * i) = ret (Some (ip, 16 * i), s1\<lparr>itable := it1\<rparr>)"
      using True i 1(1) dev r good_table(1) [OF 1(2)] by (subst dirlookup_loop.simps) (simp add: matches_def namecmp_iff iget_eq)
    then show ?thesis using True r good_itable [OF 1(2)] by (simp add: up found_def)
  next
    case False
    have "dirlookup_loop s pid dp name de (16 * k) (16 * i) = dirlookup_loop s1 pid dp name (dent c (16 * i)) (16 * k) (16 * Suc i)"
      using False i 1(1) by (subst dirlookup_loop.simps) (auto simp: matches_def namecmp_iff add.commute)
    then show ?thesis using Suc.hyps(1) [of "Suc i" s1 "dent c (16 * i)"] Suc.hyps(2) 1(2) i False by (simp add: up)
  qed
qed

lemma dirlookup_ok:
  assumes g: "good sb dev pid m Map.empty f it s" and d: "dir_ok sb dev f it dp k" and sp: "x \<in> set it" "ref x = 0"
  defines "c \<equiv> dcontent dev f it dp"
  shows "yields (dirlookup s pid dp name) (\<lambda>(r, s1). found sb dev pid m f it c (dlook c k name) r s1)"
  using dirlookup_loop_ok [OF d sp g, of "replicate 16 0" 0 name] d good_table(1) [OF g]
  by (simp add: dirlookup_def dir_ok_def isize_def dlook_def c_def)

section \<open>Adding an entry\<close>

lemma dirlink_loop_ok:
  assumes d: "dir_ok sb dev f it dp k"
  defines "c \<equiv> dcontent dev f it dp"
  shows "good sb dev pid m Map.empty f it s \<Longrightarrow> length de = 16 \<Longrightarrow> i \<le> k \<Longrightarrow>
    yields (dirlink_loop s pid dp de (16 * k) (16 * i)) (\<lambda>(off, de1, s1). length de1 = 16 \<and> good sb dev pid m Map.empty f it s1 \<and>
      off = (case find (\<lambda>off. rd16 (dent c off) 0 = 0) (slots i k) of Some off \<Rightarrow> off | None \<Rightarrow> 16 * k))"
proof (induction "k - i" arbitrary: s de i)
  case 0
  then show ?case by (subst dirlink_loop.simps) simp
next
  case (Suc n)
  then have i: "i < k" by simp
  obtain s1 where 1: "readi kput s pid dp de (of_nat (16 * i)) 16 = ret (16, dent c (16 * i), s1)" "good sb dev pid m Map.empty f it s1"
    using read_dent [OF Suc.prems(1) d i Suc.prems(2)] by (auto simp: yields_def c_def)
  have up: "[i..<k] = i # [Suc i..<k]" using i by (simp add: upt_conv_Cons)
  show ?case
  proof (cases "rd16 (dent c (16 * i)) 0 = 0")
    case True
    then show ?thesis using i 1 by (subst dirlink_loop.simps) (simp add: up)
  next
    case False
    have "dirlink_loop s pid dp de (16 * k) (16 * i) = dirlink_loop s1 pid dp (dent c (16 * i)) (16 * k) (16 * Suc i)"
      using False i 1(1) by (subst dirlink_loop.simps) (simp add: add.commute)
    then show ?thesis using Suc.hyps(1) [of "Suc i" s1 "dent c (16 * i)"] Suc.hyps(2) 1(2) i False by (simp add: up)
  qed
qed

lemma dfree_slot:
  obtains i where "dfree c k = 16 * i" "i \<le> k" "i < k \<Longrightarrow> rd16 (dent c (16 * i)) 0 = 0"
proof (cases "find (\<lambda>off. rd16 (dent c off) 0 = 0) (slots 0 k)")
  case None
  then show ?thesis using that [of k] by (simp add: dfree_def)
next
  case (Some off)
  then have "off \<in> set (slots 0 k)" "rd16 (dent c off) 0 = 0" by (auto simp: find_Some_iff)
  then show ?thesis using that [of "off div 16"] Some by (auto simp: dfree_def)
qed

lemma entry_block: "16 * i mod BSIZE + 16 \<le> BSIZE"
proof -
  have "16 * i mod BSIZE = 16 * (i mod 64)" by (simp add: BSIZE_def mult_mod_right)
  moreover have "i mod 64 < 64" by simp
  ultimately show ?thesis by (simp add: BSIZE_def)
qed

lemma kget_all: "length bs = n \<Longrightarrow> \<forall>i c. i + c \<le> n \<longrightarrow> kget bs i c = (True, take c (drop i bs))"
  by (simp add: kget_def)

lemma dirlink_ok:
  assumes g: "good sb dev pid (7 + m) Map.empty f it s" and d: "dir_ok sb dev f it dp k" and sp: "x \<in> set it" "ref x = 0"
    and no: "dlook (dcontent dev f it dp) k name = None" and room: "16 * k + 16 \<le> MAXFILE * BSIZE"
  shows "yields (dirlink s pid dp name ino) (\<lambda>(r, s1). \<exists>f1 x1 j dst. good sb dev pid m Map.empty f1 (set_dino it dp x1) s1 \<and> j \<le> 16 \<and>
      (r = 0 \<longleftrightarrow> j = 16) \<and> (r \<noteq> 0 \<longrightarrow> full sb dev f1 \<and> r = -1) \<and>
      written sb dev f (dino (it ! dp)) (inum (it ! dp)) (dfree (dcontent dev f it dp) k) (take j (le16 (ucast ino) @ strncpy_name dst name)) f1 x1)"
proof -
  let ?c = "dcontent dev f it dp"
  obtain s1 where 1: "dirlookup s pid dp name = ret (None, s1)" "good sb dev pid (7 + m) Map.empty f it s1"
    using dirlookup_ok [OF g d sp, of name] no by (auto simp: yields_def found_def)
  have sz: "unat (isize s1 dp) = 16 * k" using d good_table(1) [OF 1(2)] by (simp add: dir_ok_def isize_def)
  obtain de s2 where 2: "dirlink_loop s1 pid dp (replicate 16 0) (16 * k) 0 = ret (dfree ?c k, de, s2)" "good sb dev pid (7 + m) Map.empty f it s2"
    using dirlink_loop_ok [OF d 1(2), of "replicate 16 0" 0] by (auto simp: yields_def dfree_def)
  obtain i where i: "dfree ?c k = 16 * i" "i \<le> k" by (rule dfree_slot [of ?c k])
  have mx: "MAXFILE * BSIZE < 2 ^ 31" by (simp add: MAXFILE_def NDIRECT_def NINDIRECT_def BSIZE_def)
  have un: "unat (of_nat (16 * i) :: uint32) = 16 * i" using i dir_bound [OF d] mx by (intro unat_small) simp
  let ?bs = "le16 (ucast ino) @ strncpy_name (drop 2 de) name"
  have lb: "length ?bs = 16" by (simp add: DIRSIZ_def)
  have "yields (writei kget s2 pid dp ?bs (of_nat (16 * i)) 16) (\<lambda>(r, s1). \<exists>k f1 x1. r = int k \<and> k \<le> unat (16 :: uint32) \<and>
      (k < unat (16 :: uint32) \<longrightarrow> full sb dev f1) \<and> good sb dev pid m Map.empty f1 (set_dino it dp x1) s1 \<and>
      written sb dev f (dino (it ! dp)) (inum (it ! dp)) (unat (of_nat (16 * i) :: uint32)) (take k ?bs) f1 x1)"
    using writei_ok [of sb dev pid 1 m f it s2 dp "of_nat (16 * i)" 16 kget ?bs ?bs] 2(2) d i room kget_all [OF lb] lb entry_block [of i]
    unfolding un by (simp add: dir_ok_def)
  then obtain w j s3 f1 x1 where 3: "writei kget s2 pid dp ?bs (of_nat (16 * i)) 16 = ret (w, s3)" "w = int j" "j \<le> 16" "j < 16 \<longrightarrow> full sb dev f1"
      "good sb dev pid m Map.empty f1 (set_dino it dp x1) s3"
      "written sb dev f (dino (it ! dp)) (inum (it ! dp)) (16 * i) (take j ?bs) f1 x1"
    unfolding un yields_def by fastforce
  have "dirlink s pid dp name ino = ret (if w \<noteq> 16 then -1 else 0, s3)"
    using 1(1) 2(1) 3(1) by (simp add: dirlink_def sz i)
  moreover have "good sb dev pid m Map.empty f1 (set_dino it dp x1) s3 \<and> j \<le> 16 \<and> ((if w \<noteq> 16 then -1 else (0 :: int)) = 0 \<longleftrightarrow> j = 16) \<and>
      ((if w \<noteq> 16 then -1 else (0 :: int)) \<noteq> 0 \<longrightarrow> full sb dev f1 \<and> (if w \<noteq> 16 then -1 else (0 :: int)) = -1) \<and>
      written sb dev f (dino (it ! dp)) (inum (it ! dp)) (dfree ?c k) (take j ?bs) f1 x1"
    using 3 by (auto simp: i(1))
  ultimately show ?thesis unfolding yields_def by blast
qed

section \<open>The directory with the new entry\<close>

lemma dent_cong: "(\<And>a. off \<le> a \<Longrightarrow> a < off + 16 \<Longrightarrow> c1 a = c a) \<Longrightarrow> dent c1 off = dent c off"
  by (auto simp: dent_def)

lemma rd16_le16_first: "rd16 (le16 w @ bs) 0 = w"
  by (intro bit_eqI) (auto simp: rd16_def le16_def bit_simps)

lemma matches_cong: "name_of n = name_of n1 \<Longrightarrow> matches c n = matches c n1"
  by (auto simp: matches_def fun_eq_iff)

lemma linked_entry:
  assumes c1: "\<forall>a<off + 16. c1 a = put_bytes c off (le16 w @ strncpy_name dst name) a" and w: "w \<noteq> 0"
  shows "rd16 (dent c1 off) 0 = w" "matches c1 n off \<longleftrightarrow> name_of n = name_of name"
proof -
  have "dent c1 off = le16 w @ strncpy_name dst name"
    by (rule nth_equalityI) (auto simp: dent_def DIRSIZ_def c1 put_bytes_def)
  moreover have "drop 2 (le16 w @ strncpy_name dst name) = strncpy_name dst name" by simp
  ultimately show "rd16 (dent c1 off) 0 = w" "matches c1 n off \<longleftrightarrow> name_of n = name_of name"
    using w by (auto simp: matches_def rd16_le16_first name_of_strncpy)
qed

lemma find_first:
  assumes "j < k" and "P (16 * j)" and "\<And>i. i < j \<Longrightarrow> \<not> P (16 * i)"
  shows "find P (slots 0 k) = Some (16 * j)"
  using assms by (auto simp: find_Some_iff intro!: exI [of _ j])

lemma dlook_linked:
  assumes c1: "\<forall>a<16 * k1. c1 a = put_bytes c (dfree c k) (le16 w @ strncpy_name dst name) a" and w: "w \<noteq> 0"
    and no: "dlook c k name = None" and k1: "16 * k1 = max (16 * k) (dfree c k + 16)"
  shows "dlook c1 k1 n = (if name_of n = name_of name then Some (dfree c k) else dlook c k n)"
    and "rd16 (dent c1 (dfree c k)) 0 = w"
    and "dlook c k n = Some off \<Longrightarrow> rd16 (dent c1 off) 0 = rd16 (dent c off) 0"
proof -
  obtain j where j: "dfree c k = 16 * j" "j \<le> k" "j < k \<Longrightarrow> rd16 (dent c (16 * j)) 0 = 0" using dfree_slot [of c k] by blast
  have jk: "j < k1" "k \<le> k1" "k1 \<le> Suc k" "k1 = Suc k \<Longrightarrow> j = k" using k1 j by auto
  have at: "rd16 (dent c1 (16 * j)) 0 = w" "matches c1 n (16 * j) \<longleftrightarrow> name_of n = name_of name" for n
    using linked_entry [of "16 * j" c1 c w dst name] c1 w jk j(1) by auto
  then show "rd16 (dent c1 (dfree c k)) 0 = w" by (simp add: j(1))
  have other: "dent c1 (16 * i) = dent c (16 * i)" if "i < k1" "i \<noteq> j" for i
  proof (rule dent_cong)
    fix a assume "16 * i \<le> a" "a < 16 * i + 16"
    moreover have "i < j \<or> j < i" using that(2) by auto
    ultimately show "c1 a = c a" using c1 that(1) by (auto simp: put_bytes_def j(1) DIRSIZ_def)
  qed
  have old: "\<not> matches c n (16 * j)" if "j < k" for n using j(3) [OF that] by (simp add: matches_def)
  have agree: "matches c1 n (16 * i) = matches c n (16 * i)" if "i < k1" "i \<noteq> j" for n i
    using other [OF that] by (simp add: matches_def)
  show "dlook c1 k1 n = (if name_of n = name_of name then Some (dfree c k) else dlook c k n)"
  proof (cases "name_of n = name_of name")
    case True
    have "\<not> matches c1 n (16 * i)" if "i < j" for i
      using no that j(2) agree [of i n] jk matches_cong [OF True] by (auto simp: dlook_def find_None_iff)
    then show ?thesis using find_first [of j k1 "matches c1 n"] jk at(2) True by (simp add: dlook_def j(1))
  next
    case False
    have eq: "find (matches c1 n) (slots 0 k) = find (matches c n) (slots 0 k)"
    proof (rule find_cong [OF refl])
      fix off assume "off \<in> set (slots 0 k)"
      then obtain i where "off = 16 * i" "i < k" by auto
      then show "matches c1 n off = matches c n off" using False at(2) old agree [of i n] jk by (cases "i = j") auto
    qed
    have "k1 = k \<or> slots 0 k1 = slots 0 k @ [16 * j] \<and> k1 = Suc k" using jk by (cases "k1 = k") (auto simp: le_Suc_eq)
    then have "find (matches c1 n) (slots 0 k1) = find (matches c1 n) (slots 0 k)"
      using False at(2) [of n] by (elim disjE conjE) (simp_all add: find_snoc split: option.splits del: upt_Suc)
    then show ?thesis using False eq by (simp add: dlook_def)
  qed
  show "rd16 (dent c1 off) 0 = rd16 (dent c off) 0" if "dlook c k n = Some off"
  proof -
    have "off \<in> set (slots 0 k)" "matches c n off" using that by (auto simp: dlook_def find_Some_iff)
    then obtain i where i: "off = 16 * i" "i < k" by auto
    moreover have "i \<noteq> j" using old [of n] \<open>matches c n off\<close> i by auto
    ultimately show ?thesis using other [of i] jk by simp
  qed
qed

end
