(* ===== verification/Virtio.thy ===== *)
theory Virtio
  imports Bio Ring Kalloc
begin

text \<open>
  \<^verbatim>\<open>kernel/virtio_disk.c\<close>: the disk driver.  The driver shares descriptors and two rings with the device; a request
  occupies three descriptors, is handed over by its first one in the ring \<^verbatim>\<open>avail\<close> and comes back in the ring
  \<^verbatim>\<open>used\<close>, which the interrupt handler reads.  The addresses in descriptors are symbolic.  What the device does is a
  parameter; \<open>fetches\<close> and \<open>completes\<close> state what the virtio specification documents of it.
\<close>

section \<open>Data\<close>

definition NUM :: nat where
  "NUM = 8"

definition VRING_DESC_F_NEXT :: uint16 where
  "VRING_DESC_F_NEXT = 1"

definition VRING_DESC_F_WRITE :: uint16 where
  "VRING_DESC_F_WRITE = 2"

definition VIRTIO_BLK_T_IN :: uint32 where
  "VIRTIO_BLK_T_IN = 0"

definition VIRTIO_BLK_T_OUT :: uint32 where
  "VIRTIO_BLK_T_OUT = 1"

text \<open>An address the driver gives to the device: nothing, \<^verbatim>\<open>&disk.ops[i]\<close>, \<^verbatim>\<open>b->data\<close> or \<^verbatim>\<open>&disk.info[i].status\<close>.\<close>

datatype dptr = Null | Ops nat | Data nat | Status nat

record virtq_desc =
  d_addr :: dptr
  d_len :: uint32
  d_flags :: uint16
  d_next :: uint16

record virtio_blk_req =
  req_type :: uint32
  req_reserved :: uint32
  req_sector :: uint64

record vinfo =
  info_b :: "nat option"
  info_status :: byte

record vdisk =
  desc_pa :: addr
  avail_pa :: addr
  used_pa :: addr
  desc :: "nat \<Rightarrow> virtq_desc"
  avail_idx :: uint16
  avail_ring :: "uint16 list"
  used_end :: uint16
  used_ring :: "uint32 list"
  vfree :: "nat \<Rightarrow> bool"
  used_idx :: uint16
  info :: "nat \<Rightarrow> vinfo"
  ops :: "nat \<Rightarrow> virtio_blk_req"

definition no_desc :: virtq_desc where
  "no_desc = \<lparr>d_addr = Null, d_len = 0, d_flags = 0, d_next = 0\<rparr>"

section \<open>Initialisation\<close>

text \<open>
  The registers: \<open>rd ws r\<close> is what the device answers to a read of register \<open>r\<close> after the writes \<open>ws\<close>.
\<close>

type_synonym mmio = "(nat \<times> uint32) list \<Rightarrow> nat \<Rightarrow> uint32"

definition features_of :: "uint32 \<Rightarrow> uint64" where
  "features_of fs =
     fold (\<lambda>n x. x AND NOT (push_bit n 1)) [5, 7, 11, 12, 27, 29, 28] (ucast fs)"

definition virtio_disk_init :: "mmio \<Rightarrow> vdisk \<Rightarrow> pmem \<Rightarrow> ((nat \<times> uint32) list \<times> vdisk \<times> pmem) result" where
  "virtio_disk_init rd d0 s =
     (if rd [] 0x000 \<noteq> 0x74726976 \<or> rd [] 0x004 \<noteq> 2 \<or> rd [] 0x008 \<noteq> 2 \<or> rd [] 0x00c \<noteq> 0x554d4551
      then panic ''could not find virtio disk''
      else let w1 = [(0x070, 0), (0x070, 1), (0x070, 1 OR 2)];
               w2 = w1 @ [(0x020, ucast (features_of (rd w1 0x010))), (0x070, 1 OR 2 OR 8)];
               status = rd w2 0x070
           in if status AND 8 = 0 then panic ''virtio disk FEATURES_OK unset''
              else let w3 = w2 @ [(0x030, 0)]; max = rd w3 0x034
                   in if rd w3 0x044 \<noteq> 0 then panic ''virtio disk should not be ready''
                      else if max = 0 then panic ''virtio disk has no queue 0''
                      else if unat max < NUM then panic ''virtio disk max queue too short''
                      else let (p1, s1) = kalloc s; (p2, s2) = kalloc s1; (p3, s3) = kalloc s2
                           in if p1 = 0 \<or> p2 = 0 \<or> p3 = 0 then panic ''virtio disk kalloc''
                              else let s4 = s3\<lparr>ram := memset (memset (memset (ram s3) p1 0 PGSIZE) p2 0 PGSIZE) p3 0 PGSIZE\<rparr>;
                                       w4 = w3 @ [(0x038, of_nat NUM),
                                         (0x080, of_nat p1), (0x084, of_nat (p1 div 2 ^ 32)),
                                         (0x090, of_nat p2), (0x094, of_nat (p2 div 2 ^ 32)),
                                         (0x0a0, of_nat p3), (0x0a4, of_nat (p3 div 2 ^ 32)),
                                         (0x044, 1), (0x070, status OR 4)]
                                   in Inr (w4, d0\<lparr>desc_pa := p1, avail_pa := p2, used_pa := p3,
                                        desc := (\<lambda>_. no_desc), avail_idx := 0, avail_ring := replicate NUM 0,
                                        used_end := 0, used_ring := replicate NUM 0, vfree := (\<lambda>_. True)\<rparr>, s4))"

section \<open>Descriptors\<close>

definition alloc_desc :: "vdisk \<Rightarrow> nat option \<times> vdisk" where
  "alloc_desc d =
     (case find (vfree d) [0..<NUM] of
        None \<Rightarrow> (None, d)
      | Some i \<Rightarrow> (Some i, d\<lparr>vfree := (vfree d)(i := False)\<rparr>))"

definition free_desc :: "vdisk \<Rightarrow> nat \<Rightarrow> vdisk result" where
  "free_desc d i =
     (if i \<ge> NUM then panic ''free_desc 1''
      else if vfree d i then panic ''free_desc 2''
      else Inr (d\<lparr>desc := (desc d)(i := no_desc), vfree := (vfree d)(i := True)\<rparr>))"

text \<open>Every round of \<^verbatim>\<open>free_chain\<close> frees a descriptor that was not free, so the loop ends.\<close>

definition in_use :: "vdisk \<Rightarrow> nat set" where
  "in_use d = {i. i < NUM \<and> \<not> vfree d i}"

lemma free_desc_in_use: "free_desc d i = Inr d1 \<Longrightarrow> i \<in> in_use d \<and> in_use d1 = in_use d - {i}"
  by (auto simp: free_desc_def in_use_def split: if_splits)

lemma free_desc_less:
  assumes "free_desc d i = Inr d1"
  shows "card (in_use d1) < card (in_use d)"
proof -
  have "finite (in_use d)" by (simp add: in_use_def)
  then show ?thesis using free_desc_in_use [OF assms] card_Diff1_less [of "in_use d" i] by simp
qed

function free_chain :: "vdisk \<Rightarrow> nat \<Rightarrow> vdisk result" where
  "free_chain d i =
     (let flag = d_flags (desc d i); nxt = unat (d_next (desc d i))
      in ebind (free_desc d i) (\<lambda>d1. if flag AND VRING_DESC_F_NEXT \<noteq> 0 then free_chain d1 nxt else Inr d1))"
  by pat_completeness auto
termination
  by (relation "measure (\<lambda>(d, i). card (in_use d))") (simp_all add: free_desc_less)

declare free_chain.simps [simp del]

text \<open>On failure the descriptors taken so far are freed again.\<close>

definition alloc3_desc :: "vdisk \<Rightarrow> ((nat \<times> nat \<times> nat) option \<times> vdisk) result" where
  "alloc3_desc d =
     (case alloc_desc d of
        (None, d1) \<Rightarrow> Inr (None, d1)
      | (Some i0, d1) \<Rightarrow>
          (case alloc_desc d1 of
             (None, d2) \<Rightarrow> ebind (free_desc d2 i0) (\<lambda>d3. Inr (None, d3))
           | (Some i1, d2) \<Rightarrow>
               (case alloc_desc d2 of
                  (None, d3) \<Rightarrow> ebind (free_desc d3 i0) (\<lambda>d4. ebind (free_desc d4 i1) (\<lambda>d5. Inr (None, d5)))
                | (Some i2, d3) \<Rightarrow> Inr (Some (i0, i1, i2), d3))))"

section \<open>Requests\<close>

text \<open>
  The driver, the device and the processes in \<^verbatim>\<open>virtio_disk_rw\<close>.  \<open>bflag\<close> is \<^verbatim>\<open>b->disk\<close>; \<open>calls\<close> gives for a buffer the local
  variables of the process that has a request for it, the indices and \<^verbatim>\<open>write\<close>.  \<open>dpos\<close> and \<open>work\<close> belong to the device:
  how far it has read the ring \<^verbatim>\<open>avail\<close>, and the requests it has read and not completed.
\<close>

record vio =
  vd :: vdisk
  vc :: bcache
  bflag :: "nat \<Rightarrow> bool"
  calls :: "nat \<rightharpoonup> (nat \<times> nat \<times> nat) \<times> bool"
  dpos :: uint16
  work :: "nat list"

text \<open>The three descriptors of a request, and its entry in the ring.\<close>

definition format_req :: "vdisk \<Rightarrow> nat \<times> nat \<times> nat \<Rightarrow> nat \<Rightarrow> uint32 \<Rightarrow> bool \<Rightarrow> vdisk" where
  "format_req d idx b blockno write =
     (let (i0, i1, i2) = idx;
          sector = ucast (blockno * 2);
          d1 = d\<lparr>ops := (ops d)(i0 := \<lparr>req_type = (if write then VIRTIO_BLK_T_OUT else VIRTIO_BLK_T_IN), req_reserved = 0, req_sector = sector\<rparr>)\<rparr>;
          d2 = d1\<lparr>desc := (desc d1)(i0 := \<lparr>d_addr = Ops i0, d_len = 16, d_flags = VRING_DESC_F_NEXT, d_next = of_nat i1\<rparr>)\<rparr>;
          d3 = d2\<lparr>desc := (desc d2)(i1 := \<lparr>d_addr = Data b, d_len = of_nat BSIZE,
                 d_flags = (if write then 0 else VRING_DESC_F_WRITE) OR VRING_DESC_F_NEXT, d_next = of_nat i2\<rparr>)\<rparr>;
          d4 = d3\<lparr>info := (info d3)(i0 := (info d3 i0)\<lparr>info_status := 0xff\<rparr>)\<rparr>;
          d5 = d4\<lparr>desc := (desc d4)(i2 := \<lparr>d_addr = Status i0, d_len = 1, d_flags = VRING_DESC_F_WRITE, d_next = 0\<rparr>)\<rparr>;
          d6 = d5\<lparr>info := (info d5)(i0 := (info d5 i0)\<lparr>info_b := Some b\<rparr>)\<rparr>;
          d7 = d6\<lparr>avail_ring := (avail_ring d6)[unat (avail_idx d6) mod NUM := of_nat i0]\<rparr>
      in d7\<lparr>avail_idx := avail_idx d7 + 1\<rparr>)"

text \<open>\<^verbatim>\<open>virtio_disk_rw\<close> up to the wait for the device: \<open>None\<close> as indices if it sleeps until descriptors are freed.\<close>

definition rw_start :: "vio \<Rightarrow> nat \<Rightarrow> bool \<Rightarrow> (bool \<times> vio) result" where
  "rw_start v b write =
     ebind (alloc3_desc (vd v)) (\<lambda>(idx, d1).
       case idx of
         None \<Rightarrow> Inr (False, v\<lparr>vd := d1\<rparr>)
       | Some ix \<Rightarrow> Inr (True, v\<lparr>vd := format_req d1 ix b (snd (key (bufs (vc v) b))) write,
           bflag := (bflag v)(b := True), calls := (calls v)(b \<mapsto> (ix, write))\<rparr>))"

text \<open>The rest, when the buffer's flag is clear.\<close>

definition rw_finish :: "vio \<Rightarrow> nat \<Rightarrow> vio outcome" where
  "rw_finish v b =
     (case calls v b of
        None \<Rightarrow> Some (undef ''no request'')
      | Some ((i0, i1, i2), write) \<Rightarrow>
          if bflag v b then None
          else let d = (vd v)\<lparr>info := (info (vd v))(i0 := (info (vd v) i0)\<lparr>info_b := None\<rparr>)\<rparr>
               in (case free_chain d i0 of Inl e \<Rightarrow> Some (Inl e) | Inr d1 \<Rightarrow> ret (v\<lparr>vd := d1, calls := (calls v)(b := None)\<rparr>)))"

text \<open>The loop of the interrupt handler; \<^verbatim>\<open>wakeup\<close> lets the process continue.\<close>

function intr_loop :: "vdisk \<Rightarrow> (nat \<Rightarrow> bool) \<Rightarrow> (vdisk \<times> (nat \<Rightarrow> bool)) result" where
  "intr_loop d fl =
     (if used_idx d \<noteq> used_end d then
        (let id = unat (used_ring d ! (unat (used_idx d) mod NUM))
         in if info_status (info d id) \<noteq> 0 then panic ''virtio_disk_intr status''
            else case info_b (info d id) of
                None \<Rightarrow> undef ''null buffer''
              | Some b \<Rightarrow> intr_loop (d\<lparr>used_idx := used_idx d + 1\<rparr>) (fl(b := False)))
      else Inr (d, fl))"
  by pat_completeness auto
termination
  by (relation "measure (\<lambda>(d, fl). unat (used_end d - used_idx d))")
    (auto simp: unat_diff_pop)

declare intr_loop.simps [simp del]

definition virtio_disk_intr :: "vio \<Rightarrow> vio result" where
  "virtio_disk_intr v = ebind (intr_loop (vd v) (bflag v)) (\<lambda>(d, fl). Inr (v\<lparr>vd := d, bflag := fl\<rparr>))"

end
