(* ===== verification/VirtioSpec.thy ===== *)
theory VirtioSpec
  imports Virtio
begin

text \<open>
  The driver and the device together carry out each request as one atomic transfer of the buffer cache's model, between
  the call of \<^verbatim>\<open>virtio_disk_rw\<close> and its return, whatever the order in which processes, device and interrupts run.
\<close>

declare split_paired_All [simp del] split_paired_Ex [simp del]

section \<open>The device\<close>

text \<open>What the virtio specification (sections 2.6 and 5.2) says of a block device with a chain of three descriptors.\<close>

datatype vevent = Call nat bool | Do nat bool | Ret nat | Touch nat "buf \<Rightarrow> buf"

text \<open>The request at descriptor \<open>h\<close>: the buffer, whether it writes to the disk, the sector and the place of the status.\<close>

definition request :: "vdisk \<Rightarrow> nat \<Rightarrow> (nat \<times> bool \<times> uint64 \<times> nat) option" where
  "request d h =
     (let e0 = desc d h; e1 = desc d (unat (d_next e0)); e2 = desc d (unat (d_next e1))
      in case (d_addr e0, d_addr e1, d_addr e2) of
           (Ops i, Data b, Status j) \<Rightarrow>
             if d_len e0 = 16 \<and> d_flags e0 = VRING_DESC_F_NEXT \<and> d_len e1 = of_nat BSIZE \<and> d_len e2 = 1 \<and> d_flags e2 = VRING_DESC_F_WRITE then
               if req_type (ops d i) = VIRTIO_BLK_T_OUT \<and> d_flags e1 = VRING_DESC_F_NEXT then Some (b, True, req_sector (ops d i), j)
               else if req_type (ops d i) = VIRTIO_BLK_T_IN \<and> d_flags e1 = VRING_DESC_F_WRITE OR VRING_DESC_F_NEXT then Some (b, False, req_sector (ops d i), j)
               else None
             else None
         | _ \<Rightarrow> None)"

definition transfer :: "uint32 \<Rightarrow> bcache \<Rightarrow> nat \<Rightarrow> bool \<Rightarrow> uint64 \<Rightarrow> bcache" where
  "transfer dv c b w sector =
     (let k = (dv, ucast (drop_bit 1 sector))
      in if w then c\<lparr>disk := (disk c)(k := data (bufs c b)), trace := trace c @ [(k, data (bufs c b))]\<rparr>
         else upd c b (\<lambda>x. x\<lparr>data := disk c k\<rparr>))"

definition fetches :: "vio \<Rightarrow> vevent list \<Rightarrow> vio \<Rightarrow> bool" where
  "fetches v es v1 \<longleftrightarrow> dpos v \<noteq> avail_idx (vd v) \<and> es = [] \<and>
     v1 = v\<lparr>dpos := dpos v + 1, work := work v @ [unat (avail_ring (vd v) ! (unat (dpos v) mod NUM))]\<rparr>"

text \<open>Nothing is said of a chain that is not a request.\<close>

definition serves :: "uint32 \<Rightarrow> nat \<Rightarrow> vio \<Rightarrow> vevent list \<Rightarrow> vio \<Rightarrow> bool" where
  "serves dv h v es v1 \<longleftrightarrow>
     (case request (vd v) h of
        None \<Rightarrow> True
      | Some (b, w, sector, j) \<Rightarrow> es = [Do b w] \<and>
          v1 = v\<lparr>vc := transfer dv (vc v) b w sector, work := remove1 h (work v),
            vd := (vd v)\<lparr>info := (info (vd v))(j := (info (vd v) j)\<lparr>info_status := 0\<rparr>),
              used_ring := (used_ring (vd v))[unat (used_end (vd v)) mod NUM := of_nat h], used_end := used_end (vd v) + 1\<rparr>\<rparr>)"

definition virtio_device :: "uint32 \<Rightarrow> (vio \<Rightarrow> vevent list \<Rightarrow> vio \<Rightarrow> bool) \<Rightarrow> bool" where
  "virtio_device dv dev \<longleftrightarrow> (\<forall>v es v1. dev v es v1 \<longrightarrow> fetches v es v1 \<or> (\<exists>h\<in>set (work v). serves dv h v es v1))"

section \<open>Runs\<close>

text \<open>
  Processes that hold the sleep lock of a buffer call \<open>virtio_disk_rw\<close> for it, wait and return, or use the buffer; the device
  works and the interrupt handler runs at any time.  The history lists the calls, transfers, returns and uses.
\<close>

inductive vrun :: "uint32 \<Rightarrow> (vio \<Rightarrow> vevent list \<Rightarrow> vio \<Rightarrow> bool) \<Rightarrow> vio \<Rightarrow> vevent list \<Rightarrow> vio \<Rightarrow> bool" for dv dev v0 where
  vinit: "vrun dv dev v0 [] v0"
| vcall: "vrun dv dev v0 h v \<Longrightarrow> calls v b = None \<Longrightarrow> fst (key (bufs (vc v) b)) = dv \<Longrightarrow> unat (snd (key (bufs (vc v) b))) < 2 ^ 31 \<Longrightarrow>
    rw_start v b w = Inr (ok, v1) \<Longrightarrow> vrun dv dev v0 (h @ (if ok then [Call b w] else [])) v1"
| vdev: "vrun dv dev v0 h v \<Longrightarrow> dev v es v1 \<Longrightarrow> vrun dv dev v0 (h @ es) v1"
| vintr: "vrun dv dev v0 h v \<Longrightarrow> virtio_disk_intr v = Inr v1 \<Longrightarrow> vrun dv dev v0 h v1"
| vret: "vrun dv dev v0 h v \<Longrightarrow> rw_finish v b = ret v1 \<Longrightarrow> vrun dv dev v0 (h @ [Ret b]) v1"
| vtouch: "vrun dv dev v0 h v \<Longrightarrow> calls v b = None \<Longrightarrow> vrun dv dev v0 (h @ [Touch b f]) (v\<lparr>vc := upd (vc v) b f\<rparr>)"

text \<open>The cache after a history in which the transfers are the atomic ones of \<open>Bio\<close>.\<close>

fun vapply :: "bcache \<Rightarrow> vevent \<Rightarrow> bcache" where
  "vapply c (Do b w) = virtio_disk_rw c b w"
| "vapply c (Touch b f) = upd c b f"
| "vapply c (Call b w) = c"
| "vapply c (Ret b) = c"

text \<open>For each buffer the history must repeat: call, transfer, return; it is used only in between.\<close>

datatype vphase = Idle | Called bool | Served

fun advance :: "nat \<Rightarrow> vphase option \<Rightarrow> vevent \<Rightarrow> vphase option" where
  "advance b p (Call c w) = (if c \<noteq> b then p else if p = Some Idle then Some (Called w) else None)"
| "advance b p (Do c w) = (if c \<noteq> b then p else if p = Some (Called w) then Some Served else None)"
| "advance b p (Ret c) = (if c \<noteq> b then p else if p = Some Served then Some Idle else None)"
| "advance b p (Touch c f) = (if c \<noteq> b then p else if p = Some Idle then Some Idle else None)"

definition phase :: "nat \<Rightarrow> vevent list \<Rightarrow> vphase option" where
  "phase b h = foldl (advance b) (Some Idle) h"

section \<open>Descriptors of a request\<close>

definition chain_ok :: "vdisk \<Rightarrow> nat \<Rightarrow> uint32 \<Rightarrow> (nat \<times> nat \<times> nat) \<times> bool \<Rightarrow> bool" where
  "chain_ok d b n c \<longleftrightarrow>
     (case c of ((i0, i1, i2), w) \<Rightarrow> distinct [i0, i1, i2] \<and> {i0, i1, i2} \<subseteq> in_use d \<and>
        desc d i0 = \<lparr>d_addr = Ops i0, d_len = 16, d_flags = VRING_DESC_F_NEXT, d_next = of_nat i1\<rparr> \<and>
        desc d i1 = \<lparr>d_addr = Data b, d_len = of_nat BSIZE, d_flags = (if w then 0 else VRING_DESC_F_WRITE) OR VRING_DESC_F_NEXT, d_next = of_nat i2\<rparr> \<and>
        desc d i2 = \<lparr>d_addr = Status i0, d_len = 1, d_flags = VRING_DESC_F_WRITE, d_next = 0\<rparr> \<and>
        ops d i0 = \<lparr>req_type = (if w then VIRTIO_BLK_T_OUT else VIRTIO_BLK_T_IN), req_reserved = 0, req_sector = ucast (n * 2)\<rparr> \<and>
        info_b (info d i0) = Some b)"

lemma unat_small16: "i < NUM \<Longrightarrow> unat (of_nat i :: uint16) = i"
  by (simp add: unat_of_nat take_bit_nat_def NUM_def)

lemma in_use_less: "i \<in> in_use d \<Longrightarrow> i < NUM"
  by (simp add: in_use_def)

lemma request_ok:
  assumes "chain_ok d b n ((i0, i1, i2), w)"
  shows "request d i0 = Some (b, w, ucast (n * 2), i0)"
proof -
  have "unat (of_nat i1 :: uint16) = i1" "unat (of_nat i2 :: uint16) = i2"
    using assms by (auto simp: chain_ok_def intro!: unat_small16 in_use_less)
  then show ?thesis using assms
    by (simp add: request_def chain_ok_def Let_def VRING_DESC_F_NEXT_def VRING_DESC_F_WRITE_def VIRTIO_BLK_T_IN_def VIRTIO_BLK_T_OUT_def)
qed

lemma transfer_ok:
  assumes "key (bufs c b) = (dv, n)" and "unat n < 2 ^ 31"
  shows "transfer dv c b w (ucast (n * 2)) = virtio_disk_rw c b w"
proof -
  have "unat (n * 2) = 2 * unat n" using assms(2) by (simp add: unat_word_ariths)
  then have "unat (ucast (drop_bit 1 (ucast (n * 2) :: uint64)) :: uint32) = unat n"
    by (simp add: unsigned_ucast_eq unsigned_drop_bit_eq take_bit_nat_def drop_bit_nat_def) (use assms(2) in simp)
  then have "ucast (drop_bit 1 (ucast (n * 2) :: uint64)) = n" by (simp add: word_unat_eq_iff)
  then show ?thesis using assms(1) by (simp add: transfer_def virtio_disk_rw_def upd_def Let_def)
qed

lemma alloc_desc_cases:
  obtains "alloc_desc d = (None, d)" "\<forall>i<NUM. \<not> vfree d i"
  | i where "alloc_desc d = (Some i, d\<lparr>vfree := (vfree d)(i := False)\<rparr>)" "i < NUM" "vfree d i"
proof (cases "find (vfree d) [0..<NUM]")
  case None
  have "alloc_desc d = (None, d)" unfolding alloc_desc_def None by simp
  moreover have "\<forall>i<NUM. \<not> vfree d i" using None by (auto simp: find_None_iff)
  ultimately show ?thesis by (rule that(1))
next
  case (Some i)
  then have "i < NUM" "vfree d i" by (auto simp: find_Some_iff)
  then show ?thesis using that(2) Some by (simp add: alloc_desc_def)
qed

text \<open>Three descriptors that were free, or the same descriptors in use, with only free ones cleared.\<close>

lemma alloc3_cases:
  obtains i0 i1 i2 where
      "alloc3_desc d = Inr (Some (i0, i1, i2), d\<lparr>vfree := (vfree d)(i0 := False, i1 := False, i2 := False)\<rparr>)"
      "distinct [i0, i1, i2]" "i0 < NUM" "i1 < NUM" "i2 < NUM" "vfree d i0" "vfree d i1" "vfree d i2"
  | ds where "alloc3_desc d = Inr (None, d\<lparr>desc := ds\<rparr>)" "\<forall>i\<in>in_use d. ds i = desc d i"
proof (cases rule: alloc_desc_cases [of d])
  case 1
  then show ?thesis using that(2) [of "desc d"] by (simp add: alloc3_desc_def)
next
  case (2 i0)
  note a0 = this
  let ?d1 = "d\<lparr>vfree := (vfree d)(i0 := False)\<rparr>"
  show ?thesis
  proof (cases rule: alloc_desc_cases [of ?d1])
    case 1
    have "free_desc ?d1 i0 = Inr (d\<lparr>desc := (desc d)(i0 := no_desc)\<rparr>)" using a0 by (simp add: free_desc_def fun_upd_idem)
    then show ?thesis using that(2) [of "(desc d)(i0 := no_desc)"] a0 1 by (auto simp: alloc3_desc_def in_use_def)
  next
    case (2 i1)
    note a1 = this
    let ?d2 = "?d1\<lparr>vfree := (vfree ?d1)(i1 := False)\<rparr>"
    have n1: "i1 \<noteq> i0" "vfree d i1" using a1 by (auto split: if_splits)
    show ?thesis
    proof (cases rule: alloc_desc_cases [of ?d2])
      case 1
      have "free_desc ?d2 i0 = Inr (d\<lparr>desc := (desc d)(i0 := no_desc), vfree := (vfree d)(i1 := False)\<rparr>)"
        using a0 n1 by (simp add: free_desc_def fun_upd_twist fun_upd_idem)
      moreover have "free_desc (d\<lparr>desc := (desc d)(i0 := no_desc), vfree := (vfree d)(i1 := False)\<rparr>) i1 =
          Inr (d\<lparr>desc := (desc d)(i0 := no_desc, i1 := no_desc)\<rparr>)"
        using a1 n1 by (simp add: free_desc_def fun_upd_idem)
      ultimately show ?thesis using that(2) [of "(desc d)(i0 := no_desc, i1 := no_desc)"] a0 a1 n1 1
        by (auto simp: alloc3_desc_def in_use_def)
    next
      case (2 i2)
      then have "i2 \<noteq> i0" "i2 \<noteq> i1" "vfree d i2" by (auto split: if_splits)
      then show ?thesis using that(1) [of i0 i1 i2] a0 a1 n1 2 by (simp add: alloc3_desc_def)
    qed
  qed
qed

lemma free_chain_ok:
  assumes "chain_ok d b n ((i0, i1, i2), w)" and "desc d1 = desc d" and "vfree d1 = vfree d"
  shows "free_chain d1 i0 = Inr (d1\<lparr>desc := (desc d1)(i0 := no_desc, i1 := no_desc, i2 := no_desc),
    vfree := (vfree d1)(i0 := True, i1 := True, i2 := True)\<rparr>)"
proof -
  have use: "{i0, i1, i2} \<subseteq> in_use d" and dist: "distinct [i0, i1, i2]" using assms(1) by (auto simp: chain_ok_def)
  then have u: "unat (of_nat i1 :: uint16) = i1" "unat (of_nat i2 :: uint16) = i2"
    by (auto intro!: unat_small16 in_use_less)
  have f: "\<not> vfree d1 i0" "\<not> vfree d1 i1" "\<not> vfree d1 i2" "i0 < NUM" "i1 < NUM" "i2 < NUM"
    using use assms(3) by (auto simp: in_use_def)
  let ?d2 = "d1\<lparr>desc := (desc d1)(i0 := no_desc), vfree := (vfree d1)(i0 := True)\<rparr>"
  let ?d3 = "d1\<lparr>desc := (desc d1)(i0 := no_desc, i1 := no_desc), vfree := (vfree d1)(i0 := True, i1 := True)\<rparr>"
  have fl: "VRING_DESC_F_NEXT AND VRING_DESC_F_NEXT \<noteq> 0" "VRING_DESC_F_WRITE AND VRING_DESC_F_NEXT = 0"
      "((if w then 0 else VRING_DESC_F_WRITE) OR VRING_DESC_F_NEXT) AND VRING_DESC_F_NEXT \<noteq> 0"
    by (auto simp: VRING_DESC_F_NEXT_def VRING_DESC_F_WRITE_def)
  have "free_chain d1 i0 = free_chain ?d2 i1"
    using assms f u fl by (subst free_chain.simps) (simp add: free_desc_def chain_ok_def)
  also have "\<dots> = free_chain ?d3 i2"
    using assms f u fl dist by (subst free_chain.simps) (simp add: free_desc_def chain_ok_def)
  also have "\<dots> = Inr (d1\<lparr>desc := (desc d1)(i0 := no_desc, i1 := no_desc, i2 := no_desc),
      vfree := (vfree d1)(i0 := True, i1 := True, i2 := True)\<rparr>)"
    using assms f u fl dist by (subst free_chain.simps) (simp add: free_desc_def chain_ok_def)
  finally show ?thesis .
qed

section \<open>The invariant\<close>

interpretation vq: ring NUM "TYPE(16)"
  by unfold_locales (simp_all add: NUM_def)

text \<open>The first descriptors of the requests the device has not seen, and of those the interrupt handler has not seen.\<close>

definition avl :: "vio \<Rightarrow> nat list" where
  "avl v = map unat (ring_items NUM (avail_ring (vd v)) (dpos v) (avail_idx (vd v)))"

definition usd :: "vio \<Rightarrow> nat list" where
  "usd v = map unat (ring_items NUM (used_ring (vd v)) (used_idx (vd v)) (used_end (vd v)))"

abbreviation queued :: "vio \<Rightarrow> nat list" where
  "queued v \<equiv> avl v @ work v @ usd v"

abbreviation hd_of :: "(nat \<times> nat \<times> nat) \<times> bool \<Rightarrow> nat" where
  "hd_of c \<equiv> fst (fst c)"

definition ixs :: "(nat \<times> nat \<times> nat) \<times> bool \<Rightarrow> nat set" where
  "ixs c = (case c of ((i0, i1, i2), w) \<Rightarrow> {i0, i1, i2})"

definition calls_ok :: "uint32 \<Rightarrow> vio \<Rightarrow> bool" where
  "calls_ok dv v \<longleftrightarrow>
     (\<forall>b c. calls v b = Some c \<longrightarrow> chain_ok (vd v) b (snd (key (bufs (vc v) b))) c \<and> fst (key (bufs (vc v) b)) = dv \<and>
        unat (snd (key (bufs (vc v) b))) < 2 ^ 31) \<and>
     (\<forall>b b1 c c1. calls v b = Some c \<and> calls v b1 = Some c1 \<and> b \<noteq> b1 \<longrightarrow> ixs c \<inter> ixs c1 = {}) \<and>
     in_use (vd v) = (\<Union>c\<in>ran (calls v). ixs c)"

definition queue_ok :: "vio \<Rightarrow> bool" where
  "queue_ok v \<longleftrightarrow> length (avail_ring (vd v)) = NUM \<and> length (used_ring (vd v)) = NUM \<and> distinct (queued v) \<and>
     (\<forall>x\<in>set (queued v). \<exists>b c. calls v b = Some c \<and> hd_of c = x) \<and>
     (\<forall>b c. calls v b = Some c \<longrightarrow> (bflag v b \<longleftrightarrow> hd_of c \<in> set (queued v))) \<and>
     (\<forall>x\<in>set (usd v). info_status (info (vd v) x) = 0)"

definition phase_of :: "vio \<Rightarrow> nat \<Rightarrow> vphase" where
  "phase_of v b = (case calls v b of None \<Rightarrow> Idle | Some c \<Rightarrow> if hd_of c \<in> set (avl v @ work v) then Called (snd c) else Served)"

definition vinv :: "uint32 \<Rightarrow> vio \<Rightarrow> vevent list \<Rightarrow> vio \<Rightarrow> bool" where
  "vinv dv v0 h v \<longleftrightarrow> calls_ok dv v \<and> queue_ok v \<and> vc v = foldl vapply (vc v0) h \<and> (\<forall>b. phase b h = Some (phase_of v b))"

lemma vinvI:
  "calls_ok dv v \<Longrightarrow> queue_ok v \<Longrightarrow> vc v = foldl vapply (vc v0) h \<Longrightarrow> (\<And>b. phase b h = Some (phase_of v b)) \<Longrightarrow> vinv dv v0 h v"
  by (simp add: vinv_def)

lemma hd_in_ixs: "hd_of c \<in> ixs c"
  by (cases c) (auto simp: ixs_def)

lemma chain_in_use: "chain_ok d b n c \<Longrightarrow> ixs c \<subseteq> in_use d"
  by (cases c) (auto simp: chain_ok_def ixs_def)

lemma chain_frame:
  assumes "chain_ok d b n c" and "\<And>i. i \<in> ixs c \<Longrightarrow> desc d1 i = desc d i \<and> ops d1 i = ops d i \<and> info_b (info d1 i) = info_b (info d i)"
    and "ixs c \<subseteq> in_use d1"
  shows "chain_ok d1 b n c"
proof -
  obtain i0 i1 i2 w where c: "c = ((i0, i1, i2), w)" by (cases c) auto
  have "desc d1 i0 = desc d i0" "desc d1 i1 = desc d i1" "desc d1 i2 = desc d i2" "ops d1 i0 = ops d i0" "info_b (info d1 i0) = info_b (info d i0)"
    using assms(2) [of i0] assms(2) [of i1] assms(2) [of i2] by (simp_all add: c ixs_def)
  then show ?thesis using assms(1,3) by (simp add: chain_ok_def c ixs_def)
qed

lemma calls_okD:
  assumes "calls_ok dv v" and "calls v b = Some c"
  shows "chain_ok (vd v) b (snd (key (bufs (vc v) b))) c" "key (bufs (vc v) b) = (dv, snd (key (bufs (vc v) b)))"
    "unat (snd (key (bufs (vc v) b))) < 2 ^ 31" "hd_of c < NUM" "info_b (info (vd v) (hd_of c)) = Some b"
    "fst (key (bufs (vc v) b)) = dv"
proof -
  show c: "chain_ok (vd v) b (snd (key (bufs (vc v) b))) c" and "unat (snd (key (bufs (vc v) b))) < 2 ^ 31"
    using assms by (auto simp: calls_ok_def)
  show "fst (key (bufs (vc v) b)) = dv" using assms by (auto simp: calls_ok_def)
  then show "key (bufs (vc v) b) = (dv, snd (key (bufs (vc v) b)))" by (metis prod.collapse)
  show "hd_of c < NUM" using chain_in_use [OF c] hd_in_ixs [of c] in_use_less by blast
  show "info_b (info (vd v) (hd_of c)) = Some b" using c by (cases c) (auto simp: chain_ok_def)
qed

lemma hd_inj: "calls_ok dv v \<Longrightarrow> calls v b = Some c \<Longrightarrow> calls v b1 = Some c1 \<Longrightarrow> hd_of c = hd_of c1 \<Longrightarrow> b = b1 \<and> c = c1"
proof -
  assume a: "calls_ok dv v" "calls v b = Some c" "calls v b1 = Some c1" "hd_of c = hd_of c1"
  have "b = b1"
  proof (rule ccontr)
    assume "b \<noteq> b1"
    then have "ixs c \<inter> ixs c1 = {}" using a(1-3) by (auto simp: calls_ok_def)
    then show False using hd_in_ixs [of c] hd_in_ixs [of c1] a(4) by auto
  qed
  then show ?thesis using a by simp
qed

lemma queued_in_use:
  assumes "calls_ok dv v" and "queue_ok v" and "x \<in> set (queued v)"
  shows "x \<in> in_use (vd v)"
proof -
  have "\<exists>b c. calls v b = Some c \<and> hd_of c = x" using assms(2,3) by (simp add: queue_ok_def)
  then obtain b c where bc: "calls v b = Some c" "hd_of c = x" by blast
  show ?thesis using chain_in_use [OF calls_okD(1) [OF assms(1) bc(1)]] hd_in_ixs [of c] bc(2) by auto
qed

text \<open>A descriptor that is not queued finds room in the ring.\<close>

lemma room:
  assumes "distinct xs" and "set xs \<subseteq> {..<NUM} - {i}" and "i < NUM"
  shows "length xs < NUM"
proof -
  have "length xs = card (set xs)" using assms(1) by (simp add: distinct_card)
  also have "\<dots> \<le> card ({..<NUM} - {i})" using assms(2) by (intro card_mono) auto
  also have "\<dots> < NUM" using assms(3) by simp
  finally show ?thesis .
qed

lemma phase_snoc: "phase b (h @ [e]) = advance b (phase b h) e"
  by (simp add: phase_def)

section \<open>Every step keeps the invariant\<close>

lemma calls_okI:
  assumes "\<And>b c. calls v b = Some c \<Longrightarrow> chain_ok (vd v) b (snd (key (bufs (vc v) b))) c \<and> fst (key (bufs (vc v) b)) = dv \<and>
      unat (snd (key (bufs (vc v) b))) < 2 ^ 31"
    and "\<And>b b1 c c1. calls v b = Some c \<Longrightarrow> calls v b1 = Some c1 \<Longrightarrow> b \<noteq> b1 \<Longrightarrow> ixs c \<inter> ixs c1 = {}"
    and "in_use (vd v) = (\<Union>c\<in>ran (calls v). ixs c)"
  shows "calls_ok dv v"
  using assms unfolding calls_ok_def by blast

text \<open>A step that changes neither the calls nor what their chains consist of.\<close>

lemma calls_ok_same:
  assumes "calls_ok dv v" and "calls v1 = calls v" and "in_use (vd v1) = in_use (vd v)"
    and "\<And>i. i \<in> in_use (vd v) \<Longrightarrow> desc (vd v1) i = desc (vd v) i \<and> ops (vd v1) i = ops (vd v) i \<and> info_b (info (vd v1) i) = info_b (info (vd v) i)"
    and "\<And>b c. calls v b = Some c \<Longrightarrow> key (bufs (vc v1) b) = key (bufs (vc v) b)"
  shows "calls_ok dv v1"
proof (rule calls_okI)
  show "in_use (vd v1) = (\<Union>c\<in>ran (calls v1). ixs c)" using assms(1-3) by (simp add: calls_ok_def)
  show "ixs c \<inter> ixs c1 = {}" if "calls v1 b = Some c" "calls v1 b1 = Some c1" "b \<noteq> b1" for b b1 c c1
    using that assms(1,2) by (auto simp: calls_ok_def)
  fix b c assume "calls v1 b = Some c"
  then have c: "calls v b = Some c" using assms(2) by simp
  have use: "ixs c \<subseteq> in_use (vd v)" by (rule chain_in_use [OF calls_okD(1) [OF assms(1) c]])
  have "chain_ok (vd v1) b (snd (key (bufs (vc v) b))) c"
    by (rule chain_frame [OF calls_okD(1) [OF assms(1) c]]) (use use assms(3,4) in auto)
  then show "chain_ok (vd v1) b (snd (key (bufs (vc v1) b))) c \<and> fst (key (bufs (vc v1) b)) = dv \<and> unat (snd (key (bufs (vc v1) b))) < 2 ^ 31"
    using assms(5) [OF c] calls_okD(3,6) [OF assms(1) c] by simp
qed

lemma step_fetch:
  assumes inv: "vinv dv v0 h v" and f: "fetches v es v1"
  shows "vinv dv v0 (h @ es) v1"
proof -
  let ?x = "unat (avail_ring (vd v) ! (unat (dpos v) mod NUM))"
  have v1: "v1 = v\<lparr>dpos := dpos v + 1, work := work v @ [?x]\<rparr>" "es = []" and ne: "avail_idx (vd v) \<noteq> dpos v"
    using f by (auto simp: fetches_def)
  have q: "avl v = ?x # avl v1" "work v1 = work v @ [?x]" "usd v1 = usd v"
    unfolding avl_def vq.pop [OF ne] by (simp_all add: v1 usd_def)
  have same: "calls v1 = calls v" "bflag v1 = bflag v" "vd v1 = vd v" "vc v1 = vc v" by (simp_all add: v1)
  have st: "distinct (queued v1) \<longleftrightarrow> distinct (queued v)" "set (queued v1) = set (queued v)" "set (avl v1 @ work v1) = set (avl v @ work v)"
    using q by auto
  have "calls_ok dv v1" using inv unfolding vinv_def calls_ok_def same by blast
  moreover have "queue_ok v1" using inv unfolding vinv_def queue_ok_def same q(3) st [unfolded q(3)] by blast
  moreover have "phase_of v1 b = phase_of v b" for b unfolding phase_of_def st same ..
  ultimately show ?thesis using inv unfolding v1(2) vinv_def same append_Nil2 by simp
qed

lemma key_transfer: "key (bufs (virtio_disk_rw c b w) b1) = key (bufs c b1)"
  by (simp add: virtio_disk_rw_def upd_def Let_def)

lemma step_serve:
  assumes inv: "vinv dv v0 h v" and s: "serves dv x v es v1" and x: "x \<in> set (work v)"
  shows "vinv dv v0 (h @ es) v1"
proof -
  have C: "calls_ok dv v" and Q: "queue_ok v" using inv by (auto simp: vinv_def)
  have "\<exists>b c. calls v b = Some c \<and> hd_of c = x" using Q x by (simp add: queue_ok_def)
  then obtain b c where c: "calls v b = Some c" "hd_of c = x" by blast
  obtain i1 i2 w where c3: "c = ((x, i1, i2), w)" using c(2) by (cases c) auto
  note k = calls_okD [OF C c(1)]
  have r: "request (vd v) x = Some (b, w, ucast (snd (key (bufs (vc v) b)) * 2), x)" using request_ok k(1) unfolding c3 by blast
  let ?d1 = "(vd v)\<lparr>info := (info (vd v))(x := (info (vd v) x)\<lparr>info_status := 0\<rparr>),
      used_ring := (used_ring (vd v))[unat (used_end (vd v)) mod NUM := of_nat x], used_end := used_end (vd v) + 1\<rparr>"
  have v1: "v1 = v\<lparr>vc := virtio_disk_rw (vc v) b w, work := remove1 x (work v), vd := ?d1\<rparr>" and es: "es = [Do b w]"
    using s unfolding serves_def r option.case prod.case transfer_ok [OF k(2,3)] by blast+
  have dist: "distinct (queued v)" using Q by (simp add: queue_ok_def)
  have "y < NUM \<and> y \<noteq> x" if "y \<in> set (usd v)" for y
    using dist x in_use_less [OF queued_in_use [OF C Q, of y]] that by auto
  then have "set (usd v) \<subseteq> {..<NUM} - {x}" by blast
  then have "length (usd v) < NUM" using dist k(4) c(2) by (intro room) auto
  then have lt: "unat (used_end (vd v) - used_idx (vd v)) < NUM" by (simp add: usd_def)
  have len: "length (used_ring (vd v)) = NUM" using Q by (simp add: queue_ok_def)
  have "unat (of_nat x :: uint32) = x" using k(4) c(2) by (simp add: unat_of_nat take_bit_nat_def NUM_def)
  then have us: "usd v1 = usd v @ [x]" by (simp add: usd_def v1 vq.push [OF lt len])
  have av: "avl v1 = avl v" and wk: "work v1 = remove1 x (work v)" by (simp_all add: avl_def v1)
  have dw: "distinct (work v)" using dist by simp
  have st: "set (queued v1) = set (queued v)" "distinct (queued v1)"
    using us av wk x dist set_remove1_eq [OF dw] by auto
  have "calls_ok dv v1" by (rule calls_ok_same [OF C]) (auto simp: v1 key_transfer in_use_def)
  moreover have "queue_ok v1"
  proof -
    have "bflag v1 = bflag v" "calls v1 = calls v" "length (avail_ring (vd v1)) = NUM" "length (used_ring (vd v1)) = NUM"
      using Q by (simp_all add: v1 queue_ok_def)
    moreover have "\<forall>y\<in>set (usd v1). info_status (info (vd v1) y) = 0" using Q unfolding us by (simp add: v1 queue_ok_def)
    ultimately show ?thesis using Q st unfolding queue_ok_def st(1) by simp
  qed
  moreover have "vc v1 = foldl vapply (vc v0) (h @ es)" using inv by (simp add: vinv_def v1 es)
  moreover have "phase b1 (h @ es) = Some (phase_of v1 b1)" for b1
  proof -
    have p: "phase b1 h = Some (phase_of v b1)" using inv by (simp add: vinv_def)
    have "x \<notin> set (avl v1 @ work v1)" using av wk dist x set_remove1_eq [OF dw] by auto
    moreover have "hd_of c1 \<in> set (avl v1 @ work v1) \<longleftrightarrow> hd_of c1 \<in> set (avl v @ work v)" if "calls v b1 = Some c1" "b1 \<noteq> b" for c1
      using hd_inj [OF C that(1) c(1)] that(2) c(2) av wk set_remove1_eq [OF dw] by auto
    moreover have "calls v1 = calls v" by (simp add: v1)
    ultimately show ?thesis using p c x unfolding es phase_snoc phase_of_def by (auto simp: c3 split: option.splits)
  qed
  ultimately show ?thesis by (intro vinvI)
qed

lemma intr_loop_ok:
  assumes "\<forall>x\<in>set (ring_items NUM (used_ring d) (used_idx d) (used_end d)). info_status (info d (unat x)) = 0 \<and> info_b (info d (unat x)) \<noteq> None"
  shows "intr_loop d fl = Inr (d\<lparr>used_idx := used_end d\<rparr>,
    \<lambda>b. fl b \<and> (\<forall>x\<in>set (ring_items NUM (used_ring d) (used_idx d) (used_end d)). info_b (info d (unat x)) \<noteq> Some b))"
  using assms
proof (induction d fl rule: intr_loop.induct)
  case (1 d fl)
  show ?case
  proof (cases "used_idx d = used_end d")
    case True
    then have "d\<lparr>used_idx := used_end d\<rparr> = d" by simp
    then show ?thesis using True by (subst intr_loop.simps) simp
  next
    case False
    let ?x = "used_ring d ! (unat (used_idx d) mod NUM)"
    let ?d1 = "d\<lparr>used_idx := used_idx d + 1\<rparr>"
    have p: "ring_items NUM (used_ring d) (used_idx d) (used_end d) = ?x # ring_items NUM (used_ring d) (used_idx d + 1) (used_end d)"
      using False by (intro vq.pop) simp
    obtain b where b: "info_b (info d (unat ?x)) = Some b" "info_status (info d (unat ?x)) = 0" using 1(2) unfolding p by auto
    have "intr_loop d fl = intr_loop ?d1 (fl(b := False))" using False b by (subst intr_loop.simps) (simp add: Let_def)
    also have "\<dots> = Inr (?d1\<lparr>used_idx := used_end ?d1\<rparr>,
        \<lambda>c. (fl(b := False)) c \<and> (\<forall>x\<in>set (ring_items NUM (used_ring ?d1) (used_idx ?d1) (used_end ?d1)). info_b (info ?d1 (unat x)) \<noteq> Some c))"
      by (rule 1(1) [OF False refl _ b(1)]) (use b(2) 1(2) in \<open>simp_all add: p\<close>)
    finally have "intr_loop d fl = Inr (d\<lparr>used_idx := used_end d\<rparr>,
        \<lambda>c. (fl(b := False)) c \<and> (\<forall>x\<in>set (ring_items NUM (used_ring d) (used_idx d + 1) (used_end d)). info_b (info d (unat x)) \<noteq> Some c))"
      by (simp del: fun_upd_apply)
    then show ?thesis using b(1) unfolding p by (auto simp: fun_eq_iff)
  qed
qed

lemma intr_ok:
  assumes C: "calls_ok dv v" and Q: "queue_ok v"
  shows "virtio_disk_intr v = Inr (v\<lparr>vd := (vd v)\<lparr>used_idx := used_end (vd v)\<rparr>, bflag := \<lambda>b. bflag v b \<and> (\<forall>x\<in>set (usd v). info_b (info (vd v) x) \<noteq> Some b)\<rparr>)"
proof -
  have "info_status (info (vd v) x) = 0 \<and> info_b (info (vd v) x) \<noteq> None" if x: "x \<in> set (usd v)" for x
  proof -
    have "\<exists>b c. calls v b = Some c \<and> hd_of c = x" "info_status (info (vd v) x) = 0" using Q x by (auto simp: queue_ok_def)
    then show ?thesis using calls_okD(5) [OF C] by auto
  qed
  then have "\<forall>x\<in>set (ring_items NUM (used_ring (vd v)) (used_idx (vd v)) (used_end (vd v))).
      info_status (info (vd v) (unat x)) = 0 \<and> info_b (info (vd v) (unat x)) \<noteq> None" by (simp add: usd_def)
  from intr_loop_ok [OF this] show ?thesis by (simp add: virtio_disk_intr_def usd_def)
qed

lemma step_intr:
  assumes inv: "vinv dv v0 h v" and i: "virtio_disk_intr v = Inr v1"
  shows "vinv dv v0 h v1"
proof -
  have C: "calls_ok dv v" and Q: "queue_ok v" using inv by (auto simp: vinv_def)
  have v1: "v1 = v\<lparr>vd := (vd v)\<lparr>used_idx := used_end (vd v)\<rparr>, bflag := \<lambda>b. bflag v b \<and> (\<forall>x\<in>set (usd v). info_b (info (vd v) x) \<noteq> Some b)\<rparr>"
    using i unfolding intr_ok [OF C Q] by simp
  have q: "usd v1 = []" "avl v1 = avl v" "work v1 = work v" by (simp_all add: v1 usd_def avl_def)
  have same: "calls v1 = calls v" "vc v1 = vc v" by (simp_all add: v1)
  have fl: "bflag v1 b \<longleftrightarrow> hd_of c \<in> set (avl v @ work v)" if c: "calls v b = Some c" for b c
  proof -
    have "info_b (info (vd v) x) = Some b \<longleftrightarrow> x = hd_of c" if x: "x \<in> set (usd v)" for x
    proof -
      have "\<exists>b1 c1. calls v b1 = Some c1 \<and> hd_of c1 = x" using Q x by (auto simp: queue_ok_def)
      then obtain b1 c1 where b1: "calls v b1 = Some c1" "hd_of c1 = x" by blast
      then show ?thesis using calls_okD(5) [OF C b1(1)] calls_okD(5) [OF C c] hd_inj [OF C b1(1) c] c by auto
    qed
    then have "bflag v1 b \<longleftrightarrow> bflag v b \<and> hd_of c \<notin> set (usd v)" by (auto simp: v1)
    moreover have "bflag v b \<longleftrightarrow> hd_of c \<in> set (queued v)" "distinct (queued v)" using Q c by (auto simp: queue_ok_def)
    ultimately show ?thesis by auto
  qed
  have "calls_ok dv v1" by (rule calls_ok_same [OF C]) (auto simp: v1 in_use_def)
  moreover have "queue_ok v1" using Q fl unfolding queue_ok_def q same by (auto simp: v1)
  moreover have "phase_of v1 b = phase_of v b" for b unfolding phase_of_def q same ..
  ultimately show ?thesis using inv by (simp add: vinv_def same)
qed

lemma format_req_fields:
  "desc (format_req d (i0, i1, i2) b n w) =
    (desc d)(i0 := \<lparr>d_addr = Ops i0, d_len = 16, d_flags = VRING_DESC_F_NEXT, d_next = of_nat i1\<rparr>,
      i1 := \<lparr>d_addr = Data b, d_len = of_nat BSIZE, d_flags = (if w then 0 else VRING_DESC_F_WRITE) OR VRING_DESC_F_NEXT, d_next = of_nat i2\<rparr>,
      i2 := \<lparr>d_addr = Status i0, d_len = 1, d_flags = VRING_DESC_F_WRITE, d_next = 0\<rparr>)"
  "avail_idx (format_req d (i0, i1, i2) b n w) = avail_idx d + 1"
  "avail_ring (format_req d (i0, i1, i2) b n w) = (avail_ring d)[unat (avail_idx d) mod NUM := of_nat i0]"
  "info (format_req d (i0, i1, i2) b n w) = (info d)(i0 := \<lparr>info_b = Some b, info_status = 0xff\<rparr>)"
  "ops (format_req d (i0, i1, i2) b n w) =
    (ops d)(i0 := \<lparr>req_type = (if w then VIRTIO_BLK_T_OUT else VIRTIO_BLK_T_IN), req_reserved = 0, req_sector = ucast (n * 2)\<rparr>)"
  "vfree (format_req d (i0, i1, i2) b n w) = vfree d" "used_end (format_req d (i0, i1, i2) b n w) = used_end d"
  "used_ring (format_req d (i0, i1, i2) b n w) = used_ring d" "used_idx (format_req d (i0, i1, i2) b n w) = used_idx d"
  by (simp_all add: format_req_def Let_def) (rule ext, auto intro!: vinfo.equality)

lemma step_call:
  assumes inv: "vinv dv v0 h v" and b: "calls v b = None" and k: "fst (key (bufs (vc v) b)) = dv" "unat (snd (key (bufs (vc v) b))) < 2 ^ 31"
    and r: "rw_start v b w = Inr (ok, v1)"
  shows "vinv dv v0 (h @ (if ok then [Call b w] else [])) v1"
proof -
  have C: "calls_ok dv v" and Q: "queue_ok v" using inv by (auto simp: vinv_def)
  show ?thesis
  proof (cases rule: alloc3_cases [of "vd v"])
    case (2 ds)
    then have v1: "v1 = v\<lparr>vd := (vd v)\<lparr>desc := ds\<rparr>\<rparr>" "\<not> ok" using r by (auto simp: rw_start_def)
    have q: "usd v1 = usd v" "avl v1 = avl v" "work v1 = work v" "calls v1 = calls v" "vc v1 = vc v" "bflag v1 = bflag v"
      by (simp_all add: v1 usd_def avl_def)
    have "calls_ok dv v1" by (rule calls_ok_same [OF C]) (use 2 in \<open>auto simp: v1 in_use_def\<close>)
    moreover have "queue_ok v1" using Q unfolding queue_ok_def q by (simp add: v1)
    moreover have "phase_of v1 c = phase_of v c" for c unfolding phase_of_def q ..
    ultimately show ?thesis using inv v1(2) by (simp add: vinv_def q)
  next
    case (1 i0 i1 i2)
    let ?d1 = "(vd v)\<lparr>vfree := (vfree (vd v))(i0 := False, i1 := False, i2 := False)\<rparr>" and ?n = "snd (key (bufs (vc v) b))"
    let ?c = "((i0, i1, i2), w)"
    have v1: "v1 = v\<lparr>vd := format_req ?d1 (i0, i1, i2) b ?n w, bflag := (bflag v)(b := True), calls := (calls v)(b \<mapsto> ?c)\<rparr>" and ok
      using r unfolding rw_start_def 1(1) ebind_Inr prod.case option.case by blast+
    note f = format_req_fields
    have use: "in_use (vd v1) = in_use (vd v) \<union> {i0, i1, i2}" using 1 by (auto simp: v1 f in_use_def)
    have out: "{i0, i1, i2} \<inter> in_use (vd v) = {}" using 1 by (auto simp: in_use_def)
    have new: "chain_ok (vd v1) b ?n ?c" using 1(2) use by (simp add: chain_ok_def) (simp add: v1 f)
    have old: "chain_ok (vd v1) b1 n1 c1" if "chain_ok (vd v) b1 n1 c1" for b1 n1 c1
    proof (rule chain_frame [OF that])
      show "ixs c1 \<subseteq> in_use (vd v1)" using chain_in_use [OF that] use by auto
      show "desc (vd v1) i = desc (vd v) i \<and> ops (vd v1) i = ops (vd v) i \<and> info_b (info (vd v1) i) = info_b (info (vd v) i)" if "i \<in> ixs c1" for i
        using that chain_in_use [OF \<open>chain_ok (vd v) b1 n1 c1\<close>] out by (auto simp: v1 f)
    qed
    have calls1: "calls v1 = (calls v)(b \<mapsto> ?c)" "vc v1 = vc v" "bflag v1 = (bflag v)(b := True)" by (simp_all add: v1)
    have "calls_ok dv v1"
    proof (rule calls_okI)
      have ixs: "ixs ?c = {i0, i1, i2}" by (simp add: ixs_def)
      have "in_use (vd v) = (\<Union>c\<in>ran (calls v). ixs c)" using C by (simp add: calls_ok_def)
      then show "in_use (vd v1) = (\<Union>c\<in>ran (calls v1). ixs c)" using b ixs unfolding use calls1 by (simp add: ran_map_upd Un_commute)
      show "chain_ok (vd v1) b1 (snd (key (bufs (vc v1) b1))) c \<and> fst (key (bufs (vc v1) b1)) = dv \<and> unat (snd (key (bufs (vc v1) b1))) < 2 ^ 31"
        if "calls v1 b1 = Some c" for b1 c
        using that new old calls_okD(1,3,6) [OF C, of b1 c] k unfolding calls1 by (auto split: if_splits)
      fix b1 b2 c c1 assume a: "calls v1 b1 = Some c" "calls v1 b2 = Some c1" "b1 \<noteq> b2"
      have off: "ixs c2 \<inter> ixs ?c = {}" if "calls v b3 = Some c2" for b3 c2
        using chain_in_use [OF calls_okD(1) [OF C that]] out ixs by auto
      consider "b1 = b" "c = ?c" "calls v b2 = Some c1" | "b2 = b" "c1 = ?c" "calls v b1 = Some c" | "calls v b1 = Some c" "calls v b2 = Some c1"
        using a unfolding calls1 by (fastforce split: if_splits)
      then show "ixs c \<inter> ixs c1 = {}"
      proof cases
        case 1
        then show ?thesis using off [OF 1(3)] by (simp add: Int_commute)
      next
        case 2
        then show ?thesis using off [OF 2(3)] by simp
      next
        case 3
        then show ?thesis using C a(3) unfolding calls_ok_def by blast
      qed
    qed
    moreover
    have i0: "i0 \<notin> set (queued v)" using queued_in_use [OF C Q] out by blast
    have "y < NUM \<and> y \<noteq> i0" if "y \<in> set (avl v)" for y
      using i0 in_use_less [OF queued_in_use [OF C Q, of y]] that by auto
    then have "set (avl v) \<subseteq> {..<NUM} - {i0}" by blast
    then have "length (avl v) < NUM" using Q 1(3) by (intro room) (auto simp: queue_ok_def)
    then have lt: "unat (avail_idx (vd v) - dpos v) < NUM" by (simp add: avl_def)
    have len: "length (avail_ring (vd v)) = NUM" using Q by (simp add: queue_ok_def)
    have q: "avl v1 = avl v @ [i0]" "usd v1 = usd v" "work v1 = work v"
      using unat_small16 [OF 1(3)] by (simp_all add: avl_def usd_def v1 f vq.push [OF lt len])
    have "queue_ok v1"
    proof -
      have "distinct (queued v1)" "set (queued v1) = insert i0 (set (queued v))" using Q i0 unfolding q by (auto simp: queue_ok_def)
      moreover have "length (avail_ring (vd v1)) = NUM" "length (used_ring (vd v1)) = NUM" using Q by (simp_all add: v1 f queue_ok_def)
      moreover have "\<forall>x\<in>set (usd v1). info_status (info (vd v1) x) = 0" using Q i0 unfolding q by (auto simp: v1 f queue_ok_def)
      moreover have "\<exists>b1 c. calls v1 b1 = Some c \<and> hd_of c = x" if x: "x \<in> insert i0 (set (queued v))" for x
      proof (cases "x = i0")
        case False
        then have "\<exists>b1 c. calls v b1 = Some c \<and> hd_of c = x" using x Q by (auto simp: queue_ok_def)
        then show ?thesis using b unfolding calls1 by (metis fun_upd_other option.distinct(1))
      qed (auto simp: calls1 intro: exI [of _ b])
      moreover have "bflag v1 b1 \<longleftrightarrow> hd_of c \<in> insert i0 (set (queued v))" if c: "calls v1 b1 = Some c" for b1 c
      proof (cases "b1 = b")
        case False
        then have c: "calls v b1 = Some c" using c by (simp add: calls1)
        have "hd_of c \<noteq> i0" using chain_in_use [OF calls_okD(1) [OF C c]] hd_in_ixs [of c] out by auto
        then show ?thesis using False Q c by (simp add: calls1 queue_ok_def)
      qed (use c in \<open>auto simp: calls1\<close>)
      ultimately show ?thesis unfolding queue_ok_def by simp
    qed
    moreover have "phase b1 (h @ [Call b w]) = Some (phase_of v1 b1)" for b1
    proof -
      have p: "phase b1 h = Some (phase_of v b1)" using inv by (simp add: vinv_def)
      have "hd_of c \<noteq> i0" if c: "calls v b1 = Some c" for c
        using chain_in_use [OF calls_okD(1) [OF C c]] hd_in_ixs [of c] out by auto
      then show ?thesis using p b unfolding phase_snoc phase_of_def calls1 q by (auto split: option.splits)
    qed
    ultimately show ?thesis using inv \<open>ok\<close> by (simp add: vinv_def calls1)
  qed
qed

lemma step_ret:
  assumes inv: "vinv dv v0 h v" and r: "rw_finish v b = ret v1"
  shows "vinv dv v0 (h @ [Ret b]) v1"
proof -
  have C: "calls_ok dv v" and Q: "queue_ok v" using inv by (auto simp: vinv_def)
  obtain c where c: "calls v b = Some c" using r by (cases "calls v b") (auto simp: rw_finish_def ret_def undef_def)
  obtain i0 i1 i2 w where c3: "c = ((i0, i1, i2), w)" by (cases c) auto
  let ?d = "(vd v)\<lparr>info := (info (vd v))(i0 := (info (vd v) i0)\<lparr>info_b := None\<rparr>)\<rparr>"
  let ?d1 = "?d\<lparr>desc := (desc ?d)(i0 := no_desc, i1 := no_desc, i2 := no_desc), vfree := (vfree ?d)(i0 := True, i1 := True, i2 := True)\<rparr>"
  note ch = calls_okD(1) [OF C c, unfolded c3]
  have fc: "free_chain ?d i0 = Inr ?d1" by (rule free_chain_ok [OF ch]) simp_all
  have nf: "\<not> bflag v b" using r c c3 by (auto simp: rw_finish_def ret_def)
  have v1: "v1 = v\<lparr>vd := ?d1, calls := (calls v)(b := None)\<rparr>"
    using r nf unfolding rw_finish_def c c3 option.case prod.case Let_def fc sum.case by simp
  have ixs: "ixs c = {i0, i1, i2}" by (simp add: ixs_def c3)
  have use: "in_use (vd v1) = in_use (vd v) - ixs c" unfolding ixs by (auto simp: v1 in_use_def)
  have apart: "ixs c1 \<inter> ixs c = {}" if "calls v b1 = Some c1" "b1 \<noteq> b" for b1 c1
    using C that c unfolding calls_ok_def by blast
  have calls1: "calls v1 = (calls v)(b := None)" "vc v1 = vc v" "bflag v1 = bflag v" by (simp_all add: v1)
  have q: "avl v1 = avl v" "usd v1 = usd v" "work v1 = work v" by (simp_all add: avl_def usd_def v1)
  have "i0 \<notin> set (queued v)" using Q nf c unfolding queue_ok_def c3 by auto
  have "calls_ok dv v1"
  proof (rule calls_okI)
    fix b1 c1 assume "calls v1 b1 = Some c1"
    then have o: "calls v b1 = Some c1" "b1 \<noteq> b" by (auto simp: calls1 split: if_splits)
    have "chain_ok (vd v1) b1 (snd (key (bufs (vc v) b1))) c1"
    proof (rule chain_frame [OF calls_okD(1) [OF C o(1)]])
      show "ixs c1 \<subseteq> in_use (vd v1)" using chain_in_use [OF calls_okD(1) [OF C o(1)]] apart [OF o] use by auto
      fix i assume "i \<in> ixs c1"
      then have "i \<notin> {i0, i1, i2}" using apart [OF o] ixs by auto
      then show "desc (vd v1) i = desc (vd v) i \<and> ops (vd v1) i = ops (vd v) i \<and> info_b (info (vd v1) i) = info_b (info (vd v) i)"
        by (simp add: v1)
    qed
    then show "chain_ok (vd v1) b1 (snd (key (bufs (vc v1) b1))) c1 \<and> fst (key (bufs (vc v1) b1)) = dv \<and> unat (snd (key (bufs (vc v1) b1))) < 2 ^ 31"
      using calls_okD(3,6) [OF C o(1)] by (simp add: calls1)
  next
    fix b1 b2 c1 c2 assume "calls v1 b1 = Some c1" "calls v1 b2 = Some c2" "b1 \<noteq> b2"
    then show "ixs c1 \<inter> ixs c2 = {}" using C unfolding calls_ok_def calls1 by (auto split: if_splits)
  next
    have "in_use (vd v) = (\<Union>c\<in>ran (calls v). ixs c)" using C by (simp add: calls_ok_def)
    moreover have "ran (calls v) = insert c (ran (calls v1))" 
    proof -
      have "calls v = (calls v1)(b \<mapsto> c)" using c by (auto simp: calls1)
      then show ?thesis using ran_map_upd [of "calls v1" b c] by (simp add: calls1)
    qed
    moreover have "(\<Union>c\<in>ran (calls v1). ixs c) \<inter> ixs c = {}" using apart unfolding calls1 by (fastforce simp: ran_def split: if_splits)
    ultimately show "in_use (vd v1) = (\<Union>c\<in>ran (calls v1). ixs c)" unfolding use by auto
  qed
  moreover have "queue_ok v1"
  proof -
    have "\<exists>b1 c1. calls v1 b1 = Some c1 \<and> hd_of c1 = x" if x: "x \<in> set (queued v)" for x
    proof -
      have "\<exists>b1 c1. calls v b1 = Some c1 \<and> hd_of c1 = x" using Q x by (simp add: queue_ok_def)
      then obtain b1 c1 where o: "calls v b1 = Some c1" "hd_of c1 = x" by blast
      then have "b1 \<noteq> b" using \<open>i0 \<notin> set (queued v)\<close> x c c3 by auto
      then show ?thesis using o by (auto simp: calls1)
    qed
    moreover have "bflag v b1 \<longleftrightarrow> hd_of c1 \<in> set (queued v)" if "calls v1 b1 = Some c1" for b1 c1
      using Q that unfolding calls1 queue_ok_def by (auto split: if_splits)
    moreover have "\<forall>x\<in>set (usd v). info_status (info (vd v1) x) = 0" using Q by (auto simp: v1 queue_ok_def)
    moreover have "length (avail_ring (vd v1)) = NUM" "length (used_ring (vd v1)) = NUM" using Q by (simp_all add: v1 queue_ok_def)
    ultimately show ?thesis using Q unfolding queue_ok_def q calls1(3) by blast
  qed
  moreover have "phase b1 (h @ [Ret b]) = Some (phase_of v1 b1)" for b1
  proof -
    have p: "phase b1 h = Some (phase_of v b1)" using inv by (simp add: vinv_def)
    show ?thesis using p c \<open>i0 \<notin> set (queued v)\<close> unfolding phase_snoc phase_of_def calls1 q by (auto simp: c3)
  qed
  ultimately show ?thesis using inv by (simp add: vinv_def calls1)
qed

lemma step_touch:
  assumes inv: "vinv dv v0 h v" and b: "calls v b = None"
  shows "vinv dv v0 (h @ [Touch b g]) (v\<lparr>vc := upd (vc v) b g\<rparr>)"
proof -
  have C: "calls_ok dv v" and Q: "queue_ok v" using inv by (auto simp: vinv_def)
  let ?v1 = "v\<lparr>vc := upd (vc v) b g\<rparr>"
  have q: "avl ?v1 = avl v" "usd ?v1 = usd v" "work ?v1 = work v" "calls ?v1 = calls v" by (simp_all add: avl_def usd_def)
  have "calls_ok dv ?v1" by (rule calls_ok_same [OF C]) (use b in \<open>auto simp: upd_def\<close>)
  moreover have "queue_ok ?v1" using Q unfolding queue_ok_def q by simp
  moreover have "phase b1 (h @ [Touch b g]) = Some (phase_of ?v1 b1)" for b1
  proof -
    have "phase_of ?v1 b1 = phase_of v b1" unfolding phase_of_def q ..
    moreover have "phase_of v b = Idle" using b by (simp add: phase_of_def)
    ultimately show ?thesis using inv by (auto simp: phase_snoc vinv_def)
  qed
  ultimately show ?thesis using inv by (simp add: vinv_def)
qed

section \<open>The contract of the driver\<close>

text \<open>The state after \<open>virtio_disk_init\<close>: no request, all descriptors free and both rings read to the end.\<close>

definition vio_idle :: "vio \<Rightarrow> bool" where
  "vio_idle v \<longleftrightarrow> calls v = Map.empty \<and> work v = [] \<and> dpos v = avail_idx (vd v) \<and> used_idx (vd v) = used_end (vd v) \<and>
     (\<forall>i<NUM. vfree (vd v) i) \<and> length (avail_ring (vd v)) = NUM \<and> length (used_ring (vd v)) = NUM"

lemma vinv_idle: "vio_idle v0 \<Longrightarrow> vinv dv v0 [] v0"
  by (auto simp: vio_idle_def vinv_def calls_ok_def queue_ok_def phase_def phase_of_def avl_def usd_def in_use_def)

lemma vrun_inv:
  assumes "virtio_device dv dev" and "vio_idle v0"
  shows "vrun dv dev v0 h v \<Longrightarrow> vinv dv v0 h v"
proof (induction rule: vrun.induct)
  case (vdev h v es v1)
  then consider "fetches v es v1" | x where "x \<in> set (work v)" "serves dv x v es v1"
    using assms(1) unfolding virtio_device_def by blast
  then show ?case using step_fetch step_serve vdev.IH by cases blast+
next
  case (vcall h v b w ok v1)
  then show ?case using step_call by blast
qed (use assms(2) in \<open>auto intro: vinv_idle step_call step_intr step_ret step_touch\<close>)

lemma rw_finish_ok: "calls_ok dv v \<Longrightarrow> calls v b = Some c \<Longrightarrow> \<not> bflag v b \<Longrightarrow> \<exists>v1. rw_finish v b = ret v1"
proof -
  assume a: "calls_ok dv v" "calls v b = Some c" "\<not> bflag v b"
  obtain i0 i1 i2 w where c: "c = ((i0, i1, i2), w)" by (cases c) auto
  let ?d = "(vd v)\<lparr>info := (info (vd v))(i0 := (info (vd v) i0)\<lparr>info_b := None\<rparr>)\<rparr>"
  have "\<exists>d1. free_chain ?d i0 = Inr d1" using free_chain_ok [OF calls_okD(1) [OF a(1,2), unfolded c], of ?d] by simp
  then show ?thesis using a(2,3) by (auto simp: rw_finish_def c)
qed

lemma rw_start_ok: "\<exists>r. rw_start v b w = Inr r"
  by (cases rule: alloc3_cases [of "vd v"]) (auto simp: rw_start_def)

text \<open>
  C4.  The disk driver is linearisable.  In every run of processes, device and interrupts, in which the device does what
  the virtio specification says, the buffers and the disk are what the atomic transfers of the history make of them, and
  for every buffer the history repeats call, one transfer of the requested direction, return, with the buffer used only
  in between.  No panic of the driver is reached, a process that is woken returns, and when no request is left all
  descriptors are free.
\<close>

theorem virtio_linearizable:
  assumes "virtio_device dv dev" and "vio_idle v0" and "vrun dv dev v0 h v"
  shows "vc v = foldl vapply (vc v0) h \<and> (\<forall>b. phase b h \<noteq> None) \<and> (\<exists>v1. virtio_disk_intr v = Inr v1) \<and>
    (\<forall>b w. \<exists>r. rw_start v b w = Inr r) \<and> (\<forall>b. calls v b \<noteq> None \<and> \<not> bflag v b \<longrightarrow> (\<exists>v1. rw_finish v b = ret v1)) \<and>
    (calls v = Map.empty \<longrightarrow> (\<forall>i<NUM. vfree (vd v) i))"
proof -
  have inv: "vinv dv v0 h v" using vrun_inv [OF assms(1,2)] assms(3) .
  then have C: "calls_ok dv v" and Q: "queue_ok v" by (auto simp: vinv_def)
  have "\<forall>i<NUM. vfree (vd v) i" if "calls v = Map.empty" using C that by (auto simp: calls_ok_def in_use_def)
  then show ?thesis using inv intr_ok [OF C Q] rw_finish_ok [OF C] rw_start_ok by (auto simp: vinv_def)
qed

definition vio0 :: vio where
  "vio0 = \<lparr>vd = \<lparr>desc_pa = 0, avail_pa = 0, used_pa = 0, desc = (\<lambda>_. no_desc), avail_idx = 0, avail_ring = replicate NUM 0, used_end = 0,
      used_ring = replicate NUM 0, vfree = (\<lambda>_. True), used_idx = 0, info = (\<lambda>_. \<lparr>info_b = None, info_status = 0\<rparr>),
      ops = (\<lambda>_. \<lparr>req_type = 0, req_reserved = 0, req_sector = 0\<rparr>)\<rparr>,
    vc = \<lparr>bufs = (\<lambda>_. \<lparr>valid = True, key = (1, 5), holder = Some 1, refcnt = 1, data = [7]\<rparr>), links = \<lparr>next = (\<lambda>_. 0), prev = (\<lambda>_. 0)\<rparr>,
      disk = (\<lambda>_. []), trace = []\<rparr>,
    bflag = (\<lambda>_. False), calls = Map.empty, dpos = 0, work = []\<rparr>"

definition dev0 :: "vio \<Rightarrow> vevent list \<Rightarrow> vio \<Rightarrow> bool" where
  "dev0 v es v1 \<longleftrightarrow> fetches v es v1 \<or> work v \<noteq> [] \<and> request (vd v) (hd (work v)) \<noteq> None \<and> serves 1 (hd (work v)) v es v1"

lemma write_run: "\<exists>v. vrun 1 dev0 vio0 [Call 0 True, Do 0 True, Ret 0] v \<and> calls v = Map.empty"
proof -
  have dv: "virtio_device 1 dev0" by (auto simp: virtio_device_def dev0_def)
  have idle: "vio_idle vio0" by (simp add: vio_idle_def vio0_def)
  have run0: "vrun 1 dev0 vio0 [] vio0" by (rule vrun.vinit)
  obtain ok v1 where s: "rw_start vio0 0 True = Inr (ok, v1)" using rw_start_ok [of vio0 0 True] by auto
  have k: "fst (key (bufs (vc vio0) 0)) = 1" "unat (snd (key (bufs (vc vio0) 0))) < 2 ^ 31" "calls vio0 0 = None" by (simp_all add: vio0_def)
  have al: "alloc3_desc (vd vio0) = Inr (Some (0, 1, 2), (vd vio0)\<lparr>vfree := (\<lambda>_. True)(0 := False, 1 := False, 2 := False)\<rparr>)"
    by (simp add: alloc3_desc_def alloc_desc_def vio0_def NUM_def upt_rec numeral_2_eq_2)
  then have ok: "ok" "calls v1 = [0 \<mapsto> ((0, 1, 2), True)]" "dpos v1 = 0" "work v1 = []" "avail_idx (vd v1) = 1" "avail_ring (vd v1) ! 0 = 0"
      "bflag v1 0"
    using s by (auto simp: rw_start_def format_req_fields) (simp_all add: vio0_def NUM_def)
  have run1: "vrun 1 dev0 vio0 [Call 0 True] v1" using vrun.vcall [OF run0 k(3) k(1,2) s] ok(1) by simp
  let ?v2 = "v1\<lparr>dpos := 1, work := [0]\<rparr>"
  have "fetches v1 [] ?v2" using ok by (simp add: fetches_def NUM_def)
  then have run2: "vrun 1 dev0 vio0 [Call 0 True] ?v2" using vrun.vdev [OF run1, of "[]" ?v2] by (simp add: dev0_def)
  have C2: "calls_ok 1 ?v2" using vrun_inv [OF dv idle run2] by (simp add: vinv_def)
  have "calls ?v2 0 = Some ((0, 1, 2), True)" using ok(2) by simp
  then have "request (vd ?v2) 0 = Some (0, True, ucast (snd (key (bufs (vc ?v2) 0)) * 2), 0)"
    by (rule request_ok [OF calls_okD(1) [OF C2]])
  then obtain v3 where v3: "serves 1 0 ?v2 [Do 0 True] v3" "calls v3 = calls v1" "work v3 = []" "dpos v3 = 1" "avail_idx (vd v3) = 1"
    unfolding serves_def using ok(5) by (auto simp del: vio.simps)
  have run3: "vrun 1 dev0 vio0 [Call 0 True, Do 0 True] v3"
    using vrun.vdev [OF run2, of "[Do 0 True]" v3] v3(1) \<open>request (vd ?v2) 0 = _\<close> by (simp add: dev0_def)
  have inv3: "calls_ok 1 v3" "queue_ok v3" using vrun_inv [OF dv idle run3] by (auto simp: vinv_def)
  obtain v4 where i: "virtio_disk_intr v3 = Inr v4" using intr_ok [OF inv3] by blast
  have run4: "vrun 1 dev0 vio0 [Call 0 True, Do 0 True] v4" by (rule vrun.vintr [OF run3 i])
  have v4: "calls v4 = calls v1" "work v4 = []" "avl v4 = []" "usd v4 = []"
    using i v3(2-5) unfolding intr_ok [OF inv3] by (auto simp: avl_def usd_def)
  have inv4: "calls_ok 1 v4" "queue_ok v4" using vrun_inv [OF dv idle run4] by (auto simp: vinv_def)
  have c4: "calls v4 0 = Some ((0, 1, 2), True)" by (simp add: v4(1) ok(2))
  have "\<not> bflag v4 0" using inv4(2) v4 c4 by (auto simp: queue_ok_def)
  then obtain v5 where f: "rw_finish v4 0 = ret v5" using rw_finish_ok [OF inv4(1) c4] by blast
  have "vrun 1 dev0 vio0 [Call 0 True, Do 0 True, Ret 0] v5" using vrun.vret [OF run4 f] by simp
  moreover have "calls v5 = Map.empty" using f v4(1) ok(2) \<open>\<not> bflag v4 0\<close> by (auto simp: rw_finish_def ret_def undef_def split: sum.splits)
  ultimately show ?thesis by blast
qed

theorem virtio_linearizable_witness:
  "\<exists>v. vrun 1 dev0 vio0 [Call 0 True, Do 0 True, Ret 0] v \<and> vc v = virtio_disk_rw (vc vio0) 0 True \<and> (\<forall>i<NUM. vfree (vd v) i)"
proof -
  obtain v where v: "vrun 1 dev0 vio0 [Call 0 True, Do 0 True, Ret 0] v" "calls v = Map.empty" using write_run by blast
  have "virtio_device 1 dev0" "vio_idle vio0" by (auto simp: virtio_device_def dev0_def vio_idle_def vio0_def)
  from virtio_linearizable [OF this v(1)] show ?thesis using v by auto
qed

end
