(* ===== verification/File.thy ===== *)
theory File
  imports FsDir Pipe Console
begin

text \<open>
  \<^verbatim>\<open>kernel/file.c\<close> and \<^verbatim>\<open>pipealloc\<close> of \<^verbatim>\<open>kernel/pipe.c\<close>: open files.  The state has the parts of the kernel that files refer to:
  the pipes by the address of their page, the file system, physical memory and the console.  A call is made by process
  \<open>pid\<close> with page table \<open>pt\<close>; \<open>kb\<close> is the address of the kernel memory through which it copies.
\<close>

section \<open>State\<close>

definition NFILE :: nat where
  "NFILE = 100"

definition NDEV :: int where
  "NDEV = 10"

datatype ftype = FD_NONE | FD_PIPE | FD_INODE | FD_DEVICE

record kfile =
  ftype :: ftype
  fref :: int
  readable :: bool
  writable :: bool
  fpipe :: addr
  fip :: nat
  foff :: uint32
  fmajor :: uint16

record kst =
  ftable :: "kfile list"
  pipes :: "addr \<Rightarrow> pipe"
  kfs :: fs
  kmem :: pmem
  kcons :: cons
  kuart :: uart

definition upd_file :: "'a kst_scheme \<Rightarrow> nat \<Rightarrow> (kfile \<Rightarrow> kfile) \<Rightarrow> 'a kst_scheme" where
  "upd_file k f g = k\<lparr>ftable := (ftable k)[f := g (ftable k ! f)]\<rparr>"

text \<open>The file system's operations on this state.\<close>

definition on_fs :: "'a kst_scheme \<Rightarrow> (fs \<Rightarrow> fs outcome) \<Rightarrow> 'a kst_scheme outcome" where
  "on_fs k g = rbind (g (kfs k)) (\<lambda>s. ret (k\<lparr>kfs := s\<rparr>))"

definition fs_begin :: "fs \<Rightarrow> fs outcome" where
  "fs_begin s = rbind (begin_op (flog s)) (\<lambda>l. ret (s\<lparr>flog := l\<rparr>))"

definition fs_end :: "nat \<Rightarrow> fs \<Rightarrow> fs outcome" where
  "fs_end pid s = rbind (end_op (flog s) pid (fbc s)) (\<lambda>(l, c). ret (s\<lparr>flog := l, fbc := c\<rparr>))"

section \<open>References\<close>

definition fileinit :: "'a kst_scheme \<Rightarrow> 'a kst_scheme" where
  "fileinit k = k"

definition filealloc :: "'a kst_scheme \<Rightarrow> nat option \<times> 'a kst_scheme" where
  "filealloc k =
     (case find (\<lambda>f. fref (ftable k ! f) = 0) [0..<length (ftable k)] of
        None \<Rightarrow> (None, k)
      | Some f \<Rightarrow> (Some f, upd_file k f (\<lambda>x. x\<lparr>fref := 1\<rparr>)))"

definition filedup :: "'a kst_scheme \<Rightarrow> nat \<Rightarrow> 'a kst_scheme outcome" where
  "filedup k f =
     (if fref (ftable k ! f) < 1 then halt ''filedup''
      else ret (upd_file k f (\<lambda>x. x\<lparr>fref := fref x + 1\<rparr>)))"

definition close_pipe :: "'a kst_scheme \<Rightarrow> addr \<Rightarrow> bool \<Rightarrow> 'a kst_scheme outcome" where
  "close_pipe k pi w =
     (case pipeclose (pipes k pi) w of (p1, unused) \<Rightarrow>
        let k1 = k\<lparr>pipes := (pipes k)(pi := p1)\<rparr>
        in if unused then rbind (Some (kfree (kmem k1) pi)) (\<lambda>m. ret (k1\<lparr>kmem := m\<rparr>)) else ret k1)"

definition fileclose :: "'a kst_scheme \<Rightarrow> nat \<Rightarrow> nat \<Rightarrow> 'a kst_scheme outcome" where
  "fileclose k pid f =
     (let x = ftable k ! f in
      if fref x < 1 then halt ''fileclose''
      else if fref x - 1 > 0 then ret (upd_file k f (\<lambda>x. x\<lparr>fref := fref x - 1\<rparr>))
      else
        let k1 = upd_file k f (\<lambda>x. x\<lparr>fref := 0, ftype := FD_NONE\<rparr>) in
        if ftype x = FD_PIPE then close_pipe k1 (fpipe x) (writable x)
        else if ftype x = FD_INODE \<or> ftype x = FD_DEVICE then
          rbind (on_fs k1 fs_begin) (\<lambda>k2.
          rbind (on_fs k2 (\<lambda>s. iput s pid (fip x))) (\<lambda>k3.
          on_fs k3 (fs_end pid)))
        else ret k1)"

section \<open>Reading and writing\<close>

text \<open>
  The buffer's bytes lie at \<open>kb\<close> in memory while they are copied: \<open>uput\<close> and \<open>uget\<close> are \<^verbatim>\<open>either_copyout\<close> and \<^verbatim>\<open>either_copyin\<close>
  with a user address, of a block's bytes.
\<close>

definition store :: "mem \<Rightarrow> addr \<Rightarrow> byte list \<Rightarrow> mem" where
  "store m a bs = (\<lambda>x. if a \<le> x \<and> x < a + length bs then bs ! (x - a) else m x)"

definition uput :: "addr \<Rightarrow> uint64 \<Rightarrow> addr \<Rightarrow> pmem cpout" where
  "uput pt dst kb m i bs =
     either_copyout (m\<lparr>ram := store (ram m) kb bs\<rparr>) True pt (dst + of_nat i) kb (of_nat (length bs))"

definition uget :: "addr \<Rightarrow> uint64 \<Rightarrow> addr \<Rightarrow> pmem cpin" where
  "uget pt src kb m i n =
     (case either_copyin m kb True pt (src + of_nat i) (of_nat n) of (ok, m1) \<Rightarrow> (ok, map (ram m1) [kb..<kb + n]))"

text \<open>A call returns, or is asleep in the pipe's or the console's function with what that function needs to go on.\<close>

datatype frun = FRet int | FPipe int | FRead uint64 int | FWrite int byte | FHang

text \<open>\<^verbatim>\<open>struct stat\<close> in memory: the four bytes of padding before the size are those that were there.\<close>

definition put_stat :: "mem \<Rightarrow> addr \<Rightarrow> stat \<Rightarrow> mem" where
  "put_stat m a st =
     sd64 (store m a (le32 (st_dev st) @ le32 (st_ino st) @ le16 (st_type st) @ le16 (st_nlink st))) (a + 16) (st_size st)"

definition filestat :: "'a kst_scheme \<Rightarrow> nat \<Rightarrow> addr \<Rightarrow> addr \<Rightarrow> nat \<Rightarrow> uint64 \<Rightarrow> (int \<times> 'a kst_scheme) outcome" where
  "filestat k pid pt kb f addr =
     (let x = ftable k ! f in
      if ftype x = FD_INODE \<or> ftype x = FD_DEVICE then
        rbind (on_fs k (\<lambda>s. ilock s pid (fip x))) (\<lambda>k1.
        let st = stati (kfs k1) (fip x) in
        rbind (on_fs k1 (\<lambda>s. iunlock s pid (fip x))) (\<lambda>k2.
        case copyout ((kmem k2)\<lparr>ram := put_stat (ram (kmem k2)) kb st\<rparr>) pt addr kb 24 of (ok, m) \<Rightarrow>
          ret (if ok then 0 else -1, k2\<lparr>kmem := m\<rparr>)))
      else ret (-1, k))"

text \<open>\<^verbatim>\<open>devsw\<close> has the console's functions at number 1 and no others.\<close>

definition CONSOLE :: int where
  "CONSOLE = 1"

definition no_device :: "kfile \<Rightarrow> bool" where
  "no_device x \<longleftrightarrow> sint (fmajor x) < 0 \<or> sint (fmajor x) \<ge> NDEV \<or> sint (fmajor x) \<noteq> CONSOLE"

definition fileread :: "'a kst_scheme \<Rightarrow> nat \<Rightarrow> addr \<Rightarrow> bool \<Rightarrow> addr \<Rightarrow> nat \<Rightarrow> uint64 \<Rightarrow> int \<Rightarrow> (frun \<times> 'a kst_scheme) outcome" where
  "fileread k pid pt killed kb f addr n =
     (let x = ftable k ! f in
      if \<not> readable x then ret (FRet (-1), k)
      else case ftype x of
        FD_PIPE \<Rightarrow>
          (case piperead (pipes k (fpipe x)) (kmem k) pt kb killed addr n of (r, pi, m) \<Rightarrow>
             ret (case r of Ret i \<Rightarrow> FRet i | Sleep i \<Rightarrow> FPipe i, k\<lparr>pipes := (pipes k)(fpipe x := pi), kmem := m\<rparr>))
      | FD_DEVICE \<Rightarrow>
          if no_device x then ret (FRet (-1), k)
          else (case consoleread (kcons k) (kmem k) pt kb killed True n addr n of (r, co, m) \<Rightarrow>
             ret (case r of CRRet i \<Rightarrow> FRet i | CRSleep dst j \<Rightarrow> FRead dst j, k\<lparr>kcons := co, kmem := m\<rparr>))
      | FD_INODE \<Rightarrow>
          rbind (on_fs k (\<lambda>s. ilock s pid (fip x))) (\<lambda>k1.
          rbind (readi (uput pt addr kb) (kfs k1) pid (fip x) (kmem k1) (foff x) (of_int n)) (\<lambda>(r, m, s).
          let k2 = k1\<lparr>kfs := s, kmem := m\<rparr>;
              k3 = (if r > 0 then upd_file k2 f (\<lambda>y. y\<lparr>foff := foff y + of_int r\<rparr>) else k2) in
          rbind (on_fs k3 (\<lambda>s. iunlock s pid (fip x))) (\<lambda>k4. ret (FRet r, k4))))
      | FD_NONE \<Rightarrow> halt ''fileread'')"

text \<open>The pieces in which \<^verbatim>\<open>filewrite\<close> writes to an inode, one transaction each.\<close>

definition FWMAX :: int where
  "FWMAX = ((MAXOPBLOCKS - 1 - 1 - 2) div 2) * int BSIZE"

function filewrite_loop :: "'a kst_scheme \<Rightarrow> nat \<Rightarrow> addr \<Rightarrow> addr \<Rightarrow> nat \<Rightarrow> uint64 \<Rightarrow> int \<Rightarrow> int \<Rightarrow> (int \<times> 'a kst_scheme) outcome" where
  "filewrite_loop k pid pt kb f addr n i =
     (if i < n then
        let n1 = min (n - i) FWMAX; ip = fip (ftable k ! f) in
        rbind (on_fs k fs_begin) (\<lambda>k1.
        rbind (on_fs k1 (\<lambda>s. ilock s pid ip)) (\<lambda>k2.
        rbind (writei (uget pt (addr + of_int i) kb) (kfs k2) pid ip (kmem k2) (foff (ftable k2 ! f)) (of_int n1)) (\<lambda>(r, s).
        let k3 = k2\<lparr>kfs := s\<rparr>;
            k4 = (if r > 0 then upd_file k3 f (\<lambda>y. y\<lparr>foff := foff y + of_int r\<rparr>) else k3) in
        rbind (on_fs k4 (\<lambda>s. iunlock s pid ip)) (\<lambda>k5.
        rbind (on_fs k5 (fs_end pid)) (\<lambda>k6.
        if r \<noteq> n1 then ret (i, k6) else filewrite_loop k6 pid pt kb f addr n (i + r))))))
      else ret (i, k))"
  by pat_completeness auto
termination
  by (relation "measure (\<lambda>(k, pid, pt, kb, f, addr, n, i). nat (n - i))") (auto simp: FWMAX_def MAXOPBLOCKS_def BSIZE_def)

declare filewrite_loop.simps [simp del]

definition filewrite :: "'a kst_scheme \<Rightarrow> nat \<Rightarrow> addr \<Rightarrow> bool \<Rightarrow> addr \<Rightarrow> nat \<Rightarrow> uint64 \<Rightarrow> int \<Rightarrow> (frun \<times> 'a kst_scheme) outcome" where
  "filewrite k pid pt killed kb f addr n =
     (let x = ftable k ! f in
      if \<not> writable x then ret (FRet (-1), k)
      else case ftype x of
        FD_PIPE \<Rightarrow>
          (case pipewrite (pipes k (fpipe x)) (kmem k) pt kb killed addr n 0 of (r, pi, m) \<Rightarrow>
             ret (case r of Ret i \<Rightarrow> FRet i | Sleep i \<Rightarrow> FPipe i, k\<lparr>pipes := (pipes k)(fpipe x := pi), kmem := m\<rparr>))
      | FD_DEVICE \<Rightarrow>
          if no_device x then ret (FRet (-1), k)
          else (case consolewrite (kuart k) (kmem k) pt kb True addr n 0 of (r, u, m) \<Rightarrow>
             ret (case r of CWRet i \<Rightarrow> FRet i | CWSleep i c \<Rightarrow> FWrite i c | CWHang \<Rightarrow> FHang, k\<lparr>kuart := u, kmem := m\<rparr>))
      | FD_INODE \<Rightarrow>
          rbind (filewrite_loop k pid pt kb f addr n 0) (\<lambda>(i, k1). ret (FRet (if i = n then n else -1), k1))
      | FD_NONE \<Rightarrow> halt ''filewrite'')"

section \<open>Pipes\<close>

text \<open>When \<^verbatim>\<open>pipealloc\<close> fails it has no page, only files to close.\<close>

definition PIPE_DATA :: nat where
  "PIPE_DATA = 24"

definition close_opt :: "'a kst_scheme \<Rightarrow> nat \<Rightarrow> nat option \<Rightarrow> 'a kst_scheme outcome" where
  "close_opt k pid fo = (case fo of None \<Rightarrow> ret k | Some f \<Rightarrow> fileclose k pid f)"

definition pipealloc :: "'a kst_scheme \<Rightarrow> nat \<Rightarrow> ((nat \<times> nat) option \<times> 'a kst_scheme) outcome" where
  "pipealloc k pid =
     (case filealloc k of
        (None, k1) \<Rightarrow> ret (None, k1)
      | (Some f0, k1) \<Rightarrow>
          (case filealloc k1 of
             (None, k2) \<Rightarrow> rbind (close_opt k2 pid (Some f0)) (\<lambda>k3. ret (None, k3))
           | (Some f1, k2) \<Rightarrow>
               (case kalloc (kmem k2) of (pi, m) \<Rightarrow>
                  let k3 = k2\<lparr>kmem := m\<rparr> in
                  if pi = 0 then
                    rbind (close_opt k3 pid (Some f0)) (\<lambda>k4.
                    rbind (close_opt k4 pid (Some f1)) (\<lambda>k5. ret (None, k5)))
                  else
                    let k4 = k3\<lparr>pipes := (pipes k3)(pi := pipe_init (map (ram m) [pi + PIPE_DATA..<pi + PIPE_DATA + PIPESIZE]))\<rparr>;
                        k5 = upd_file k4 f0 (\<lambda>x. x\<lparr>ftype := FD_PIPE, readable := True, writable := False, fpipe := pi\<rparr>);
                        k6 = upd_file k5 f1 (\<lambda>x. x\<lparr>ftype := FD_PIPE, readable := False, writable := True, fpipe := pi\<rparr>)
                    in ret (Some (f0, f1), k6))))"

end
