(* ===== verification/Proc.thy ===== *)
theory Proc
  imports File Spinlock Printf
begin

text \<open>
  \<^verbatim>\<open>kernel/proc.c\<close>: processes.  Processes and processors are numbered; \<open>cpu_proc c\<close> is \<^verbatim>\<open>cpus[c].proc\<close>.  The functions are given
  from the point where they hold the locks they need to the point where they release them or call \<^verbatim>\<open>swtch\<close>; a function
  that sleeps is given in the part before and the part after.  \<open>trampoline\<close> and \<open>forkret\<close> are the addresses of that
  code.  The trap frame is in the memory of its page.
\<close>

section \<open>State\<close>

definition NOFILE :: nat where
  "NOFILE = 16"

datatype procstate = UNUSED | USED | SLEEPING | RUNNABLE | RUNNING | ZOMBIE

text \<open>Channels are addresses; that of \<^verbatim>\<open>struct proc\<close> number \<open>p\<close> is written \<open>ProcAt p\<close>.\<close>

datatype chan = ProcAt nat | Addr addr

record proc =
  pstate :: procstate
  pchan :: "chan option"
  pkilled :: bool
  xstate :: int
  ppid :: int
  parent :: "nat option"
  kstack :: uint64
  psz :: uint64
  pagetable :: addr
  trapframe :: addr
  ctx_ra :: uint64
  ctx_sp :: uint64
  ofile :: "nat option list"
  cwd :: "nat option"
  pname :: "byte list"

record kern = kst +
  procs :: "proc list"
  initproc :: "nat option"
  nextpid :: int
  cpu_proc :: "nat \<rightharpoonup> nat"

abbreviation proc_at :: "kern \<Rightarrow> nat \<Rightarrow> proc" where
  "proc_at k p \<equiv> procs k ! p"

definition upd_proc :: "kern \<Rightarrow> nat \<Rightarrow> (proc \<Rightarrow> proc) \<Rightarrow> kern" where
  "upd_proc k p g = k\<lparr>procs := (procs k)[p := g (procs k ! p)]\<rparr>"

text \<open>Offsets of fields in \<^verbatim>\<open>struct trapframe\<close>, and its size.\<close>

definition TF_EPC :: nat where "TF_EPC = 24"
definition TF_SP :: nat where "TF_SP = 48"
definition TF_A0 :: nat where "TF_A0 = 112"
definition TF_SIZE :: nat where "TF_SIZE = 288"

definition set_tf :: "kern \<Rightarrow> nat \<Rightarrow> nat \<Rightarrow> uint64 \<Rightarrow> kern" where
  "set_tf k p off v = k\<lparr>kmem := (kmem k)\<lparr>ram := sd64 (ram (kmem k)) (trapframe (proc_at k p) + off) v\<rparr>\<rparr>"

text \<open>\<^verbatim>\<open>safestrcpy\<close> of the string at \<open>src\<close> to the 16 bytes of a process name.\<close>

definition name_copy :: "byte list \<Rightarrow> byte list \<Rightarrow> byte list" where
  "name_copy dst src =
     (let m = safestrcpy (\<lambda>a. if a < 16 then dst ! a else if a - 16 < length src then src ! (a - 16) else 0) 0 16 16
      in map m [0..<16])"

section \<open>The process table\<close>

fun procinit_loop :: "proc list \<Rightarrow> nat \<Rightarrow> proc list" where
  "procinit_loop [] i = []"
| "procinit_loop (p # ps) i = p\<lparr>pstate := UNUSED, kstack := KSTACK i\<rparr> # procinit_loop ps (i + 1)"

definition procinit :: "kern \<Rightarrow> kern" where
  "procinit k = k\<lparr>procs := procinit_loop (procs k) 0\<rparr>"

definition myproc :: "kern \<Rightarrow> nat \<Rightarrow> nat option" where
  "myproc k c = cpu_proc k c"

text \<open>The counter is a C \<^verbatim>\<open>int\<close>, which must not overflow.\<close>

definition allocpid :: "kern \<Rightarrow> (int \<times> kern) outcome" where
  "allocpid k =
     (if nextpid k + 1 \<ge> 2 ^ 31 then Some (undef ''nextpid overflows'')
      else ret (nextpid k, k\<lparr>nextpid := nextpid k + 1\<rparr>))"

definition proc_pagetable :: "uint64 \<Rightarrow> pmem \<Rightarrow> addr \<Rightarrow> (addr \<times> pmem) outcome" where
  "proc_pagetable trampoline m tf =
     (case uvmcreate m of (pt, m1) \<Rightarrow>
        if pt = 0 then ret (0, m1)
        else
          rbind (Some (mappages m1 pt TRAMPOLINE 4096 trampoline (PTE_R OR PTE_X))) (\<lambda>(ok, m2).
          if \<not> ok then rbind (uvmfree m2 pt 0) (\<lambda>m3. ret (0, m3))
          else
            rbind (Some (mappages m2 pt TRAPFRAME 4096 (of_nat tf) (PTE_R OR PTE_W))) (\<lambda>(ok, m3).
            if \<not> ok then
              rbind (Some (uvmunmap m3 pt TRAMPOLINE 1 False)) (\<lambda>m4.
              rbind (uvmfree m4 pt 0) (\<lambda>m5. ret (0, m5)))
            else ret (pt, m3))))"

definition proc_freepagetable :: "pmem \<Rightarrow> addr \<Rightarrow> uint64 \<Rightarrow> pmem outcome" where
  "proc_freepagetable m pt sz =
     rbind (Some (uvmunmap m pt TRAMPOLINE 1 False)) (\<lambda>m1.
     rbind (Some (uvmunmap m1 pt TRAPFRAME 1 False)) (\<lambda>m2. uvmfree m2 pt sz))"

definition freeproc :: "kern \<Rightarrow> nat \<Rightarrow> kern outcome" where
  "freeproc k p =
     (let x = proc_at k p in
      rbind (if trapframe x \<noteq> 0 then Some (kfree (kmem k) (trapframe x)) else ret (kmem k)) (\<lambda>m1.
      rbind (if pagetable x \<noteq> 0 then proc_freepagetable m1 (pagetable x) (psz x) else ret m1) (\<lambda>m2.
      ret (upd_proc (k\<lparr>kmem := m2\<rparr>) p (\<lambda>x. x\<lparr>trapframe := 0, pagetable := 0, psz := 0, ppid := 0, parent := None,
        pname := (pname x)[0 := 0], pchan := None, pkilled := False, xstate := 0, pstate := UNUSED\<rparr>)))))"

definition allocproc :: "uint64 \<Rightarrow> uint64 \<Rightarrow> kern \<Rightarrow> (nat option \<times> kern) outcome" where
  "allocproc trampoline forkret k =
     (case find (\<lambda>p. pstate (proc_at k p) = UNUSED) [0..<length (procs k)] of
        None \<Rightarrow> ret (None, k)
      | Some p \<Rightarrow>
          rbind (allocpid k) (\<lambda>(pid, k1).
          let k2 = upd_proc k1 p (\<lambda>x. x\<lparr>ppid := pid, pstate := USED\<rparr>) in
          case kalloc (kmem k2) of (tf, m) \<Rightarrow>
            let k3 = upd_proc (k2\<lparr>kmem := m\<rparr>) p (\<lambda>x. x\<lparr>trapframe := tf\<rparr>) in
            if tf = 0 then rbind (freeproc k3 p) (\<lambda>k4. ret (None, k4))
            else
              rbind (proc_pagetable trampoline (kmem k3) tf) (\<lambda>(pt, m1).
              let k4 = upd_proc (k3\<lparr>kmem := m1\<rparr>) p (\<lambda>x. x\<lparr>pagetable := pt\<rparr>) in
              if pt = 0 then rbind (freeproc k4 p) (\<lambda>k5. ret (None, k5))
              else ret (Some p, upd_proc k4 p (\<lambda>x. x\<lparr>ctx_ra := forkret, ctx_sp := kstack x + 4096\<rparr>)))))"

text \<open>\<open>initcode\<close> is the address of the array of that name, which has 52 bytes.\<close>

definition userinit :: "uint64 \<Rightarrow> uint64 \<Rightarrow> addr \<Rightarrow> kern \<Rightarrow> nat \<Rightarrow> kern outcome" where
  "userinit trampoline forkret initcode k pid0 =
     rbind (allocproc trampoline forkret k) (\<lambda>(po, k1).
     case po of
       None \<Rightarrow> Some (undef ''userinit: null process'')
     | Some p \<Rightarrow>
         let k2 = k1\<lparr>initproc := Some p\<rparr> in
         rbind (Some (uvmfirst (kmem k2) (pagetable (proc_at k2 p)) initcode 52)) (\<lambda>m.
         let k3 = upd_proc (k2\<lparr>kmem := m\<rparr>) p (\<lambda>x. x\<lparr>psz := 4096\<rparr>);
             k4 = set_tf (set_tf k3 p TF_EPC 0) p TF_SP 4096;
             k5 = upd_proc k4 p (\<lambda>x. x\<lparr>pname := name_copy (pname x) (bytes ''initcode'')\<rparr>) in
         rbind (namei (kfs k5) pid0 0 [SLASH]) (\<lambda>(ip, s).
           ret (upd_proc (k5\<lparr>kfs := s\<rparr>) p (\<lambda>x. x\<lparr>cwd := ip, pstate := RUNNABLE\<rparr>)))))"

definition growproc :: "kern \<Rightarrow> nat \<Rightarrow> int \<Rightarrow> (int \<times> kern) outcome" where
  "growproc k p n =
     (let sz = psz (proc_at k p); pt = pagetable (proc_at k p) in
      if n > 0 then
        rbind (Some (uvmalloc (kmem k) pt sz (sz + of_int n) PTE_W)) (\<lambda>(sz1, m).
          if sz1 = 0 then ret (-1, k\<lparr>kmem := m\<rparr>)
          else ret (0, upd_proc (k\<lparr>kmem := m\<rparr>) p (\<lambda>x. x\<lparr>psz := sz1\<rparr>)))
      else if n < 0 then
        rbind (Some (uvmdealloc (kmem k) pt sz (sz + of_int n))) (\<lambda>(sz1, m).
          ret (0, upd_proc (k\<lparr>kmem := m\<rparr>) p (\<lambda>x. x\<lparr>psz := sz1\<rparr>)))
      else ret (0, upd_proc k p (\<lambda>x. x\<lparr>psz := sz\<rparr>)))"

section \<open>Fork, exit and wait\<close>

fun dup_files :: "kern \<Rightarrow> nat \<Rightarrow> nat option list \<Rightarrow> nat \<Rightarrow> kern outcome" where
  "dup_files k np [] i = ret k"
| "dup_files k np (None # fs) i = dup_files k np fs (i + 1)"
| "dup_files k np (Some f # fs) i =
     rbind (filedup k f) (\<lambda>k1. dup_files (upd_proc k1 np (\<lambda>x. x\<lparr>ofile := (ofile x)[i := Some f]\<rparr>)) np fs (i + 1))"

text \<open>\<^verbatim>\<open>fork\<close> from the line after the call of \<^verbatim>\<open>uvmcopy\<close>.\<close>

definition fork_fill :: "kern \<Rightarrow> nat \<Rightarrow> nat \<Rightarrow> (int \<times> kern) outcome" where
  "fork_fill k1 p np =
     (let k2 = upd_proc k1 np (\<lambda>x. x\<lparr>psz := psz (proc_at k1 p)\<rparr>);
          k3 = k2\<lparr>kmem := (kmem k2)\<lparr>ram := memmove (ram (kmem k2)) (trapframe (proc_at k2 np)) (trapframe (proc_at k2 p)) TF_SIZE\<rparr>\<rparr>;
          k4 = set_tf k3 np TF_A0 0 in
      rbind (dup_files k4 np (ofile (proc_at k4 p)) 0) (\<lambda>k5.
      case cwd (proc_at k5 p) of
        None \<Rightarrow> Some (undef ''fork: null cwd'')
      | Some ip \<Rightarrow>
          let k6 = upd_proc (k5\<lparr>kfs := idup (kfs k5) ip\<rparr>) np (\<lambda>x. x\<lparr>cwd := Some ip, pname := name_copy (pname x) (pname (proc_at k5 p))\<rparr>);
              pid = ppid (proc_at k6 np);
              k7 = upd_proc k6 np (\<lambda>x. x\<lparr>parent := Some p\<rparr>)
          in ret (pid, upd_proc k7 np (\<lambda>x. x\<lparr>pstate := RUNNABLE\<rparr>))))"

definition fork :: "uint64 \<Rightarrow> uint64 \<Rightarrow> kern \<Rightarrow> nat \<Rightarrow> (int \<times> kern) outcome" where
  "fork trampoline forkret k p =
     rbind (allocproc trampoline forkret k) (\<lambda>(npo, k1).
     case npo of
       None \<Rightarrow> ret (-1, k1)
     | Some np \<Rightarrow>
         rbind (Some (uvmcopy (kmem k1) (pagetable (proc_at k1 p)) (pagetable (proc_at k1 np)) (psz (proc_at k1 p)))) (\<lambda>(ok, m).
         if \<not> ok then rbind (freeproc (k1\<lparr>kmem := m\<rparr>) np) (\<lambda>k2. ret (-1, k2))
         else fork_fill (k1\<lparr>kmem := m\<rparr>) p np))"

definition wakeup :: "kern \<Rightarrow> nat option \<Rightarrow> chan \<Rightarrow> kern" where
  "wakeup k me ch =
     k\<lparr>procs := map (\<lambda>p. let x = proc_at k p
         in if me \<noteq> Some p \<and> pstate x = SLEEPING \<and> pchan x = Some ch then x\<lparr>pstate := RUNNABLE\<rparr> else x) [0..<length (procs k)]\<rparr>"

fun reparent_loop :: "kern \<Rightarrow> nat \<Rightarrow> nat list \<Rightarrow> kern outcome" where
  "reparent_loop k p [] = ret k"
| "reparent_loop k p (pp # pps) =
     (if parent (proc_at k pp) = Some p then
        case initproc k of
          None \<Rightarrow> Some (undef ''initproc'')
        | Some i \<Rightarrow> reparent_loop (wakeup (upd_proc k pp (\<lambda>x. x\<lparr>parent := Some i\<rparr>)) (Some p) (ProcAt i)) p pps
      else reparent_loop k p pps)"

definition reparent :: "kern \<Rightarrow> nat \<Rightarrow> kern outcome" where
  "reparent k p = reparent_loop k p [0..<length (procs k)]"

fun close_files :: "kern \<Rightarrow> nat \<Rightarrow> nat list \<Rightarrow> kern outcome" where
  "close_files k p [] = ret k"
| "close_files k p (fd # fds) =
     (case ofile (proc_at k p) ! fd of
        None \<Rightarrow> close_files k p fds
      | Some f \<Rightarrow> rbind (fileclose k p f) (\<lambda>k1. close_files (upd_proc k1 p (\<lambda>x. x\<lparr>ofile := (ofile x)[fd := None]\<rparr>)) p fds))"

text \<open>
  \<^verbatim>\<open>sched\<close> before \<^verbatim>\<open>swtch\<close>, with the lock of the process and the state of processor \<open>me\<close>; the value is saved and restored.
  After \<^verbatim>\<open>swtch\<close> the scheduler clears \<^verbatim>\<open>c->proc\<close>.
\<close>

definition sched :: "spinlock \<Rightarrow> nat \<Rightarrow> cpu \<Rightarrow> procstate \<Rightarrow> bool result" where
  "sched l me c st =
     (if \<not> holding l me then panic ''sched p->lock''
      else if noff c \<noteq> 1 then panic ''sched locks''
      else if st = RUNNING then panic ''sched running''
      else if intr c then panic ''sched interruptible''
      else Inr (intena c))"

definition switch_out :: "kern \<Rightarrow> nat \<Rightarrow> kern" where
  "switch_out k c = k\<lparr>cpu_proc := (cpu_proc k)(c := None)\<rparr>"

definition exit :: "kern \<Rightarrow> nat \<Rightarrow> int \<Rightarrow> kern outcome" where
  "exit k c status =
     (case myproc k c of
        None \<Rightarrow> Some (undef ''exit: no process'')
      | Some p \<Rightarrow>
          if initproc k = Some p then halt ''init exiting''
          else
            rbind (close_files k p [0..<NOFILE]) (\<lambda>k1.
            rbind (on_fs k1 fs_begin) (\<lambda>k2.
            case cwd (proc_at k2 p) of
              None \<Rightarrow> Some (undef ''exit: null cwd'')
            | Some ip \<Rightarrow>
                rbind (on_fs k2 (\<lambda>s. iput s p ip)) (\<lambda>k3.
                rbind (on_fs k3 (fs_end p)) (\<lambda>k4.
                rbind (reparent (upd_proc k4 p (\<lambda>x. x\<lparr>cwd := None\<rparr>)) p) (\<lambda>k5.
                case parent (proc_at k5 p) of
                  None \<Rightarrow> Some (undef ''exit: null parent'')
                | Some q \<Rightarrow>
                    let k6 = wakeup k5 (Some p) (ProcAt q)
                    in ret (switch_out (upd_proc k6 p (\<lambda>x. x\<lparr>xstate := status, pstate := ZOMBIE\<rparr>)) c))))))) "

text \<open>One round of the loop of \<^verbatim>\<open>wait\<close>: it returns, or goes to sleep on the process's own address.\<close>

datatype wrun = WRet int | WSleep

definition sleep_on :: "kern \<Rightarrow> nat \<Rightarrow> nat \<Rightarrow> chan \<Rightarrow> kern" where
  "sleep_on k c p ch = switch_out (upd_proc k p (\<lambda>x. x\<lparr>pchan := Some ch, pstate := SLEEPING\<rparr>)) c"

definition wait :: "kern \<Rightarrow> nat \<Rightarrow> addr \<Rightarrow> uint64 \<Rightarrow> (wrun \<times> kern) outcome" where
  "wait k c kb addr =
     (case myproc k c of
        None \<Rightarrow> Some (undef ''wait: no process'')
      | Some p \<Rightarrow>
          let kids = filter (\<lambda>pp. parent (proc_at k pp) = Some p) [0..<length (procs k)] in
          (case find (\<lambda>pp. pstate (proc_at k pp) = ZOMBIE) kids of
             Some pp \<Rightarrow>
               let pid = ppid (proc_at k pp) in
               (case (if addr \<noteq> 0
                      then copyout ((kmem k)\<lparr>ram := store (ram (kmem k)) kb (le32 (of_int (xstate (proc_at k pp))))\<rparr>)
                             (pagetable (proc_at k p)) addr kb 4
                      else (True, kmem k)) of (ok, m) \<Rightarrow>
                  if \<not> ok then ret (WRet (-1), k\<lparr>kmem := m\<rparr>)
                  else rbind (freeproc (k\<lparr>kmem := m\<rparr>) pp) (\<lambda>k1. ret (WRet pid, k1)))
           | None \<Rightarrow>
               if kids = [] \<or> pkilled (proc_at k p) then ret (WRet (-1), k)
               else ret (WSleep, sleep_on k c p (ProcAt p))))"

section \<open>Scheduling\<close>

text \<open>The scheduler of processor \<open>c\<close> at table position \<open>i\<close>: the next runnable process runs.\<close>

definition scheduler :: "kern \<Rightarrow> nat \<Rightarrow> nat \<Rightarrow> nat option \<times> kern" where
  "scheduler k c i =
     (case find (\<lambda>p. pstate (proc_at k p) = RUNNABLE) [i..<length (procs k)] of
        None \<Rightarrow> (None, k)
      | Some p \<Rightarrow> (Some p, (upd_proc k p (\<lambda>x. x\<lparr>pstate := RUNNING\<rparr>))\<lparr>cpu_proc := (cpu_proc k)(c \<mapsto> p)\<rparr>))"

definition yield :: "kern \<Rightarrow> nat \<Rightarrow> kern outcome" where
  "yield k c =
     (case myproc k c of
        None \<Rightarrow> Some (undef ''yield: no process'')
      | Some p \<Rightarrow> ret (switch_out (upd_proc k p (\<lambda>x. x\<lparr>pstate := RUNNABLE\<rparr>)) c))"

text \<open>\<^verbatim>\<open>forkret\<close> initialises the file system on its first call.\<close>

definition forkret_run :: "kern \<Rightarrow> nat \<Rightarrow> bool \<Rightarrow> (bool \<times> kern) outcome" where
  "forkret_run k p first =
     (if first then rbind (on_fs k (\<lambda>s. fsinit s p 1)) (\<lambda>k1. ret (False, k1)) else ret (first, k))"

definition sleep :: "kern \<Rightarrow> nat \<Rightarrow> chan \<Rightarrow> kern outcome" where
  "sleep k c ch =
     (case myproc k c of
        None \<Rightarrow> Some (undef ''sleep: no process'')
      | Some p \<Rightarrow> ret (sleep_on k c p ch))"

text \<open>\<^verbatim>\<open>sleep\<close> after \<^verbatim>\<open>sched\<close> returns.\<close>

definition woken :: "kern \<Rightarrow> nat \<Rightarrow> kern" where
  "woken k p = upd_proc k p (\<lambda>x. x\<lparr>pchan := None\<rparr>)"

definition kill :: "kern \<Rightarrow> int \<Rightarrow> int \<times> kern" where
  "kill k pid =
     (case find (\<lambda>p. ppid (proc_at k p) = pid) [0..<length (procs k)] of
        None \<Rightarrow> (-1, k)
      | Some p \<Rightarrow> (0, upd_proc k p (\<lambda>x. x\<lparr>pkilled := True, pstate := if pstate x = SLEEPING then RUNNABLE else pstate x\<rparr>)))"

definition setkilled :: "kern \<Rightarrow> nat \<Rightarrow> kern" where
  "setkilled k p = upd_proc k p (\<lambda>x. x\<lparr>pkilled := True\<rparr>)"

definition killed :: "kern \<Rightarrow> nat \<Rightarrow> bool" where
  "killed k p = pkilled (proc_at k p)"

fun state_name :: "procstate \<Rightarrow> byte list" where
  "state_name UNUSED = bytes ''unused''"
| "state_name USED = bytes ''used''"
| "state_name SLEEPING = bytes ''sleep ''"
| "state_name RUNNABLE = bytes ''runble''"
| "state_name RUNNING = bytes ''run   ''"
| "state_name ZOMBIE = bytes ''zombie''"

fun procdump_loop :: "proc list \<Rightarrow> byte list result" where
  "procdump_loop [] = Inr []"
| "procdump_loop (x # xs) =
     (if pstate x = UNUSED then procdump_loop xs
      else
        ebind (printf (bytes ''%d %s %s'') [AInt (of_int (ppid x)), AStr (Some (state_name (pstate x))), AStr (Some (takeWhile (\<lambda>c. c \<noteq> 0) (pname x)))]) (\<lambda>a.
        ebind (printf [10] []) (\<lambda>b. ebind (procdump_loop xs) (\<lambda>d. Inr (a @ b @ d)))))"

definition procdump :: "kern \<Rightarrow> byte list result" where
  "procdump k = ebind (printf [10] []) (\<lambda>a. ebind (procdump_loop (procs k)) (\<lambda>b. Inr (a @ b)))"

end
