(* ===== verification/ProcInv.thy ===== *)
theory ProcInv
  imports Proc
begin

text \<open>
  The process table is well formed in every run of the processors: the fields of a process agree with its state, the
  processors run different processes, every process but the first has a living parent, and no process waits for a
  child that has already exited.
\<close>

declare split_paired_All [simp del] split_paired_Ex [simp del]

section \<open>What the operations leave alone\<close>

lemma rbind_ret_iff: "rbind m f = ret y \<longleftrightarrow> (\<exists>x. m = ret x \<and> f x = ret y)"
  by (cases m) (auto simp: rbind_def ret_def split: sum.splits)

lemma rbind_retE: "rbind m f = ret y \<Longrightarrow> (\<And>x. m = ret x \<Longrightarrow> f x = ret y \<Longrightarrow> P) \<Longrightarrow> P"
  by (auto simp: rbind_ret_iff)

lemma undef_neq_ret [simp]: "Some (undef msg) \<noteq> ret x"
  by (simp add: undef_def ret_def)

definition same_tab :: "kern \<Rightarrow> kern \<Rightarrow> bool" where
  "same_tab k k1 \<longleftrightarrow> procs k1 = procs k \<and> initproc k1 = initproc k \<and> nextpid k1 = nextpid k \<and> cpu_proc k1 = cpu_proc k"

lemma same_tab_refl [simp]: "same_tab k k"
  by (simp add: same_tab_def)

lemma same_tab_trans: "same_tab k k1 \<Longrightarrow> same_tab k1 k2 \<Longrightarrow> same_tab k k2"
  by (simp add: same_tab_def)

lemma same_tab_simps [simp]:
  "same_tab k (k1\<lparr>kfs := s\<rparr>) = same_tab k k1" "same_tab k (k1\<lparr>kmem := m\<rparr>) = same_tab k k1" "same_tab k (k1\<lparr>pipes := ps\<rparr>) = same_tab k k1"
  "same_tab k (k1\<lparr>ftable := ft\<rparr>) = same_tab k k1" "same_tab k (upd_file k1 f g) = same_tab k k1"
  by (simp_all add: same_tab_def upd_file_def)

lemma on_fs_tab: "on_fs k g = ret k1 \<Longrightarrow> same_tab k k1"
  by (auto simp: on_fs_def rbind_ret_iff)

lemma close_pipe_tab: "close_pipe k pi w = ret k1 \<Longrightarrow> same_tab k k1"
  by (auto simp: close_pipe_def Let_def rbind_ret_iff split: prod.splits if_splits)

lemma same_tab_left [simp]: "same_tab (upd_file k f g) k1 = same_tab k k1" "same_tab (k\<lparr>kmem := m\<rparr>) k1 = same_tab k k1"
  by (simp_all add: same_tab_def upd_file_def)

lemma fs3_tab: "rbind (on_fs k g) (\<lambda>k2. rbind (on_fs k2 h) (\<lambda>k3. on_fs k3 i)) = ret k1 \<Longrightarrow> same_tab k k1"
  by (elim rbind_retE) (metis on_fs_tab same_tab_trans)

lemma fileclose_tab: "fileclose k pid f = ret k1 \<Longrightarrow> same_tab k k1"
  unfolding fileclose_def Let_def by (auto dest: close_pipe_tab fs3_tab split: if_splits)

lemma filedup_tab: "filedup k f = ret k1 \<Longrightarrow> same_tab k k1"
  by (auto simp: filedup_def split: if_splits)

lemma upd_proc_fields [simp]:
  "initproc (upd_proc k p g) = initproc k" "nextpid (upd_proc k p g) = nextpid k" "cpu_proc (upd_proc k p g) = cpu_proc k"
  "length (procs (upd_proc k p g)) = length (procs k)" "procs (upd_proc k p g) = (procs k)[p := g (procs k ! p)]"
  by (simp_all add: upd_proc_def)

section \<open>The effect of an operation on the table\<close>

text \<open>\<open>sets k p x k1\<close>: the table of \<open>k1\<close> is that of \<open>k\<close> with entry \<open>p\<close> replaced.\<close>

definition sets :: "kern \<Rightarrow> nat \<Rightarrow> proc \<Rightarrow> kern \<Rightarrow> bool" where
  "sets k p x k1 \<longleftrightarrow> procs k1 = (procs k)[p := x] \<and> initproc k1 = initproc k \<and> cpu_proc k1 = cpu_proc k"

definition cleared :: "proc \<Rightarrow> bool" where
  "cleared x \<longleftrightarrow> pstate x = UNUSED \<and> ppid x = 0 \<and> parent x = None \<and> pagetable x = 0 \<and> trapframe x = 0 \<and> psz x = 0 \<and> pchan x = None \<and> \<not> pkilled x"

lemma freeproc_ok:
  assumes "freeproc k p = ret k1"
  obtains x where "sets k p x k1" "nextpid k1 = nextpid k" "cleared x" "ofile x = ofile (proc_at k p)" "kstack x = kstack (proc_at k p)"
    "ftable k1 = ftable k"
proof -
  obtain m where k1: "k1 = upd_proc (k\<lparr>kmem := m\<rparr>) p (\<lambda>x. x\<lparr>trapframe := 0, pagetable := 0, psz := 0, ppid := 0, parent := None,
        pname := (pname x)[0 := 0], pchan := None, pkilled := False, xstate := 0, pstate := UNUSED\<rparr>)"
    using assms by (auto simp: freeproc_def Let_def rbind_ret_iff)
  let ?x = "(proc_at k p)\<lparr>trapframe := 0, pagetable := 0, psz := 0, ppid := 0, parent := None,
        pname := (pname (proc_at k p))[0 := 0], pchan := None, pkilled := False, xstate := 0, pstate := UNUSED\<rparr>"
  show ?thesis by (rule that [of ?x]) (simp_all add: k1 sets_def cleared_def upd_proc_def)
qed

lemma sets_sets: "sets k p x k1 \<Longrightarrow> sets k1 p y k2 \<Longrightarrow> sets k p y k2"
  by (simp add: sets_def)

lemma allocproc_ok:
  assumes "allocproc tr fr k = ret (r, k1)"
  obtains "r = None" "k1 = k"
  | p x where "r = None" "p < length (procs k)" "pstate (proc_at k p) = UNUSED" "sets k p x k1" "nextpid k1 = nextpid k + 1" "cleared x"
      "ofile x = ofile (proc_at k p)" "kstack x = kstack (proc_at k p)" "ftable k1 = ftable k"
  | p tf pt where "r = Some p" "p < length (procs k)" "pstate (proc_at k p) = UNUSED" "nextpid k1 = nextpid k + 1" "tf \<noteq> 0" "pt \<noteq> 0"
      "sets k p ((proc_at k p)\<lparr>ppid := nextpid k, pstate := USED, trapframe := tf, pagetable := pt, ctx_ra := fr, ctx_sp := kstack (proc_at k p) + 4096\<rparr>) k1"
      "ftable k1 = ftable k"
proof (cases "find (\<lambda>p. pstate (proc_at k p) = UNUSED) [0..<length (procs k)]")
  case None
  then show ?thesis using assms that(1) unfolding allocproc_def None by simp
next
  case (Some p)
  then have p: "p < length (procs k)" "pstate (proc_at k p) = UNUSED" by (auto simp: find_Some_iff)
  let ?k2 = "upd_proc (k\<lparr>nextpid := nextpid k + 1\<rparr>) p (\<lambda>x. x\<lparr>ppid := nextpid k, pstate := USED\<rparr>)"
  obtain tf m where a: "kalloc (kmem ?k2) = (tf, m)" by fastforce
  let ?k3 = "upd_proc (?k2\<lparr>kmem := m\<rparr>) p (\<lambda>x. x\<lparr>trapframe := tf\<rparr>)"
  have pid: "allocpid k = ret (nextpid k, k\<lparr>nextpid := nextpid k + 1\<rparr>)" using assms unfolding allocproc_def Some by (auto simp: rbind_ret_iff allocpid_def split: if_splits)
  have s3: "sets k p ((proc_at k p)\<lparr>ppid := nextpid k, pstate := USED, trapframe := tf\<rparr>) ?k3" using p by (simp add: sets_def upd_proc_def)
  have n3: "nextpid ?k3 = nextpid k + 1" "ftable ?k3 = ftable k" by (simp_all add: upd_proc_def)
  have of3: "ofile (proc_at ?k3 p) = ofile (proc_at k p)" "kstack (proc_at ?k3 p) = kstack (proc_at k p)" using p by (simp_all add: upd_proc_def)
  show ?thesis
  proof (cases "tf = 0")
    case True
    then obtain k4 where f: "freeproc ?k3 p = ret k4" "r = None" "k1 = k4"
      using assms unfolding allocproc_def Some option.case pid by (auto simp: rbind_ret_iff Let_def a)
    obtain x where "sets ?k3 p x k4" "nextpid k4 = nextpid ?k3" "cleared x" "ofile x = ofile (proc_at ?k3 p)" "kstack x = kstack (proc_at ?k3 p)" "ftable k4 = ftable ?k3"
      by (rule freeproc_ok [OF f(1)])
    then show ?thesis using that(2) [of p x] f(2,3) p sets_sets [OF s3] n3 of3 by simp
  next
    case False
    obtain pt m1 where b: "proc_pagetable tr (kmem ?k3) tf = ret (pt, m1)"
      using assms False unfolding allocproc_def Some option.case pid by (auto simp: rbind_ret_iff Let_def a)
    let ?k4 = "upd_proc (?k3\<lparr>kmem := m1\<rparr>) p (\<lambda>x. x\<lparr>pagetable := pt\<rparr>)"
    have s4: "sets k p ((proc_at k p)\<lparr>ppid := nextpid k, pstate := USED, trapframe := tf, pagetable := pt\<rparr>) ?k4" using p by (simp add: sets_def upd_proc_def)
    have n4: "nextpid ?k4 = nextpid k + 1" "ftable ?k4 = ftable k" by (simp_all add: upd_proc_def)
    have of4: "ofile (proc_at ?k4 p) = ofile (proc_at k p)" "kstack (proc_at ?k4 p) = kstack (proc_at k p)" using p by (simp_all add: upd_proc_def)
    show ?thesis
    proof (cases "pt = 0")
      case True
      then obtain k5 where f: "freeproc ?k4 p = ret k5" "r = None" "k1 = k5"
        using assms False b unfolding allocproc_def Some option.case pid by (auto simp: rbind_ret_iff Let_def a)
      obtain x where "sets ?k4 p x k5" "nextpid k5 = nextpid ?k4" "cleared x" "ofile x = ofile (proc_at ?k4 p)" "kstack x = kstack (proc_at ?k4 p)" "ftable k5 = ftable ?k4"
        by (rule freeproc_ok [OF f(1)])
      then show ?thesis using that(2) [of p x] f(2,3) p sets_sets [OF s4] n4 of4 by simp
    next
      case pt: False
      have "r = Some p" "k1 = upd_proc ?k4 p (\<lambda>x. x\<lparr>ctx_ra := fr, ctx_sp := kstack x + 4096\<rparr>)"
        using assms False pt b unfolding allocproc_def Some option.case pid by (auto simp: Let_def a)
      then show ?thesis using that(3) [of p tf pt] p False pt by (simp add: sets_def upd_proc_def)
    qed
  qed
qed

lemma dup_files_ok:
  assumes "dup_files k np fs i = ret k1" and "np < length (procs k)"
  shows "\<exists>fl. sets k np ((proc_at k np)\<lparr>ofile := fl\<rparr>) k1 \<and> nextpid k1 = nextpid k \<and> length fl = length (ofile (proc_at k np))"
  using assms
proof (induction k np fs i rule: dup_files.induct)
  case (1 k np i)
  then show ?case by (auto simp: sets_def intro: exI [of _ "ofile (proc_at k np)"])
next
  case (3 k np f fs i)
  then obtain k2 where k2: "filedup k f = ret k2" by (auto simp: rbind_ret_iff)
  then have st: "same_tab k k2" by (rule filedup_tab)
  let ?k = "upd_proc k2 np (\<lambda>x. x\<lparr>ofile := (ofile x)[i := Some f]\<rparr>)"
  have "dup_files ?k np fs (i + 1) = ret k1" "np < length (procs ?k)" using 3(2,3) k2 st by (simp_all add: same_tab_def)
  then obtain fl where "sets ?k np ((proc_at ?k np)\<lparr>ofile := fl\<rparr>) k1" "nextpid k1 = nextpid ?k" "length fl = length (ofile (proc_at ?k np))"
    using 3(1) [OF k2 [unfolded ret_def]] by blast
  then show ?case using st 3(3) by (auto simp: sets_def same_tab_def)
qed simp

definition woke :: "kern \<Rightarrow> kern \<Rightarrow> bool" where
  "woke k k1 \<longleftrightarrow> length (procs k1) = length (procs k) \<and> initproc k1 = initproc k \<and> nextpid k1 = nextpid k \<and> cpu_proc k1 = cpu_proc k \<and>
     (\<forall>q<length (procs k). \<exists>s pa. proc_at k1 q = (proc_at k q)\<lparr>pstate := s, parent := pa\<rparr> \<and>
        (s = pstate (proc_at k q) \<or> pstate (proc_at k q) = SLEEPING \<and> s = RUNNABLE))"

lemma woke_refl [simp]: "woke k k"
proof -
  have "\<exists>s pa. proc_at k q = (proc_at k q)\<lparr>pstate := s, parent := pa\<rparr> \<and> (s = pstate (proc_at k q) \<or> pstate (proc_at k q) = SLEEPING \<and> s = RUNNABLE)" for q
    by (intro exI [of _ "pstate (proc_at k q)"] exI [of _ "parent (proc_at k q)"]) simp
  then show ?thesis unfolding woke_def by simp
qed

lemma woke_trans:
  assumes "woke k k1" and "woke k1 k2"
  shows "woke k k2"
proof -
  have "\<exists>s pa. proc_at k2 q = (proc_at k q)\<lparr>pstate := s, parent := pa\<rparr> \<and> (s = pstate (proc_at k q) \<or> pstate (proc_at k q) = SLEEPING \<and> s = RUNNABLE)"
    if q: "q < length (procs k)" for q
  proof -
    obtain s pa where a: "proc_at k1 q = (proc_at k q)\<lparr>pstate := s, parent := pa\<rparr>" "s = pstate (proc_at k q) \<or> pstate (proc_at k q) = SLEEPING \<and> s = RUNNABLE"
      using assms(1) q unfolding woke_def by blast
    obtain t pb where b: "proc_at k2 q = (proc_at k1 q)\<lparr>pstate := t, parent := pb\<rparr>" "t = pstate (proc_at k1 q) \<or> pstate (proc_at k1 q) = SLEEPING \<and> t = RUNNABLE"
      using assms q unfolding woke_def by metis
    show ?thesis using a b by auto
  qed
  then show ?thesis using assms unfolding woke_def by simp
qed

lemma wakeup_at:
  "q < length (procs k) \<Longrightarrow> proc_at (wakeup k me ch) q =
     (if me \<noteq> Some q \<and> pstate (proc_at k q) = SLEEPING \<and> pchan (proc_at k q) = Some ch then (proc_at k q)\<lparr>pstate := RUNNABLE\<rparr> else proc_at k q)"
  by (simp add: wakeup_def Let_def)

lemma wakeup_fields [simp]:
  "length (procs (wakeup k me ch)) = length (procs k)" "initproc (wakeup k me ch) = initproc k" "nextpid (wakeup k me ch) = nextpid k"
  "cpu_proc (wakeup k me ch) = cpu_proc k" "ftable (wakeup k me ch) = ftable k"
  by (simp_all add: wakeup_def)

lemma wakeup_parent [simp]: "q < length (procs k) \<Longrightarrow> parent (proc_at (wakeup k me ch) q) = parent (proc_at k q)"
  by (simp add: wakeup_at)

lemma wakeup_woke [simp]: "woke k (wakeup k me ch)"
proof -
  have "\<exists>s pa. proc_at (wakeup k me ch) q = (proc_at k q)\<lparr>pstate := s, parent := pa\<rparr> \<and> (s = pstate (proc_at k q) \<or> pstate (proc_at k q) = SLEEPING \<and> s = RUNNABLE)"
    if "q < length (procs k)" for q
    using that by (intro exI [of _ "pstate (proc_at (wakeup k me ch) q)"] exI [of _ "parent (proc_at k q)"]) (simp add: wakeup_at)
  then show ?thesis unfolding woke_def by simp
qed

lemma parent_woke: "woke k (upd_proc k q (\<lambda>x. x\<lparr>parent := pa\<rparr>))"
proof -
  have "\<exists>s pb. proc_at (upd_proc k q (\<lambda>x. x\<lparr>parent := pa\<rparr>)) r = (proc_at k r)\<lparr>pstate := s, parent := pb\<rparr> \<and> (s = pstate (proc_at k r) \<or> pstate (proc_at k r) = SLEEPING \<and> s = RUNNABLE)"
    if "r < length (procs k)" for r
    using that by (intro exI [of _ "pstate (proc_at k r)"] exI [of _ "if r = q then pa else parent (proc_at k r)"]) simp
  then show ?thesis unfolding woke_def by (simp del: upd_proc_fields(5))
qed

text \<open>A process that waits for its children sleeps on its own address.\<close>

definition waiting :: "kern \<Rightarrow> nat \<Rightarrow> bool" where
  "waiting k q \<longleftrightarrow> pstate (proc_at k q) = SLEEPING \<and> pchan (proc_at k q) = Some (ProcAt q)"

lemma woke_waiting: "woke k k1 \<Longrightarrow> q < length (procs k) \<Longrightarrow> waiting k1 q \<Longrightarrow> waiting k q"
  unfolding woke_def waiting_def by (metis (no_types, lifting) proc.select_convs(1,2) proc.surjective proc.update_convs(1,6) procstate.distinct)

lemma wakeup_waiting: "q < length (procs k) \<Longrightarrow> me \<noteq> Some q \<Longrightarrow> \<not> waiting (wakeup k me (ProcAt q)) q"
  by (auto simp: waiting_def wakeup_at)

lemma reparent_loop_ok:
  assumes "reparent_loop k p pps = ret k1" and "set pps \<subseteq> {..<length (procs k)}" and "initproc k = Some i" and "i < length (procs k)" and "i \<noteq> p"
  shows "woke k k1 \<and> (\<forall>q<length (procs k). parent (proc_at k1 q) = (if q \<in> set pps \<and> parent (proc_at k q) = Some p then Some i else parent (proc_at k q))) \<and>
    ((\<exists>q\<in>set pps. parent (proc_at k q) = Some p) \<longrightarrow> \<not> waiting k1 i) \<and> ftable k1 = ftable k"
  using assms
proof (induction k p pps rule: reparent_loop.induct)
  case (2 k p pp pps)
  show ?case
  proof (cases "parent (proc_at k pp) = Some p")
    case True
    let ?k = "wakeup (upd_proc k pp (\<lambda>x. x\<lparr>parent := Some i\<rparr>)) (Some p) (ProcAt i)"
    have w: "woke k ?k" using woke_trans [OF parent_woke wakeup_woke] .
    have par: "parent (proc_at ?k q) = (if q = pp then Some i else parent (proc_at k q))" if "q < length (procs k)" for q
      using that by simp
    have ih: "woke ?k k1 \<and> (\<forall>q<length (procs ?k). parent (proc_at k1 q) = (if q \<in> set pps \<and> parent (proc_at ?k q) = Some p then Some i else parent (proc_at ?k q))) \<and> ftable k1 = ftable ?k"
      using 2(1) [OF True 2(5)] 2(3-7) True by simp
    have nw: "\<not> waiting ?k i" by (rule wakeup_waiting) (use 2(6,7) in simp_all)
    have "\<not> waiting k1 i" using woke_waiting [OF conjunct1 [OF ih], of i] nw 2(6) by auto
    moreover have "parent (proc_at k1 q) = (if q \<in> set (pp # pps) \<and> parent (proc_at k q) = Some p then Some i else parent (proc_at k q))"
      if q: "q < length (procs k)" for q
      using ih par [OF q] q True 2(7) by auto
    moreover have "ftable ?k = ftable k" by (simp add: upd_proc_def)
    ultimately show ?thesis using ih woke_trans [OF w] by simp
  next
    case False
    then show ?thesis using 2(2) [OF False] 2(3-7) by auto
  qed
qed simp

lemma close_files_ok:
  assumes "close_files k p fds = ret k1" and "p < length (procs k)"
  shows "\<exists>fl. sets k p ((proc_at k p)\<lparr>ofile := fl\<rparr>) k1 \<and> nextpid k1 = nextpid k \<and> length fl = length (ofile (proc_at k p)) \<and>
    (\<forall>j<length fl. fl ! j = (if j \<in> set fds then None else ofile (proc_at k p) ! j))"
  using assms
proof (induction k p fds rule: close_files.induct)
  case (1 k p)
  then show ?case by (auto simp: sets_def intro: exI [of _ "ofile (proc_at k p)"])
next
  case (2 k p fd fds)
  show ?case
  proof (cases "ofile (proc_at k p) ! fd")
    case None
    then obtain fl where "sets k p ((proc_at k p)\<lparr>ofile := fl\<rparr>) k1" "nextpid k1 = nextpid k" "length fl = length (ofile (proc_at k p))"
      "\<forall>j<length fl. fl ! j = (if j \<in> set fds then None else ofile (proc_at k p) ! j)"
      using 2(1) [OF None] 2(3,4) by auto
    then show ?thesis using None by (intro exI [of _ fl]) auto
  next
    case (Some f)
    then obtain k2 where k2: "fileclose k p f = ret k2" using 2(3) by (auto simp: rbind_ret_iff)
    then have st: "same_tab k k2" by (rule fileclose_tab)
    let ?k = "upd_proc k2 p (\<lambda>x. x\<lparr>ofile := (ofile x)[fd := None]\<rparr>)"
    have "close_files ?k p fds = ret k1" "p < length (procs ?k)" using 2(3,4) Some k2 st by (simp_all add: same_tab_def)
    then obtain fl where "sets ?k p ((proc_at ?k p)\<lparr>ofile := fl\<rparr>) k1" "nextpid k1 = nextpid ?k" "length fl = length (ofile (proc_at ?k p))"
      "\<forall>j<length fl. fl ! j = (if j \<in> set fds then None else ofile (proc_at ?k p) ! j)"
      using 2(2) [OF Some k2 [unfolded ret_def]] by blast
    then show ?thesis using st 2(4) by (auto simp: sets_def same_tab_def nth_list_update intro!: exI [of _ fl])
  qed
qed

section \<open>The invariant\<close>

definition living :: "proc \<Rightarrow> bool" where
  "living x \<longleftrightarrow> pstate x = SLEEPING \<or> pstate x = RUNNABLE \<or> pstate x = RUNNING"

definition entry_ok :: "int \<Rightarrow> proc \<Rightarrow> bool" where
  "entry_ok n x \<longleftrightarrow> length (ofile x) = NOFILE \<and>
     (case pstate x of
        UNUSED \<Rightarrow> ppid x = 0 \<and> parent x = None \<and> pagetable x = 0 \<and> trapframe x = 0 \<and> psz x = 0 \<and> pchan x = None \<and> (\<forall>fd<NOFILE. ofile x ! fd = None)
      | USED \<Rightarrow> False
      | SLEEPING \<Rightarrow> 0 < ppid x \<and> ppid x < n \<and> pagetable x \<noteq> 0 \<and> trapframe x \<noteq> 0 \<and> pchan x \<noteq> None
      | RUNNABLE \<Rightarrow> 0 < ppid x \<and> ppid x < n \<and> pagetable x \<noteq> 0 \<and> trapframe x \<noteq> 0
      | RUNNING \<Rightarrow> 0 < ppid x \<and> ppid x < n \<and> pagetable x \<noteq> 0 \<and> trapframe x \<noteq> 0
      | ZOMBIE \<Rightarrow> 0 < ppid x \<and> ppid x < n \<and> pagetable x \<noteq> 0 \<and> trapframe x \<noteq> 0 \<and> cwd x = None \<and> (\<forall>fd<NOFILE. ofile x ! fd = None))"

definition cpus_ok :: "kern \<Rightarrow> bool" where
  "cpus_ok k \<longleftrightarrow>
     (\<forall>c p. cpu_proc k c = Some p \<longrightarrow> p < length (procs k) \<and> pstate (proc_at k p) = RUNNING) \<and>
     (\<forall>p<length (procs k). pstate (proc_at k p) = RUNNING \<longrightarrow> (\<exists>c. cpu_proc k c = Some p)) \<and>
     (\<forall>c d p. cpu_proc k c = Some p \<and> cpu_proc k d = Some p \<longrightarrow> c = d)"

definition kids_ok :: "kern \<Rightarrow> bool" where
  "kids_ok k \<longleftrightarrow>
     (\<exists>i<length (procs k). initproc k = Some i \<and> living (proc_at k i)) \<and>
     (\<forall>p<length (procs k). pstate (proc_at k p) \<noteq> UNUSED \<and> initproc k \<noteq> Some p \<longrightarrow>
        (\<exists>q<length (procs k). parent (proc_at k p) = Some q \<and> q \<noteq> p \<and> living (proc_at k q)))"

definition pids_ok :: "kern \<Rightarrow> bool" where
  "pids_ok k \<longleftrightarrow> 0 < nextpid k \<and>
     (\<forall>p<length (procs k). \<forall>q<length (procs k). p \<noteq> q \<and> pstate (proc_at k p) \<noteq> UNUSED \<and> pstate (proc_at k q) \<noteq> UNUSED \<longrightarrow>
        ppid (proc_at k p) \<noteq> ppid (proc_at k q))"

definition ptab_ok :: "kern \<Rightarrow> bool" where
  "ptab_ok k \<longleftrightarrow> (\<forall>p<length (procs k). entry_ok (nextpid k) (proc_at k p)) \<and> cpus_ok k \<and> kids_ok k \<and> pids_ok k"

text \<open>No process waits for a child while one of its children has exited.\<close>

definition no_lost_exit :: "kern \<Rightarrow> bool" where
  "no_lost_exit k \<longleftrightarrow> (\<forall>z<length (procs k). \<forall>q<length (procs k).
     pstate (proc_at k z) = ZOMBIE \<and> parent (proc_at k z) = Some q \<longrightarrow> \<not> waiting k q)"

lemma entry_ok_mono: "entry_ok n x \<Longrightarrow> n \<le> m \<Longrightarrow> entry_ok m x"
  by (auto simp: entry_ok_def split: procstate.splits)

lemma entry_living: "living x \<Longrightarrow> entry_ok n x \<longleftrightarrow> length (ofile x) = NOFILE \<and> 0 < ppid x \<and> ppid x < n \<and> pagetable x \<noteq> 0 \<and> trapframe x \<noteq> 0 \<and>
    (pstate x = SLEEPING \<longrightarrow> pchan x \<noteq> None)"
  by (auto simp: entry_ok_def living_def)

lemma entry_pid: "entry_ok n x \<Longrightarrow> pstate x \<noteq> UNUSED \<Longrightarrow> 0 < ppid x \<and> ppid x < n"
  by (auto simp: entry_ok_def split: procstate.splits)

lemma entry_cleared: "cleared x \<Longrightarrow> length (ofile x) = NOFILE \<Longrightarrow> \<forall>fd<NOFILE. ofile x ! fd = None \<Longrightarrow> entry_ok n x"
  by (simp add: entry_ok_def cleared_def)

text \<open>Replacing the entry of a process by one that is still living.\<close>

lemma ptab_replace:
  assumes k: "ptab_ok k" and p: "p < length (procs k)" and s: "procs k1 = (procs k)[p := x]" "initproc k1 = initproc k" "nextpid k1 = nextpid k"
    and x: "living x" "entry_ok (nextpid k) x" "ppid x = ppid (proc_at k p)" "parent x = parent (proc_at k p)" and l: "living (proc_at k p)" and c: "cpus_ok k1"
  shows "ptab_ok k1"
proof -
  have un: "pstate x \<noteq> UNUSED" "pstate (proc_at k p) \<noteq> UNUSED" using x(1) l by (auto simp: living_def)
  have n: "length (procs k1) = length (procs k)" and "living (proc_at k1 q) = living (proc_at k q)" "pstate (proc_at k1 q) = UNUSED \<longleftrightarrow> pstate (proc_at k q) = UNUSED"
    "parent (proc_at k1 q) = parent (proc_at k q)" for q
    using p s(1) x l un by (auto simp: nth_list_update)
  then have "kids_ok k1" using k s(2) unfolding ptab_ok_def kids_ok_def by simp
  moreover have "pids_ok k1" using k p s x un unfolding ptab_ok_def pids_ok_def by (simp add: nth_list_update)
  moreover have "\<forall>q<length (procs k1). entry_ok (nextpid k1) (proc_at k1 q)" using k p s x by (simp add: ptab_ok_def nth_list_update)
  ultimately show ?thesis using c by (simp add: ptab_ok_def)
qed

lemma ptab_same: "ptab_ok k \<Longrightarrow> same_tab k k1 \<Longrightarrow> ptab_ok k1"
  by (simp add: ptab_ok_def same_tab_def cpus_ok_def kids_ok_def pids_ok_def)

text \<open>Waking processes, and giving children to another living process.\<close>

lemma wokeD:
  assumes "woke k k1" and "q < length (procs k)"
  shows "ppid (proc_at k1 q) = ppid (proc_at k q)" "ofile (proc_at k1 q) = ofile (proc_at k q)" "cwd (proc_at k1 q) = cwd (proc_at k q)" "living (proc_at k1 q) = living (proc_at k q)"
    "pstate (proc_at k1 q) = UNUSED \<longleftrightarrow> pstate (proc_at k q) = UNUSED" "pstate (proc_at k1 q) = RUNNING \<longleftrightarrow> pstate (proc_at k q) = RUNNING"
    "pstate (proc_at k1 q) = ZOMBIE \<longleftrightarrow> pstate (proc_at k q) = ZOMBIE"
    "(pstate (proc_at k q) = UNUSED \<longrightarrow> parent (proc_at k1 q) = None) \<Longrightarrow> entry_ok n (proc_at k q) \<Longrightarrow> entry_ok n (proc_at k1 q)"
proof -
  obtain s pa where a: "proc_at k1 q = (proc_at k q)\<lparr>pstate := s, parent := pa\<rparr>" "s = pstate (proc_at k q) \<or> pstate (proc_at k q) = SLEEPING \<and> s = RUNNABLE"
    using assms unfolding woke_def by blast
  show "ppid (proc_at k1 q) = ppid (proc_at k q)" "ofile (proc_at k1 q) = ofile (proc_at k q)" "cwd (proc_at k1 q) = cwd (proc_at k q)" using a(1) by simp_all
  show "living (proc_at k1 q) = living (proc_at k q)" "pstate (proc_at k1 q) = UNUSED \<longleftrightarrow> pstate (proc_at k q) = UNUSED"
    "pstate (proc_at k1 q) = RUNNING \<longleftrightarrow> pstate (proc_at k q) = RUNNING" "pstate (proc_at k1 q) = ZOMBIE \<longleftrightarrow> pstate (proc_at k q) = ZOMBIE"
    using a by (auto simp: living_def)
  assume "pstate (proc_at k q) = UNUSED \<longrightarrow> parent (proc_at k1 q) = None" "entry_ok n (proc_at k q)"
  then show "entry_ok n (proc_at k1 q)" using a by (cases "pstate (proc_at k q)") (auto simp: entry_ok_def)
qed

lemma woke_fields: "woke k k1 \<Longrightarrow> length (procs k1) = length (procs k) \<and> initproc k1 = initproc k \<and> nextpid k1 = nextpid k \<and> cpu_proc k1 = cpu_proc k"
  by (simp add: woke_def)

lemma woke_ptab:
  assumes k: "ptab_ok k" and w: "woke k k1"
    and par: "\<forall>q<length (procs k). parent (proc_at k1 q) = parent (proc_at k q) \<or>
      parent (proc_at k q) \<noteq> None \<and> (\<exists>i<length (procs k). parent (proc_at k1 q) = Some i \<and> living (proc_at k i) \<and> (initproc k \<noteq> Some q \<longrightarrow> i \<noteq> q))"
  shows "ptab_ok k1"
proof -
  note f = woke_fields [OF w] and d = wokeD [OF w]
  have un: "pstate (proc_at k q) = UNUSED \<Longrightarrow> parent (proc_at k q) = None" if "q < length (procs k)" for q
    using k that by (auto simp: ptab_ok_def entry_ok_def)
  have "entry_ok (nextpid k) (proc_at k1 q)" if q: "q < length (procs k)" for q
  proof (rule d(8) [OF q])
    show "pstate (proc_at k q) = UNUSED \<longrightarrow> parent (proc_at k1 q) = None" using un [OF q] par q by (metis option.distinct(1))
    show "entry_ok (nextpid k) (proc_at k q)" using k q by (simp add: ptab_ok_def)
  qed
  moreover have "cpus_ok k1" using k f d(6) unfolding ptab_ok_def cpus_ok_def by simp
  moreover have "pids_ok k1" using k f d(1,5) unfolding ptab_ok_def pids_ok_def by simp
  moreover have "kids_ok k1" using k f d(4,5) par unfolding ptab_ok_def kids_ok_def by simp metis
  ultimately show ?thesis using f by (simp add: ptab_ok_def)
qed

section \<open>The processors\<close>

lemma cpus_keep:
  assumes "cpus_ok k" and "p < length (procs k)" and "procs k1 = (procs k)[p := x]" and "cpu_proc k1 = cpu_proc k"
    and "pstate x = RUNNING \<longleftrightarrow> pstate (proc_at k p) = RUNNING"
  shows "cpus_ok k1"
proof -
  have "length (procs k1) = length (procs k)" "pstate (proc_at k1 q) = RUNNING \<longleftrightarrow> pstate (proc_at k q) = RUNNING" for q
    using assms(2,3,5) by (auto simp: nth_list_update)
  then show ?thesis using assms(1,4) by (simp add: cpus_ok_def)
qed

lemma cpus_leave:
  assumes k: "cpus_ok k" and p: "cpu_proc k c = Some p" and s: "procs k1 = (procs k)[p := x]" "cpu_proc k1 = (cpu_proc k)(c := None)"
    and x: "pstate x \<noteq> RUNNING"
  shows "cpus_ok k1"
proof -
  have pl: "p < length (procs k)" using k p by (auto simp: cpus_ok_def)
  have n: "length (procs k1) = length (procs k)" and st: "pstate (proc_at k1 q) = RUNNING \<longleftrightarrow> q \<noteq> p \<and> pstate (proc_at k q) = RUNNING" if "q < length (procs k)" for q
    using s(1) x pl by (auto simp: nth_list_update)
  have q: "cpu_proc k d = Some q \<Longrightarrow> q < length (procs k) \<and> pstate (proc_at k q) = RUNNING" for d q using k by (simp add: cpus_ok_def)
  have inj: "cpu_proc k d = Some q \<Longrightarrow> cpu_proc k e = Some q \<Longrightarrow> d = e" for d e q using k by (simp add: cpus_ok_def)
  have cp: "cpu_proc k1 d = Some q \<longleftrightarrow> d \<noteq> c \<and> cpu_proc k d = Some q" for d q by (auto simp: s(2))
  have ex: "\<exists>d. d \<noteq> c \<and> cpu_proc k d = Some q" if "q < length (procs k)" "q \<noteq> p" "pstate (proc_at k q) = RUNNING" for q
    using k that p unfolding cpus_ok_def by (metis option.inject)
  show ?thesis unfolding cpus_ok_def
  proof (intro conjI allI impI)
    fix d q assume "cpu_proc k1 d = Some q"
    then have a: "d \<noteq> c" "cpu_proc k d = Some q" by (simp_all add: cp)
    then have "q \<noteq> p" using inj p by blast
    then show "q < length (procs k1)" "pstate (proc_at k1 q) = RUNNING" using q [OF a(2)] st n [OF pl] by simp_all
  next
    fix q assume "q < length (procs k1)" "pstate (proc_at k1 q) = RUNNING"
    then show "\<exists>d. cpu_proc k1 d = Some q" using ex [of q] st [of q] n [OF pl] by (simp add: cp)
  next
    fix d e q assume "cpu_proc k1 d = Some q \<and> cpu_proc k1 e = Some q"
    then show "d = e" using inj by (simp add: cp)
  qed
qed

lemma cpus_enter:
  assumes k: "cpus_ok k" and c: "cpu_proc k c = None" and p: "p < length (procs k)" "pstate (proc_at k p) \<noteq> RUNNING"
    and s: "procs k1 = (procs k)[p := x]" "cpu_proc k1 = (cpu_proc k)(c \<mapsto> p)" and x: "pstate x = RUNNING"
  shows "cpus_ok k1"
proof -
  have n: "length (procs k1) = length (procs k)" and st: "pstate (proc_at k1 q) = RUNNING \<longleftrightarrow> q = p \<or> pstate (proc_at k q) = RUNNING" if "q < length (procs k)" for q
    using s(1) x p(1) by (auto simp: nth_list_update)
  have q: "cpu_proc k d = Some q \<Longrightarrow> q < length (procs k) \<and> q \<noteq> p \<and> pstate (proc_at k q) = RUNNING" for d q using k p(2) by (auto simp: cpus_ok_def)
  have inj: "cpu_proc k d = Some q \<Longrightarrow> cpu_proc k e = Some q \<Longrightarrow> d = e" for d e q using k by (simp add: cpus_ok_def)
  have cp: "cpu_proc k1 d = Some q \<longleftrightarrow> (if d = c then q = p else cpu_proc k d = Some q)" for d q by (auto simp: s(2))
  have ex: "\<exists>d. cpu_proc k1 d = Some q" if "q < length (procs k)" "q = p \<or> pstate (proc_at k q) = RUNNING" for q
    using k that c unfolding cpus_ok_def cp by (metis option.distinct(1))
  show ?thesis unfolding cpus_ok_def
  proof (intro conjI allI impI)
    fix d q assume "cpu_proc k1 d = Some q"
    then have "q = p \<or> q < length (procs k) \<and> pstate (proc_at k q) = RUNNING" using q [of d] by (simp add: cp split: if_splits)
    then show "q < length (procs k1)" "pstate (proc_at k1 q) = RUNNING" using st n [OF p(1)] p(1) by auto
  next
    fix q assume "q < length (procs k1)" "pstate (proc_at k1 q) = RUNNING"
    then show "\<exists>d. cpu_proc k1 d = Some q" using ex [of q] st [of q] n [OF p(1)] by simp
  next
    fix d e q assume a: "cpu_proc k1 d = Some q \<and> cpu_proc k1 e = Some q"
    have other: "f = c \<longleftrightarrow> q = p" if "cpu_proc k1 f = Some q" for f using that q [of f q] unfolding cp by (cases "f = c") simp_all
    show "d = e"
    proof (cases "q = p")
      case True
      then show ?thesis using other a by blast
    next
      case False
      then have "cpu_proc k d = Some q" "cpu_proc k e = Some q" using other a unfolding cp by presburger+
      then show ?thesis by (rule inj)
    qed
  qed
qed

lemma cpu_living: "ptab_ok k \<Longrightarrow> cpu_proc k c = Some p \<Longrightarrow> p < length (procs k) \<and> pstate (proc_at k p) = RUNNING \<and> living (proc_at k p)"
  by (simp add: ptab_ok_def cpus_ok_def living_def)

lemma no_lost_replace:
  assumes "no_lost_exit k" and "p < length (procs k)" and "procs k1 = (procs k)[p := x]"
    and "pstate x = ZOMBIE \<longrightarrow> pstate (proc_at k p) = ZOMBIE \<and> parent x = parent (proc_at k p)"
    and "pstate x = SLEEPING \<and> pchan x = Some (ProcAt p) \<longrightarrow> waiting k p"
  shows "no_lost_exit k1"
proof -
  have "length (procs k1) = length (procs k)" "waiting k1 q \<Longrightarrow> waiting k q" "pstate (proc_at k1 q) = ZOMBIE \<Longrightarrow> pstate (proc_at k q) = ZOMBIE \<and> parent (proc_at k1 q) = parent (proc_at k q)" for q
    using assms(2-5) by (auto simp: nth_list_update waiting_def split: if_splits)
  then show ?thesis using assms(1) unfolding no_lost_exit_def by metis
qed

lemma no_lost_woke:
  assumes "no_lost_exit k" and "woke k k1" and "\<forall>q<length (procs k). parent (proc_at k1 q) = parent (proc_at k q)"
  shows "no_lost_exit k1"
  using assms woke_fields [OF assms(2)] wokeD(7) [OF assms(2)] woke_waiting [OF assms(2)] unfolding no_lost_exit_def by simp metis

section \<open>The operations keep the invariant\<close>

definition pinv :: "kern \<Rightarrow> bool" where
  "pinv k \<longleftrightarrow> ptab_ok k \<and> no_lost_exit k"

lemma pinv_same: "pinv k \<Longrightarrow> same_tab k k1 \<Longrightarrow> pinv k1"
  using ptab_same [of k k1] by (simp add: pinv_def) (simp add: same_tab_def no_lost_exit_def waiting_def)

lemma pinv_entry: "pinv k \<Longrightarrow> p < length (procs k) \<Longrightarrow> entry_ok (nextpid k) (proc_at k p)"
  by (simp add: pinv_def ptab_ok_def)

text \<open>An entry replaced by one that lives, with the same number and parent, when the processors stay right.\<close>

lemma pinv_replace:
  assumes "pinv k" and "p < length (procs k)" and "procs k1 = (procs k)[p := x]" and "initproc k1 = initproc k" and "nextpid k1 = nextpid k"
    and "living x" and "entry_ok (nextpid k) x" and "ppid x = ppid (proc_at k p)" and "parent x = parent (proc_at k p)" and "living (proc_at k p)" and "cpus_ok k1"
    and "pstate x = SLEEPING \<and> pchan x = Some (ProcAt p) \<longrightarrow> waiting k p"
  shows "pinv k1"
  using assms ptab_replace [of k p k1 x] no_lost_replace [of k p k1 x] unfolding pinv_def living_def by auto

lemma scheduler_pinv:
  assumes k: "pinv k" and c: "cpu_proc k c = None" and r: "scheduler k c i = (r, k1)"
  shows "pinv k1"
proof (cases "find (\<lambda>p. pstate (proc_at k p) = RUNNABLE) [i..<length (procs k)]")
  case None
  then show ?thesis using r k by (simp add: scheduler_def)
next
  case (Some p)
  then have p: "p < length (procs k)" "pstate (proc_at k p) = RUNNABLE" by (auto simp: find_Some_iff)
  let ?x = "(proc_at k p)\<lparr>pstate := RUNNING\<rparr>"
  have k1: "procs k1 = (procs k)[p := ?x]" "initproc k1 = initproc k" "nextpid k1 = nextpid k" "cpu_proc k1 = (cpu_proc k)(c \<mapsto> p)"
    using r Some by (auto simp: scheduler_def)
  have "cpus_ok k1" using cpus_enter [OF _ c p(1) _ k1(1,4)] k p(2) by (simp add: pinv_def ptab_ok_def)
  then show ?thesis using pinv_replace [OF k p(1) k1(1-3)] pinv_entry [OF k p(1)] p(2) by (simp add: living_def entry_ok_def)
qed

lemma running: "pinv k \<Longrightarrow> cpu_proc k c = Some p \<Longrightarrow> p < length (procs k) \<and> pstate (proc_at k p) = RUNNING"
  by (simp add: pinv_def cpu_living)

lemma leave_pinv:
  assumes k: "pinv k" and c: "cpu_proc k c = Some p" and k1: "k1 = switch_out (upd_proc k p g) c"
    and g: "pstate (g (proc_at k p)) = RUNNABLE \<or> pstate (g (proc_at k p)) = SLEEPING \<and> pchan (g (proc_at k p)) \<noteq> None \<and> pchan (g (proc_at k p)) \<noteq> Some (ProcAt p)"
      "ppid (g (proc_at k p)) = ppid (proc_at k p)" "parent (g (proc_at k p)) = parent (proc_at k p)" "ofile (g (proc_at k p)) = ofile (proc_at k p)"
      "pagetable (g (proc_at k p)) = pagetable (proc_at k p)" "trapframe (g (proc_at k p)) = trapframe (proc_at k p)"
  shows "pinv k1"
proof -
  note p = running [OF k c]
  have k2: "procs k1 = (procs k)[p := g (proc_at k p)]" "initproc k1 = initproc k" "nextpid k1 = nextpid k" "cpu_proc k1 = (cpu_proc k)(c := None)"
    by (simp_all add: k1 switch_out_def)
  have "cpus_ok k1" using cpus_leave [OF _ c k2(1,4)] k g(1) by (auto simp: pinv_def ptab_ok_def)
  moreover have "living (g (proc_at k p))" using g(1) by (auto simp: living_def)
  moreover have "entry_ok (nextpid k) (g (proc_at k p))"
    using pinv_entry [OF k conjunct1 [OF p]] conjunct2 [OF p] g \<open>living (g (proc_at k p))\<close> by (auto simp: entry_living living_def)
  ultimately show ?thesis using pinv_replace [OF k conjunct1 [OF p] k2(1-3)] p g by (auto simp: living_def)
qed

lemma yield_pinv: "pinv k \<Longrightarrow> yield k c = ret k1 \<Longrightarrow> pinv k1"
  by (auto simp: yield_def myproc_def split: option.splits intro: leave_pinv)

lemma sleep_pinv: "pinv k \<Longrightarrow> sleep k c (Addr a) = ret k1 \<Longrightarrow> pinv k1"
  by (auto simp: sleep_def sleep_on_def myproc_def split: option.splits intro: leave_pinv)

lemma stay_pinv:
  assumes k: "pinv k" and c: "cpu_proc k c = Some p" and k1: "sets k p x k1" "nextpid k1 = nextpid k"
    and x: "pstate x = RUNNING" "ppid x = ppid (proc_at k p)" "parent x = parent (proc_at k p)" "length (ofile x) = length (ofile (proc_at k p))"
      "pagetable x = pagetable (proc_at k p)" "trapframe x = trapframe (proc_at k p)"
  shows "pinv k1"
proof -
  note p = running [OF k c]
  have "cpus_ok k1" using cpus_keep [of k p k1 x] k p k1 x(1) by (simp add: pinv_def ptab_ok_def sets_def)
  moreover have "entry_ok (nextpid k) x" using pinv_entry [OF k conjunct1 [OF p]] conjunct2 [OF p] x by (simp add: entry_ok_def)
  ultimately show ?thesis using pinv_replace [OF k conjunct1 [OF p], of k1 x] p k1 x by (simp add: living_def sets_def)
qed

lemma wakeup_pinv: "pinv k \<Longrightarrow> pinv (wakeup k me ch)"
  using woke_ptab [OF _ wakeup_woke, of k me ch] no_lost_woke [OF _ wakeup_woke, of k me ch] by (simp add: pinv_def)

lemma growproc_ok:
  assumes r: "growproc k p n = ret (r, k1)"
  obtains sz where "sets k p ((proc_at k p)\<lparr>psz := sz\<rparr>) k1" "nextpid k1 = nextpid k" "ftable k1 = ftable k"
proof -
  have same: "sets k p ((proc_at k p)\<lparr>psz := psz (proc_at k p)\<rparr>) (k\<lparr>kmem := m\<rparr>)" for m by (simp add: sets_def)
  have upd: "sets k p ((proc_at k p)\<lparr>psz := sz\<rparr>) (upd_proc (k\<lparr>kmem := m\<rparr>) p (\<lambda>x. x\<lparr>psz := sz\<rparr>))" for m sz by (simp add: sets_def)
  have keep: "nextpid (k\<lparr>kmem := m\<rparr>) = nextpid k \<and> ftable (k\<lparr>kmem := m\<rparr>) = ftable k"
    "nextpid (upd_proc (k\<lparr>kmem := m\<rparr>) p g) = nextpid k \<and> ftable (upd_proc (k\<lparr>kmem := m\<rparr>) p g) = ftable k" for m g by (simp_all add: upd_proc_def)
  have "\<exists>sz. sets k p ((proc_at k p)\<lparr>psz := sz\<rparr>) k1 \<and> nextpid k1 = nextpid k \<and> ftable k1 = ftable k"
  proof (cases "n > 0")
    case True
    with r obtain sz1 m where "(if sz1 = 0 then ret (-1, k\<lparr>kmem := m\<rparr>) else ret (0, upd_proc (k\<lparr>kmem := m\<rparr>) p (\<lambda>x. x\<lparr>psz := sz1\<rparr>))) = ret (r, k1)"
      unfolding growproc_def Let_def by (auto elim!: rbind_retE)
    then have "k1 = k\<lparr>kmem := m\<rparr> \<or> k1 = upd_proc (k\<lparr>kmem := m\<rparr>) p (\<lambda>x. x\<lparr>psz := sz1\<rparr>)" by (simp split: if_splits)
    then show ?thesis using same [of m] upd [of sz1 m] keep by blast
  next
    case False
    show ?thesis
    proof (cases "n < 0")
      case True
      with r obtain sz1 m where "k1 = upd_proc (k\<lparr>kmem := m\<rparr>) p (\<lambda>x. x\<lparr>psz := sz1\<rparr>)"
        unfolding growproc_def Let_def by (auto elim!: rbind_retE)
      then show ?thesis using upd [of sz1 m] keep by blast
    next
      case f: False
      then have "k1 = upd_proc k p (\<lambda>x. x\<lparr>psz := psz (proc_at k p)\<rparr>)" using r False unfolding growproc_def Let_def by simp
      then show ?thesis by (intro exI [of _ "psz (proc_at k p)"]) (simp add: sets_def upd_proc_def)
    qed
  qed
  then show ?thesis using that by blast
qed

lemma growproc_pinv:
  assumes k: "pinv k" and c: "cpu_proc k c = Some p" and r: "growproc k p n = ret (r, k1)"
  shows "pinv k1"
proof (rule growproc_ok [OF r])
  fix sz assume "sets k p ((proc_at k p)\<lparr>psz := sz\<rparr>) k1" "nextpid k1 = nextpid k"
  then show ?thesis by (rule stay_pinv [OF k c]) (use running [OF k c] in simp_all)
qed

lemma kill_pinv:
  assumes k: "pinv k" and r: "kill k pid = (r, k1)"
  shows "pinv k1"
proof (cases "find (\<lambda>p. ppid (proc_at k p) = pid) [0..<length (procs k)]")
  case None
  then show ?thesis using r k by (simp add: kill_def)
next
  case (Some p)
  then have p: "p < length (procs k)" by (auto simp: find_Some_iff)
  let ?x = "(proc_at k p)\<lparr>pkilled := True\<rparr>"
  let ?k = "upd_proc k p (\<lambda>_. ?x)"
  have eq: "entry_ok n ?x = entry_ok n (proc_at k p)" "living ?x = living (proc_at k p)" for n by (cases "pstate (proc_at k p)"; simp add: entry_ok_def living_def)+
  have same: "length (procs ?k) = length (procs k)" "living (proc_at ?k q) = living (proc_at k q)" "pstate (proc_at ?k q) = pstate (proc_at k q)" "parent (proc_at ?k q) = parent (proc_at k q)"
    "ppid (proc_at ?k q) = ppid (proc_at k q)" "pchan (proc_at ?k q) = pchan (proc_at k q)" "entry_ok n (proc_at ?k q) = entry_ok n (proc_at k q)" for q n
    using p eq by (auto simp: nth_list_update)
  have k2: "pinv ?k" using k unfolding pinv_def ptab_ok_def kids_ok_def pids_ok_def cpus_ok_def no_lost_exit_def waiting_def same(2-) by simp
  have k1: "k1 = upd_proc k p (\<lambda>x. x\<lparr>pkilled := True, pstate := if pstate x = SLEEPING then RUNNABLE else pstate x\<rparr>)"
    using r Some by (simp add: kill_def)
  have par: "parent (proc_at k1 q) = parent (proc_at ?k q)" if "q < length (procs ?k)" for q using that k1 p by (auto simp: nth_list_update)
  have "proc_at k1 q = (proc_at ?k q)\<lparr>pstate := pstate (proc_at k1 q), parent := parent (proc_at k1 q)\<rparr> \<and>
      (pstate (proc_at k1 q) = pstate (proc_at ?k q) \<or> pstate (proc_at ?k q) = SLEEPING \<and> pstate (proc_at k1 q) = RUNNABLE)" if "q < length (procs ?k)" for q
    using that p unfolding k1 by (auto simp: nth_list_update)
  moreover have "length (procs k1) = length (procs ?k)" "initproc k1 = initproc ?k" "nextpid k1 = nextpid ?k" "cpu_proc k1 = cpu_proc ?k" by (simp_all add: k1)
  ultimately have "woke ?k k1" unfolding woke_def by blast
  then show ?thesis using woke_ptab [of ?k k1] no_lost_woke [of ?k k1] k2 par unfolding pinv_def by blast
qed

text \<open>A new process, and an entry that becomes free.\<close>

lemma new_pinv:
  assumes k: "pinv k" and p: "p < length (procs k)" "pstate (proc_at k p) = UNUSED" and s: "sets k p x k1" "nextpid k1 = nextpid k + 1"
    and x: "pstate x = RUNNABLE" "ppid x = nextpid k" "pagetable x \<noteq> 0" "trapframe x \<noteq> 0" "parent x = Some q" "length (ofile x) = NOFILE"
    and q: "q < length (procs k)" "living (proc_at k q)"
  shows "pinv k1"
proof -
  have i: "initproc k \<noteq> Some p" using k p by (auto simp: pinv_def ptab_ok_def kids_ok_def living_def)
  have n: "0 < nextpid k" using k by (simp add: pinv_def ptab_ok_def pids_ok_def)
  have qp: "q \<noteq> p" using q p by (auto simp: living_def)
  have lv: "living x" using x(1) by (simp add: living_def)
  have at: "length (procs k1) = length (procs k)" "proc_at k1 p = x" "r \<noteq> p \<Longrightarrow> proc_at k1 r = proc_at k r" "initproc k1 = initproc k" for r using s p by (simp_all add: sets_def)
  have ent: "r < length (procs k) \<Longrightarrow> entry_ok (nextpid k) (proc_at k r)" for r using k by (rule pinv_entry)
  have "entry_ok (nextpid k1) (proc_at k1 r)" if "r < length (procs k)" for r
    using entry_ok_mono [OF ent [OF that], of "nextpid k1"] at s(2) x n lv by (cases "r = p") (simp_all add: entry_living)
  moreover have "cpus_ok k1" using cpus_keep [of k p k1 x] k p s x by (simp add: pinv_def ptab_ok_def sets_def)
  moreover have "pids_ok k1" unfolding pids_ok_def at(1)
  proof (intro conjI allI impI)
    show "0 < nextpid k1" using n s(2) by simp
    fix r t assume rt: "r < length (procs k)" "t < length (procs k)" "r \<noteq> t \<and> pstate (proc_at k1 r) \<noteq> UNUSED \<and> pstate (proc_at k1 t) \<noteq> UNUSED"
    have "ppid (proc_at k1 u) = nextpid k \<longleftrightarrow> u = p" if "u < length (procs k)" "pstate (proc_at k1 u) \<noteq> UNUSED" for u
      using that at(2) at(3) [of u] x(2) entry_pid [OF ent, of u] by (cases "u = p") auto
    then show "ppid (proc_at k1 r) \<noteq> ppid (proc_at k1 t)"
      using rt at(3) [of r] at(3) [of t] k unfolding pinv_def ptab_ok_def pids_ok_def by metis
  qed
  moreover have "kids_ok k1"
  proof -
    have l: "living (proc_at k r) \<Longrightarrow> living (proc_at k1 r)" for r using at(2,3) lv by (cases "r = p") simp_all
    have "\<exists>t<length (procs k). parent (proc_at k1 r) = Some t \<and> t \<noteq> r \<and> living (proc_at k t)"
      if "r < length (procs k)" "pstate (proc_at k1 r) \<noteq> UNUSED" "initproc k \<noteq> Some r" for r
      using k that at(2) at(3) [of r] q qp x(5) unfolding pinv_def ptab_ok_def kids_ok_def by (cases "r = p") simp_all
    moreover have "\<exists>i<length (procs k). initproc k = Some i \<and> living (proc_at k i)" using k by (simp add: pinv_def ptab_ok_def kids_ok_def)
    ultimately show ?thesis unfolding kids_ok_def at(1,4) using l by meson
  qed
  moreover have "no_lost_exit k1" using no_lost_replace [of k p k1 x] k p s x(1) by (simp add: pinv_def sets_def)
  ultimately show ?thesis using at(1) by (simp add: pinv_def ptab_ok_def)
qed

lemma free_pinv:
  assumes k: "pinv k" and p: "p < length (procs k)" "pstate (proc_at k p) = UNUSED \<or> pstate (proc_at k p) = ZOMBIE" and s: "sets k p x k1" "nextpid k \<le> nextpid k1"
    and x: "cleared x" "ofile x = ofile (proc_at k p)"
  shows "pinv k1"
proof -
  have np: "\<not> living (proc_at k p)" using p(2) by (auto simp: living_def)
  have at: "length (procs k1) = length (procs k)" "proc_at k1 p = x" "r \<noteq> p \<Longrightarrow> proc_at k1 r = proc_at k r" "initproc k1 = initproc k" for r using s p by (simp_all add: sets_def)
  have xs: "pstate x = UNUSED" using x(1) by (simp add: cleared_def)
  have ent: "r < length (procs k) \<Longrightarrow> entry_ok (nextpid k) (proc_at k r)" for r using k by (rule pinv_entry)
  have "entry_ok (nextpid k1) x" using entry_cleared [OF x(1)] ent [OF p(1)] p(2) x(2) by (auto simp: entry_ok_def)
  then have "entry_ok (nextpid k1) (proc_at k1 r)" if "r < length (procs k)" for r
    using entry_ok_mono [OF ent [OF that], of "nextpid k1"] at s(2) by (cases "r = p") simp_all
  moreover have "cpus_ok k1" using cpus_keep [of k p k1 x] k p s xs by (auto simp: pinv_def ptab_ok_def sets_def)
  moreover have "pids_ok k1" using k s(2) xs at(2,3) unfolding pinv_def ptab_ok_def pids_ok_def at(1) by (metis order_less_le_trans)
  moreover have "kids_ok k1"
  proof -
    have l: "living (proc_at k r) \<Longrightarrow> living (proc_at k1 r)" for r using at(3) [of r] np by (cases "r = p") simp_all
    have "\<exists>t<length (procs k). parent (proc_at k1 r) = Some t \<and> t \<noteq> r \<and> living (proc_at k t)"
      if "r < length (procs k)" "pstate (proc_at k1 r) \<noteq> UNUSED" "initproc k \<noteq> Some r" for r
      using k that at(2) at(3) [of r] xs unfolding pinv_def ptab_ok_def kids_ok_def by (cases "r = p") simp_all
    moreover have "\<exists>i<length (procs k). initproc k = Some i \<and> living (proc_at k i)" using k by (simp add: pinv_def ptab_ok_def kids_ok_def)
    ultimately show ?thesis unfolding kids_ok_def at(1,4) using l by meson
  qed
  moreover have "no_lost_exit k1" using no_lost_replace [of k p k1 x] k p s xs by (simp add: pinv_def sets_def)
  ultimately show ?thesis using at(1) by (simp add: pinv_def ptab_ok_def)
qed

section \<open>Fork, exit and wait\<close>

lemma sets_same: "same_tab k k1 \<Longrightarrow> p < length (procs k) \<Longrightarrow> sets k p (proc_at k p) k1"
  by (simp add: sets_def same_tab_def)

lemma fork_fill_ok:
  assumes r: "fork_fill k p np = ret (r, k1)" and np: "np < length (procs k)"
  obtains x where "r = ppid (proc_at k np)" "sets k np x k1" "nextpid k1 = nextpid k" "pstate x = RUNNABLE" "ppid x = ppid (proc_at k np)" "parent x = Some p"
    "pagetable x = pagetable (proc_at k np)" "trapframe x = trapframe (proc_at k np)" "length (ofile x) = length (ofile (proc_at k np))" "pkilled x = pkilled (proc_at k np)"
proof -
  let ?x = "(proc_at k np)\<lparr>psz := psz (proc_at k p)\<rparr>"
  let ?k2 = "upd_proc k np (\<lambda>x. x\<lparr>psz := psz (proc_at k p)\<rparr>)"
  let ?k4 = "set_tf (?k2\<lparr>kmem := (kmem ?k2)\<lparr>ram := memmove (ram (kmem ?k2)) (trapframe (proc_at ?k2 np)) (trapframe (proc_at ?k2 p)) TF_SIZE\<rparr>\<rparr>) np TF_A0 0"
  have s4: "sets k np ?x ?k4" "nextpid ?k4 = nextpid k" "np < length (procs ?k4)" "proc_at ?k4 np = ?x" using np by (simp_all add: sets_def set_tf_def)
  obtain k5 ip where d: "dup_files ?k4 np (ofile (proc_at ?k4 p)) 0 = ret k5" "cwd (proc_at k5 p) = Some ip"
    and k1: "k1 = upd_proc (upd_proc (upd_proc (k5\<lparr>kfs := idup (kfs k5) ip\<rparr>) np (\<lambda>x. x\<lparr>cwd := Some ip, pname := name_copy (pname x) (pname (proc_at k5 p))\<rparr>))
      np (\<lambda>x. x\<lparr>parent := Some p\<rparr>)) np (\<lambda>x. x\<lparr>pstate := RUNNABLE\<rparr>)"
    and rr: "r = ppid (proc_at (upd_proc (k5\<lparr>kfs := idup (kfs k5) ip\<rparr>) np (\<lambda>x. x\<lparr>cwd := Some ip, pname := name_copy (pname x) (pname (proc_at k5 p))\<rparr>)) np)"
    using r unfolding fork_fill_def Let_def by (elim rbind_retE) (simp only: ret_eq prod.inject undef_neq_ret split: option.splits)
  obtain fl where fl: "sets ?k4 np ((proc_at ?k4 np)\<lparr>ofile := fl\<rparr>) k5" "nextpid k5 = nextpid ?k4" "length fl = length (ofile (proc_at ?k4 np))"
    using dup_files_ok [OF d(1) s4(3)] by blast
  let ?y = "?x\<lparr>ofile := fl, cwd := Some ip, pname := name_copy (pname ?x) (pname (proc_at k5 p)), parent := Some p, pstate := RUNNABLE\<rparr>"
  have s5: "sets k np (?x\<lparr>ofile := fl\<rparr>) k5" using fl(1) s4(1,4) by (simp add: sets_def)
  then have at5: "proc_at k5 np = ?x\<lparr>ofile := fl\<rparr>" "np < length (procs k5)" using np by (simp_all add: sets_def)
  have "sets k np ?y k1" using s5 at5 np unfolding k1 by (simp add: sets_def)
  moreover have "nextpid k1 = nextpid k" using fl(2) s4(2) unfolding k1 by simp
  moreover have "r = ppid (proc_at k np)" using rr at5 by simp
  ultimately show ?thesis using that [of ?y] fl(3) s4(4) by simp
qed

text \<open>The child that \<^verbatim>\<open>fork\<close> makes, or the entry it gives back.\<close>

lemma fork_ok:
  assumes r: "fork tr fr k p = ret (r, k1)"
  obtains "r = -1" "k1 = k"
  | np x where "r = -1" "np < length (procs k)" "pstate (proc_at k np) = UNUSED" "sets k np x k1" "nextpid k1 = nextpid k + 1" "cleared x" "ofile x = ofile (proc_at k np)"
  | np x where "r = nextpid k" "np < length (procs k)" "pstate (proc_at k np) = UNUSED" "sets k np x k1" "nextpid k1 = nextpid k + 1"
      "pstate x = RUNNABLE" "ppid x = nextpid k" "pagetable x \<noteq> 0" "trapframe x \<noteq> 0" "parent x = Some p" "length (ofile x) = length (ofile (proc_at k np))"
      "pkilled x = pkilled (proc_at k np)"
proof -
  obtain npo k2 where a: "allocproc tr fr k = ret (npo, k2)" using r unfolding fork_def by (auto elim!: rbind_retE)
  show ?thesis
  proof (rule allocproc_ok [OF a])
    assume "npo = None" "k2 = k"
    then show ?thesis using r a that(1) unfolding fork_def by simp
  next
    fix np x assume "npo = None" "np < length (procs k)" "pstate (proc_at k np) = UNUSED" "sets k np x k2" "nextpid k2 = nextpid k + 1" "cleared x"
      "ofile x = ofile (proc_at k np)"
    moreover have "r = -1" "k1 = k2" using r a \<open>npo = None\<close> unfolding fork_def by simp_all
    ultimately show ?thesis using that(2) by simp
  next
    fix np tf pt
    let ?x = "(proc_at k np)\<lparr>ppid := nextpid k, pstate := USED, trapframe := tf, pagetable := pt, ctx_ra := fr, ctx_sp := kstack (proc_at k np) + 4096\<rparr>"
    assume npo: "npo = Some np" and np: "np < length (procs k)" "pstate (proc_at k np) = UNUSED" and n: "nextpid k2 = nextpid k + 1" and tf: "tf \<noteq> 0" "pt \<noteq> 0" and s: "sets k np ?x k2"
    have np2: "np < length (procs k2)" "proc_at k2 np = ?x" using s np by (simp_all add: sets_def)
    obtain ok m where u: "(if \<not> ok then rbind (freeproc (k2\<lparr>kmem := m\<rparr>) np) (\<lambda>k2. ret (-1, k2)) else fork_fill (k2\<lparr>kmem := m\<rparr>) p np) = ret (r, k1)"
      using r unfolding fork_def a npo by (auto elim!: rbind_retE)
    show ?thesis
    proof (cases ok)
      case False
      then obtain k3 where f: "freeproc (k2\<lparr>kmem := m\<rparr>) np = ret k3" "r = -1" "k1 = k3" using u by (auto elim!: rbind_retE)
      obtain x where "sets (k2\<lparr>kmem := m\<rparr>) np x k3" "nextpid k3 = nextpid (k2\<lparr>kmem := m\<rparr>)" "cleared x" "ofile x = ofile (proc_at (k2\<lparr>kmem := m\<rparr>) np)"
        by (rule freeproc_ok [OF f(1)])
      then show ?thesis using that(2) [of np x] np np2 n s f by (simp add: sets_def)
    next
      case True
      then have u: "fork_fill (k2\<lparr>kmem := m\<rparr>) p np = ret (r, k1)" using u by simp
      show ?thesis
      proof (rule fork_fill_ok [OF u])
        show "np < length (procs (k2\<lparr>kmem := m\<rparr>))" using np2 by simp
      next
        fix x
        assume x: "r = ppid (proc_at (k2\<lparr>kmem := m\<rparr>) np)" "sets (k2\<lparr>kmem := m\<rparr>) np x k1" "nextpid k1 = nextpid (k2\<lparr>kmem := m\<rparr>)" "pstate x = RUNNABLE" "ppid x = ppid (proc_at (k2\<lparr>kmem := m\<rparr>) np)"
          "parent x = Some p" "pagetable x = pagetable (proc_at (k2\<lparr>kmem := m\<rparr>) np)" "trapframe x = trapframe (proc_at (k2\<lparr>kmem := m\<rparr>) np)"
          "length (ofile x) = length (ofile (proc_at (k2\<lparr>kmem := m\<rparr>) np))" "pkilled x = pkilled (proc_at (k2\<lparr>kmem := m\<rparr>) np)"
        have "sets k np x k1" using x(2) s by (simp add: sets_def)
        then show ?thesis using that(3) [of np x] np np2 tf n x by simp
      qed
    qed
  qed
qed

lemma fork_pinv:
  assumes k: "pinv k" and c: "cpu_proc k c = Some p" and r: "fork tr fr k p = ret (r, k1)"
  shows "pinv k1"
proof -
  have p: "p < length (procs k)" "living (proc_at k p)" using running [OF k c] by (simp_all add: living_def)
  show ?thesis
  proof (rule fork_ok [OF r])
    fix np x assume x: "np < length (procs k)" "pstate (proc_at k np) = UNUSED" "sets k np x k1" "nextpid k1 = nextpid k + 1" "cleared x" "ofile x = ofile (proc_at k np)"
    then show ?thesis using free_pinv [OF k x(1) _ x(3)] by simp
  next
    fix np x assume x: "np < length (procs k)" "pstate (proc_at k np) = UNUSED" "sets k np x k1" "nextpid k1 = nextpid k + 1"
      "pstate x = RUNNABLE" "ppid x = nextpid k" "pagetable x \<noteq> 0" "trapframe x \<noteq> 0" "parent x = Some p" "length (ofile x) = length (ofile (proc_at k np))"
    have "length (ofile x) = NOFILE" using pinv_entry [OF k x(1)] x(10) by (simp add: entry_ok_def)
    then show ?thesis using new_pinv [OF k x(1-9) _ p] by simp
  qed (use k in simp)
qed

lemma reparent_pinv:
  assumes k: "pinv k" and p: "initproc k \<noteq> Some p" and r: "reparent k p = ret k1"
  shows "pinv k1 \<and> woke k k1 \<and> (\<forall>q<length (procs k). parent (proc_at k1 q) \<noteq> Some p)"
proof -
  obtain i where i: "initproc k = Some i" "i < length (procs k)" "living (proc_at k i)" using k by (auto simp: pinv_def ptab_ok_def kids_ok_def)
  have ip: "i \<noteq> p" using p i by auto
  have sub: "set [0..<length (procs k)] \<subseteq> {..<length (procs k)}" by auto
  have w: "woke k k1" and par: "\<And>q. q < length (procs k) \<Longrightarrow> parent (proc_at k1 q) = (if parent (proc_at k q) = Some p then Some i else parent (proc_at k q))"
    and nw: "(\<exists>q<length (procs k). parent (proc_at k q) = Some p) \<longrightarrow> \<not> waiting k1 i"
    using reparent_loop_ok [OF r [unfolded reparent_def] sub i(1,2) ip] by auto
  have z: "parent (proc_at k q) = Some p \<Longrightarrow> q < length (procs k) \<Longrightarrow> initproc k \<noteq> Some q \<longrightarrow> i \<noteq> q" for q using i(1) by auto
  have "ptab_ok k1"
  proof (rule woke_ptab [OF _ w], use k in \<open>simp add: pinv_def\<close>, intro allI impI)
    fix q assume q: "q < length (procs k)"
    show "parent (proc_at k1 q) = parent (proc_at k q) \<or> parent (proc_at k q) \<noteq> None \<and>
      (\<exists>i<length (procs k). parent (proc_at k1 q) = Some i \<and> living (proc_at k i) \<and> (initproc k \<noteq> Some q \<longrightarrow> i \<noteq> q))"
      using par [OF q] i z [OF _ q] by (cases "parent (proc_at k q) = Some p") simp_all
  qed
  moreover have "no_lost_exit k1" unfolding no_lost_exit_def
  proof (intro allI impI)
    fix y q assume y: "y < length (procs k1)" "q < length (procs k1)" "pstate (proc_at k1 y) = ZOMBIE \<and> parent (proc_at k1 y) = Some q"
    then have n: "y < length (procs k)" "q < length (procs k)" using woke_fields [OF w] by simp_all
    show "\<not> waiting k1 q"
    proof (cases "parent (proc_at k y) = Some p")
      case True
      then show ?thesis using nw par n y by auto
    next
      case False
      then show ?thesis using k n y par [OF n(1)] wokeD(7) [OF w n(1)] woke_waiting [OF w n(2)] by (auto simp: pinv_def no_lost_exit_def)
    qed
  qed
  ultimately show ?thesis using w par ip by (simp add: pinv_def)
qed

lemma parent_ok:
  assumes "pinv k" and "p < length (procs k)" and "pstate (proc_at k p) \<noteq> UNUSED" and "initproc k \<noteq> Some p" and "parent (proc_at k p) = Some q"
  shows "q < length (procs k) \<and> q \<noteq> p \<and> living (proc_at k q)"
  using assms unfolding pinv_def ptab_ok_def kids_ok_def by force

text \<open>The last step of \<^verbatim>\<open>exit\<close>.\<close>

lemma zombie_pinv:
  assumes k: "pinv k" and c: "cpu_proc k c = Some p" and i: "initproc k \<noteq> Some p" and kids: "\<forall>q<length (procs k). parent (proc_at k q) \<noteq> Some p"
    and q: "parent (proc_at k p) = Some q" "\<not> waiting k q" and cl: "cwd (proc_at k p) = None" "\<forall>fd<NOFILE. ofile (proc_at k p) ! fd = None"
    and k1: "k1 = switch_out (upd_proc k p (\<lambda>x. x\<lparr>xstate := status, pstate := ZOMBIE\<rparr>)) c"
  shows "pinv k1"
proof -
  let ?x = "(proc_at k p)\<lparr>xstate := status, pstate := ZOMBIE\<rparr>"
  note p = running [OF k c]
  have s: "procs k1 = (procs k)[p := ?x]" "initproc k1 = initproc k" "nextpid k1 = nextpid k" "cpu_proc k1 = (cpu_proc k)(c := None)" by (simp_all add: k1 switch_out_def)
  have at: "length (procs k1) = length (procs k)" "proc_at k1 p = ?x" "r \<noteq> p \<Longrightarrow> proc_at k1 r = proc_at k r" for r using s p by simp_all
  have ent: "entry_ok (nextpid k1) (proc_at k1 r)" if "r < length (procs k)" for r
    using pinv_entry [OF k that] at s(3) cl p by (cases "r = p") (simp_all add: entry_ok_def)
  have "cpus_ok k1" using cpus_leave [OF _ c s(1,4)] k by (simp add: pinv_def ptab_ok_def)
  moreover have "pids_ok k1"
  proof -
    have "ppid (proc_at k1 r) = ppid (proc_at k r)" "pstate (proc_at k1 r) = UNUSED \<longleftrightarrow> pstate (proc_at k r) = UNUSED" for r using at p by (cases "r = p"; simp)+
    then show ?thesis using k s(3) at(1) by (simp add: pinv_def ptab_ok_def pids_ok_def)
  qed
  moreover have "kids_ok k1"
  proof -
    have l: "living (proc_at k1 r) = living (proc_at k r)" if "r \<noteq> p" for r using at(3) [OF that] by simp
    have "pstate (proc_at k1 r) = UNUSED \<longleftrightarrow> pstate (proc_at k r) = UNUSED" "parent (proc_at k1 r) = parent (proc_at k r)" for r using at p by (cases "r = p"; simp)+
    then show ?thesis using k l kids i unfolding pinv_def ptab_ok_def kids_ok_def at(1) s(2) by metis
  qed
  moreover have "no_lost_exit k1" unfolding no_lost_exit_def at(1)
  proof (intro allI impI)
    fix z r assume z: "z < length (procs k)" "r < length (procs k)" "pstate (proc_at k1 z) = ZOMBIE \<and> parent (proc_at k1 z) = Some r"
    have w: "waiting k1 t \<Longrightarrow> waiting k t" for t using at(2) at(3) [of t] by (cases "t = p") (simp_all add: waiting_def)
    show "\<not> waiting k1 r"
    proof (cases "z = p")
      case True
      then show ?thesis using z(3) q at(2) w by auto
    next
      case False
      then show ?thesis using z at(3) w k by (auto simp: pinv_def no_lost_exit_def)
    qed
  qed
  ultimately show ?thesis using ent at(1) by (simp add: pinv_def ptab_ok_def)
qed

lemma exit_pinv:
  assumes k: "pinv k" and r: "exit k c status = ret k1"
  shows "pinv k1"
proof -
  obtain p where c: "cpu_proc k c = Some p" and i: "initproc k \<noteq> Some p" using r by (auto simp: exit_def myproc_def split: option.splits if_splits)
  note p = running [OF k c]
  obtain k2 k3 k4 k5 k6 ip q where e: "close_files k p [0..<NOFILE] = ret k2" "on_fs k2 fs_begin = ret k3" "cwd (proc_at k3 p) = Some ip" "on_fs k3 (\<lambda>s. iput s p ip) = ret k4"
    "on_fs k4 (fs_end p) = ret k5" "reparent (upd_proc k5 p (\<lambda>x. x\<lparr>cwd := None\<rparr>)) p = ret k6" "parent (proc_at k6 p) = Some q"
    "k1 = switch_out (upd_proc (wakeup k6 (Some p) (ProcAt q)) p (\<lambda>x. x\<lparr>xstate := status, pstate := ZOMBIE\<rparr>)) c"
    using r c i unfolding exit_def myproc_def by (auto elim!: rbind_retE simp: Let_def split: option.splits)
  obtain fl where fl: "sets k p ((proc_at k p)\<lparr>ofile := fl\<rparr>) k2" "nextpid k2 = nextpid k" "length fl = length (ofile (proc_at k p))" "\<forall>j<length fl. j < NOFILE \<longrightarrow> fl ! j = None"
    using close_files_ok [OF e(1) conjunct1 [OF p]] by auto
  have lf: "length fl = NOFILE" using fl(3) pinv_entry [OF k conjunct1 [OF p]] by (simp add: entry_ok_def)
  have "same_tab k2 k5" using on_fs_tab [OF e(2)] on_fs_tab [OF e(4)] on_fs_tab [OF e(5)] same_tab_trans by blast
  then have s5: "sets k p ((proc_at k p)\<lparr>ofile := fl, cwd := None\<rparr>) (upd_proc k5 p (\<lambda>x. x\<lparr>cwd := None\<rparr>))" "nextpid (upd_proc k5 p (\<lambda>x. x\<lparr>cwd := None\<rparr>)) = nextpid k"
    using fl(1,2) p by (simp_all add: sets_def same_tab_def)
  let ?k = "upd_proc k5 p (\<lambda>x. x\<lparr>cwd := None\<rparr>)"
  have k5: "pinv ?k" by (rule stay_pinv [OF k c s5]) (use p fl(3) in simp_all)
  have i5: "initproc ?k \<noteq> Some p" "p < length (procs ?k)" "cpu_proc ?k c = Some p" using s5 i p c by (simp_all add: sets_def)
  have k6: "pinv k6" "woke ?k k6" "\<forall>q<length (procs ?k). parent (proc_at k6 q) \<noteq> Some p" using reparent_pinv [OF k5 i5(1) e(6)] by simp_all
  let ?k7 = "wakeup k6 (Some p) (ProcAt q)"
  have w7: "woke ?k ?k7" using woke_trans [OF k6(2) wakeup_woke] .
  note f7 = woke_fields [OF w7] and f6 = woke_fields [OF k6(2)] and d7 = wokeD [OF w7 i5(2)]
  have at: "proc_at ?k p = (proc_at k p)\<lparr>ofile := fl, cwd := None\<rparr>" using s5(1) p by (simp add: sets_def)
  have p6: "p < length (procs k6)" using f6 i5(2) by simp
  have "pstate (proc_at k6 p) \<noteq> UNUSED" "initproc k6 \<noteq> Some p" using wokeD(5) [OF k6(2) i5(2)] at p f6 i5(1) by simp_all
  then have "q \<noteq> p" "q < length (procs k6)" using parent_ok [OF k6(1) p6 _ _ e(7)] by simp_all
  then have nw: "\<not> waiting ?k7 q" using wakeup_waiting [of q k6 "Some p"] by simp
  show ?thesis
  proof (rule zombie_pinv [OF wakeup_pinv [OF k6(1)] _ _ _ _ nw _ _ e(8)])
    show "cpu_proc ?k7 c = Some p" "initproc ?k7 \<noteq> Some p" using f7 i5 by simp_all
    show "\<forall>q<length (procs ?k7). parent (proc_at ?k7 q) \<noteq> Some p" using k6(3) f6 by simp
    show "parent (proc_at ?k7 p) = Some q" using e(7) p6 by simp
    show "cwd (proc_at ?k7 p) = None" "\<forall>fd<NOFILE. ofile (proc_at ?k7 p) ! fd = None" using d7(2,3) at fl(4) lf by simp_all
  qed
qed

lemma wait_pinv:
  assumes k: "pinv k" and r: "wait k c kb addr = ret (r, k1)"
  shows "pinv k1"
proof -
  obtain p where c: "cpu_proc k c = Some p" using r by (auto simp: wait_def myproc_def split: option.splits)
  note p = running [OF k c]
  let ?kids = "filter (\<lambda>pp. parent (proc_at k pp) = Some p) [0..<length (procs k)]"
  show ?thesis
  proof (cases "find (\<lambda>pp. pstate (proc_at k pp) = ZOMBIE) ?kids")
    case None
    then have nz: "\<forall>z<length (procs k). parent (proc_at k z) = Some p \<longrightarrow> pstate (proc_at k z) \<noteq> ZOMBIE" by (auto simp: find_None_iff)
    show ?thesis
    proof (cases "?kids = [] \<or> pkilled (proc_at k p)")
      case True
      then show ?thesis using r k c None unfolding wait_def myproc_def Let_def by simp
    next
      case False
      then have k1: "k1 = switch_out (upd_proc k p (\<lambda>x. x\<lparr>pchan := Some (ProcAt p), pstate := SLEEPING\<rparr>)) c"
        using r c None unfolding wait_def myproc_def Let_def sleep_on_def by simp
      let ?x = "(proc_at k p)\<lparr>pchan := Some (ProcAt p), pstate := SLEEPING\<rparr>"
      have s: "procs k1 = (procs k)[p := ?x]" "initproc k1 = initproc k" "nextpid k1 = nextpid k" "cpu_proc k1 = (cpu_proc k)(c := None)" by (simp_all add: k1 switch_out_def)
      have "cpus_ok k1" using cpus_leave [OF _ c s(1,4)] k by (simp add: pinv_def ptab_ok_def)
      then have "ptab_ok k1" using ptab_replace [OF _ conjunct1 [OF p] s(1-3)] k p pinv_entry [OF k conjunct1 [OF p]] by (simp add: pinv_def living_def entry_ok_def)
      moreover have "no_lost_exit k1" unfolding no_lost_exit_def
      proof (intro allI impI)
        fix z q assume z: "z < length (procs k1)" "q < length (procs k1)" "pstate (proc_at k1 z) = ZOMBIE \<and> parent (proc_at k1 z) = Some q"
        then have z1: "z \<noteq> p" "pstate (proc_at k z) = ZOMBIE" "parent (proc_at k z) = Some q" using s(1) p by (auto simp: nth_list_update split: if_splits)
        then have "q \<noteq> p" using nz z s(1) by auto
        then show "\<not> waiting k1 q" using k z z1 s(1) by (auto simp: pinv_def no_lost_exit_def waiting_def)
      qed
      ultimately show ?thesis by (simp add: pinv_def)
    qed
  next
    case (Some pp)
    then have "pp \<in> set ?kids" and pp2: "pstate (proc_at k pp) = ZOMBIE" unfolding find_Some_iff by (metis nth_mem)+
    then have pp: "pp < length (procs k)" "pstate (proc_at k pp) = ZOMBIE" by auto
    obtain ok m where u: "(if \<not> ok then ret (WRet (-1), k\<lparr>kmem := m\<rparr>) else rbind (freeproc (k\<lparr>kmem := m\<rparr>) pp) (\<lambda>k1. ret (WRet (ppid (proc_at k pp)), k1))) = ret (r, k1)"
      using r c Some unfolding wait_def myproc_def Let_def by (auto split: prod.splits)
    show ?thesis
    proof (cases ok)
      case False
      then have "k1 = k\<lparr>kmem := m\<rparr>" using u by simp
      then show ?thesis using pinv_same [OF k, of k1] by simp
    next
      case True
      then have f: "freeproc (k\<lparr>kmem := m\<rparr>) pp = ret k1" using u by (auto elim!: rbind_retE)
      show ?thesis
      proof (rule freeproc_ok [OF f])
        fix x assume x: "sets (k\<lparr>kmem := m\<rparr>) pp x k1" "nextpid k1 = nextpid (k\<lparr>kmem := m\<rparr>)" "cleared x" "ofile x = ofile (proc_at (k\<lparr>kmem := m\<rparr>) pp)"
        then have "sets k pp x k1" by (simp add: sets_def)
        then show ?thesis using free_pinv [OF k pp(1) _ _ _ x(3)] pp(2) x by simp
      qed
    qed
  qed
qed

end
