(* ===== verification/ProcSpec.thy ===== *)
theory ProcSpec
  imports ProcInv FsSpec
begin

text \<open>
  The runs of the processors, from the state that \<^verbatim>\<open>userinit\<close> leaves, as sequences of the operations of \<^verbatim>\<open>kernel/proc.c\<close>; and
  what holds of the process table in all of them.
\<close>

declare split_paired_All [simp del] split_paired_Ex [simp del]

section \<open>Runs\<close>

text \<open>
  A step is an operation on the table by processor \<open>c\<close>: the scheduler when it runs no process, else a call of the process
  that it runs; an interrupt handler can wake processes at any time.  \<open>sleep\<close> is called with the address of a kernel
  object; only \<^verbatim>\<open>wait\<close> sleeps on a process.  A process changes the fields that are private to it, for example when it opens
  a file or in \<^verbatim>\<open>exec\<close>; it keeps 16 descriptors and has a page table.  All other work leaves the table as it is.
\<close>

inductive pstep :: "uint64 \<Rightarrow> uint64 \<Rightarrow> kern \<Rightarrow> kern \<Rightarrow> bool" for trampoline forkret where
  sched: "cpu_proc k c = None \<Longrightarrow> scheduler k c i = (r, k1) \<Longrightarrow> pstep trampoline forkret k k1"
| yield: "yield k c = ret k1 \<Longrightarrow> pstep trampoline forkret k k1"
| sleep: "sleep k c (Addr a) = ret k1 \<Longrightarrow> pstep trampoline forkret k k1"
| woken: "cpu_proc k c = Some p \<Longrightarrow> pstep trampoline forkret k (woken k p)"
| wakeup: "pstep trampoline forkret k (wakeup k (myproc k c) ch)"
| kill: "cpu_proc k c = Some p \<Longrightarrow> kill k pid = (r, k1) \<Longrightarrow> pstep trampoline forkret k k1"
| setkilled: "cpu_proc k c = Some p \<Longrightarrow> pstep trampoline forkret k (setkilled k p)"
| fork: "cpu_proc k c = Some p \<Longrightarrow> fork trampoline forkret k p = ret (r, k1) \<Longrightarrow> pstep trampoline forkret k k1"
| exit: "exit k c status = ret k1 \<Longrightarrow> pstep trampoline forkret k k1"
| wait: "wait k c kb addr = ret (w, k1) \<Longrightarrow> pstep trampoline forkret k k1"
| growproc: "cpu_proc k c = Some p \<Longrightarrow> growproc k p n = ret (r, k1) \<Longrightarrow> pstep trampoline forkret k k1"
| own: "cpu_proc k c = Some p \<Longrightarrow> length fl = NOFILE \<Longrightarrow> pt \<noteq> 0 \<Longrightarrow> nextpid k1 = nextpid k \<Longrightarrow>
     sets k p ((proc_at k p)\<lparr>psz := sz, pagetable := pt, ofile := fl, cwd := d, pname := nm\<rparr>) k1 \<Longrightarrow> pstep trampoline forkret k k1"
| other: "same_tab k k1 \<Longrightarrow> pstep trampoline forkret k k1"

lemma pstep_pinv:
  assumes "pstep tr fr k k1" and "pinv k"
  shows "pinv k1"
  using assms
proof (induction rule: pstep.induct)
  case (woken k c p)
  have "sets k p ((proc_at k p)\<lparr>pchan := None\<rparr>) (woken k p)" "nextpid (woken k p) = nextpid k" by (simp_all add: woken_def sets_def)
  then show ?case using stay_pinv [OF woken(2,1)] running [OF woken(2,1)] by simp
next
  case (setkilled k c p)
  have "sets k p ((proc_at k p)\<lparr>pkilled := True\<rparr>) (setkilled k p)" "nextpid (setkilled k p) = nextpid k" by (simp_all add: setkilled_def sets_def)
  then show ?case using stay_pinv [OF setkilled(2,1)] running [OF setkilled(2,1)] by simp
next
  case (own k c p fl pt k1 nm d sz)
  let ?x = "(proc_at k p)\<lparr>psz := sz, pagetable := pt, ofile := fl, cwd := d, pname := nm\<rparr>"
  note r = running [OF own(6,1)]
  have "cpus_ok k1" using cpus_keep [of k p k1 ?x] own(5,6) r by (simp add: pinv_def ptab_ok_def sets_def)
  moreover have "entry_ok (nextpid k) ?x" using pinv_entry [OF own(6) conjunct1 [OF r]] r own(2,3) by (simp add: entry_ok_def)
  ultimately show ?case using pinv_replace [OF own(6) conjunct1 [OF r], of k1 ?x] own(4,5) r by (simp add: living_def sets_def)
qed (auto intro: scheduler_pinv yield_pinv sleep_pinv wakeup_pinv kill_pinv fork_pinv exit_pinv wait_pinv growproc_pinv pinv_same)

lemma psteps_pinv: "(pstep tr fr)\<^sup>*\<^sup>* k k1 \<Longrightarrow> pinv k \<Longrightarrow> pinv k1"
  by (induction rule: rtranclp_induct) (auto intro: pstep_pinv)

section \<open>The first process\<close>

text \<open>The table is all zero when the kernel starts.\<close>

definition proc0 :: proc where
  "proc0 = \<lparr>pstate = UNUSED, pchan = None, pkilled = False, xstate = 0, ppid = 0, parent = None, kstack = 0, psz = 0, pagetable = 0, trapframe = 0,
     ctx_ra = 0, ctx_sp = 0, ofile = replicate NOFILE None, cwd = None, pname = replicate 16 0\<rparr>"

definition boot_tab :: "kern \<Rightarrow> bool" where
  "boot_tab k \<longleftrightarrow> procs k = replicate NPROC proc0 \<and> cpu_proc k = Map.empty \<and> nextpid k = 1 \<and> initproc k = None"

lemma procinit_nth: "p < length ps \<Longrightarrow> procinit_loop ps i ! p = (ps ! p)\<lparr>pstate := UNUSED, kstack := KSTACK (i + p)\<rparr>"
  by (induction ps i arbitrary: p rule: procinit_loop.induct) (auto simp: nth_Cons split: nat.splits)

lemma procinit_length [simp]: "length (procinit_loop ps i) = length ps"
  by (induction ps i rule: procinit_loop.induct) auto

lemma procinit_boot:
  assumes "boot_tab k"
  shows "length (procs (procinit k)) = NPROC" "p < NPROC \<Longrightarrow> proc_at (procinit k) p = proc0\<lparr>kstack := KSTACK p\<rparr>"
    "cpu_proc (procinit k) = Map.empty" "nextpid (procinit k) = 1" "initproc (procinit k) = None" "kmem (procinit k) = kmem k" "kfs (procinit k) = kfs k"
  using assms by (simp_all add: procinit_def boot_tab_def procinit_nth proc0_def)

text \<open>What \<^verbatim>\<open>userinit\<close> does after \<^verbatim>\<open>allocproc\<close>.\<close>

lemma userinit_ok:
  assumes r: "userinit tr fr ic k pid = ret k1"
  obtains p x where "p < length (procs k)" "pstate (proc_at k p) = UNUSED" "procs k1 = (procs k)[p := x]" "initproc k1 = Some p" "nextpid k1 = nextpid k + 1"
    "cpu_proc k1 = cpu_proc k" "pstate x = RUNNABLE" "ppid x = nextpid k" "pagetable x \<noteq> 0" "trapframe x \<noteq> 0" "ofile x = ofile (proc_at k p)"
proof -
  obtain po k2 where a: "allocproc tr fr k = ret (po, k2)" using r unfolding userinit_def by (auto elim!: rbind_retE)
  then obtain p where po: "po = Some p" using r unfolding userinit_def by (cases po) auto
  show ?thesis
  proof (rule allocproc_ok [OF a])
    fix np tf pt
    let ?x = "(proc_at k np)\<lparr>ppid := nextpid k, pstate := USED, trapframe := tf, pagetable := pt, ctx_ra := fr, ctx_sp := kstack (proc_at k np) + 4096\<rparr>"
    assume "po = Some np" and np: "np < length (procs k)" "pstate (proc_at k np) = UNUSED" and n: "nextpid k2 = nextpid k + 1" and tf: "tf \<noteq> 0" "pt \<noteq> 0" and s: "sets k np ?x k2"
    then have p: "p = np" using po by simp
    let ?k = "k2\<lparr>initproc := Some p\<rparr>"
    obtain m where "rbind (namei (kfs ?k) pid 0 [SLASH]) (\<lambda>(ip, s). ret (upd_proc ((upd_proc (set_tf (set_tf (upd_proc (?k\<lparr>kmem := m\<rparr>) p (\<lambda>x. x\<lparr>psz := 4096\<rparr>)) p TF_EPC 0) p TF_SP 4096)
        p (\<lambda>x. x\<lparr>pname := name_copy (pname x) (bytes ''initcode'')\<rparr>))\<lparr>kfs := s\<rparr>) p (\<lambda>x. x\<lparr>cwd := ip, pstate := RUNNABLE\<rparr>))) = ret k1"
      using r unfolding userinit_def a po by (auto elim!: rbind_retE simp: Let_def set_tf_def upd_proc_def)
    then obtain ip s1 where k1: "k1 = upd_proc ((upd_proc (set_tf (set_tf (upd_proc (?k\<lparr>kmem := m\<rparr>) p (\<lambda>x. x\<lparr>psz := 4096\<rparr>)) p TF_EPC 0) p TF_SP 4096)
        p (\<lambda>x. x\<lparr>pname := name_copy (pname x) (bytes ''initcode'')\<rparr>))\<lparr>kfs := s1\<rparr>) p (\<lambda>x. x\<lparr>cwd := ip, pstate := RUNNABLE\<rparr>)"
      by (auto elim!: rbind_retE)
    let ?y = "?x\<lparr>psz := 4096, pname := name_copy (pname ?x) (bytes ''initcode''), cwd := ip, pstate := RUNNABLE\<rparr>"
    show ?thesis by (rule that [of np ?y]) (use np n tf s in \<open>simp_all add: k1 p sets_def set_tf_def\<close>)
  qed (use po in simp_all)
qed

lemma userinit_pinv:
  assumes b: "boot_tab k0" and r: "userinit tr fr ic (procinit k0) pid = ret k"
  shows "pinv k"
proof (rule userinit_ok [OF r])
  note B = procinit_boot [OF b]
  fix p x assume p: "p < length (procs (procinit k0))" and k: "procs k = (procs (procinit k0))[p := x]" "initproc k = Some p" "nextpid k = nextpid (procinit k0) + 1"
    "cpu_proc k = cpu_proc (procinit k0)" and x: "pstate x = RUNNABLE" "ppid x = nextpid (procinit k0)" "pagetable x \<noteq> 0" "trapframe x \<noteq> 0" "ofile x = ofile (proc_at (procinit k0) p)"
  have un: "proc_at k q = proc0\<lparr>kstack := KSTACK q\<rparr>" if "q < NPROC" "q \<noteq> p" for q using k(1) B(1,2) that by simp
  have px: "proc_at k p = x" "length (procs k) = NPROC" "p < NPROC" using k(1) p B(1) by simp_all
  have u: "pstate (proc_at k q) = UNUSED \<longleftrightarrow> q \<noteq> p" if "q < NPROC" for q using un that px x(1) by (cases "q = p") (auto simp: proc0_def)
  have fl: "length (ofile x) = NOFILE" using x(5) B(2) [OF px(3)] by (simp add: proc0_def)
  have "entry_ok (nextpid k) (proc_at k q)" if "q < NPROC" for q
    using un [OF that] x fl px(1) k(3) B(4) by (cases "q = p") (simp_all add: entry_ok_def proc0_def)
  moreover have "cpus_ok k" unfolding cpus_ok_def px(2) k(4) B(3) using u px x(1) un by (auto simp: proc0_def) (metis procstate.distinct)
  moreover have "kids_ok k" unfolding kids_ok_def px(2) using u px k(2) x(1) by (auto simp: living_def)
  moreover have "pids_ok k" unfolding pids_ok_def px(2) using u k(3) B(4) by auto
  moreover have "no_lost_exit k" unfolding no_lost_exit_def px(2) using u px x(1) un by (metis procstate.distinct)
  ultimately show ?thesis using px(2) by (simp add: pinv_def ptab_ok_def)
qed

section \<open>Allocation succeeds while there is memory\<close>

lemma proc_pagetable_ok:
  assumes f: "free_pages m ps" and n: "6 \<le> length ps" and k: "0 < kend m"
  obtains pt t own rest where "proc_pagetable tr m tf = ret (pt, t)" "pt \<noteq> 0" "pt_inv t pt own rest" "length ps \<le> length rest + 5" "kend t = kend m" "view t pt 0 = 0"
proof -
  obtain pt qs where ps: "ps = pt # qs" using n by (cases ps) auto
  have nz: "pt \<noteq> 0" using kalloc_some [OF f [unfolded ps]] by blast
  obtain t where t: "uvmcreate m = (pt, t)" "uvm_inv t pt [pt \<mapsto> (2, 0)] qs {}" "view t pt = (\<lambda>_. 0)" "kend t = kend m"
    by (rule uvmcreate_ok [OF f [unfolded ps] k])
  have va: "TRAMPOLINE mod 4096 = 0" "TRAMPOLINE < MAXVA" "TRAPFRAME mod 4096 = 0" "TRAPFRAME < MAXVA" "vpn TRAPFRAME \<noteq> vpn TRAMPOLINE" "vpn TRAPFRAME \<noteq> 0" "vpn TRAMPOLINE \<noteq> 0"
    by (simp_all add: TRAMPOLINE_def TRAPFRAME_def MAXVA_def vpn_def)
  obtain u o1 r1 where u: "mappages t pt TRAMPOLINE 4096 tr (PTE_R OR PTE_X) = Inr (True, u)" "pt_inv u pt o1 r1" "extends [pt \<mapsto> (2, 0)] t qs o1 u r1"
    "view u pt = (view t pt)(vpn TRAMPOLINE := PA2PTE tr OR (PTE_R OR PTE_X) OR PTE_V)" "length qs \<le> length r1 + 2"
    by (rule map_one [OF uvm_invD(1) [OF t(2)] va(1,2), of tr "PTE_R OR PTE_X"]) (use t(3) n ps in simp_all)
  obtain v o2 r2 where v: "mappages u pt TRAPFRAME 4096 (of_nat tf) (PTE_R OR PTE_W) = Inr (True, v)" "pt_inv v pt o2 r2" "extends o1 u r1 o2 v r2"
    "view v pt = (view u pt)(vpn TRAPFRAME := PA2PTE (of_nat tf) OR (PTE_R OR PTE_W) OR PTE_V)" "length r1 \<le> length r2 + 2"
    by (rule map_one [OF u(2) va(3,4), of "of_nat tf" "PTE_R OR PTE_W"]) (use t(3) u(4,5) va(5) n ps in simp_all)
  have r: "proc_pagetable tr m tf = ret (pt, v)" unfolding proc_pagetable_def t(1) using nz u(1) v(1) by simp
  have kv: "kend v = kend m" using u(3) v(3) t(4) by (simp add: extends_def)
  have vw: "view v pt 0 = 0" using t(3) u(4) v(4) va by simp
  show ?thesis by (rule that [OF r nz v(2) _ kv vw]) (use ps u(5) v(5) in simp)
qed

lemma allocproc_returns:
  assumes p: "find (\<lambda>p. pstate (proc_at k p) = UNUSED) [0..<length (procs k)] = Some p" and n: "nextpid k + 1 < 2 ^ 31"
    and f: "free_pages (kmem k) ps" "7 \<le> length ps" "0 < kend (kmem k)"
  obtains k1 own rest where "allocproc tr fr k = ret (Some p, k1)" "pt_inv (kmem k1) (pagetable (proc_at k1 p)) own rest" "length ps \<le> length rest + 6"
    "view (kmem k1) (pagetable (proc_at k1 p)) 0 = 0" "kfs k1 = kfs k"
proof -
  have pl: "p < length (procs k)" using p by (auto simp: find_Some_iff)
  obtain tf qs where ps: "ps = tf # qs" using f(2) by (cases ps) auto
  obtain m where m: "kalloc (kmem k) = (tf, m)" "free_pages m qs" "kend m = kend (kmem k)" "tf \<noteq> 0" using kalloc_some [OF f(1) [unfolded ps]] by blast
  obtain pt t own rest where t: "proc_pagetable tr m tf = ret (pt, t)" "pt \<noteq> 0" "pt_inv t pt own rest" "length qs \<le> length rest + 5" "view t pt 0 = 0"
    by (rule proc_pagetable_ok [OF m(2), of tr tf]) (use f(2,3) ps m(3) in simp_all)
  have pid: "allocpid k = ret (nextpid k, k\<lparr>nextpid := nextpid k + 1\<rparr>)" using n by (simp add: allocpid_def)
  let ?k2 = "upd_proc (k\<lparr>nextpid := nextpid k + 1\<rparr>) p (\<lambda>x. x\<lparr>ppid := nextpid k, pstate := USED\<rparr>)"
  let ?k3 = "upd_proc (?k2\<lparr>kmem := m\<rparr>) p (\<lambda>x. x\<lparr>trapframe := tf\<rparr>)"
  let ?k5 = "upd_proc (upd_proc (?k3\<lparr>kmem := t\<rparr>) p (\<lambda>x. x\<lparr>pagetable := pt\<rparr>)) p (\<lambda>x. x\<lparr>ctx_ra := fr, ctx_sp := kstack x + 4096\<rparr>)"
  have km: "kmem ?k2 = kmem k" "kmem ?k3 = m" "kmem ?k5 = t" "pagetable (proc_at ?k5 p) = pt" "kfs ?k5 = kfs k" using pl by (simp_all add: upd_proc_def)
  have "allocproc tr fr k = ret (Some p, ?k5)"
    unfolding allocproc_def p pid using km m(1,4) t(1,2) by (simp add: Let_def)
  then show ?thesis by (rule that [of ?k5 own rest]) (use km t(3-5) ps in simp_all)
qed

lemma uvmfirst_returns:
  assumes inv: "pt_inv s pt own (m # qs)" and v: "view s pt 0 = 0" and n: "sz < PGSIZE"
  obtains t where "uvmfirst s pt src sz = Inr t"
proof -
  have i: "uvm_inv s pt own (m # qs) {}" using inv by (simp add: uvm_inv_def)
  obtain s1 where k: "kalloc s = (m, s1)" using kalloc_some [of s m qs] inv by (auto simp: pt_inv_def)
  note z = zero_frame [OF i k]
  have "\<forall>j. vpn 0 \<le> j \<and> j < vpn 0 + 1 \<longrightarrow> view (s1\<lparr>ram := memset (ram s1) m 0 PGSIZE\<rparr>) pt j AND PTE_V = 0" using z(2) v by (simp add: vpn_def)
  then obtain j t where "mappages (s1\<lparr>ram := memset (ram s1) m 0 PGSIZE\<rparr>) pt 0 (page_va 1) (of_nat m) (PTE_W OR PTE_R OR PTE_X OR PTE_U) = Inr (j = (1 :: nat), t)"
    using mappages_ok [OF uvm_invD(1) [OF z(1)], of 1 0] by (force simp: MAXVA_nat)
  then have "mappages (s1\<lparr>ram := memset (ram s1) m 0 PGSIZE\<rparr>) pt 0 4096 (of_nat m) (PTE_W OR PTE_R OR PTE_X OR PTE_U) = Inr (j = 1, t)" by (simp add: page_va_def)
  then show ?thesis using that n z(7) k unfolding uvmfirst_def by (simp add: Let_def)
qed

lemma userinit_returns:
  assumes p: "find (\<lambda>p. pstate (proc_at k p) = UNUSED) [0..<length (procs k)] = Some p" and n: "nextpid k + 1 < 2 ^ 31"
    and f: "free_pages (kmem k) ps" "8 \<le> length ps" "0 < kend (kmem k)" and nm: "namei (kfs k) pid 0 [SLASH] = ret (ip, s)"
  obtains k1 where "userinit tr fr ic k pid = ret k1"
proof -
  obtain k2 own rest where k2: "allocproc tr fr k = ret (Some p, k2)" "pt_inv (kmem k2) (pagetable (proc_at k2 p)) own rest" "length ps \<le> length rest + 6"
    "view (kmem k2) (pagetable (proc_at k2 p)) 0 = 0" "kfs k2 = kfs k"
    by (rule allocproc_returns [OF p n f(1) _ f(3), of tr fr]) (use f(2) in simp_all)
  obtain m qs where "rest = m # qs" using k2(3) f(2) by (cases rest) auto
  then obtain t where t: "uvmfirst (kmem k2) (pagetable (proc_at k2 p)) ic 52 = Inr t"
    using uvmfirst_returns [of "kmem k2" "pagetable (proc_at k2 p)" own m qs 52 ic] k2(2,4) by (auto simp: PGSIZE_def)
  have "\<exists>k1. userinit tr fr ic k pid = ret k1" unfolding userinit_def k2(1) by (simp add: Let_def t set_tf_def upd_proc_def k2(5) nm)
  then show ?thesis using that by blast
qed

section \<open>A run that leaves a zombie\<close>

lemma dup_files_none: "dup_files k np (replicate n None) i = ret k"
  by (induction n arbitrary: i) simp_all

lemma close_files_none: "\<forall>fd\<in>set fds. ofile (proc_at k p) ! fd = None \<Longrightarrow> close_files k p fds = ret k"
  by (induction fds) simp_all

lemma reparent_returns: "initproc k = Some i \<Longrightarrow> \<exists>k1. reparent_loop k p pps = ret k1"
  by (induction k p pps rule: reparent_loop.induct) simp_all

lemma fork_returns:
  assumes np: "find (\<lambda>p. pstate (proc_at k p) = UNUSED) [0..<length (procs k)] = Some np" and n: "nextpid k + 1 < 2 ^ 31"
    and f: "free_pages (kmem k) ps" "7 \<le> length ps" "0 < kend (kmem k)"
    and p: "pstate (proc_at k p) \<noteq> UNUSED" "psz (proc_at k p) = 0" "ofile (proc_at k p) = replicate NOFILE None" "cwd (proc_at k p) = Some ip"
  obtains r k1 where "fork tr fr k p = ret (r, k1)" "r \<noteq> -1 \<or> nextpid k = -1"
proof -
  have npl: "np < length (procs k)" "pstate (proc_at k np) = UNUSED" using np by (auto simp: find_Some_iff)
  have ne: "p \<noteq> np" using npl p(1) by auto
  obtain k2 where k2: "allocproc tr fr k = ret (Some np, k2)"
    by (rule allocproc_returns [OF np n f, of tr fr])
  have at: "proc_at k2 p = proc_at k p \<and> np < length (procs k2) \<and> ppid (proc_at k2 np) = nextpid k"
    by (rule allocproc_ok [OF k2]) (use ne npl in \<open>simp_all add: sets_def\<close>)
  have u: "uvmcopy (kmem k2) (pagetable (proc_at k2 p)) (pagetable (proc_at k2 np)) (psz (proc_at k2 p)) = Inr (True, kmem k2)"
    using at p(2) by (simp add: uvmcopy_def uvmcopy_loop.simps)
  have "\<exists>r k1. fork_fill (k2\<lparr>kmem := kmem k2\<rparr>) p np = ret (r, k1)"
    unfolding fork_fill_def Let_def using at p(3,4) ne by (simp add: set_tf_def dup_files_none)
  then obtain r k1 where fl: "fork_fill (k2\<lparr>kmem := kmem k2\<rparr>) p np = ret (r, k1)" by blast
  have "r = nextpid k" by (rule fork_fill_ok [OF fl]) (use at in simp_all)
  moreover have "fork tr fr k p = ret (r, k1)" unfolding fork_def k2 using u fl by simp
  ultimately show ?thesis using that by auto
qed

definition fs2 :: fs where
  "fs2 = fs1\<lparr>itable := [dir1\<lparr>ref := 2\<rparr>], flog := log1\<lparr>outstanding := 0\<rparr>\<rparr>"

lemma exit_returns:
  assumes c: "cpu_proc k c = Some p" "p < length (procs k)" and i: "initproc k = Some i" "i < length (procs k)" "i \<noteq> p"
    and p: "\<forall>fd<NOFILE. ofile (proc_at k p) ! fd = None" "cwd (proc_at k p) = Some 0" "parent (proc_at k p) = Some q" and f: "kfs k = fs2"
  obtains k1 where "exit k c status = ret k1" "p < length (procs k1)" "pstate (proc_at k1 p) = ZOMBIE"
proof -
  have cl: "close_files k p [0..<NOFILE] = ret k" using p(1) by (intro close_files_none) simp
  have "\<exists>s1 s2 s3. fs_begin fs2 = ret s1 \<and> iput s1 p 0 = ret s2 \<and> fs_end p s2 = ret s3"
    by (simp add: fs_begin_def begin_op_def fs2_def log1_def log0_def MAXOPBLOCKS_def LOGSIZE_def iput_def upd_ip_def fs_end_def end_op_def commit_def)
  then obtain s1 s2 s3 where fs: "fs_begin fs2 = ret s1" "iput s1 p 0 = ret s2" "fs_end p s2 = ret s3" by blast
  let ?k = "upd_proc (k\<lparr>kfs := s3\<rparr>) p (\<lambda>x. x\<lparr>cwd := None\<rparr>)"
  obtain k5 where k5: "reparent ?k p = ret k5" using reparent_returns [of ?k i p] i by (auto simp: reparent_def)
  have sub: "set [0..<length (procs ?k)] \<subseteq> {..<length (procs ?k)}" by auto
  have "woke ?k k5" "parent (proc_at k5 p) \<noteq> None"
    using reparent_loop_ok [OF k5 [unfolded reparent_def] sub, of i] i c p(3) by auto
  then obtain r where r: "parent (proc_at k5 p) = Some r" "p < length (procs k5)" using c by (auto simp: woke_def)
  let ?k1 = "switch_out (upd_proc (wakeup k5 (Some p) (ProcAt r)) p (\<lambda>x. x\<lparr>xstate := status, pstate := ZOMBIE\<rparr>)) c"
  have "exit k c status = ret ?k1"
    unfolding exit_def myproc_def c(1) using i(1,3) cl f fs p(2) k5 r(1) by (simp add: on_fs_def Let_def)
  then show ?thesis by (rule that) (use r(2) in \<open>simp_all add: switch_out_def\<close>)
qed

text \<open>A kernel at the call of \<^verbatim>\<open>procinit\<close>, with memory \<open>m\<close>.\<close>

definition boot1 :: "pmem \<Rightarrow> kern" where
  "boot1 m = \<lparr>ftable = replicate NFILE \<lparr>ftype = FD_NONE, fref = 0, readable = False, writable = False, fpipe = 0, fip = 0, foff = 0, fmajor = 0\<rparr>, pipes = (\<lambda>_. \<lparr>pipe.data = [], nread = 0, nwrite = 0, readopen = False, writeopen = False\<rparr>), kfs = fs1, kmem = m,
     kcons = \<lparr>cbuf = [], cr = 0, cw = 0, ce = 0\<rparr>,
     kuart = \<lparr>uart_tx_buf = [], uart_tx_w = 0, uart_tx_r = 0, panicked = False, thr = [], conf = [], lsr = (\<lambda>_. 0), polls = 0, rhr = (\<lambda>_. 0), reads = 0\<rparr>,
     procs = replicate NPROC proc0, initproc = None, nextpid = 1, cpu_proc = Map.empty\<rparr>"

lemma boot1_userinit:
  obtains m ps k where "boot_tab (boot1 m)" "userinit 0x80007000 0x80001000 0x80008000 (procinit (boot1 m)) 0 = ret k" "free_pages m ps" "8 \<le> length ps" "0 < kend m"
proof (rule pmem1_pages)
  fix m ps assume m: "free_pages m ps" "8 \<le> length ps" "kend m = 0x87ff8000"
  have b: "boot_tab (boot1 m)" by (simp add: boot_tab_def boot1_def)
  note B = procinit_boot [OF b]
  have "[0..<NPROC] = 0 # [1..<NPROC]" "0 < NPROC" by (simp_all add: NPROC_def upt_conv_Cons)
  then have p: "find (\<lambda>p. pstate (proc_at (procinit (boot1 m)) p) = UNUSED) [0..<length (procs (procinit (boot1 m)))] = Some 0"
    using B(1) B(2) [of 0] by (simp add: proc0_def)
  have nm: "namei (kfs (procinit (boot1 m))) 0 0 [SLASH] = ret (Some 0, upd_ip fs1 0 (\<lambda>x. x\<lparr>ref := ref x + 1\<rparr>))"
    unfolding B(7) by (simp add: boot1_def fs1_def itable1_def dir1_def namei_def namex_def iget_def namex_loop.simps skipelem_def)
  obtain k where "userinit 0x80007000 0x80001000 0x80008000 (procinit (boot1 m)) 0 = ret k"
    by (rule userinit_returns [OF p _ _ m(2) _ nm, of "0x80007000" "0x80001000" "0x80008000"]) (use B m in \<open>simp_all add: boot1_def\<close>)
  then show ?thesis using that b m by simp
qed

lemma find_hd: "P i \<Longrightarrow> i < n \<Longrightarrow> find P [i..<n] = Some i"
  by (simp add: upt_conv_Cons)

text \<open>The first process runs on processor 0, forks, and the child exits on processor 1.\<close>

lemma zombie_run:
  obtains m k z k1 where "boot_tab (boot1 m)" "userinit 0x80007000 0x80001000 0x80008000 (procinit (boot1 m)) 0 = ret k"
    "(pstep 0x80007000 0x80001000)\<^sup>*\<^sup>* k k1" "z < length (procs k1)" "pstate (proc_at k1 z) = ZOMBIE"
proof (rule boot1_userinit)
  fix m ps k assume b: "boot_tab (boot1 m)" and u: "userinit 0x80007000 0x80001000 0x80008000 (procinit (boot1 m)) 0 = ret k"
    and m: "free_pages m ps" "8 \<le> length ps" "0 < kend m"
  let ?step = "pstep 0x80007000 0x80001000"
  note B = procinit_boot [OF b]
  show ?thesis
  proof (rule userinit_ok [OF u])
    fix p x assume p: "p < length (procs (procinit (boot1 m)))" and k: "procs k = (procs (procinit (boot1 m)))[p := x]" "initproc k = Some p" "nextpid k = nextpid (procinit (boot1 m)) + 1"
      "cpu_proc k = cpu_proc (procinit (boot1 m))" and x: "pstate x = RUNNABLE" "pagetable x \<noteq> 0"
    have pn: "p < NPROC" "length (procs k) = NPROC" "proc_at k p = x" using p B(1) k(1) by simp_all
    let ?k1 = "(upd_proc k p (\<lambda>x. x\<lparr>pstate := RUNNING\<rparr>))\<lparr>cpu_proc := (cpu_proc k)(0 \<mapsto> p)\<rparr>"
    have "scheduler k 0 p = (Some p, ?k1)" using pn x(1) find_hd [of "\<lambda>q. pstate (proc_at k q) = RUNNABLE" p NPROC] by (simp add: scheduler_def)
    then have s1: "?step k ?k1" using pstep.sched [of k 0 p "Some p" ?k1] k(4) B(3) by simp
    let ?y = "x\<lparr>pstate := RUNNING, psz := 0, ofile := replicate NOFILE None, cwd := Some 0\<rparr>"
    let ?k2 = "upd_proc (?k1\<lparr>kmem := m, kfs := fs2\<rparr>) p (\<lambda>_. ?y)"
    have s2: "?step ?k1 ?k2"
      by (rule pstep.own [of _ 0 p "replicate NOFILE None" "pagetable x" _ "pname x" "Some 0" 0]) (use pn x(2) in \<open>simp_all add: sets_def\<close>)
    define q :: nat where "q = (if p = 0 then 1 else 0)"
    have "q < NPROC" "q \<noteq> p" by (simp_all add: q_def NPROC_def)
    then have "pstate (proc_at ?k2 q) = UNUSED" using k(1) B(2) by (simp add: proc0_def)
    then obtain np where np: "find (\<lambda>p. pstate (proc_at ?k2 p) = UNUSED) [0..<length (procs ?k2)] = Some np"
      using \<open>q < NPROC\<close> pn by (cases "find (\<lambda>p. pstate (proc_at ?k2 p) = UNUSED) [0..<length (procs ?k2)]") (auto simp: find_None_iff)
    have at2: "proc_at ?k2 p = ?y" "nextpid ?k2 = 2" "kmem ?k2 = m" using pn k(3) B(4) by (simp_all add: upd_proc_def)
    obtain r k3 where r: "fork 0x80007000 0x80001000 ?k2 p = ret (r, k3)" "r \<noteq> -1"
      by (rule fork_returns [OF np, of ps p 0 "0x80007000" "0x80001000"]) (use at2 m in simp_all)
    have s3: "?step ?k2 k3" by (rule pstep.fork [OF _ r(1), of 0]) simp
    show ?thesis
    proof (rule fork_ok [OF r(1)])
      fix np z assume np: "np < length (procs ?k2)" "pstate (proc_at ?k2 np) = UNUSED" and k3: "sets ?k2 np z k3" and z: "pstate z = RUNNABLE" "pagetable z \<noteq> 0" "parent z = Some p"
      have ne: "np \<noteq> p" using np at2 by auto
      have at3: "np < length (procs k3)" "proc_at k3 np = z" "initproc k3 = Some p" "p < length (procs k3)" "cpu_proc k3 1 = None" using k3 np k(2,4) pn B(3) by (simp_all add: sets_def)
      let ?k4 = "(upd_proc k3 np (\<lambda>x. x\<lparr>pstate := RUNNING\<rparr>))\<lparr>cpu_proc := (cpu_proc k3)(1 \<mapsto> np)\<rparr>"
      have "scheduler k3 1 np = (Some np, ?k4)" using at3 z(1) find_hd [of "\<lambda>q. pstate (proc_at k3 q) = RUNNABLE" np "length (procs k3)"] by (simp add: scheduler_def)
      then have s4: "?step k3 ?k4" using pstep.sched [of k3 1 np "Some np" ?k4] at3 by simp
      let ?w = "z\<lparr>pstate := RUNNING, ofile := replicate NOFILE None, cwd := Some 0\<rparr>"
      let ?k5 = "upd_proc (?k4\<lparr>kfs := fs2\<rparr>) np (\<lambda>_. ?w)"
      have s5: "?step ?k4 ?k5"
        by (rule pstep.own [of _ 1 np "replicate NOFILE None" "pagetable z" _ "pname z" "Some 0" "psz z"]) (use at3 z(2) in \<open>simp_all add: sets_def\<close>)
      have at5: "proc_at ?k5 np = ?w" "kfs ?k5 = fs2" "cpu_proc ?k5 1 = Some np" "initproc ?k5 = Some p" "np < length (procs ?k5)" "p < length (procs ?k5)"
        using at3 by (simp_all add: upd_proc_def)
      obtain k6 where e: "exit ?k5 1 0 = ret k6" "np < length (procs k6)" "pstate (proc_at k6 np) = ZOMBIE"
        by (rule exit_returns [OF at5(3,5,4,6), of p]) (use at5 z ne in simp_all)
      have "?step\<^sup>*\<^sup>* k k6"
        using s1 s2 s3 s4 s5 pstep.exit [OF e(1)] by (meson rtranclp.rtrancl_into_rtrancl rtranclp.rtrancl_refl)
      then show ?thesis using that [OF b u] e by blast
    qed (use r at2 in simp_all)
  qed
qed

section \<open>The process table\<close>

text \<open>
  C17. In every run of the processors from the first process on, the process table is well formed.  A free entry has no
  number, parent, memory, channel or open file; every other one has a positive number below the next one to be given,
  that no other process has, a page table and a trap frame, and 16 file descriptors; a sleeping process has a channel;
  a zombie has closed its files.  A process is in state \<open>RUNNING\<close> exactly if one processor runs it, and only one does.  The
  first process lives; each other one has a parent that lives.
\<close>

theorem process_table_type:
  assumes "boot_tab k0" and "userinit trampoline forkret initcode (procinit k0) pid = ret k" and "(pstep trampoline forkret)\<^sup>*\<^sup>* k k1"
  shows "ptab_ok k1"
  using psteps_pinv [OF assms(3) userinit_pinv [OF assms(1,2)]] by (simp add: pinv_def)

theorem process_table_type_witness:
  "\<exists>m k k1 z. userinit 0x80007000 0x80001000 0x80008000 (procinit (boot1 m)) 0 = ret k \<and> (pstep 0x80007000 0x80001000)\<^sup>*\<^sup>* k k1 \<and>
     pstate (proc_at k1 z) = ZOMBIE \<and> ptab_ok k1"
proof (rule zombie_run)
  fix m k z k1 assume r: "boot_tab (boot1 m)" "userinit 0x80007000 0x80001000 0x80008000 (procinit (boot1 m)) 0 = ret k"
    "(pstep 0x80007000 0x80001000)\<^sup>*\<^sup>* k k1" "pstate (proc_at k1 z) = ZOMBIE"
  then show ?thesis using process_table_type [OF r(1-3)] by blast
qed

text \<open>
  C7. No exit is lost: in every such run a zombie that is not yet collected has a living parent, and that parent is not
  asleep in \<^verbatim>\<open>wait\<close>; so the parent, or the first process that inherits the zombie, finds it when it next scans the table.
\<close>

theorem exit_not_lost:
  assumes "boot_tab k0" and "userinit trampoline forkret initcode (procinit k0) pid = ret k" and "(pstep trampoline forkret)\<^sup>*\<^sup>* k k1"
    and "z < length (procs k1)" and "pstate (proc_at k1 z) = ZOMBIE"
  shows "\<exists>q<length (procs k1). parent (proc_at k1 z) = Some q \<and> (pstate (proc_at k1 q) = RUNNABLE \<or> pstate (proc_at k1 q) = RUNNING \<or>
    pstate (proc_at k1 q) = SLEEPING \<and> pchan (proc_at k1 q) \<noteq> Some (ProcAt q))"
proof -
  have inv: "pinv k1" by (rule psteps_pinv [OF assms(3) userinit_pinv [OF assms(1,2)]])
  have "initproc k1 \<noteq> Some z" using inv assms(5) by (auto simp: pinv_def ptab_ok_def kids_ok_def living_def)
  then obtain q where q: "q < length (procs k1)" "parent (proc_at k1 z) = Some q" "living (proc_at k1 q)"
    using inv assms(4,5) by (auto simp: pinv_def ptab_ok_def kids_ok_def)
  moreover have "\<not> waiting k1 q" using inv assms(4,5) q by (auto simp: pinv_def no_lost_exit_def)
  ultimately show ?thesis by (auto simp: living_def waiting_def)
qed

theorem exit_not_lost_witness:
  "\<exists>m k k1 z q. userinit 0x80007000 0x80001000 0x80008000 (procinit (boot1 m)) 0 = ret k \<and> (pstep 0x80007000 0x80001000)\<^sup>*\<^sup>* k k1 \<and>
     pstate (proc_at k1 z) = ZOMBIE \<and> parent (proc_at k1 z) = Some q \<and> \<not> (pstate (proc_at k1 q) = SLEEPING \<and> pchan (proc_at k1 q) = Some (ProcAt q))"
proof (rule zombie_run)
  fix m k z k1 assume r: "boot_tab (boot1 m)" "userinit 0x80007000 0x80001000 0x80008000 (procinit (boot1 m)) 0 = ret k"
    "(pstep 0x80007000 0x80001000)\<^sup>*\<^sup>* k k1" "z < length (procs k1)" "pstate (proc_at k1 z) = ZOMBIE"
  obtain q where "parent (proc_at k1 z) = Some q" "pstate (proc_at k1 q) = RUNNABLE \<or> pstate (proc_at k1 q) = RUNNING \<or> pstate (proc_at k1 q) = SLEEPING \<and> pchan (proc_at k1 q) \<noteq> Some (ProcAt q)"
    using exit_not_lost [OF r] by blast
  then have "parent (proc_at k1 z) = Some q \<and> \<not> (pstate (proc_at k1 q) = SLEEPING \<and> pchan (proc_at k1 q) = Some (ProcAt q))" by auto
  then show ?thesis using r by blast
qed

text \<open>
  C40. \<^verbatim>\<open>kill(0)\<close> succeeds although no process has the number 0: it marks the first free entry of the table as killed, and
  the next process that is allocated is that entry, still marked, so it is born killed.
\<close>

theorem kill_zero:
  assumes "ptab_ok k" and "p < length (procs k)" and "pstate (proc_at k p) = UNUSED" and "kill k 0 = (r, k1)" and "allocproc trampoline forkret k1 = ret (Some np, k2)"
  shows "r = 0 \<and> killed k2 np"
proof -
  have eq: "ppid (proc_at k q) = 0 \<longleftrightarrow> pstate (proc_at k q) = UNUSED" if "q < length (procs k)" for q
    using assms(1) that entry_pid [of "nextpid k" "proc_at k q"] by (cases "pstate (proc_at k q) = UNUSED") (auto simp: ptab_ok_def entry_ok_def)
  then have same: "find (\<lambda>q. ppid (proc_at k q) = 0) [0..<length (procs k)] = find (\<lambda>q. pstate (proc_at k q) = UNUSED) [0..<length (procs k)]"
    by (intro find_cong) auto
  obtain u where u: "find (\<lambda>q. pstate (proc_at k q) = UNUSED) [0..<length (procs k)] = Some u"
    using assms(2,3) by (cases "find (\<lambda>q. pstate (proc_at k q) = UNUSED) [0..<length (procs k)]") (auto simp: find_None_iff)
  then have ul: "u < length (procs k)" "pstate (proc_at k u) = UNUSED" by (auto simp: find_Some_iff)
  have k1: "r = 0" "k1 = upd_proc k u (\<lambda>x. x\<lparr>pkilled := True, pstate := if pstate x = SLEEPING then RUNNABLE else pstate x\<rparr>)"
    using assms(4) u same by (auto simp: kill_def)
  have "pstate (proc_at k1 q) = pstate (proc_at k q)" if "q < length (procs k)" for q using k1(2) ul that by (cases "q = u") simp_all
  then have "find (\<lambda>q. pstate (proc_at k1 q) = UNUSED) [0..<length (procs k1)] = Some u"
    unfolding u [symmetric] using k1(2) by (intro find_cong) auto
  then have npu: "np = u" using assms(5) by (auto simp: allocproc_def Let_def elim!: rbind_retE split: prod.splits if_splits)
  show ?thesis
  proof (rule allocproc_ok [OF assms(5)])
    fix p tf pt
    assume "Some np = Some p" "p < length (procs k1)"
      "sets k1 p ((proc_at k1 p)\<lparr>ppid := nextpid k1, pstate := USED, trapframe := tf, pagetable := pt, ctx_ra := forkret, ctx_sp := kstack (proc_at k1 p) + 4096\<rparr>) k2"
    then show ?thesis using k1 npu ul by (simp add: killed_def sets_def)
  qed simp_all
qed

theorem kill_zero_witness:
  "\<exists>k k1 k2 np. kill k 0 = (0, k1) \<and> allocproc 0x80007000 0x80001000 k1 = ret (Some np, k2) \<and> \<not> killed k np \<and> killed k2 np"
proof (rule boot1_userinit)
  fix m ps k assume b: "boot_tab (boot1 m)" and u: "userinit 0x80007000 0x80001000 0x80008000 (procinit (boot1 m)) 0 = ret k"
    and m: "free_pages m ps" "8 \<le> length ps" "0 < kend m"
  note B = procinit_boot [OF b]
  let ?k = "k\<lparr>kmem := m\<rparr>"
  have ok: "ptab_ok ?k" using userinit_pinv [OF b u] ptab_same [of k ?k] by (simp add: pinv_def)
  show ?thesis
  proof (rule userinit_ok [OF u])
    fix p x assume p: "p < length (procs (procinit (boot1 m)))" and k: "procs k = (procs (procinit (boot1 m)))[p := x]" "nextpid k = nextpid (procinit (boot1 m)) + 1"
      and x: "pstate x = RUNNABLE" "ppid x = nextpid (procinit (boot1 m))"
    have pn: "p < NPROC" "length (procs k) = NPROC" "proc_at k p = x" using p B(1) k(1) by simp_all
    have un: "proc_at k q = proc0\<lparr>kstack := KSTACK q\<rparr>" if "q < NPROC" "q \<noteq> p" for q using k(1) B(2) that by simp
    have eq: "ppid (proc_at k q) = 0 \<longleftrightarrow> q \<noteq> p" "pstate (proc_at k q) = UNUSED \<longleftrightarrow> q \<noteq> p" if "q < NPROC" for q
      using un [OF that] x pn B(4) by (cases "q = p"; simp add: proc0_def)+
    obtain np where np: "find (\<lambda>q. ppid (proc_at k q) = 0) [0..<NPROC] = Some np"
      using eq(1) [of 0] eq(1) [of 1] by (cases "find (\<lambda>q. ppid (proc_at k q) = 0) [0..<NPROC]") (fastforce simp: find_None_iff NPROC_def)+
    then have npl: "np < NPROC" "np \<noteq> p" using eq(1) by (auto simp: find_Some_iff)
    let ?k1 = "upd_proc ?k np (\<lambda>x. x\<lparr>pkilled := True, pstate := if pstate x = SLEEPING then RUNNABLE else pstate x\<rparr>)"
    have kl: "kill ?k 0 = (0, ?k1)" using np pn by (simp add: kill_def)
    have "pstate (proc_at ?k1 q) = UNUSED \<longleftrightarrow> ppid (proc_at k q) = 0" if "q < NPROC" for q
      using eq [OF that] un [OF npl] pn npl by (cases "q = np") (simp_all add: proc0_def)
    then have f: "find (\<lambda>q. pstate (proc_at ?k1 q) = UNUSED) [0..<length (procs ?k1)] = Some np" using np pn unfolding np [symmetric] by (intro find_cong) auto
    have km: "kmem ?k1 = m" "nextpid ?k1 = 2" using k(2) B(4) by (simp_all add: upd_proc_def)
    obtain k2 where k2: "allocproc 0x80007000 0x80001000 ?k1 = ret (Some np, k2)"
      by (rule allocproc_returns [OF f, of ps "0x80007000" "0x80001000"]) (use km m in simp_all)
    have "killed k2 np" using kill_zero [OF ok _ _ kl k2, of np] npl pn eq(2) [OF npl(1)] by simp
    moreover have "\<not> killed ?k np" using un [OF npl] by (simp add: killed_def proc0_def)
    ultimately show ?thesis using kl k2 by blast
  qed
qed

end
