(* ===== verification/Syscall.thy ===== *)
theory Syscall
  imports Proc
begin

text \<open>
  The arguments of system calls, from \<^verbatim>\<open>kernel/syscall.c\<close>.  Process \<open>p\<close> makes the call; its arguments are in its trap frame.  The
  kernel buffer of a call is at \<open>kb\<close>, and the string in it is the list of its bytes before the terminator.
\<close>

definition get_tf :: "kern \<Rightarrow> nat \<Rightarrow> nat \<Rightarrow> uint64" where
  "get_tf k p off = ld64 (ram (kmem k)) (trapframe (proc_at k p) + off)"

definition MAXPATH :: nat where
  "MAXPATH = 128"

definition MAXARG :: nat where
  "MAXARG = 32"

definition fetchaddr :: "kern \<Rightarrow> nat \<Rightarrow> addr \<Rightarrow> uint64 \<Rightarrow> uint64 option \<times> kern" where
  "fetchaddr k p kb addr =
     (let sz = psz (proc_at k p) in
      if addr \<ge> sz \<or> addr + 8 > sz then (None, k)
      else case copyin (kmem k) (pagetable (proc_at k p)) kb addr 8 of (ok, m) \<Rightarrow>
        (if ok then Some (ld64 (ram m) kb) else None, k\<lparr>kmem := m\<rparr>))"

definition fetchstr :: "kern \<Rightarrow> nat \<Rightarrow> addr \<Rightarrow> uint64 \<Rightarrow> nat \<Rightarrow> byte list option \<times> kern" where
  "fetchstr k p kb addr mx =
     (case copyinstr (kmem k) (pagetable (proc_at k p)) kb addr (of_nat mx) of (ok, m) \<Rightarrow>
        (if ok then Some (takeWhile (\<lambda>c. c \<noteq> 0) (map (ram m) [kb..<kb + mx])) else None, k\<lparr>kmem := m\<rparr>))"

definition argraw :: "kern \<Rightarrow> nat \<Rightarrow> nat \<Rightarrow> uint64 outcome" where
  "argraw k p n = (if n \<le> 5 then ret (get_tf k p (TF_A0 + 8 * n)) else halt ''argraw'')"

definition argint :: "kern \<Rightarrow> nat \<Rightarrow> nat \<Rightarrow> int outcome" where
  "argint k p n = rbind (argraw k p n) (\<lambda>a. ret (sint (ucast a :: uint32)))"

definition argaddr :: "kern \<Rightarrow> nat \<Rightarrow> nat \<Rightarrow> uint64 outcome" where
  "argaddr k p n = argraw k p n"

definition argstr :: "kern \<Rightarrow> nat \<Rightarrow> addr \<Rightarrow> nat \<Rightarrow> nat \<Rightarrow> (byte list option \<times> kern) outcome" where
  "argstr k p kb n mx = rbind (argaddr k p n) (\<lambda>a. ret (fetchstr k p kb a mx))"

text \<open>The file system's operations that return a value; a path is resolved from the current directory.\<close>

definition on_fsr :: "kern \<Rightarrow> (fs \<Rightarrow> ('v \<times> fs) outcome) \<Rightarrow> ('v \<times> kern) outcome" where
  "on_fsr k g = rbind (g (kfs k)) (\<lambda>(v, s). ret (v, k\<lparr>kfs := s\<rparr>))"

definition with_cwd :: "kern \<Rightarrow> nat \<Rightarrow> (nat \<Rightarrow> 'v outcome) \<Rightarrow> 'v outcome" where
  "with_cwd k p g = (case cwd (proc_at k p) of None \<Rightarrow> Some (undef ''null cwd'') | Some d \<Rightarrow> g d)"

end
