(* ===== verification/Sysfile.thy ===== *)
theory Sysfile
  imports Syscall
begin

text \<open>
  \<^verbatim>\<open>kernel/sysfile.c\<close>: the system calls on files.  The part of a call between \<^verbatim>\<open>begin_op\<close> and \<^verbatim>\<open>end_op\<close> that concerns only the file
  system is a function on its state; the results \<open>-1\<close> of those are \<open>None\<close> or \<open>-1\<close> as in the source.  Name buffers that the source
  leaves uninitialised are zero.
\<close>

section \<open>Descriptors\<close>

definition argfd :: "kern \<Rightarrow> nat \<Rightarrow> nat \<Rightarrow> (nat \<times> nat) option outcome" where
  "argfd k p n =
     rbind (argint k p n) (\<lambda>fd.
       ret (if fd < 0 \<or> fd \<ge> int NOFILE then None
            else case ofile (proc_at k p) ! nat fd of None \<Rightarrow> None | Some f \<Rightarrow> Some (nat fd, f)))"

definition fdalloc :: "kern \<Rightarrow> nat \<Rightarrow> nat \<Rightarrow> nat option \<times> kern" where
  "fdalloc k p f =
     (case find (\<lambda>fd. ofile (proc_at k p) ! fd = None) [0..<NOFILE] of
        None \<Rightarrow> (None, k)
      | Some fd \<Rightarrow> (Some fd, upd_proc k p (\<lambda>x. x\<lparr>ofile := (ofile x)[fd := Some f]\<rparr>)))"

definition fdclear :: "kern \<Rightarrow> nat \<Rightarrow> nat \<Rightarrow> kern" where
  "fdclear k p fd = upd_proc k p (\<lambda>x. x\<lparr>ofile := (ofile x)[fd := None]\<rparr>)"

definition sys_dup :: "kern \<Rightarrow> nat \<Rightarrow> (int \<times> kern) outcome" where
  "sys_dup k p =
     rbind (argfd k p 0) (\<lambda>r.
     case r of
       None \<Rightarrow> ret (-1, k)
     | Some (_, f) \<Rightarrow>
         (case fdalloc k p f of
            (None, k1) \<Rightarrow> ret (-1, k1)
          | (Some fd, k1) \<Rightarrow> rbind (filedup k1 f) (\<lambda>k2. ret (int fd, k2))))"

definition sys_read :: "kern \<Rightarrow> nat \<Rightarrow> addr \<Rightarrow> (frun \<times> kern) outcome" where
  "sys_read k p kb =
     rbind (argaddr k p 1) (\<lambda>a. rbind (argint k p 2) (\<lambda>n.
     rbind (argfd k p 0) (\<lambda>r.
     case r of
       None \<Rightarrow> ret (FRet (-1), k)
     | Some (_, f) \<Rightarrow> fileread k p (pagetable (proc_at k p)) (killed k p) kb f a n)))"

definition sys_write :: "kern \<Rightarrow> nat \<Rightarrow> addr \<Rightarrow> (frun \<times> kern) outcome" where
  "sys_write k p kb =
     rbind (argaddr k p 1) (\<lambda>a. rbind (argint k p 2) (\<lambda>n.
     rbind (argfd k p 0) (\<lambda>r.
     case r of
       None \<Rightarrow> ret (FRet (-1), k)
     | Some (_, f) \<Rightarrow> filewrite k p (pagetable (proc_at k p)) (killed k p) kb f a n)))"

definition sys_close :: "kern \<Rightarrow> nat \<Rightarrow> (int \<times> kern) outcome" where
  "sys_close k p =
     rbind (argfd k p 0) (\<lambda>r.
     case r of
       None \<Rightarrow> ret (-1, k)
     | Some (fd, f) \<Rightarrow> rbind (fileclose (fdclear k p fd) p f) (\<lambda>k1. ret (0, k1)))"

definition sys_fstat :: "kern \<Rightarrow> nat \<Rightarrow> addr \<Rightarrow> (int \<times> kern) outcome" where
  "sys_fstat k p kb =
     rbind (argaddr k p 1) (\<lambda>st.
     rbind (argfd k p 0) (\<lambda>r.
     case r of
       None \<Rightarrow> ret (-1, k)
     | Some (_, f) \<Rightarrow> filestat k p (pagetable (proc_at k p)) kb f st))"

section \<open>Links\<close>

definition T_FILE :: uint16 where "T_FILE = 2"
definition T_DEVICE :: uint16 where "T_DEVICE = 3"

definition itype :: "fs \<Rightarrow> nat \<Rightarrow> uint16" where
  "itype s ip = di_type (dino (itable s ! ip))"

text \<open>\<^verbatim>\<open>ip->nlink += d\<close>\<close>

definition add_nlink :: "fs \<Rightarrow> nat \<Rightarrow> uint16 \<Rightarrow> fs" where
  "add_nlink s ip d = upd_ip s ip (\<lambda>x. x\<lparr>dino := (dino x)\<lparr>di_nlink := di_nlink (dino x) + d\<rparr>\<rparr>)"

definition link_bad :: "fs \<Rightarrow> nat \<Rightarrow> nat \<Rightarrow> (int \<times> fs) outcome" where
  "link_bad s pid ip =
     rbind (ilock s pid ip) (\<lambda>s1.
     rbind (iupdate (add_nlink s1 ip (-1)) pid ip) (\<lambda>s2.
     rbind (iunlockput s2 pid ip) (\<lambda>s3.
     rbind (fs_end pid s3) (\<lambda>s4. ret (-1, s4)))))"

definition link_new :: "fs \<Rightarrow> nat \<Rightarrow> nat \<Rightarrow> byte list \<Rightarrow> nat \<Rightarrow> (int \<times> fs) outcome" where
  "link_new s pid dir new ip =
     rbind (nameiparent s pid dir new (replicate DIRSIZ 0)) (\<lambda>(dpo, name, s1).
     case dpo of
       None \<Rightarrow> link_bad s1 pid ip
     | Some dp \<Rightarrow>
         rbind (ilock s1 pid dp) (\<lambda>s2.
         rbind (if idev (itable s2 ! dp) \<noteq> idev (itable s2 ! ip) then ret (-1, s2)
                else dirlink s2 pid dp name (inum (itable s2 ! ip))) (\<lambda>(r, s3).
         rbind (iunlockput s3 pid dp) (\<lambda>s4.
         if r < 0 then link_bad s4 pid ip
         else
           rbind (iput s4 pid ip) (\<lambda>s5.
           rbind (fs_end pid s5) (\<lambda>s6. ret (0, s6)))))))"

definition link_fs :: "fs \<Rightarrow> nat \<Rightarrow> nat \<Rightarrow> byte list \<Rightarrow> byte list \<Rightarrow> (int \<times> fs) outcome" where
  "link_fs s pid dir old new =
     rbind (fs_begin s) (\<lambda>s1.
     rbind (namei s1 pid dir old) (\<lambda>(ipo, s2).
     case ipo of
       None \<Rightarrow> rbind (fs_end pid s2) (\<lambda>s3. ret (-1, s3))
     | Some ip \<Rightarrow>
         rbind (ilock s2 pid ip) (\<lambda>s3.
         if itype s3 ip = T_DIR then
           rbind (iunlockput s3 pid ip) (\<lambda>s4. rbind (fs_end pid s4) (\<lambda>s5. ret (-1, s5)))
         else
           rbind (iupdate (add_nlink s3 ip 1) pid ip) (\<lambda>s4.
           rbind (iunlock s4 pid ip) (\<lambda>s5. link_new s5 pid dir new ip)))))"

definition sys_link :: "kern \<Rightarrow> nat \<Rightarrow> addr \<Rightarrow> (int \<times> kern) outcome" where
  "sys_link k p kb =
     rbind (argstr k p kb 0 MAXPATH) (\<lambda>(old, k1).
     case old of
       None \<Rightarrow> ret (-1, k1)
     | Some old \<Rightarrow>
         rbind (argstr k1 p kb 1 MAXPATH) (\<lambda>(new, k2).
         case new of
           None \<Rightarrow> ret (-1, k2)
         | Some new \<Rightarrow> with_cwd k2 p (\<lambda>dir. on_fsr k2 (\<lambda>s. link_fs s p dir old new))))"

text \<open>The names \<^verbatim>\<open>"."\<close> and \<^verbatim>\<open>".."\<close>.\<close>

definition DOT :: "byte list" where "DOT = 46 # replicate 13 0"
definition DOTDOT :: "byte list" where "DOTDOT = [46, 46] @ replicate 12 0"

function isdirempty_loop :: "fs \<Rightarrow> nat \<Rightarrow> nat \<Rightarrow> byte list \<Rightarrow> nat \<Rightarrow> nat \<Rightarrow> (bool \<times> fs) outcome" where
  "isdirempty_loop s pid dp de sz off =
     (if off < sz then
        rbind (readi kput s pid dp de (of_nat off) 16) (\<lambda>(r, de1, s1).
        if r \<noteq> 16 then halt ''isdirempty: readi''
        else if rd16 de1 0 \<noteq> 0 then ret (False, s1)
        else isdirempty_loop s1 pid dp de1 sz (off + 16))
      else ret (True, s))"
  by pat_completeness auto
termination
  by (relation "measure (\<lambda>(s, pid, dp, de, sz, off). sz - off)") auto

declare isdirempty_loop.simps [simp del]

definition isdirempty :: "fs \<Rightarrow> nat \<Rightarrow> nat \<Rightarrow> (bool \<times> fs) outcome" where
  "isdirempty s pid dp = isdirempty_loop s pid dp (replicate 16 0) (unat (isize s dp)) 32"

definition unlink_bad :: "fs \<Rightarrow> nat \<Rightarrow> nat \<Rightarrow> (int \<times> fs) outcome" where
  "unlink_bad s pid dp =
     rbind (iunlockput s pid dp) (\<lambda>s1. rbind (fs_end pid s1) (\<lambda>s2. ret (-1, s2)))"

text \<open>\<^verbatim>\<open>sys_unlink\<close> once the entry at \<open>off\<close> of the locked directory \<open>dp\<close> is found and its inode locked.\<close>

definition unlink_entry :: "fs \<Rightarrow> nat \<Rightarrow> nat \<Rightarrow> nat \<Rightarrow> nat \<Rightarrow> (int \<times> fs) outcome" where
  "unlink_entry s pid dp ip off =
     rbind (writei kget s pid dp (replicate 16 0) (of_nat off) 16) (\<lambda>(w, s1).
     if w \<noteq> 16 then halt ''unlink: writei''
     else
       rbind (if itype s1 ip = T_DIR then iupdate (add_nlink s1 dp (-1)) pid dp else ret s1) (\<lambda>s2.
       rbind (iunlockput s2 pid dp) (\<lambda>s3.
       rbind (iupdate (add_nlink s3 ip (-1)) pid ip) (\<lambda>s4.
       rbind (iunlockput s4 pid ip) (\<lambda>s5.
       rbind (fs_end pid s5) (\<lambda>s6. ret (0, s6)))))))"

definition unlink_fs :: "fs \<Rightarrow> nat \<Rightarrow> nat \<Rightarrow> byte list \<Rightarrow> (int \<times> fs) outcome" where
  "unlink_fs s pid dir path =
     rbind (fs_begin s) (\<lambda>s1.
     rbind (nameiparent s1 pid dir path (replicate DIRSIZ 0)) (\<lambda>(dpo, name, s2).
     case dpo of
       None \<Rightarrow> rbind (fs_end pid s2) (\<lambda>s3. ret (-1, s3))
     | Some dp \<Rightarrow>
         rbind (ilock s2 pid dp) (\<lambda>s3.
         if namecmp name DOT = 0 \<or> namecmp name DOTDOT = 0 then unlink_bad s3 pid dp
         else
           rbind (dirlookup s3 pid dp name) (\<lambda>(r, s4).
           case r of
             None \<Rightarrow> unlink_bad s4 pid dp
           | Some (ip, off) \<Rightarrow>
               rbind (ilock s4 pid ip) (\<lambda>s5.
               if sint (di_nlink (dino (itable s5 ! ip))) < 1 then halt ''unlink: nlink < 1''
               else
                 rbind (if itype s5 ip = T_DIR then isdirempty s5 pid ip else ret (True, s5)) (\<lambda>(e, s6).
                 if \<not> e then rbind (iunlockput s6 pid ip) (\<lambda>s7. unlink_bad s7 pid dp)
                 else unlink_entry s6 pid dp ip off))))))"

definition sys_unlink :: "kern \<Rightarrow> nat \<Rightarrow> addr \<Rightarrow> (int \<times> kern) outcome" where
  "sys_unlink k p kb =
     rbind (argstr k p kb 0 MAXPATH) (\<lambda>(path, k1).
     case path of
       None \<Rightarrow> ret (-1, k1)
     | Some path \<Rightarrow> with_cwd k1 p (\<lambda>dir. on_fsr k1 (\<lambda>s. unlink_fs s p dir path)))"

section \<open>Creating and opening\<close>

definition create_dots :: "fs \<Rightarrow> nat \<Rightarrow> nat \<Rightarrow> nat \<Rightarrow> (bool \<times> fs) outcome" where
  "create_dots s pid ip dp =
     rbind (dirlink s pid ip DOT (inum (itable s ! ip))) (\<lambda>(r, s1).
     if r < 0 then ret (False, s1)
     else rbind (dirlink s1 pid ip DOTDOT (inum (itable s1 ! dp))) (\<lambda>(r, s2). ret (r \<ge> 0, s2)))"

definition create_fail :: "fs \<Rightarrow> nat \<Rightarrow> nat \<Rightarrow> nat \<Rightarrow> (nat option \<times> fs) outcome" where
  "create_fail s pid ip dp =
     rbind (iupdate (upd_ip s ip (\<lambda>x. x\<lparr>dino := (dino x)\<lparr>di_nlink := 0\<rparr>\<rparr>)) pid ip) (\<lambda>s1.
     rbind (iunlockput s1 pid ip) (\<lambda>s2.
     rbind (iunlockput s2 pid dp) (\<lambda>s3. ret (None, s3))))"

text \<open>\<^verbatim>\<open>create\<close> when the locked directory \<open>dp\<close> has no entry \<open>name\<close>.\<close>

definition create_new :: "fs \<Rightarrow> nat \<Rightarrow> nat \<Rightarrow> byte list \<Rightarrow> uint16 \<Rightarrow> uint16 \<Rightarrow> uint16 \<Rightarrow> (nat option \<times> fs) outcome" where
  "create_new s pid dp name type major minor =
     rbind (ialloc s pid (idev (itable s ! dp)) type) (\<lambda>(ipo, s1).
     case ipo of
       None \<Rightarrow> rbind (iunlockput s1 pid dp) (\<lambda>s2. ret (None, s2))
     | Some ip \<Rightarrow>
         rbind (ilock s1 pid ip) (\<lambda>s2.
         rbind (iupdate (upd_ip s2 ip (\<lambda>x. x\<lparr>dino := (dino x)\<lparr>di_major := major, di_minor := minor, di_nlink := 1\<rparr>\<rparr>)) pid ip) (\<lambda>s3.
         rbind (if type = T_DIR then create_dots s3 pid ip dp else ret (True, s3)) (\<lambda>(ok, s4).
         if \<not> ok then create_fail s4 pid ip dp
         else
           rbind (dirlink s4 pid dp name (inum (itable s4 ! ip))) (\<lambda>(r, s5).
           if r < 0 then create_fail s5 pid ip dp
           else
             rbind (if type = T_DIR then iupdate (add_nlink s5 dp 1) pid dp else ret s5) (\<lambda>s6.
             rbind (iunlockput s6 pid dp) (\<lambda>s7. ret (Some ip, s7))))))))"

definition create :: "fs \<Rightarrow> nat \<Rightarrow> nat \<Rightarrow> byte list \<Rightarrow> uint16 \<Rightarrow> uint16 \<Rightarrow> uint16 \<Rightarrow> (nat option \<times> fs) outcome" where
  "create s pid dir path type major minor =
     rbind (nameiparent s pid dir path (replicate DIRSIZ 0)) (\<lambda>(dpo, name, s1).
     case dpo of
       None \<Rightarrow> ret (None, s1)
     | Some dp \<Rightarrow>
         rbind (ilock s1 pid dp) (\<lambda>s2.
         rbind (dirlookup s2 pid dp name) (\<lambda>(r, s3).
         case r of
           Some (ip, off) \<Rightarrow>
             rbind (iunlockput s3 pid dp) (\<lambda>s4.
             rbind (ilock s4 pid ip) (\<lambda>s5.
             if type = T_FILE \<and> (itype s5 ip = T_FILE \<or> itype s5 ip = T_DEVICE) then ret (Some ip, s5)
             else rbind (iunlockput s5 pid ip) (\<lambda>s6. ret (None, s6))))
         | None \<Rightarrow> create_new s3 pid dp name type major minor)))"

definition O_WRONLY :: uint32 where "O_WRONLY = 1"
definition O_RDWR :: uint32 where "O_RDWR = 2"
definition O_CREATE :: uint32 where "O_CREATE = 0x200"
definition O_TRUNC :: uint32 where "O_TRUNC = 0x400"

text \<open>\<^verbatim>\<open>sys_open\<close> up to the call of \<^verbatim>\<open>filealloc\<close>: the locked inode, within the transaction, or none after it.\<close>

definition open_ip :: "fs \<Rightarrow> nat \<Rightarrow> nat \<Rightarrow> byte list \<Rightarrow> uint32 \<Rightarrow> (nat option \<times> fs) outcome" where
  "open_ip s pid dir path omode =
     rbind (fs_begin s) (\<lambda>s1.
     rbind (if omode AND O_CREATE \<noteq> 0 then create s1 pid dir path T_FILE 0 0
            else
              rbind (namei s1 pid dir path) (\<lambda>(ipo, s2).
              case ipo of
                None \<Rightarrow> ret (None, s2)
              | Some ip \<Rightarrow>
                  rbind (ilock s2 pid ip) (\<lambda>s3.
                  if itype s3 ip = T_DIR \<and> omode \<noteq> 0 then rbind (iunlockput s3 pid ip) (\<lambda>s4. ret (None, s4))
                  else ret (Some ip, s3)))) (\<lambda>(ipo, s2).
     case ipo of
       None \<Rightarrow> rbind (fs_end pid s2) (\<lambda>s3. ret (None, s3))
     | Some ip \<Rightarrow>
         let major = sint (di_major (dino (itable s2 ! ip))) in
         if itype s2 ip = T_DEVICE \<and> (major < 0 \<or> major \<ge> NDEV) then
           rbind (iunlockput s2 pid ip) (\<lambda>s3. rbind (fs_end pid s3) (\<lambda>s4. ret (None, s4)))
         else ret (Some ip, s2)))"

definition open_fail :: "kern \<Rightarrow> nat \<Rightarrow> nat \<Rightarrow> (int \<times> kern) outcome" where
  "open_fail k p ip =
     rbind (on_fs k (\<lambda>s. iunlockput s p ip)) (\<lambda>k1. rbind (on_fs k1 (fs_end p)) (\<lambda>k2. ret (-1, k2)))"

definition open_file :: "kern \<Rightarrow> nat \<Rightarrow> nat \<Rightarrow> uint32 \<Rightarrow> kern" where
  "open_file k f ip omode =
     upd_file k f (\<lambda>x.
       (if itype (kfs k) ip = T_DEVICE then x\<lparr>ftype := FD_DEVICE, fmajor := di_major (dino (itable (kfs k) ! ip))\<rparr>
        else x\<lparr>ftype := FD_INODE, foff := 0\<rparr>)
       \<lparr>fip := ip, readable := (omode AND O_WRONLY = 0), writable := (omode AND O_WRONLY \<noteq> 0 \<or> omode AND O_RDWR \<noteq> 0)\<rparr>)"

definition sys_open :: "kern \<Rightarrow> nat \<Rightarrow> addr \<Rightarrow> (int \<times> kern) outcome" where
  "sys_open k p kb =
     rbind (argint k p 1) (\<lambda>om.
     let omode = of_int om in
     rbind (argstr k p kb 0 MAXPATH) (\<lambda>(path, k1).
     case path of
       None \<Rightarrow> ret (-1, k1)
     | Some path \<Rightarrow>
         rbind (with_cwd k1 p (\<lambda>dir. on_fsr k1 (\<lambda>s. open_ip s p dir path omode))) (\<lambda>(ipo, k2).
         case ipo of
           None \<Rightarrow> ret (-1, k2)
         | Some ip \<Rightarrow>
             (case filealloc k2 of
                (None, k3) \<Rightarrow> open_fail k3 p ip
              | (Some f, k3) \<Rightarrow>
                  (case fdalloc k3 p f of
                     (None, k4) \<Rightarrow> rbind (fileclose k4 p f) (\<lambda>k5. open_fail k5 p ip)
                   | (Some fd, k4) \<Rightarrow>
                       let k5 = open_file k4 f ip omode in
                       rbind (if omode AND O_TRUNC \<noteq> 0 \<and> itype (kfs k5) ip = T_FILE then on_fs k5 (\<lambda>s. itrunc s p ip) else ret k5) (\<lambda>k6.
                       rbind (on_fs k6 (\<lambda>s. iunlock s p ip)) (\<lambda>k7.
                       rbind (on_fs k7 (fs_end p)) (\<lambda>k8. ret (int fd, k8)))))))))"

text \<open>The end of \<^verbatim>\<open>sys_mkdir\<close> and \<^verbatim>\<open>sys_mknod\<close>.\<close>

definition create_end :: "kern \<Rightarrow> nat \<Rightarrow> nat option \<Rightarrow> (int \<times> kern) outcome" where
  "create_end k p ipo =
     (case ipo of
        None \<Rightarrow> rbind (on_fs k (fs_end p)) (\<lambda>k1. ret (-1, k1))
      | Some ip \<Rightarrow> rbind (on_fs k (\<lambda>s. iunlockput s p ip)) (\<lambda>k1. rbind (on_fs k1 (fs_end p)) (\<lambda>k2. ret (0, k2))))"

definition sys_mkdir :: "kern \<Rightarrow> nat \<Rightarrow> addr \<Rightarrow> (int \<times> kern) outcome" where
  "sys_mkdir k p kb =
     rbind (on_fs k fs_begin) (\<lambda>k1.
     rbind (argstr k1 p kb 0 MAXPATH) (\<lambda>(path, k2).
     case path of
       None \<Rightarrow> create_end k2 p None
     | Some path \<Rightarrow>
         rbind (with_cwd k2 p (\<lambda>dir. on_fsr k2 (\<lambda>s. create s p dir path T_DIR 0 0))) (\<lambda>(ipo, k3). create_end k3 p ipo)))"

definition sys_mknod :: "kern \<Rightarrow> nat \<Rightarrow> addr \<Rightarrow> (int \<times> kern) outcome" where
  "sys_mknod k p kb =
     rbind (on_fs k fs_begin) (\<lambda>k1.
     rbind (argint k1 p 1) (\<lambda>major. rbind (argint k1 p 2) (\<lambda>minor.
     rbind (argstr k1 p kb 0 MAXPATH) (\<lambda>(path, k2).
     case path of
       None \<Rightarrow> create_end k2 p None
     | Some path \<Rightarrow>
         rbind (with_cwd k2 p (\<lambda>dir. on_fsr k2 (\<lambda>s. create s p dir path T_DEVICE (of_int major) (of_int minor)))) (\<lambda>(ipo, k3).
           create_end k3 p ipo)))))"

definition sys_chdir :: "kern \<Rightarrow> nat \<Rightarrow> addr \<Rightarrow> (int \<times> kern) outcome" where
  "sys_chdir k p kb =
     rbind (on_fs k fs_begin) (\<lambda>k1.
     rbind (argstr k1 p kb 0 MAXPATH) (\<lambda>(path, k2).
     case path of
       None \<Rightarrow> create_end k2 p None
     | Some path \<Rightarrow>
         with_cwd k2 p (\<lambda>dir.
         rbind (on_fsr k2 (\<lambda>s. namei s p dir path)) (\<lambda>(ipo, k3).
         case ipo of
           None \<Rightarrow> create_end k3 p None
         | Some ip \<Rightarrow>
             rbind (on_fs k3 (\<lambda>s. ilock s p ip)) (\<lambda>k4.
             if itype (kfs k4) ip \<noteq> T_DIR then open_fail k4 p ip
             else
               rbind (on_fs k4 (\<lambda>s. iunlock s p ip)) (\<lambda>k5.
               rbind (on_fs k5 (\<lambda>s. iput s p dir)) (\<lambda>k6.
               rbind (on_fs k6 (fs_end p)) (\<lambda>k7.
                 ret (0, upd_proc k7 p (\<lambda>x. x\<lparr>cwd := Some ip\<rparr>)))))))))) "

section \<open>Pipes\<close>

definition pipe_fail :: "kern \<Rightarrow> nat \<Rightarrow> nat \<Rightarrow> nat \<Rightarrow> (int \<times> kern) outcome" where
  "pipe_fail k p rfile wfile =
     rbind (fileclose k p rfile) (\<lambda>k1. rbind (fileclose k1 p wfile) (\<lambda>k2. ret (-1, k2)))"

definition put_int :: "kern \<Rightarrow> nat \<Rightarrow> addr \<Rightarrow> uint64 \<Rightarrow> nat \<Rightarrow> bool \<times> kern" where
  "put_int k p kb a n =
     (case copyout ((kmem k)\<lparr>ram := store (ram (kmem k)) kb (le32 (of_nat n))\<rparr>) (pagetable (proc_at k p)) a kb 4 of (ok, m) \<Rightarrow>
        (ok, k\<lparr>kmem := m\<rparr>))"

definition sys_pipe :: "kern \<Rightarrow> nat \<Rightarrow> addr \<Rightarrow> (int \<times> kern) outcome" where
  "sys_pipe k p kb =
     rbind (argaddr k p 0) (\<lambda>fdarray.
     rbind (pipealloc k p) (\<lambda>(r, k1).
     case r of
       None \<Rightarrow> ret (-1, k1)
     | Some (rfile, wfile) \<Rightarrow>
         (case fdalloc k1 p rfile of
            (None, k2) \<Rightarrow> pipe_fail k2 p rfile wfile
          | (Some fd0, k2) \<Rightarrow>
              (case fdalloc k2 p wfile of
                 (None, k3) \<Rightarrow> pipe_fail (fdclear k3 p fd0) p rfile wfile
               | (Some fd1, k3) \<Rightarrow>
                   (case put_int k3 p kb fdarray fd0 of (ok, k4) \<Rightarrow>
                    case (if ok then put_int k4 p kb (fdarray + 4) fd1 else (False, k4)) of (ok, k5) \<Rightarrow>
                      if ok then ret (0, k5)
                      else pipe_fail (fdclear (fdclear k5 p fd0) p fd1) p rfile wfile)))))"

end
