(* ===== verification/Exec.thy ===== *)
theory Exec
  imports Sysfile
begin

text \<open>
  \<^verbatim>\<open>kernel/exec.c\<close> and \<^verbatim>\<open>sys_exec\<close>.  The program's headers are read from the bytes of the file.  \<open>argv\<close> is the list of the addresses
  before the null pointer.
\<close>

section \<open>Program headers\<close>

definition rd64 :: "byte list \<Rightarrow> nat \<Rightarrow> uint64" where
  "rd64 bs i = ucast (rd32 bs i) OR push_bit 32 (ucast (rd32 bs (i + 4)))"

record elfhdr =
  emagic :: uint32
  eentry :: uint64
  ephoff :: uint64
  ephnum :: uint16

record proghdr =
  ph_type :: uint32
  ph_flags :: uint32
  ph_off :: uint64
  ph_vaddr :: uint64
  ph_filesz :: uint64
  ph_memsz :: uint64

definition get_elfhdr :: "byte list \<Rightarrow> elfhdr" where
  "get_elfhdr bs = \<lparr>emagic = rd32 bs 0, eentry = rd64 bs 24, ephoff = rd64 bs 32, ephnum = rd16 bs 56\<rparr>"

definition get_proghdr :: "byte list \<Rightarrow> proghdr" where
  "get_proghdr bs = \<lparr>ph_type = rd32 bs 0, ph_flags = rd32 bs 4, ph_off = rd64 bs 8, ph_vaddr = rd64 bs 16, ph_filesz = rd64 bs 32, ph_memsz = rd64 bs 40\<rparr>"

definition ELF_MAGIC :: uint32 where "ELF_MAGIC = 0x464C457F"
definition ELF_PROG_LOAD :: uint32 where "ELF_PROG_LOAD = 1"
definition USERSTACK :: uint64 where "USERSTACK = 1"

definition flags2perm :: "uint32 \<Rightarrow> uint64" where
  "flags2perm flags =
     (let perm = (if flags AND 1 \<noteq> 0 then PTE_X else 0) in if flags AND 2 \<noteq> 0 then perm OR PTE_W else perm)"

section \<open>Loading\<close>

text \<open>\<^verbatim>\<open>either_copyout\<close> to the kernel address \<open>pa\<close>.\<close>

definition pput :: "addr \<Rightarrow> pmem cpout" where
  "pput pa m i bs = (True, m\<lparr>ram := store (ram m) (pa + i) bs\<rparr>)"

text \<open>\<open>i\<close> is unsigned: for a segment of more than \<open>2 ^ 32 - 4096\<close> bytes it wraps around and the loop does not end; else the fuel is enough.\<close>

fun loadseg_loop :: "kern \<Rightarrow> nat \<Rightarrow> addr \<Rightarrow> uint64 \<Rightarrow> nat \<Rightarrow> uint32 \<Rightarrow> uint32 \<Rightarrow> uint32 \<Rightarrow> nat \<Rightarrow> (bool \<times> kern) outcome" where
  "loadseg_loop k pid pt va ip offset sz i 0 = None"
| "loadseg_loop k pid pt va ip offset sz i (Suc fuel) =
     (if i < sz then
        let pa = walkaddr (kmem k) pt (va + ucast i) in
        if pa = 0 then halt ''loadseg: address should exist''
        else
          let n = (if sz - i < 4096 then sz - i else 4096) in
          rbind (readi (pput (unat pa)) (kfs k) pid ip (kmem k) (offset + i) n) (\<lambda>(r, m, s).
          let k1 = k\<lparr>kfs := s, kmem := m\<rparr> in
          if r \<noteq> uint n then ret (False, k1)
          else loadseg_loop k1 pid pt va ip offset sz (i + 4096) fuel)
      else ret (True, k))"

definition loadseg :: "kern \<Rightarrow> nat \<Rightarrow> addr \<Rightarrow> uint64 \<Rightarrow> nat \<Rightarrow> uint32 \<Rightarrow> uint32 \<Rightarrow> (bool \<times> kern) outcome" where
  "loadseg k pid pt va ip offset sz = loadseg_loop k pid pt va ip offset sz 0 (2 ^ 20 + 1)"

text \<open>The loop over the program headers from number \<open>i\<close>, with \<open>n\<close> left, to the size of the image.\<close>

fun exec_load :: "kern \<Rightarrow> nat \<Rightarrow> addr \<Rightarrow> nat \<Rightarrow> int \<Rightarrow> uint64 \<Rightarrow> nat \<Rightarrow> (bool \<times> uint64 \<times> kern) outcome" where
  "exec_load k pid pt ip off sz 0 = ret (True, sz, k)"
| "exec_load k pid pt ip off sz (Suc n) =
     rbind (readi kput (kfs k) pid ip (replicate 56 0) (of_int off) 56) (\<lambda>(r, bs, s).
     let k1 = k\<lparr>kfs := s\<rparr>; ph = get_proghdr bs in
     if r \<noteq> 56 then ret (False, sz, k1)
     else if ph_type ph \<noteq> ELF_PROG_LOAD then exec_load k1 pid pt ip (off + 56) sz n
     else if ph_memsz ph < ph_filesz ph then ret (False, sz, k1)
     else if ph_vaddr ph + ph_memsz ph < ph_vaddr ph then ret (False, sz, k1)
     else if ph_vaddr ph mod 4096 \<noteq> 0 then ret (False, sz, k1)
     else
       rbind (Some (uvmalloc (kmem k1) pt sz (ph_vaddr ph + ph_memsz ph) (flags2perm (ph_flags ph)))) (\<lambda>(sz1, m).
       let k2 = k1\<lparr>kmem := m\<rparr> in
       if sz1 = 0 then ret (False, sz, k2)
       else
         rbind (loadseg k2 pid pt (ph_vaddr ph) ip (ucast (ph_off ph)) (ucast (ph_filesz ph))) (\<lambda>(ok, k3).
         if \<not> ok then ret (False, sz1, k3) else exec_load k3 pid pt ip (off + 56) sz1 n)))"

section \<open>The stack\<close>

fun push_args :: "pmem \<Rightarrow> addr \<Rightarrow> uint64 \<Rightarrow> addr list \<Rightarrow> nat \<Rightarrow> uint64 \<Rightarrow> uint64 list \<Rightarrow> ((uint64 \<times> uint64 list) option \<times> pmem) outcome" where
  "push_args m pt base [] argc sp us = ret (Some (sp, us), m)"
| "push_args m pt base (a # as) argc sp us =
     (if argc \<ge> MAXARG then ret (None, m)
      else case strlen (ram m) a of
        None \<Rightarrow> None
      | Some n \<Rightarrow>
          let sp1 = sp - of_nat (n + 1); sp2 = sp1 - sp1 mod 16 in
          if sp2 < base then ret (None, m)
          else case copyout m pt sp2 a (of_nat (n + 1)) of (ok, m1) \<Rightarrow>
            if \<not> ok then ret (None, m1) else push_args m1 pt base as (argc + 1) sp2 (us @ [sp2]))"

definition le64 :: "uint64 \<Rightarrow> byte list" where
  "le64 v = le32 (ucast v) @ le32 (ucast (drop_bit 32 v))"

text \<open>The array of pointers is at \<open>kb\<close> while it is copied; it has \<open>MAXARG\<close> elements.\<close>

definition push_array :: "pmem \<Rightarrow> addr \<Rightarrow> uint64 \<Rightarrow> addr \<Rightarrow> uint64 \<Rightarrow> uint64 list \<Rightarrow> (uint64 option \<times> pmem) outcome" where
  "push_array m pt base kb sp us =
     (if length us \<ge> MAXARG then Some (undef ''ustack overflows'')
      else
        let sp1 = sp - of_nat ((length us + 1) * 8); sp2 = sp1 - sp1 mod 16 in
        if sp2 < base then ret (None, m)
        else case copyout (m\<lparr>ram := store (ram m) kb (concat (map le64 (us @ [0])))\<rparr>) pt sp2 kb (of_nat ((length us + 1) * 8)) of (ok, m1) \<Rightarrow>
          ret (if ok then Some sp2 else None, m1))"

text \<open>From the stack's pages to the pointer to the arguments: the new size, the stack pointer and whether all went well.\<close>

definition exec_stack :: "pmem \<Rightarrow> addr \<Rightarrow> addr \<Rightarrow> uint64 \<Rightarrow> addr list \<Rightarrow> (uint64 \<times> uint64 option \<times> pmem) outcome" where
  "exec_stack m pt kb sz0 argv =
     (let sz = PGROUNDUP sz0 in
      rbind (Some (uvmalloc m pt sz (sz + (USERSTACK + 1) * 4096) PTE_W)) (\<lambda>(sz1, m1).
      if sz1 = 0 then ret (sz, None, m1)
      else
        rbind (Some (uvmclear m1 pt (sz1 - (USERSTACK + 1) * 4096))) (\<lambda>m2.
        let base = sz1 - USERSTACK * 4096 in
        rbind (push_args m2 pt base argv 0 sz1 []) (\<lambda>(r, m3).
        case r of
          None \<Rightarrow> ret (sz1, None, m3)
        | Some (sp, us) \<Rightarrow> rbind (push_array m3 pt base kb sp us) (\<lambda>(spo, m4). ret (sz1, spo, m4))))))"

section \<open>Exec\<close>

definition exec_bad :: "kern \<Rightarrow> nat \<Rightarrow> addr \<Rightarrow> uint64 \<Rightarrow> nat option \<Rightarrow> (int \<times> kern) outcome" where
  "exec_bad k p pt sz ipo =
     rbind (if pt \<noteq> 0 then proc_freepagetable (kmem k) pt sz else ret (kmem k)) (\<lambda>m.
     let k1 = k\<lparr>kmem := m\<rparr> in
     case ipo of
       None \<Rightarrow> ret (-1, k1)
     | Some ip \<Rightarrow> rbind (on_fs k1 (\<lambda>s. iunlockput s p ip)) (\<lambda>k2. rbind (on_fs k2 (fs_end p)) (\<lambda>k3. ret (-1, k3))))"

text \<open>The last component of a path.\<close>

definition last_name :: "byte list \<Rightarrow> byte list" where
  "last_name path = rev (takeWhile (\<lambda>c. c \<noteq> SLASH) (rev path))"

definition TF_A1 :: nat where "TF_A1 = 120"

definition exec_commit :: "kern \<Rightarrow> nat \<Rightarrow> byte list \<Rightarrow> addr \<Rightarrow> uint64 \<Rightarrow> uint64 \<Rightarrow> uint64 \<Rightarrow> kern outcome" where
  "exec_commit k p path pt sz sp start =
     (let k1 = set_tf k p TF_A1 sp;
          old = proc_at k1 p;
          k2 = upd_proc k1 p (\<lambda>x. x\<lparr>pname := name_copy (pname x) (last_name path), pagetable := pt, psz := sz\<rparr>);
          k3 = set_tf (set_tf k2 p TF_EPC start) p TF_SP sp in
      rbind (proc_freepagetable (kmem k3) (pagetable old) (psz old)) (\<lambda>m. ret (k3\<lparr>kmem := m\<rparr>)))"

definition exec :: "uint64 \<Rightarrow> kern \<Rightarrow> nat \<Rightarrow> addr \<Rightarrow> byte list \<Rightarrow> addr list \<Rightarrow> (int \<times> kern) outcome" where
  "exec trampoline k p kb path argv =
     rbind (on_fs k fs_begin) (\<lambda>k1.
     rbind (with_cwd k1 p (\<lambda>dir. on_fsr k1 (\<lambda>s. namei s p dir path))) (\<lambda>(ipo, k2).
     case ipo of
       None \<Rightarrow> rbind (on_fs k2 (fs_end p)) (\<lambda>k3. ret (-1, k3))
     | Some ip \<Rightarrow>
         rbind (on_fs k2 (\<lambda>s. ilock s p ip)) (\<lambda>k3.
         rbind (readi kput (kfs k3) p ip (replicate 64 0) 0 64) (\<lambda>(r, bs, s).
         let k4 = k3\<lparr>kfs := s\<rparr>; elf = get_elfhdr bs in
         if r \<noteq> 64 \<or> emagic elf \<noteq> ELF_MAGIC then exec_bad k4 p 0 0 (Some ip)
         else
           rbind (proc_pagetable trampoline (kmem k4) (trapframe (proc_at k4 p))) (\<lambda>(pt, m).
           let k5 = k4\<lparr>kmem := m\<rparr> in
           if pt = 0 then exec_bad k5 p 0 0 (Some ip)
           else
             rbind (exec_load k5 p pt ip (sint (ucast (ephoff elf) :: uint32)) 0 (unat (ephnum elf))) (\<lambda>(ok, sz, k6).
             if \<not> ok then exec_bad k6 p pt sz (Some ip)
             else
               rbind (on_fs k6 (\<lambda>s. iunlockput s p ip)) (\<lambda>k7.
               rbind (on_fs k7 (fs_end p)) (\<lambda>k8.
               rbind (exec_stack (kmem k8) pt kb sz argv) (\<lambda>(sz1, spo, m1).
               let k9 = k8\<lparr>kmem := m1\<rparr> in
               case spo of
                 None \<Rightarrow> exec_bad k9 p pt sz1 None
               | Some sp \<Rightarrow> rbind (exec_commit k9 p path pt sz1 sp (eentry elf)) (\<lambda>k10. ret (int (length argv), k10)))))))))))"

text \<open>The argument strings, each copied to a page of its own.\<close>

fun fetch_args :: "kern \<Rightarrow> nat \<Rightarrow> addr \<Rightarrow> uint64 \<Rightarrow> nat \<Rightarrow> addr list \<Rightarrow> nat \<Rightarrow> bool \<times> addr list \<times> kern" where
  "fetch_args k p kb uargv i argv 0 = (False, argv, k)"
| "fetch_args k p kb uargv i argv (Suc n) =
     (case fetchaddr k p kb (uargv + 8 * of_nat i) of
        (None, k1) \<Rightarrow> (False, argv, k1)
      | (Some uarg, k1) \<Rightarrow>
          if uarg = 0 then (True, argv, k1)
          else case kalloc (kmem k1) of (a, m) \<Rightarrow>
            let k2 = k1\<lparr>kmem := m\<rparr> in
            if a = 0 then (False, argv, k2)
            else (case fetchstr k2 p a uarg PGSIZE of
                    (None, k3) \<Rightarrow> (False, argv @ [a], k3)
                  | (Some _, k3) \<Rightarrow> fetch_args k3 p kb uargv (i + 1) (argv @ [a]) n))"

fun free_args :: "pmem \<Rightarrow> addr list \<Rightarrow> pmem result" where
  "free_args m [] = Inr m"
| "free_args m (a # as) = ebind (kfree m a) (\<lambda>m1. free_args m1 as)"

definition sys_exec :: "uint64 \<Rightarrow> kern \<Rightarrow> nat \<Rightarrow> addr \<Rightarrow> (int \<times> kern) outcome" where
  "sys_exec trampoline k p kb =
     rbind (argaddr k p 1) (\<lambda>uargv.
     rbind (argstr k p kb 0 MAXPATH) (\<lambda>(path, k1).
     case path of
       None \<Rightarrow> ret (-1, k1)
     | Some path \<Rightarrow>
         (case fetch_args k1 p kb uargv 0 [] MAXARG of (ok, argv, k2) \<Rightarrow>
            rbind (if ok then exec trampoline k2 p kb path argv else ret (-1, k2)) (\<lambda>(r, k3).
            rbind (Some (free_args (kmem k3) argv)) (\<lambda>m. ret (r, k3\<lparr>kmem := m\<rparr>))))))"

end
