(* ===== verification/Sysproc.thy ===== *)
theory Sysproc
  imports Exec
begin

text \<open>
  \<^verbatim>\<open>kernel/sysproc.c\<close> and the dispatch of system calls in \<^verbatim>\<open>kernel/syscall.c\<close>.  A call runs until it returns or sleeps; a call that
  sleeps is resumed as its own function says.
\<close>

section \<open>Calls on processes\<close>

definition sys_exit :: "kern \<Rightarrow> nat \<Rightarrow> nat \<Rightarrow> kern outcome" where
  "sys_exit k c p = rbind (argint k p 0) (\<lambda>n. exit k c n)"

definition sys_getpid :: "kern \<Rightarrow> nat \<Rightarrow> int" where
  "sys_getpid k p = ppid (proc_at k p)"

definition sys_fork :: "uint64 \<Rightarrow> uint64 \<Rightarrow> kern \<Rightarrow> nat \<Rightarrow> (int \<times> kern) outcome" where
  "sys_fork trampoline forkret k p = fork trampoline forkret k p"

definition sys_wait :: "kern \<Rightarrow> nat \<Rightarrow> nat \<Rightarrow> addr \<Rightarrow> (wrun \<times> kern) outcome" where
  "sys_wait k c p kb = rbind (argaddr k p 0) (\<lambda>a. wait k c kb a)"

text \<open>The old size, as the 64-bit value that is returned.\<close>

definition sys_sbrk :: "kern \<Rightarrow> nat \<Rightarrow> (int \<times> kern) outcome" where
  "sys_sbrk k p =
     rbind (argint k p 0) (\<lambda>n.
     let a = psz (proc_at k p) in
     rbind (growproc k p n) (\<lambda>(r, k1). ret (if r < 0 then -1 else uint a, k1)))"

text \<open>
  One test of the loop of \<^verbatim>\<open>sys_sleep\<close> that began at \<open>ticks0\<close>: the process sleeps on the address of \<^verbatim>\<open>ticks\<close>, \<open>tk\<close>, or it returns.
  The comparison is unsigned.
\<close>

definition sys_sleep :: "kern \<Rightarrow> nat \<Rightarrow> nat \<Rightarrow> addr \<Rightarrow> uint32 \<Rightarrow> uint32 \<Rightarrow> (int option \<times> kern) outcome" where
  "sys_sleep k c p tk ticks ticks0 =
     rbind (argint k p 0) (\<lambda>n0.
     let n = (if n0 < 0 then 0 else n0) in
     if ticks - ticks0 < of_int n then
       if killed k p then ret (Some (-1), k)
       else rbind (sleep k c (Addr tk)) (\<lambda>k1. ret (None, k1))
     else ret (Some 0, k))"

definition sys_kill :: "kern \<Rightarrow> nat \<Rightarrow> (int \<times> kern) outcome" where
  "sys_kill k p = rbind (argint k p 0) (\<lambda>pid. ret (kill k pid))"

definition sys_uptime :: "uint32 \<Rightarrow> int" where
  "sys_uptime ticks = uint ticks"

section \<open>Dispatch\<close>

datatype srun = SRet int | SFile frun | SSleep | SExit | SUnknown "byte list result"

definition TF_A7 :: nat where "TF_A7 = 168"

definition returns :: "(int \<times> kern) outcome \<Rightarrow> (srun \<times> kern) outcome" where
  "returns x = rbind x (\<lambda>(r, k). ret (SRet r, k))"

definition of_file :: "(frun \<times> kern) outcome \<Rightarrow> (srun \<times> kern) outcome" where
  "of_file x = rbind x (\<lambda>(r, k). ret (case r of FRet i \<Rightarrow> SRet i | _ \<Rightarrow> SFile r, k))"

text \<open>The table \<^verbatim>\<open>syscalls\<close>.\<close>

definition syscalls :: "uint64 \<Rightarrow> uint64 \<Rightarrow> addr \<Rightarrow> uint32 \<Rightarrow> kern \<Rightarrow> nat \<Rightarrow> nat \<Rightarrow> addr \<Rightarrow> int \<Rightarrow> (srun \<times> kern) outcome option" where
  "syscalls trampoline forkret tk ticks k c p kb num =
     (if num = 1 then Some (returns (sys_fork trampoline forkret k p))
      else if num = 2 then Some (rbind (sys_exit k c p) (\<lambda>k1. ret (SExit, k1)))
      else if num = 3 then Some (rbind (sys_wait k c p kb) (\<lambda>(w, k1). ret (case w of WRet i \<Rightarrow> SRet i | WSleep \<Rightarrow> SSleep, k1)))
      else if num = 4 then Some (returns (sys_pipe k p kb))
      else if num = 5 then Some (of_file (sys_read k p kb))
      else if num = 6 then Some (returns (sys_kill k p))
      else if num = 7 then Some (returns (sys_exec trampoline k p kb))
      else if num = 8 then Some (returns (sys_fstat k p kb))
      else if num = 9 then Some (returns (sys_chdir k p kb))
      else if num = 10 then Some (returns (sys_dup k p))
      else if num = 11 then Some (returns (ret (sys_getpid k p, k)))
      else if num = 12 then Some (returns (sys_sbrk k p))
      else if num = 13 then Some (rbind (sys_sleep k c p tk ticks ticks) (\<lambda>(r, k1). ret (case r of Some i \<Rightarrow> SRet i | None \<Rightarrow> SSleep, k1)))
      else if num = 14 then Some (returns (ret (sys_uptime ticks, k)))
      else if num = 15 then Some (returns (sys_open k p kb))
      else if num = 16 then Some (of_file (sys_write k p kb))
      else if num = 17 then Some (returns (sys_mknod k p kb))
      else if num = 18 then Some (returns (sys_unlink k p kb))
      else if num = 19 then Some (returns (sys_link k p kb))
      else if num = 20 then Some (returns (sys_mkdir k p kb))
      else if num = 21 then Some (returns (sys_close k p))
      else None)"

text \<open>A result goes to \<^verbatim>\<open>a0\<close>; for an unknown number the result is \<open>-1\<close> and a line is printed.\<close>

definition syscall :: "uint64 \<Rightarrow> uint64 \<Rightarrow> addr \<Rightarrow> uint32 \<Rightarrow> kern \<Rightarrow> nat \<Rightarrow> nat \<Rightarrow> addr \<Rightarrow> (srun \<times> kern) outcome" where
  "syscall trampoline forkret tk ticks k c p kb =
     (let num = sint (ucast (get_tf k p TF_A7) :: uint32) in
      case syscalls trampoline forkret tk ticks k c p kb num of
        Some x \<Rightarrow> rbind x (\<lambda>(r, k1). ret (r, case r of SRet i \<Rightarrow> set_tf k1 p TF_A0 (of_int i) | _ \<Rightarrow> k1))
      | None \<Rightarrow>
          ret (SUnknown (printf (bytes ''%d %s: unknown sys call %d'' @ [10])
                 [AInt (of_int (ppid (proc_at k p))), AStr (Some (takeWhile (\<lambda>ch. ch \<noteq> 0) (pname (proc_at k p)))), AInt (of_int num)]),
               set_tf k p TF_A0 (-1)))"

end
