(* ===== verification/FileRef.thy ===== *)
theory FileRef
  imports Sysproc ProcSpec
begin

text \<open>
  The reference counts of the file table.  Every system call keeps them equal to the number of descriptors that refer to
  the file, and changes only private fields of the calling process besides what \<open>fork\<close>, \<open>exit\<close>, \<open>wait\<close> and \<open>kill\<close> do; so
  the process table is well formed in all runs of system calls.
\<close>

declare split_paired_All [simp del] split_paired_Ex [simp del]

section \<open>Counting references\<close>

definition nrefs :: "kern \<Rightarrow> nat \<Rightarrow> nat" where
  "nrefs k f = sum_list (map (\<lambda>x. count_list (ofile x) (Some f)) (procs k))"

text \<open>In the middle of a call, \<open>e f\<close> more references to file \<open>f\<close> are held than there are descriptors.\<close>

definition bal :: "kern \<Rightarrow> (nat \<Rightarrow> int) \<Rightarrow> bool" where
  "bal k e \<longleftrightarrow> (\<forall>f<length (ftable k). fref (ftable k ! f) = int (nrefs k f) + e f) \<and>
     (\<forall>x\<in>set (procs k). length (ofile x) = NOFILE \<and> (\<forall>f. Some f \<in> set (ofile x) \<longrightarrow> f < length (ftable k)))"

definition keepf :: "kern \<Rightarrow> kern \<Rightarrow> bool" where
  "keepf k k1 \<longleftrightarrow> map fref (ftable k1) = map fref (ftable k) \<and> map ofile (procs k1) = map ofile (procs k)"

lemma nrefs_map: "nrefs k f = sum_list (map (\<lambda>l. count_list l (Some f)) (map ofile (procs k)))"
  by (simp add: nrefs_def comp_def)

lemma bal_keepf:
  assumes k: "keepf k k1" and b: "bal k e"
  shows "bal k1 e"
proof -
  have n: "nrefs k1 f = nrefs k f" for f using k unfolding nrefs_map keepf_def by simp
  have l: "length (ftable k1) = length (ftable k)" using k unfolding keepf_def by (metis length_map)
  have r: "fref (ftable k1 ! f) = fref (ftable k ! f)" if "f < length (ftable k)" for f
    using k that l unfolding keepf_def by (metis nth_map)
  have "ofile ` set (procs k1) = ofile ` set (procs k)" using k unfolding keepf_def by (metis list.set_map)
  then have "\<exists>y\<in>set (procs k). ofile x = ofile y" if "x \<in> set (procs k1)" for x using that by (metis (no_types, lifting) image_iff)
  then show ?thesis using b n l r unfolding bal_def by metis
qed

lemma keepf_refl [simp]: "keepf k k"
  by (simp add: keepf_def)

lemma keepf_trans: "keepf k k1 \<Longrightarrow> keepf k1 k2 \<Longrightarrow> keepf k k2"
  by (simp add: keepf_def)

lemma keepf_fields [simp]:
  "keepf k (k1\<lparr>kfs := s\<rparr>) = keepf k k1" "keepf k (k1\<lparr>kmem := m\<rparr>) = keepf k k1" "keepf k (k1\<lparr>pipes := ps\<rparr>) = keepf k k1"
  "keepf k (k1\<lparr>kcons := co\<rparr>) = keepf k k1" "keepf k (k1\<lparr>kuart := u\<rparr>) = keepf k k1" "keepf k (k1\<lparr>initproc := i\<rparr>) = keepf k k1"
  "keepf k (k1\<lparr>nextpid := n\<rparr>) = keepf k k1" "keepf k (k1\<lparr>cpu_proc := cp\<rparr>) = keepf k k1"
  by (simp_all add: keepf_def)

lemma keepf_upd_proc: "p < length (procs k) \<Longrightarrow> ofile (g (proc_at k p)) = ofile (proc_at k p) \<Longrightarrow> keepf k (upd_proc k p g)"
  by (simp add: keepf_def upd_proc_def map_update) (metis list_update_id nth_map)

lemma keepf_upd_file: "fref (g (ftable k ! f)) = fref (ftable k ! f) \<Longrightarrow> keepf k (upd_file k f g)"
  using list_update_id [of "map fref (ftable k)" f] by (cases "f < length (ftable k)") (simp_all add: keepf_def upd_file_def map_update list_update_beyond)

lemma keepf_sets: "sets k p x k1 \<Longrightarrow> p < length (procs k) \<Longrightarrow> ftable k1 = ftable k \<Longrightarrow> ofile x = ofile (proc_at k p) \<Longrightarrow> keepf k k1"
  by (simp add: keepf_def sets_def map_update) (metis list_update_id nth_map)

text \<open>One descriptor changes.\<close>

lemma count_list_update:
  "i < length xs \<Longrightarrow> int (count_list (xs[i := v]) a) = int (count_list xs a) - (if xs ! i = a then 1 else 0) + (if v = a then 1 else 0)"
proof (induction xs arbitrary: i)
  case (Cons x xs)
  show ?case
  proof (cases i)
    case (Suc j)
    then show ?thesis using Cons(1) [of j] Cons(2) by (auto split: if_splits)
  qed (use Cons(2) in auto)
qed simp

lemma sum_list_replace: "i < length xs \<Longrightarrow> int (sum_list (map g (xs[i := v]))) = int (sum_list (map g xs)) - int (g (xs ! i)) + int (g v)"
  for g :: "'a \<Rightarrow> nat"
proof (induction xs arbitrary: i)
  case (Cons x xs)
  show ?case
  proof (cases i)
    case (Suc j)
    then show ?thesis using Cons(1) [of j] Cons(2) by (auto split: if_splits)
  qed (use Cons(2) in auto)
qed simp

lemma nrefs_upd:
  "p < length (procs k) \<Longrightarrow> int (nrefs (upd_proc k p g) f) =
     int (nrefs k f) - int (count_list (ofile (proc_at k p)) (Some f)) + int (count_list (ofile (g (proc_at k p))) (Some f))"
  unfolding nrefs_def upd_proc_fields by (rule sum_list_replace)

lemma bal_set_fd:
  assumes b: "bal k e" and p: "p < length (procs k)" "fd < NOFILE" and v: "\<And>f. v = Some f \<Longrightarrow> f < length (ftable k)"
    and e1: "e1 = (\<lambda>f. e f + (if ofile (proc_at k p) ! fd = Some f then 1 else 0) - (if v = Some f then 1 else 0))"
  shows "bal (upd_proc k p (\<lambda>x. x\<lparr>ofile := (ofile x)[fd := v]\<rparr>)) e1"
proof -
  let ?k = "upd_proc k p (\<lambda>x. x\<lparr>ofile := (ofile x)[fd := v]\<rparr>)"
  have l: "length (ofile (proc_at k p)) = NOFILE" using b p by (simp add: bal_def)
  have t: "ftable ?k = ftable k" by (simp add: upd_proc_def)
  have n: "int (nrefs ?k f) = int (nrefs k f) - (if ofile (proc_at k p) ! fd = Some f then 1 else 0) + (if v = Some f then 1 else 0)" for f
    using nrefs_upd [OF p(1)] count_list_update [of fd "ofile (proc_at k p)" v "Some f"] l p(2) by simp
  have "length (ofile x) = NOFILE \<and> (\<forall>f. Some f \<in> set (ofile x) \<longrightarrow> f < length (ftable k))" if x: "x \<in> set (procs ?k)" for x
  proof -
    have "x \<in> insert ((proc_at k p)\<lparr>ofile := (ofile (proc_at k p))[fd := v]\<rparr>) (set (procs k))" using x set_update_subset_insert [of "procs k" p] by auto
    moreover have "Some f \<in> set ((ofile (proc_at k p))[fd := v]) \<Longrightarrow> v = Some f \<or> Some f \<in> set (ofile (proc_at k p))" for f
      using set_update_subset_insert [of "ofile (proc_at k p)" fd v] by auto
    moreover have "proc_at k p \<in> set (procs k)" using p by simp
    ultimately show ?thesis using b v l unfolding bal_def by (metis insertE length_list_update proc.select_convs(13) proc.surjective proc.update_convs(13))
  qed
  then show ?thesis using b n unfolding bal_def t e1 by auto
qed

text \<open>The count of one file changes.\<close>

lemma bal_set_ref:
  assumes b: "bal k e" and g: "fref (g (ftable k ! f)) = fref (ftable k ! f) + d"
  shows "bal (upd_file k f g) (e(f := e f + d))"
proof -
  have "fref (ftable (upd_file k f g) ! h) = fref (ftable k ! h) + (if h = f then d else 0)" if "h < length (ftable k)" for h
    using that g by (simp add: upd_file_def)
  moreover have "procs (upd_file k f g) = procs k" "length (ftable (upd_file k f g)) = length (ftable k)" "nrefs (upd_file k f g) h = nrefs k h" for h
    by (simp_all add: upd_file_def nrefs_def)
  ultimately show ?thesis using b unfolding bal_def by auto
qed

section \<open>Effects of a call\<close>

definition priv :: "kern \<Rightarrow> nat \<Rightarrow> kern \<Rightarrow> bool" where
  "priv k p k1 \<longleftrightarrow> nextpid k1 = nextpid k \<and>
     (\<exists>sz pt fl d nm. sets k p ((proc_at k p)\<lparr>psz := sz, pagetable := pt, ofile := fl, cwd := d, pname := nm\<rparr>) k1 \<and>
        length fl = length (ofile (proc_at k p)) \<and> (pagetable (proc_at k p) \<noteq> 0 \<longrightarrow> pt \<noteq> 0))"

lemma priv_same: "same_tab k k1 \<Longrightarrow> p < length (procs k) \<Longrightarrow> priv k p k1"
  unfolding priv_def
  by (intro conjI exI [of _ "psz (proc_at k p)"] exI [of _ "pagetable (proc_at k p)"] exI [of _ "ofile (proc_at k p)"] exI [of _ "cwd (proc_at k p)"]
      exI [of _ "pname (proc_at k p)"]) (simp_all add: same_tab_def sets_def)

lemma priv_trans:
  assumes "priv k p k1" and "priv k1 p k2" and "p < length (procs k)"
  shows "priv k p k2"
proof -
  obtain sz pt fl d nm where a: "sets k p ((proc_at k p)\<lparr>psz := sz, pagetable := pt, ofile := fl, cwd := d, pname := nm\<rparr>) k1" "length fl = length (ofile (proc_at k p))"
    "pagetable (proc_at k p) \<noteq> 0 \<longrightarrow> pt \<noteq> 0" using assms(1) unfolding priv_def by blast
  obtain sz1 pt1 fl1 d1 nm1 where b: "sets k1 p ((proc_at k1 p)\<lparr>psz := sz1, pagetable := pt1, ofile := fl1, cwd := d1, pname := nm1\<rparr>) k2" "length fl1 = length (ofile (proc_at k1 p))"
    "pagetable (proc_at k1 p) \<noteq> 0 \<longrightarrow> pt1 \<noteq> 0" using assms(2) unfolding priv_def by blast
  have at: "proc_at k1 p = (proc_at k p)\<lparr>psz := sz, pagetable := pt, ofile := fl, cwd := d, pname := nm\<rparr>" using a(1) assms(3) by (simp add: sets_def)
  have "sets k p ((proc_at k p)\<lparr>psz := sz1, pagetable := pt1, ofile := fl1, cwd := d1, pname := nm1\<rparr>) k2" using a(1) b(1) unfolding at by (simp add: sets_def)
  moreover have "length fl1 = length (ofile (proc_at k p))" "pagetable (proc_at k p) \<noteq> 0 \<longrightarrow> pt1 \<noteq> 0" "nextpid k2 = nextpid k"
    using assms(1,2) a(2,3) b(2,3) at by (simp_all add: priv_def)
  ultimately show ?thesis unfolding priv_def by blast
qed

lemma priv_pinv:
  assumes k: "pinv k" and c: "cpu_proc k c = Some p" and v: "priv k p k1"
  shows "pinv k1"
proof -
  note r = running [OF k c]
  obtain sz pt fl d nm where a: "sets k p ((proc_at k p)\<lparr>psz := sz, pagetable := pt, ofile := fl, cwd := d, pname := nm\<rparr>) k1" "length fl = length (ofile (proc_at k p))"
    "pagetable (proc_at k p) \<noteq> 0 \<longrightarrow> pt \<noteq> 0" "nextpid k1 = nextpid k" using v unfolding priv_def by blast
  have "length (ofile (proc_at k p)) = NOFILE" "pagetable (proc_at k p) \<noteq> 0" using pinv_entry [OF k conjunct1 [OF r]] r by (simp_all add: entry_ok_def)
  then have "pstep 0 0 k k1" using pstep.own [OF c _ _ a(4,1)] a(2,3) by simp
  then show ?thesis by (rule pstep_pinv [OF _ k])
qed

definition eff :: "kern \<Rightarrow> nat \<Rightarrow> (nat \<Rightarrow> int) \<Rightarrow> kern \<Rightarrow> (nat \<Rightarrow> int) \<Rightarrow> bool" where
  "eff k p e k1 e1 \<longleftrightarrow> priv k p k1 \<and> length (procs k1) = length (procs k) \<and> length (ftable k1) = length (ftable k) \<and> (bal k e \<longrightarrow> bal k1 e1)"

lemma eff_trans: "eff k p e k1 e1 \<Longrightarrow> eff k1 p e1 k2 e2 \<Longrightarrow> p < length (procs k) \<Longrightarrow> eff k p e k2 e2"
  unfolding eff_def using priv_trans by auto

lemma eff_procs: "eff k p e k1 e1 \<Longrightarrow> p < length (procs k) \<Longrightarrow> p < length (procs k1)"
  by (simp add: eff_def)

text \<open>Work that touches neither the process table nor a reference count.\<close>

definition quiet :: "kern \<Rightarrow> kern \<Rightarrow> bool" where
  "quiet k k1 \<longleftrightarrow> same_tab k k1 \<and> map fref (ftable k1) = map fref (ftable k)"

lemma quiet_refl [simp]: "quiet k k"
  by (simp add: quiet_def)

lemma quiet_trans: "quiet k k1 \<Longrightarrow> quiet k1 k2 \<Longrightarrow> quiet k k2"
  by (auto simp: quiet_def intro: same_tab_trans)

lemma quiet_fields [simp]:
  "quiet k (k1\<lparr>kfs := s\<rparr>) = quiet k k1" "quiet k (k1\<lparr>kmem := m\<rparr>) = quiet k k1" "quiet k (k1\<lparr>pipes := ps\<rparr>) = quiet k k1"
  "quiet k (k1\<lparr>kcons := co\<rparr>) = quiet k k1" "quiet k (k1\<lparr>kuart := u\<rparr>) = quiet k k1" "quiet k (set_tf k1 p off v) = quiet k k1"
  by (simp_all add: quiet_def same_tab_def set_tf_def)

lemma quiet_upd_file: "fref (g (ftable k ! f)) = fref (ftable k ! f) \<Longrightarrow> quiet k (upd_file k f g)"
  using keepf_upd_file [of g k f] by (simp add: quiet_def keepf_def)

lemma quiet_eff: "quiet k k1 \<Longrightarrow> p < length (procs k) \<Longrightarrow> eff k p e k1 e"
proof -
  assume q: "quiet k k1" and p: "p < length (procs k)"
  then have "keepf k k1" "same_tab k k1" by (simp_all add: quiet_def keepf_def same_tab_def)
  moreover have "length (ftable k1) = length (ftable k)" using q unfolding quiet_def by (metis length_map)
  ultimately show ?thesis using bal_keepf priv_same [OF _ p] by (auto simp: eff_def same_tab_def)
qed

lemma eff_quiet: "eff k p e k1 e1 \<Longrightarrow> quiet k1 k2 \<Longrightarrow> p < length (procs k) \<Longrightarrow> eff k p e k2 e1"
  by (meson eff_procs eff_trans quiet_eff)

lemma on_fs_quiet: "on_fs k g = ret k1 \<Longrightarrow> quiet k k1"
  by (auto simp: on_fs_def rbind_ret_iff)

lemma on_fsr_quiet: "on_fsr k g = ret (v, k1) \<Longrightarrow> quiet k k1"
  by (auto simp: on_fsr_def elim!: rbind_retE)

lemma argraw_ret: "n \<le> 5 \<Longrightarrow> argraw k p n = ret (get_tf k p (TF_A0 + 8 * n))"
  by (simp add: argraw_def)

lemma fetchaddr_quiet: "fetchaddr k p kb a = (r, k1) \<Longrightarrow> quiet k k1"
  by (auto simp: fetchaddr_def Let_def split: if_splits prod.splits)

lemma fetchstr_quiet: "fetchstr k p kb a n = (r, k1) \<Longrightarrow> quiet k k1"
  by (auto simp: fetchstr_def split: prod.splits)

lemma argstr_quiet: "argstr k p kb n mx = ret (r, k1) \<Longrightarrow> quiet k k1"
  by (auto simp: argstr_def elim!: rbind_retE dest: fetchstr_quiet)

lemma close_pipe_quiet: "close_pipe k pi w = ret k1 \<Longrightarrow> quiet k k1"
  by (auto simp: close_pipe_def Let_def rbind_ret_iff split: prod.splits if_splits)

lemma fs3_quiet: "rbind (on_fs k g) (\<lambda>k2. rbind (on_fs k2 h) (\<lambda>k3. on_fs k3 i)) = ret k1 \<Longrightarrow> quiet k k1"
  by (elim rbind_retE) (metis on_fs_quiet quiet_trans)

section \<open>References taken and dropped\<close>

lemma ref_eff:
  assumes "fref (g (ftable k ! f)) = fref (ftable k ! f) + d" and "p < length (procs k)"
  shows "eff k p e (upd_file k f g) (e(f := e f + d))"
proof -
  have "same_tab k (upd_file k f g)" by simp
  then show ?thesis using bal_set_ref [of k e g f d] assms(1) priv_same [OF _ assms(2), of "upd_file k f g"] by (auto simp: eff_def same_tab_def upd_file_def)
qed

lemma filedup_eff: "filedup k f = ret k1 \<Longrightarrow> p < length (procs k) \<Longrightarrow> eff k p e k1 (e(f := e f + 1))"
  using ref_eff [of "\<lambda>x. x\<lparr>fref := fref x + 1\<rparr>" k f 1 p e] by (auto simp: filedup_def split: if_splits)

lemma fileclose_eff:
  assumes r: "fileclose k pid f = ret k1" and p: "p < length (procs k)"
  shows "eff k p e k1 (e(f := e f - 1))"
proof -
  let ?k = "upd_file k f (\<lambda>x. x\<lparr>fref := 0, ftype := FD_NONE\<rparr>)"
  show ?thesis
  proof (cases "fref (ftable k ! f) = 1")
    case True
    have "eff k p e ?k (e(f := e f + (-1)))" by (rule ref_eff) (use True p in simp_all)
    moreover have "quiet ?k k1"
      using r True unfolding fileclose_def Let_def by (auto dest: close_pipe_quiet fs3_quiet split: if_splits)
    ultimately show ?thesis using eff_quiet p by simp
  next
    case False
    then have "k1 = upd_file k f (\<lambda>x. x\<lparr>fref := fref x - 1\<rparr>)" using r by (auto simp: fileclose_def Let_def split: if_splits)
    then show ?thesis using ref_eff [of "\<lambda>x. x\<lparr>fref := fref x - 1\<rparr>" k f "-1" p e] p by simp
  qed
qed

lemma filealloc_eff:
  assumes r: "filealloc k = (Some f, k1)" and p: "p < length (procs k)"
  shows "eff k p e k1 (e(f := e f + 1)) \<and> f < length (ftable k)"
proof -
  have f: "fref (ftable k ! f) = 0" "f < length (ftable k)" "k1 = upd_file k f (\<lambda>x. x\<lparr>fref := 1\<rparr>)"
    using r by (auto simp: filealloc_def find_Some_iff split: option.splits)
  then show ?thesis using ref_eff [of "\<lambda>x. x\<lparr>fref := 1\<rparr>" k f 1 p e] p by simp
qed

lemma filealloc_none: "filealloc k = (None, k1) \<Longrightarrow> k1 = k"
  by (auto simp: filealloc_def split: option.splits)

lemma set_fd_eff:
  assumes p: "p < length (procs k)" "fd < NOFILE" and v: "\<And>f. bal k e \<Longrightarrow> v = Some f \<Longrightarrow> f < length (ftable k)"
    and e1: "e1 = (\<lambda>f. e f + (if ofile (proc_at k p) ! fd = Some f then 1 else 0) - (if v = Some f then 1 else 0))"
  shows "eff k p e (upd_proc k p (\<lambda>x. x\<lparr>ofile := (ofile x)[fd := v]\<rparr>)) e1"
proof -
  let ?k = "upd_proc k p (\<lambda>x. x\<lparr>ofile := (ofile x)[fd := v]\<rparr>)" and ?x = "proc_at k p"
  have "priv k p ?k" unfolding priv_def
    by (intro conjI exI [of _ "psz ?x"] exI [of _ "pagetable ?x"] exI [of _ "(ofile ?x)[fd := v]"] exI [of _ "cwd ?x"] exI [of _ "pname ?x"]) (simp_all add: sets_def)
  moreover have "length (ftable ?k) = length (ftable k)" by (simp add: upd_proc_def)
  moreover have "bal k e \<longrightarrow> bal ?k e1" using bal_set_fd [OF _ p v e1] by blast
  ultimately show ?thesis unfolding eff_def by simp
qed

lemma fdalloc_eff:
  assumes r: "fdalloc k p f = (Some fd, k1)" and p: "p < length (procs k)" "bal k e \<Longrightarrow> f < length (ftable k)"
  shows "eff k p e k1 (e(f := e f - 1)) \<and> fd < NOFILE"
proof -
  have fd: "ofile (proc_at k p) ! fd = None" "fd < NOFILE" "k1 = upd_proc k p (\<lambda>x. x\<lparr>ofile := (ofile x)[fd := Some f]\<rparr>)"
    using r by (auto simp: fdalloc_def find_Some_iff split: option.splits)
  have "eff k p e k1 (\<lambda>h. e h + (if ofile (proc_at k p) ! fd = Some h then 1 else 0) - (if Some f = Some h then 1 else 0))"
    unfolding fd(3) by (rule set_fd_eff) (use p fd in auto)
  moreover have "(\<lambda>h. e h + (if ofile (proc_at k p) ! fd = Some h then 1 else 0) - (if Some f = Some h then 1 else 0)) = e(f := e f - 1)"
    using fd(1) by (auto simp: fun_eq_iff)
  ultimately show ?thesis using fd(2) by simp
qed

lemma fdalloc_none: "fdalloc k p f = (None, k1) \<Longrightarrow> k1 = k"
  by (auto simp: fdalloc_def split: option.splits)

lemma fdclear_eff:
  assumes "p < length (procs k)" and "fd < NOFILE" and f: "bal k e \<Longrightarrow> ofile (proc_at k p) ! fd = Some f"
  shows "eff k p e (fdclear k p fd) (e(f := e f + 1))"
proof -
  let ?e = "\<lambda>h. e h + (if ofile (proc_at k p) ! fd = Some h then 1 else 0) - (if None = Some h then 1 else 0)"
  have a: "eff k p e (fdclear k p fd) ?e" unfolding fdclear_def by (rule set_fd_eff) (use assms in auto)
  show ?thesis
  proof (cases "bal k e")
    case True
    then have "?e = e(f := e f + 1)" using f by (auto simp: fun_eq_iff)
    then show ?thesis using a by simp
  next
    case False
    then show ?thesis using a by (simp add: eff_def)
  qed
qed

lemma fdalloc_at:
  "fdalloc k p f = (Some fd, k1) \<Longrightarrow> k1 = upd_proc k p (\<lambda>x. x\<lparr>ofile := (ofile x)[fd := Some f]\<rparr>) \<and> fd < NOFILE \<and> ofile (proc_at k p) ! fd = None"
  by (auto simp: fdalloc_def find_Some_iff split: option.splits)

section \<open>The calls on files\<close>

lemma argfd_ok: "argfd k p n = ret (Some (fd, f)) \<Longrightarrow> fd < NOFILE \<and> ofile (proc_at k p) ! fd = Some f"
  by (auto simp: argfd_def elim!: rbind_retE split: if_splits option.splits)

lemma bal_open: "bal k e \<Longrightarrow> p < length (procs k) \<Longrightarrow> fd < NOFILE \<Longrightarrow> ofile (proc_at k p) ! fd = Some f \<Longrightarrow> f < length (ftable k)"
  unfolding bal_def by (metis nth_mem)

lemma with_cwd_ret: "with_cwd k p g = ret x \<Longrightarrow> (\<And>d. cwd (proc_at k p) = Some d \<Longrightarrow> g d = ret x \<Longrightarrow> P) \<Longrightarrow> P"
  by (auto simp: with_cwd_def split: option.splits)

lemma sys_dup_eff:
  assumes r: "sys_dup k p = ret (r, k1)" and p: "p < length (procs k)"
  shows "eff k p e k1 e"
proof -
  obtain a where a: "argfd k p 0 = ret a" using r unfolding sys_dup_def by (auto elim!: rbind_retE)
  show ?thesis
  proof (cases a)
    case None
    then show ?thesis using r a quiet_eff [OF quiet_refl p] unfolding sys_dup_def by simp
  next
    case (Some y)
    obtain fd f where y: "y = (fd, f)" by (cases y)
    note af = argfd_ok [of k p 0 fd f] and a1 = a [unfolded Some y]
    show ?thesis
    proof (cases "fdalloc k p f")
      case (Pair b k2)
      show ?thesis
      proof (cases b)
        case None
        then have "k1 = k2" "k2 = k" using r a1 Pair fdalloc_none [of k p f k2] unfolding sys_dup_def by simp_all
        then show ?thesis using quiet_eff [OF quiet_refl p] by simp
      next
        case (Some nfd)
        then have k2: "fdalloc k p f = (Some nfd, k2)" using Pair by simp
        have e: "eff k p e k2 (e(f := e f - 1))" using fdalloc_eff [OF k2 p] bal_open [OF _ p] af [OF a1] by blast
        have "filedup k2 f = ret k1" using r unfolding sys_dup_def a1 using k2 by (auto elim!: rbind_retE)
        then have "eff k2 p (e(f := e f - 1)) k1 e" using filedup_eff [OF _ eff_procs [OF e p], of f k1 "e(f := e f - 1)"] by simp
        then show ?thesis by (rule eff_trans [OF e _ p])
      qed
    qed
  qed
qed

lemma sys_close_eff:
  assumes r: "sys_close k p = ret (r, k1)" and p: "p < length (procs k)"
  shows "eff k p e k1 e"
proof -
  obtain a where a: "argfd k p 0 = ret a" using r unfolding sys_close_def by (auto elim!: rbind_retE)
  show ?thesis
  proof (cases a)
    case None
    then show ?thesis using r a quiet_eff [OF quiet_refl p] unfolding sys_close_def by simp
  next
    case (Some y)
    obtain fd f where y: "y = (fd, f)" by (cases y)
    note a1 = a [unfolded Some y]
    have e: "eff k p e (fdclear k p fd) (e(f := e f + 1))" using fdclear_eff [OF p] argfd_ok [OF a1] by blast
    have "fileclose (fdclear k p fd) p f = ret k1" using r unfolding sys_close_def a1 by (auto elim!: rbind_retE)
    then have "eff (fdclear k p fd) p (e(f := e f + 1)) k1 e" using fileclose_eff [OF _ eff_procs [OF e p], of p f k1 "e(f := e f + 1)"] by simp
    then show ?thesis by (rule eff_trans [OF e _ p])
  qed
qed

lemma filestat_quiet: "filestat k pid pt kb f a = ret (r, k1) \<Longrightarrow> quiet k k1"
  unfolding filestat_def Let_def by (auto elim!: rbind_retE split: if_splits prod.splits) (meson on_fs_quiet quiet_trans)+

lemma fileread_quiet:
  assumes "fileread k pid pt kd kb f a n = ret (r, k1)"
  shows "quiet k k1"
proof (cases "readable (ftable k ! f)")
  case True
  show ?thesis
  proof (cases "ftype (ftable k ! f)")
    case FD_INODE
    then obtain k2 r2 m s k3 where k2: "on_fs k (\<lambda>s. ilock s pid (fip (ftable k ! f))) = ret k2"
      and k3: "k3 = (if r2 > 0 then upd_file (k2\<lparr>kfs := s, kmem := m\<rparr>) f (\<lambda>y. y\<lparr>foff := foff y + of_int r2\<rparr>) else k2\<lparr>kfs := s, kmem := m\<rparr>)"
      and k1: "on_fs k3 (\<lambda>s. iunlock s pid (fip (ftable k ! f))) = ret k1"
      using assms True unfolding fileread_def Let_def by (auto elim!: rbind_retE)
    have "quiet (k2\<lparr>kfs := s, kmem := m\<rparr>) k3" unfolding k3 by (cases "r2 > 0") (simp_all add: quiet_upd_file)
    then have "quiet k2 k3" by (simp add: quiet_def same_tab_def)
    then show ?thesis using on_fs_quiet [OF k2] on_fs_quiet [OF k1] by (meson quiet_trans)
  next
    case FD_PIPE
    then show ?thesis using assms True unfolding fileread_def Let_def by (auto split: prod.splits)
  next
    case FD_DEVICE
    then show ?thesis using assms True unfolding fileread_def Let_def by (auto split: prod.splits if_splits)
  next
    case FD_NONE
    then show ?thesis using assms True unfolding fileread_def Let_def by simp
  qed
next
  case False
  then show ?thesis using assms unfolding fileread_def Let_def by simp
qed

lemma filewrite_loop_quiet: "filewrite_loop k pid pt kb f a n i = ret (r, k1) \<Longrightarrow> quiet k k1"
proof (induction k pid pt kb f a n i rule: filewrite_loop.induct)
  case (1 k pid pt kb f a n i)
  show ?case
  proof (cases "i < n")
    case False
    then show ?thesis using 1(2) by (simp add: filewrite_loop.simps [of k])
  next
    case True
    let ?n1 = "min (n - i) FWMAX" and ?ip = "fip (ftable k ! f)"
    obtain k2 k3 r1 s k4 k5 k6 where k: "on_fs k fs_begin = ret k2" "on_fs k2 (\<lambda>s. ilock s pid ?ip) = ret k3"
      and w: "writei (uget pt (a + of_int i) kb) (kfs k3) pid ?ip (kmem k3) (foff (ftable k3 ! f)) (of_int ?n1) = ret (r1, s)"
      and k4: "k4 = (if r1 > 0 then upd_file (k3\<lparr>kfs := s\<rparr>) f (\<lambda>y. y\<lparr>foff := foff y + of_int r1\<rparr>) else k3\<lparr>kfs := s\<rparr>)"
      and k5: "on_fs k4 (\<lambda>s. iunlock s pid ?ip) = ret k5" and k6: "on_fs k5 (fs_end pid) = ret k6"
      and e: "(if r1 \<noteq> ?n1 then ret (i, k6) else filewrite_loop k6 pid pt kb f a n (i + r1)) = ret (r, k1)"
      using 1(2) True unfolding filewrite_loop.simps [of k] Let_def by (auto elim!: rbind_retE)
    have "quiet (k3\<lparr>kfs := s\<rparr>) k4" unfolding k4 by (cases "r1 > 0") (simp_all add: quiet_upd_file)
    then have "quiet k3 k4" by (simp add: quiet_def same_tab_def)
    then have q6: "quiet k k6" using on_fs_quiet [OF k(1)] on_fs_quiet [OF k(2)] on_fs_quiet [OF k5] on_fs_quiet [OF k6] by (meson quiet_trans)
    show ?thesis
    proof (cases "r1 = ?n1")
      case False
      then show ?thesis using e q6 by simp
    next
      case eq: True
      have "quiet k6 k1"
        by (rule 1(1) [OF True HOL.refl HOL.refl k(1) [unfolded ret_def] k(2) [unfolded ret_def] w [unfolded ret_def] HOL.refl HOL.refl k4 k5 [unfolded ret_def] k6 [unfolded ret_def]])
          (use eq e in simp_all)
      then show ?thesis using q6 quiet_trans by blast
    qed
  qed
qed

lemma filewrite_quiet:
  assumes "filewrite k pid pt kd kb f a n = ret (r, k1)"
  shows "quiet k k1"
proof (cases "writable (ftable k ! f)")
  case True
  then show ?thesis using assms unfolding filewrite_def Let_def
    by (cases "ftype (ftable k ! f)") (auto elim!: rbind_retE dest: filewrite_loop_quiet split: prod.splits if_splits)
next
  case False
  then show ?thesis using assms unfolding filewrite_def Let_def by simp
qed

lemma sys_read_quiet: "sys_read k p kb = ret (r, k1) \<Longrightarrow> quiet k k1"
  unfolding sys_read_def by (auto elim!: rbind_retE dest: fileread_quiet split: option.splits)

lemma sys_write_quiet: "sys_write k p kb = ret (r, k1) \<Longrightarrow> quiet k k1"
  unfolding sys_write_def by (auto elim!: rbind_retE dest: filewrite_quiet split: option.splits)

lemma sys_fstat_quiet: "sys_fstat k p kb = ret (r, k1) \<Longrightarrow> quiet k k1"
  unfolding sys_fstat_def by (auto elim!: rbind_retE dest: filestat_quiet split: option.splits)

lemma sys_link_quiet: "sys_link k p kb = ret (r, k1) \<Longrightarrow> quiet k k1"
  unfolding sys_link_def by ((auto elim!: rbind_retE with_cwd_ret dest!: on_fsr_quiet argstr_quiet split: option.splits); meson quiet_trans)

lemma sys_unlink_quiet: "sys_unlink k p kb = ret (r, k1) \<Longrightarrow> quiet k k1"
  unfolding sys_unlink_def by ((auto elim!: rbind_retE with_cwd_ret dest!: on_fsr_quiet argstr_quiet split: option.splits); meson quiet_trans)

lemma create_end_quiet: "create_end k p ipo = ret (r, k1) \<Longrightarrow> quiet k k1"
  unfolding create_end_def by ((auto elim!: rbind_retE dest!: on_fs_quiet split: option.splits); meson quiet_trans)

lemma open_fail_quiet: "open_fail k p ip = ret (r, k1) \<Longrightarrow> quiet k k1"
  unfolding open_fail_def by ((auto elim!: rbind_retE dest!: on_fs_quiet); meson quiet_trans)

lemma sys_mkdir_quiet: "sys_mkdir k p kb = ret (r, k1) \<Longrightarrow> quiet k k1"
  unfolding sys_mkdir_def
  by (elim rbind_retE, (clarsimp split: option.splits; (elim rbind_retE with_cwd_ret)?; clarsimp dest!: on_fsr_quiet argstr_quiet on_fs_quiet create_end_quiet; meson quiet_trans))

lemma sys_mknod_quiet: "sys_mknod k p kb = ret (r, k1) \<Longrightarrow> quiet k k1"
  unfolding sys_mknod_def
  by (elim rbind_retE, (clarsimp split: option.splits; (elim rbind_retE with_cwd_ret)?; clarsimp dest!: on_fsr_quiet argstr_quiet on_fs_quiet create_end_quiet; meson quiet_trans))

lemma cwd_eff: "p < length (procs k) \<Longrightarrow> eff k p e (upd_proc k p (\<lambda>x. x\<lparr>cwd := d\<rparr>)) e"
proof -
  assume p: "p < length (procs k)"
  let ?k = "upd_proc k p (\<lambda>x. x\<lparr>cwd := d\<rparr>)" and ?x = "proc_at k p"
  have "priv k p ?k" unfolding priv_def
    by (intro conjI exI [of _ "psz ?x"] exI [of _ "pagetable ?x"] exI [of _ "ofile ?x"] exI [of _ d] exI [of _ "pname ?x"]) (simp_all add: sets_def)
  moreover have "length (ftable ?k) = length (ftable k)" by (simp add: upd_proc_def)
  moreover have "bal k e \<longrightarrow> bal ?k e" using bal_keepf [OF keepf_upd_proc [OF p]] by simp
  ultimately show ?thesis unfolding eff_def by simp
qed

lemma sys_chdir_eff:
  assumes r: "sys_chdir k p kb = ret (r, k1)" and p: "p < length (procs k)"
  shows "eff k p e k1 e"
proof -
  obtain k2 path k3 where a: "on_fs k fs_begin = ret k2" "argstr k2 p kb 0 MAXPATH = ret (path, k3)" using r unfolding sys_chdir_def by (auto elim!: rbind_retE)
  have q3: "quiet k k3" using on_fs_quiet [OF a(1)] argstr_quiet [OF a(2)] by (rule quiet_trans)
  show ?thesis
  proof (cases path)
    case None
    then have "create_end k3 p None = ret (r, k1)" using r a unfolding sys_chdir_def by simp
    then show ?thesis using quiet_eff [OF quiet_trans [OF q3 create_end_quiet] p] by blast
  next
    case (Some pa)
    obtain d ipo k4 where b: "on_fsr k3 (\<lambda>s. namei s p d pa) = ret (ipo, k4)"
      "(case ipo of None \<Rightarrow> create_end k4 p None
         | Some ip \<Rightarrow>
             rbind (on_fs k4 (\<lambda>s. ilock s p ip)) (\<lambda>k5.
             if itype (kfs k5) ip \<noteq> T_DIR then open_fail k5 p ip
             else
               rbind (on_fs k5 (\<lambda>s. iunlock s p ip)) (\<lambda>k6.
               rbind (on_fs k6 (\<lambda>s. iput s p d)) (\<lambda>k7.
               rbind (on_fs k7 (fs_end p)) (\<lambda>k8.
                 ret (0, upd_proc k8 p (\<lambda>x. x\<lparr>cwd := Some ip\<rparr>))))))) = ret (r, k1)"
      using r a Some unfolding sys_chdir_def by (auto elim!: rbind_retE with_cwd_ret)
    have q4: "quiet k k4" using q3 on_fsr_quiet [OF b(1)] by (rule quiet_trans)
    show ?thesis
    proof (cases ipo)
      case None
      then show ?thesis using b(2) quiet_eff [OF quiet_trans [OF q4 create_end_quiet] p] by simp
    next
      case (Some ip)
      then obtain k5 where k5: "on_fs k4 (\<lambda>s. ilock s p ip) = ret k5" using b(2) by (auto elim!: rbind_retE)
      have q5: "quiet k k5" using q4 on_fs_quiet [OF k5] by (rule quiet_trans)
      show ?thesis
      proof (cases "itype (kfs k5) ip = T_DIR")
        case False
        then have "open_fail k5 p ip = ret (r, k1)" using b(2) Some k5 by simp
        then show ?thesis using quiet_eff [OF quiet_trans [OF q5 open_fail_quiet] p] by blast
      next
        case True
        then obtain k6 k7 k8 where k8: "on_fs k5 (\<lambda>s. iunlock s p ip) = ret k6" "on_fs k6 (\<lambda>s. iput s p d) = ret k7" "on_fs k7 (fs_end p) = ret k8"
          "k1 = upd_proc k8 p (\<lambda>x. x\<lparr>cwd := Some ip\<rparr>)" using b(2) Some k5 by (auto elim!: rbind_retE)
        have "quiet k k8" using q5 on_fs_quiet [OF k8(1)] on_fs_quiet [OF k8(2)] on_fs_quiet [OF k8(3)] quiet_trans by meson
        from quiet_eff [OF this p] have e8: "eff k p e k8 e" .
        show ?thesis unfolding k8(4) by (rule eff_trans [OF e8 cwd_eff [OF eff_procs [OF e8 p]] p])
      qed
    qed
  qed
qed

section \<open>Open and pipe\<close>

lemma open_file_quiet: "quiet k (open_file k f ip omode)"
  unfolding open_file_def by (rule quiet_upd_file) simp

lemma open_rest_eff:
  assumes f: "filealloc k = (Some f, k3)" and p: "p < length (procs k)"
    and r: "(case fdalloc k3 p f of
         (None, k4) \<Rightarrow> rbind (fileclose k4 p f) (\<lambda>k5. open_fail k5 p ip)
       | (Some fd, k4) \<Rightarrow>
           let k5 = open_file k4 f ip omode in
           rbind (if omode AND O_TRUNC \<noteq> 0 \<and> itype (kfs k5) ip = T_FILE then on_fs k5 (\<lambda>s. itrunc s p ip) else ret k5) (\<lambda>k6.
           rbind (on_fs k6 (\<lambda>s. iunlock s p ip)) (\<lambda>k7.
           rbind (on_fs k7 (fs_end p)) (\<lambda>k8. ret (int fd, k8))))) = ret (r, k1)"
  shows "eff k p e k1 e"
proof -
  have e3: "eff k p e k3 (e(f := e f + 1))" and fl: "f < length (ftable k)" using filealloc_eff [OF f p, of e] by simp_all
  have p3: "p < length (procs k3)" by (rule eff_procs [OF e3 p])
  obtain b k4 where fd: "fdalloc k3 p f = (b, k4)" by fastforce
  show ?thesis
  proof (cases b)
    case None
    then have "k4 = k3" using fdalloc_none [of k3 p f k4] fd by simp
    then obtain k5 where k5: "fileclose k3 p f = ret k5" "open_fail k5 p ip = ret (r, k1)" using r fd None by (auto elim!: rbind_retE)
    have "eff k3 p (e(f := e f + 1)) k5 e" using fileclose_eff [OF k5(1) p3, of "e(f := e f + 1)"] by simp
    from eff_trans [OF e3 this p] show ?thesis using eff_quiet [OF _ open_fail_quiet [OF k5(2)] p] by blast
  next
    case (Some d)
    let ?k5 = "open_file k4 f ip omode"
    have "f < length (ftable k3)" using fl e3 by (simp add: eff_def)
    then have "eff k3 p (e(f := e f + 1)) k4 e" using fdalloc_eff [OF fd [unfolded Some] p3, of "e(f := e f + 1)"] by simp
    from eff_trans [OF e3 this p] have e4: "eff k p e k4 e" .
    obtain k6 k7 where k6: "(if omode AND O_TRUNC \<noteq> 0 \<and> itype (kfs ?k5) ip = T_FILE then on_fs ?k5 (\<lambda>s. itrunc s p ip) else ret ?k5) = ret k6"
      "on_fs k6 (\<lambda>s. iunlock s p ip) = ret k7" "on_fs k7 (fs_end p) = ret k1" using r fd Some unfolding Let_def by (auto elim!: rbind_retE)
    have "quiet ?k5 k6" using k6(1) on_fs_quiet by (auto split: if_splits)
    then have "quiet k4 k1" using open_file_quiet on_fs_quiet [OF k6(2)] on_fs_quiet [OF k6(3)] quiet_trans by meson
    then show ?thesis by (rule eff_quiet [OF e4 _ p])
  qed
qed

lemma sys_open_eff:
  assumes r: "sys_open k p kb = ret (r, k1)" and p: "p < length (procs k)"
  shows "eff k p e k1 e"
proof -
  obtain om path k2 where a: "argint k p 1 = ret om" "argstr k p kb 0 MAXPATH = ret (path, k2)" using r unfolding sys_open_def Let_def by (auto elim!: rbind_retE)
  note q2 = argstr_quiet [OF a(2)]
  show ?thesis
  proof (cases path)
    case None
    then show ?thesis using r a quiet_eff [OF q2 p] unfolding sys_open_def Let_def by simp
  next
    case (Some pa)
    then obtain ipo k3 where w: "with_cwd k2 p (\<lambda>dir. on_fsr k2 (\<lambda>s. open_ip s p dir pa (of_int om))) = ret (ipo, k3)"
      using r a unfolding sys_open_def Let_def by (auto elim!: rbind_retE)
    then have "quiet k2 k3" by (auto elim!: with_cwd_ret dest: on_fsr_quiet)
    then have q3: "quiet k k3" using q2 quiet_trans by blast
    have e3: "eff k p e k3 e" by (rule quiet_eff [OF q3 p])
    have p3: "p < length (procs k3)" by (rule eff_procs [OF e3 p])
    show ?thesis
    proof (cases ipo)
      case None
      then show ?thesis using r a Some w e3 unfolding sys_open_def Let_def by simp
    next
      case ip: (Some ip)
      obtain b k4 where f: "filealloc k3 = (b, k4)" by fastforce
      show ?thesis
      proof (cases b)
        case None
        then have "open_fail k3 p ip = ret (r, k1)" using r a Some w ip f filealloc_none [of k3 k4] unfolding sys_open_def Let_def by simp
        then show ?thesis using eff_quiet [OF e3 open_fail_quiet p] by blast
      next
        case fb: (Some f1)
        have "eff k3 p e k1 e"
          by (rule open_rest_eff [OF f [unfolded fb] p3, of ip "of_int om"]) (use r a Some w ip f fb in \<open>simp add: sys_open_def Let_def\<close>)
        then show ?thesis by (rule eff_trans [OF e3 _ p])
      qed
    qed
  qed
qed

lemma pipealloc_eff:
  assumes r: "pipealloc k pid = ret (v, k1)" and p: "p < length (procs k)"
  shows "case v of None \<Rightarrow> eff k p e k1 e
    | Some (f0, f1) \<Rightarrow> f0 < length (ftable k) \<and> f1 < length (ftable k) \<and> eff k p e k1 ((e(f0 := e f0 + 1))(f1 := (e(f0 := e f0 + 1)) f1 + 1))"
proof -
  obtain b0 k2 where a0: "filealloc k = (b0, k2)" by fastforce
  show ?thesis
  proof (cases b0)
    case None
    then show ?thesis using r a0 filealloc_none [of k k2] quiet_eff [OF quiet_refl p] unfolding pipealloc_def by auto
  next
    case (Some f0)
    let ?e0 = "e(f0 := e f0 + 1)"
    have e0: "eff k p e k2 ?e0" "f0 < length (ftable k)" using filealloc_eff [OF a0 [unfolded Some] p, of e] by simp_all
    have p2: "p < length (procs k2)" by (rule eff_procs [OF e0(1) p])
    obtain b1 k3 where a1: "filealloc k2 = (b1, k3)" by fastforce
    show ?thesis
    proof (cases b1)
      case None
      then have "k3 = k2" using filealloc_none [of k2 k3] a1 by simp
      then have "fileclose k2 pid f0 = ret k1" "v = None" using r a0 Some a1 None unfolding pipealloc_def close_opt_def by (auto elim!: rbind_retE)
      moreover from this have "eff k2 p ?e0 k1 e" using fileclose_eff [OF _ p2, of pid f0 k1 ?e0] by simp
      ultimately show ?thesis using eff_trans [OF e0(1) _ p] by simp
    next
      case s1: (Some f1)
      let ?e1 = "?e0(f1 := ?e0 f1 + 1)"
      have e1: "eff k2 p ?e0 k3 ?e1" "f1 < length (ftable k2)" using filealloc_eff [OF a1 [unfolded s1] p2, of ?e0] by simp_all
      have ek: "eff k p e k3 ?e1" by (rule eff_trans [OF e0(1) e1(1) p])
      have l: "f1 < length (ftable k)" using e1(2) e0(1) by (simp add: eff_def)
      obtain pi m where m: "kalloc (kmem k3) = (pi, m)" by fastforce
      let ?k4 = "k3\<lparr>kmem := m\<rparr>"
      have e4: "eff k p e ?k4 ?e1" by (rule eff_quiet [OF ek _ p]) simp
      have p4: "p < length (procs ?k4)" by (rule eff_procs [OF e4 p])
      show ?thesis
      proof (cases "pi = 0")
        case True
        then obtain k5 where k5: "fileclose ?k4 pid f0 = ret k5" "fileclose k5 pid f1 = ret k1" "v = None"
          using r a0 Some a1 s1 m unfolding pipealloc_def close_opt_def by (auto simp: Let_def elim!: rbind_retE)
        have e5: "eff ?k4 p ?e1 k5 (?e1(f0 := ?e1 f0 - 1))" by (rule fileclose_eff [OF k5(1) p4])
        have p5: "p < length (procs k5)" by (rule eff_procs [OF e5 p4])
        have "(?e1(f0 := ?e1 f0 - 1))(f1 := (?e1(f0 := ?e1 f0 - 1)) f1 - 1) = e" by (auto simp: fun_eq_iff)
        then have "eff k5 p (?e1(f0 := ?e1 f0 - 1)) k1 e" using fileclose_eff [OF k5(2) p5, of "?e1(f0 := ?e1 f0 - 1)"] by simp
        then have "eff k p e k1 e" using eff_trans [OF e4 eff_trans [OF e5 _ p4] p] by blast
        then show ?thesis using k5(3) by simp
      next
        case False
        let ?k5 = "?k4\<lparr>pipes := (pipes ?k4)(pi := pipe_init (map (ram m) [pi + PIPE_DATA..<pi + PIPE_DATA + PIPESIZE]))\<rparr>"
        have "v = Some (f0, f1)" and k1: "k1 = upd_file (upd_file ?k5 f0 (\<lambda>x. x\<lparr>ftype := FD_PIPE, readable := True, writable := False, fpipe := pi\<rparr>)) f1
            (\<lambda>x. x\<lparr>ftype := FD_PIPE, readable := False, writable := True, fpipe := pi\<rparr>)"
          using r a0 Some a1 s1 m False unfolding pipealloc_def by (simp_all add: Let_def)
        moreover have "quiet ?k5 k1" unfolding k1 by (rule quiet_trans [OF quiet_upd_file quiet_upd_file]) simp_all
        then have "quiet ?k4 k1" by (simp add: quiet_def same_tab_def)
        then have "eff k p e k1 ?e1" by (rule eff_quiet [OF e4 _ p])
        ultimately show ?thesis using e0(2) l by simp
      qed
    qed
  qed
qed

lemma pipe_fail_eff:
  assumes r: "pipe_fail k p f0 f1 = ret (r, k1)" and p: "p < length (procs k)"
  shows "eff k p ((e(f0 := e f0 + 1))(f1 := (e(f0 := e f0 + 1)) f1 + 1)) k1 e"
proof -
  let ?e1 = "(e(f0 := e f0 + 1))(f1 := (e(f0 := e f0 + 1)) f1 + 1)"
  obtain k2 where k2: "fileclose k p f0 = ret k2" "fileclose k2 p f1 = ret k1" using r unfolding pipe_fail_def by (auto elim!: rbind_retE)
  have e2: "eff k p ?e1 k2 (?e1(f0 := ?e1 f0 - 1))" by (rule fileclose_eff [OF k2(1) p])
  have p2: "p < length (procs k2)" by (rule eff_procs [OF e2 p])
  have "(?e1(f0 := ?e1 f0 - 1))(f1 := (?e1(f0 := ?e1 f0 - 1)) f1 - 1) = e" by (auto simp: fun_eq_iff)
  then have "eff k2 p (?e1(f0 := ?e1 f0 - 1)) k1 e" using fileclose_eff [OF k2(2) p2, of "?e1(f0 := ?e1 f0 - 1)"] by simp
  then show ?thesis by (rule eff_trans [OF e2 _ p])
qed

lemma put_int_quiet: "put_int k p kb a n = (ok, k1) \<Longrightarrow> quiet k k1 \<and> procs k1 = procs k"
  by (auto simp: put_int_def split: prod.splits)

text \<open>\<^verbatim>\<open>sys_pipe\<close> with both descriptors allocated.\<close>

lemma pipe_copy_eff:
  assumes fd0: "fdalloc k p f0 = (Some fd0, k2)" and fd1: "fdalloc k2 p f1 = (Some fd1, k3)" and p: "p < length (procs k)"
    and f: "f0 < length (ftable k)" "f1 < length (ftable k)"
    and r: "(case put_int k3 p kb a fd0 of (ok, k4) \<Rightarrow>
        case (if ok then put_int k4 p kb (a + 4) fd1 else (False, k4)) of (ok, k5) \<Rightarrow>
          if ok then ret (0, k5) else pipe_fail (fdclear (fdclear k5 p fd0) p fd1) p f0 f1) = ret (r, k1)"
  shows "eff k p ((e(f0 := e f0 + 1))(f1 := (e(f0 := e f0 + 1)) f1 + 1)) k1 e"
proof -
  let ?e1 = "(e(f0 := e f0 + 1))(f1 := (e(f0 := e f0 + 1)) f1 + 1)"
  have e2: "eff k p ?e1 k2 (?e1(f0 := ?e1 f0 - 1))" using fdalloc_eff [OF fd0 p, of ?e1] f by simp
  have p2: "p < length (procs k2)" "f1 < length (ftable k2)" using eff_procs [OF e2 p] e2 f by (simp_all add: eff_def)
  have up: "(?e1(f0 := ?e1 f0 - 1))(f1 := (?e1(f0 := ?e1 f0 - 1)) f1 - 1) = e" by (auto simp: fun_eq_iff)
  have e3: "eff k2 p (?e1(f0 := ?e1 f0 - 1)) k3 e" using fdalloc_eff [OF fd1 p2(1), of "?e1(f0 := ?e1 f0 - 1)"] p2(2) up by simp
  have ek: "eff k p ?e1 k3 e" by (rule eff_trans [OF e2 e3 p])
  have p3: "p < length (procs k3)" by (rule eff_procs [OF ek p])
  have a0: "k2 = upd_proc k p (\<lambda>x. x\<lparr>ofile := (ofile x)[fd0 := Some f0]\<rparr>)" "fd0 < NOFILE" "ofile (proc_at k p) ! fd0 = None"
    using fdalloc_at [OF fd0] by simp_all
  have a1: "k3 = upd_proc k2 p (\<lambda>x. x\<lparr>ofile := (ofile x)[fd1 := Some f1]\<rparr>)" "fd1 < NOFILE" "ofile (proc_at k2 p) ! fd1 = None"
    using fdalloc_at [OF fd1] by simp_all
  have at: "ofile (proc_at k3 p) ! fd0 = Some f0 \<and> ofile (proc_at k3 p) ! fd1 = Some f1 \<and> fd0 \<noteq> fd1" if "length (ofile (proc_at k3 p)) = NOFILE"
  proof -
    have o3: "ofile (proc_at k3 p) = (ofile (proc_at k p))[fd0 := Some f0, fd1 := Some f1]" "ofile (proc_at k2 p) = (ofile (proc_at k p))[fd0 := Some f0]"
      using a0 a1 p p2 by simp_all
    then have "length (ofile (proc_at k p)) = NOFILE" using that by simp
    then show ?thesis using o3 a0(2) a1(2,3) by (cases "fd0 = fd1") simp_all
  qed
  obtain ok k4 where k4: "put_int k3 p kb a fd0 = (ok, k4)" by fastforce
  obtain ok5 k5 where k5: "(if ok then put_int k4 p kb (a + 4) fd1 else (False, k4)) = (ok5, k5)" by fastforce
  have q: "quiet k3 k5 \<and> procs k5 = procs k3" using put_int_quiet [OF k4] put_int_quiet [of k4 p kb "a + 4" fd1 ok5 k5] k5 quiet_trans by (cases ok) auto
  have e5: "eff k p ?e1 k5 e" by (rule eff_quiet [OF ek _ p]) (use q in simp)
  have p5: "p < length (procs k5)" by (rule eff_procs [OF e5 p])
  show ?thesis
  proof (cases ok5)
    case True
    then show ?thesis using r k4 k5 e5 by simp
  next
    case False
    have l5: "length (ofile (proc_at k5 p)) = NOFILE" if "bal k5 e1" for e1 using that p5 by (simp add: bal_def)
    have e6: "eff k5 p e (fdclear k5 p fd0) (e(f0 := e f0 + 1))" by (rule fdclear_eff [OF p5 a0(2)]) (use l5 at q in auto)
    have p6: "p < length (procs (fdclear k5 p fd0))" by (rule eff_procs [OF e6 p5])
    have "ofile (proc_at (fdclear k5 p fd0) p) ! fd1 = Some f1" if b: "bal (fdclear k5 p fd0) e1" for e1
    proof -
      have "length (ofile (proc_at (fdclear k5 p fd0) p)) = NOFILE" using b p6 by (simp add: bal_def)
      then have "length (ofile (proc_at k3 p)) = NOFILE" using p5 q by (simp add: fdclear_def)
      then show ?thesis using at q p5 by (simp add: fdclear_def)
    qed
    then have e7: "eff (fdclear k5 p fd0) p (e(f0 := e f0 + 1)) (fdclear (fdclear k5 p fd0) p fd1) ?e1" by (intro fdclear_eff [OF p6 a1(2)])
    have p7: "p < length (procs (fdclear (fdclear k5 p fd0) p fd1))" by (rule eff_procs [OF e7 p6])
    have "pipe_fail (fdclear (fdclear k5 p fd0) p fd1) p f0 f1 = ret (r, k1)" using r k4 k5 False by simp
    from eff_trans [OF eff_trans [OF e6 e7 p5] pipe_fail_eff [OF this p7] p5] show ?thesis by (rule eff_trans [OF e5 _ p])
  qed
qed

lemma sys_pipe_eff:
  assumes r: "sys_pipe k p kb = ret (r, k1)" and p: "p < length (procs k)"
  shows "eff k p e k1 e"
proof -
  obtain a v k2 where a: "argaddr k p 0 = ret a" "pipealloc k p = ret (v, k2)" using r unfolding sys_pipe_def by (auto elim!: rbind_retE)
  note pe = pipealloc_eff [OF a(2) p, of e]
  show ?thesis
  proof (cases v)
    case None
    then show ?thesis using r a pe unfolding sys_pipe_def by simp
  next
    case (Some y)
    obtain f0 f1 where y: "y = (f0, f1)" by (cases y)
    let ?e1 = "(e(f0 := e f0 + 1))(f1 := (e(f0 := e f0 + 1)) f1 + 1)"
    have e2: "eff k p e k2 ?e1" and f: "f0 < length (ftable k2)" "f1 < length (ftable k2)" using pe Some y by (simp_all add: eff_def)
    have p2: "p < length (procs k2)" by (rule eff_procs [OF e2 p])
    obtain b0 k3 where b0: "fdalloc k2 p f0 = (b0, k3)" by fastforce
    have "eff k2 p ?e1 k1 e"
    proof (cases b0)
      case None
      then have "k3 = k2" using fdalloc_none b0 by simp
      then have "pipe_fail k2 p f0 f1 = ret (r, k1)" using r a Some y b0 None unfolding sys_pipe_def by simp
      then show ?thesis by (rule pipe_fail_eff [OF _ p2])
    next
      case s0: (Some fd0)
      note d0 = fdalloc_at [OF b0 [unfolded s0]]
      obtain b1 k4 where b1: "fdalloc k3 p f1 = (b1, k4)" by fastforce
      show ?thesis
      proof (cases b1)
        case None
        then have "k4 = k3" using fdalloc_none b1 by simp
        then have pf: "pipe_fail (fdclear k3 p fd0) p f0 f1 = ret (r, k1)" using r a Some y b0 b1 None s0 unfolding sys_pipe_def by simp
        have e3: "eff k2 p ?e1 k3 (?e1(f0 := ?e1 f0 - 1))" using fdalloc_eff [OF b0 [unfolded s0] p2, of ?e1] f by simp
        have p3: "p < length (procs k3)" by (rule eff_procs [OF e3 p2])
        have "ofile (proc_at k3 p) ! fd0 = Some f0" if "bal k3 e1" for e1
        proof -
          have "length (ofile (proc_at k3 p)) = NOFILE" using that p3 by (simp add: bal_def)
          then show ?thesis using d0 p2 by simp
        qed
        then have e4: "eff k3 p (?e1(f0 := ?e1 f0 - 1)) (fdclear k3 p fd0) ((?e1(f0 := ?e1 f0 - 1))(f0 := (?e1(f0 := ?e1 f0 - 1)) f0 + 1))"
          using d0 by (intro fdclear_eff [OF p3]) auto
        have "(?e1(f0 := ?e1 f0 - 1))(f0 := (?e1(f0 := ?e1 f0 - 1)) f0 + 1) = ?e1" by (auto simp: fun_eq_iff)
        note e4 = e4 [unfolded this]
        show ?thesis by (rule eff_trans [OF eff_trans [OF e3 e4 p2] pipe_fail_eff [OF pf eff_procs [OF e4 p3]] p2])
      next
        case s1: (Some fd1)
        show ?thesis
          by (rule pipe_copy_eff [OF b0 [unfolded s0] b1 [unfolded s1] p2 f, of kb a]) (use r a Some y b0 s0 b1 s1 in \<open>simp add: sys_pipe_def\<close>)
      qed
    qed
    then show ?thesis by (rule eff_trans [OF e2 _ p])
  qed
qed

section \<open>Exec and sbrk\<close>

lemma loadseg_loop_quiet: "loadseg_loop k pid pt va ip offset sz i fuel = ret (r, k1) \<Longrightarrow> quiet k k1"
proof (induction fuel arbitrary: k i)
  case (Suc fuel)
  show ?case
  proof (cases "i < sz")
    case True
    let ?n = "if sz - i < 4096 then sz - i else 4096"
    obtain r1 m s where e: "(if r1 \<noteq> uint ?n then ret (False, k\<lparr>kfs := s, kmem := m\<rparr>) else loadseg_loop (k\<lparr>kfs := s, kmem := m\<rparr>) pid pt va ip offset sz (i + 4096) fuel) = ret (r, k1)"
      using Suc(2) True by (auto simp: Let_def elim!: rbind_retE split: if_splits)
    show ?thesis
    proof (cases "r1 = uint ?n")
      case True
      then have "loadseg_loop (k\<lparr>kfs := s, kmem := m\<rparr>) pid pt va ip offset sz (i + 4096) fuel = ret (r, k1)" using e by (simp only: simp_thms if_False)
      then have "quiet (k\<lparr>kfs := s, kmem := m\<rparr>) k1" by (rule Suc(1))
      then show ?thesis by (simp add: quiet_def same_tab_def)
    next
      case False
      then have "k1 = k\<lparr>kfs := s, kmem := m\<rparr>" using e by simp
      then show ?thesis by simp
    qed
  next
    case False
    then show ?thesis using Suc(2) by simp
  qed
qed (simp add: ret_def)

lemma quiet_left [simp]: "quiet (k\<lparr>kfs := s\<rparr>) k1 = quiet k k1" "quiet (k\<lparr>kmem := m\<rparr>) k1 = quiet k k1"
  by (simp_all add: quiet_def same_tab_def)

lemma exec_load_quiet: "exec_load k pid pt ip off sz n = ret (ok, sz1, k1) \<Longrightarrow> quiet k k1"
proof (induction n arbitrary: k off sz)
  case (Suc n)
  obtain r bs s where a: "readi kput (kfs k) pid ip (replicate 56 0) (of_int off) 56 = ret (r, bs, s)" using Suc(2) by (auto elim!: rbind_retE)
  let ?ph = "get_proghdr bs" and ?k1 = "k\<lparr>kfs := s\<rparr>"
  consider "k1 = ?k1" | "exec_load ?k1 pid pt ip (off + 56) sz n = ret (ok, sz1, k1)"
    | sz2 m where "(if sz2 = 0 then ret (False, sz, ?k1\<lparr>kmem := m\<rparr>) else
         rbind (loadseg (?k1\<lparr>kmem := m\<rparr>) pid pt (ph_vaddr ?ph) ip (ucast (ph_off ?ph)) (ucast (ph_filesz ?ph))) (\<lambda>(ok, k3).
         if \<not> ok then ret (False, sz2, k3) else exec_load k3 pid pt ip (off + 56) sz2 n)) = ret (ok, sz1, k1)"
    using Suc(2) a by (auto simp: Let_def elim!: rbind_retE split: if_splits)
  then show ?case
  proof cases
    case 1
    then show ?thesis by simp
  next
    case 2
    from Suc(1) [OF 2] show ?thesis by simp
  next
    case (3 sz2 m)
    show ?thesis
    proof (cases "sz2 = 0")
      case True
      then show ?thesis using 3 by auto
    next
      case False
      then obtain b k3 where b: "loadseg (?k1\<lparr>kmem := m\<rparr>) pid pt (ph_vaddr ?ph) ip (ucast (ph_off ?ph)) (ucast (ph_filesz ?ph)) = ret (b, k3)"
        "(if \<not> b then ret (False, sz2, k3) else exec_load k3 pid pt ip (off + 56) sz2 n) = ret (ok, sz1, k1)" using 3 by (auto elim!: rbind_retE)
      have "quiet k k3" using loadseg_loop_quiet [OF b(1) [unfolded loadseg_def]] by simp
      moreover have "quiet k3 k1" using b(2) Suc(1) [of k3 "off + 56" sz2] by (cases b) simp_all
      ultimately show ?thesis by (rule quiet_trans)
    qed
  qed
qed simp

lemma exec_bad_quiet: "exec_bad k p pt sz ipo = ret (r, k1) \<Longrightarrow> quiet k k1"
  unfolding exec_bad_def Let_def by (auto elim!: rbind_retE dest!: on_fs_quiet split: option.splits) (auto dest: quiet_trans)

lemma commit_order: "(x :: proc)\<lparr>pname := a, pagetable := b, psz := c\<rparr> = x\<lparr>psz := c, pagetable := b, pname := a\<rparr>"
  by (cases x) simp

lemma exec_commit_eff:
  assumes r: "exec_commit k p path pt sz sp start = ret k1" and p: "p < length (procs k)" "pt \<noteq> 0"
  shows "eff k p e k1 e"
proof -
  let ?x = "proc_at k p"
  obtain m where k1: "k1 = (set_tf (set_tf (upd_proc (set_tf k p TF_A1 sp) p (\<lambda>x. x\<lparr>pname := name_copy (pname x) (last_name path), pagetable := pt, psz := sz\<rparr>)) p TF_EPC start) p TF_SP sp)\<lparr>kmem := m\<rparr>"
    using r unfolding exec_commit_def Let_def by (auto elim!: rbind_retE)
  have ps: "procs (set_tf k p v w) = procs k" "nextpid (set_tf k p v w) = nextpid k" "initproc (set_tf k p v w) = initproc k" "cpu_proc (set_tf k p v w) = cpu_proc k"
    "ftable (set_tf k p v w) = ftable k" for k :: kern and v w by (simp_all add: set_tf_def)
  have "priv k p k1" unfolding priv_def k1
    by (intro conjI exI [of _ sz] exI [of _ pt] exI [of _ "ofile ?x"] exI [of _ "cwd ?x"] exI [of _ "name_copy (pname ?x) (last_name path)"]) (use p in \<open>simp_all add: sets_def ps commit_order\<close>)
  moreover have "keepf k k1" using keepf_upd_proc [OF p(1), of "\<lambda>x. x\<lparr>pname := name_copy (pname x) (last_name path), pagetable := pt, psz := sz\<rparr>"]
    unfolding k1 keepf_def by (simp add: ps upd_proc_def)
  moreover have "length (procs k1) = length (procs k)" "length (ftable k1) = length (ftable k)" unfolding k1 by (simp_all add: ps upd_proc_def)
  ultimately show ?thesis using bal_keepf by (auto simp: eff_def)
qed

lemma exec_eff:
  assumes r: "exec tr k p kb path argv = ret (r, k1)" and p: "p < length (procs k)"
  shows "eff k p e k1 e"
proof -
  obtain k2 ipo k3 where a: "on_fs k fs_begin = ret k2" "with_cwd k2 p (\<lambda>dir. on_fsr k2 (\<lambda>s. namei s p dir path)) = ret (ipo, k3)"
    using r unfolding exec_def by (auto elim!: rbind_retE)
  have "quiet k2 k3" using a(2) by (auto elim!: with_cwd_ret dest: on_fsr_quiet)
  then have q3: "quiet k k3" using on_fs_quiet [OF a(1)] quiet_trans by blast
  show ?thesis
  proof (cases ipo)
    case None
    then have "on_fs k3 (fs_end p) = ret k1" using r a unfolding exec_def by (auto elim!: rbind_retE)
    then show ?thesis using quiet_eff [OF quiet_trans [OF q3 on_fs_quiet] p] by blast
  next
    case (Some ip)
    obtain k4 n bs s where b: "on_fs k3 (\<lambda>s. ilock s p ip) = ret k4" "readi kput (kfs k4) p ip (replicate 64 0) 0 64 = ret (n, bs, s)"
      using r a Some unfolding exec_def by (auto elim!: rbind_retE)
    let ?k5 = "k4\<lparr>kfs := s\<rparr>" and ?elf = "get_elfhdr bs"
    have q5: "quiet k ?k5" using quiet_trans [OF q3 on_fs_quiet [OF b(1)]] by simp
    note r1 = r [unfolded exec_def a rbind_simps prod.case Some option.case b Let_def]
    show ?thesis
    proof (cases "n \<noteq> 64 \<or> emagic ?elf \<noteq> ELF_MAGIC")
      case True
      then have "exec_bad ?k5 p 0 0 (Some ip) = ret (r, k1)" using r1 by simp
      then show ?thesis using quiet_eff [OF quiet_trans [OF q5 exec_bad_quiet] p] by blast
    next
      case False
      note r2 = r1 [unfolded if_not_P [OF False]]
      then obtain pt m where pt: "proc_pagetable tr (kmem ?k5) (trapframe (proc_at ?k5 p)) = ret (pt, m)" by (auto elim!: rbind_retE)
      let ?k6 = "?k5\<lparr>kmem := m\<rparr>"
      note r3 = r2 [unfolded pt rbind_simps prod.case]
      show ?thesis
      proof (cases "pt = 0")
        case True
        then have "exec_bad ?k6 p 0 0 (Some ip) = ret (r, k1)" using r3 by simp
        from exec_bad_quiet [OF this] have "quiet ?k5 k1" by simp
        from quiet_eff [OF quiet_trans [OF q5 this] p] show ?thesis .
      next
        case pn: False
        note r4 = r3 [unfolded if_not_P [OF pn]]
        then obtain ok sz k7 where l: "exec_load ?k6 p pt ip (sint (ucast (ephoff ?elf) :: uint32)) 0 (unat (ephnum ?elf)) = ret (ok, sz, k7)" by (auto elim!: rbind_retE)
        have "quiet ?k5 k7" using exec_load_quiet [OF l] by simp
        from quiet_trans [OF q5 this] have q7: "quiet k k7" .
        note r5 = r4 [unfolded l rbind_simps prod.case]
        show ?thesis
        proof (cases ok)
          case False
          then have "exec_bad k7 p pt sz (Some ip) = ret (r, k1)" using r5 by simp
          then show ?thesis using quiet_eff [OF quiet_trans [OF q7 exec_bad_quiet] p] by blast
        next
          case True
          then obtain k8 k9 sz1 spo m1 where c: "on_fs k7 (\<lambda>s. iunlockput s p ip) = ret k8" "on_fs k8 (fs_end p) = ret k9"
            "(case spo of None \<Rightarrow> exec_bad (k9\<lparr>kmem := m1\<rparr>) p pt sz1 None
               | Some sp \<Rightarrow> rbind (exec_commit (k9\<lparr>kmem := m1\<rparr>) p path pt sz1 sp (eentry ?elf)) (\<lambda>k10. ret (int (length argv), k10))) = ret (r, k1)"
            using r5 by (auto elim!: rbind_retE)
          have q9: "quiet k (k9\<lparr>kmem := m1\<rparr>)" using quiet_trans [OF quiet_trans [OF q7 on_fs_quiet [OF c(1)]] on_fs_quiet [OF c(2)]] by simp
          note e9 = quiet_eff [OF q9 p, of e]
          show ?thesis
          proof (cases spo)
            case None
            then have "exec_bad (k9\<lparr>kmem := m1\<rparr>) p pt sz1 None = ret (r, k1)" using c(3) by simp
            then show ?thesis using eff_quiet [OF e9 exec_bad_quiet p] by blast
          next
            case sp: (Some sp)
            then have "exec_commit (k9\<lparr>kmem := m1\<rparr>) p path pt sz1 sp (eentry ?elf) = ret k1" using c(3) by (auto elim!: rbind_retE)
            from exec_commit_eff [OF this eff_procs [OF e9 p] pn] show ?thesis by (rule eff_trans [OF e9 _ p])
          qed
        qed
      qed
    qed
  qed
qed

end
