(* ===== verification/FileSpec.thy ===== *)
theory FileSpec
  imports FileRef
begin

text \<open>
  Runs of system calls: the process table stays well formed and the file table's counts stay right.
\<close>

declare split_paired_All [simp del] split_paired_Ex [simp del]

section \<open>Fork, exit and wait\<close>

lemma bal_fd_upd:
  assumes b: "bal k (e(f := e f + 1))" and p: "p < length (procs k)" "fd < NOFILE" "ofile (proc_at k p) ! fd = None" "f < length (ftable k)"
  shows "bal (upd_proc k p (\<lambda>x. x\<lparr>ofile := (ofile x)[fd := Some f]\<rparr>)) e"
proof (rule bal_set_fd [OF b p(1,2)])
  show "e = (\<lambda>h. (e(f := e f + 1)) h + (if ofile (proc_at k p) ! fd = Some h then 1 else 0) - (if Some f = Some h then 1 else 0))"
    using p(3) by (auto simp: fun_eq_iff)
qed (use p in simp)

lemma dup_files_bal:
  assumes "dup_files k np fs i = ret k1" and "np < length (procs k)" and "bal k e" and "\<forall>j. i \<le> j \<and> j < i + length fs \<longrightarrow> ofile (proc_at k np) ! j = None"
    and "i + length fs \<le> NOFILE" and "\<forall>f. Some f \<in> set fs \<longrightarrow> f < length (ftable k)"
  shows "bal k1 e"
  using assms
proof (induction k np fs i rule: dup_files.induct)
  case (2 k np fs i)
  then show ?case by simp
next
  case (3 k np f fs i)
  then obtain k2 where k2: "filedup k f = ret k2" by (auto elim!: rbind_retE)
  have st: "same_tab k k2" by (rule filedup_tab [OF k2])
  have e2: "eff k np e k2 (e(f := e f + 1))" by (rule filedup_eff [OF k2 3(3)])
  then have b2: "bal k2 (e(f := e f + 1))" "length (ftable k2) = length (ftable k)" using 3(4) by (simp_all add: eff_def)
  let ?k = "upd_proc k2 np (\<lambda>x. x\<lparr>ofile := (ofile x)[i := Some f]\<rparr>)"
  have n2: "np < length (procs k2)" "procs k2 = procs k" using st 3(3) by (simp_all add: same_tab_def)
  have l: "i < length (ofile (proc_at k np))" using 3(3,4,6) by (simp add: bal_def)
  have "bal ?k e" by (rule bal_fd_upd [OF b2(1) n2(1)]) (use 3(5-7) n2 b2 in auto)
  moreover have "ofile (proc_at ?k np) ! j = None" if "i + 1 \<le> j" "j < i + 1 + length fs" for j using that n2 3(5) by simp
  moreover have "ftable ?k = ftable k2" by (simp add: upd_proc_def)
  moreover have "dup_files ?k np fs (i + 1) = ret k1" using 3(2) k2 by simp
  ultimately show ?case using 3(1) [OF k2 [unfolded ret_def]] n2 b2(2) 3(6,7) by simp
qed simp

lemma freeproc_keepf: "freeproc k p = ret k1 \<Longrightarrow> p < length (procs k) \<Longrightarrow> keepf k k1"
  by (erule freeproc_ok) (auto intro: keepf_sets)

lemma keepf_left [simp]: "keepf (k\<lparr>kmem := m\<rparr>) k1 = keepf k k1" "keepf (k\<lparr>kfs := s\<rparr>) k1 = keepf k k1"
  by (simp_all add: keepf_def)

lemma fork_fill_bal:
  assumes r: "fork_fill k p np = ret (r, k1)" and np: "np < length (procs k)" "p < length (procs k)" "p \<noteq> np" and b: "bal k e" and o: "\<forall>j<NOFILE. ofile (proc_at k np) ! j = None"
  shows "bal k1 e"
proof -
  let ?k2 = "upd_proc k np (\<lambda>x. x\<lparr>psz := psz (proc_at k p)\<rparr>)"
  let ?k4 = "set_tf (?k2\<lparr>kmem := (kmem ?k2)\<lparr>ram := memmove (ram (kmem ?k2)) (trapframe (proc_at ?k2 np)) (trapframe (proc_at ?k2 p)) TF_SIZE\<rparr>\<rparr>) np TF_A0 0"
  have "keepf k ?k2" by (rule keepf_upd_proc [OF np(1)]) simp
  then have "keepf k ?k4" by (simp add: set_tf_def)
  then have b4: "bal ?k4 e" using b by (rule bal_keepf)
  have at4: "np < length (procs ?k4)" "ofile (proc_at ?k4 np) = ofile (proc_at k np)" "ofile (proc_at ?k4 p) = ofile (proc_at k p)" "length (ftable ?k4) = length (ftable k)"
    using np by (simp_all add: set_tf_def) (simp add: upd_proc_def)
  have op: "length (ofile (proc_at k p)) = NOFILE" "\<forall>f. Some f \<in> set (ofile (proc_at k p)) \<longrightarrow> f < length (ftable k)" using b nth_mem [OF np(2)] unfolding bal_def by blast+
  obtain k5 ip where d: "dup_files ?k4 np (ofile (proc_at ?k4 p)) 0 = ret k5" "cwd (proc_at k5 p) = Some ip"
    and "r = ppid (proc_at (upd_proc (k5\<lparr>kfs := idup (kfs k5) ip\<rparr>) np (\<lambda>x. x\<lparr>cwd := Some ip, pname := name_copy (pname x) (pname (proc_at k5 p))\<rparr>)) np)"
    and k1: "k1 = upd_proc (upd_proc (upd_proc (k5\<lparr>kfs := idup (kfs k5) ip\<rparr>) np (\<lambda>x. x\<lparr>cwd := Some ip, pname := name_copy (pname x) (pname (proc_at k5 p))\<rparr>))
      np (\<lambda>x. x\<lparr>parent := Some p\<rparr>)) np (\<lambda>x. x\<lparr>pstate := RUNNABLE\<rparr>)"
    using r unfolding fork_fill_def Let_def by (elim rbind_retE) (simp only: ret_eq prod.inject undef_neq_ret split: option.splits)
  have b5: "bal k5 e" by (rule dup_files_bal [OF d(1) at4(1) b4]) (use at4 o op in auto)
  have n5: "np < length (procs k5)" using dup_files_ok [OF d(1) at4(1)] at4(1) by (auto simp: sets_def)
  have u: "keepf k (upd_proc k np g)" if "np < length (procs k)" "ofile (g (proc_at k np)) = ofile (proc_at k np)" for k g using that by (rule keepf_upd_proc)
  have "keepf (k5\<lparr>kfs := idup (kfs k5) ip\<rparr>) k1" unfolding k1
    by (rule keepf_trans [OF keepf_trans [OF u u] u]) (use n5 in simp_all)
  then show ?thesis using bal_keepf [OF _ b5] by simp
qed

lemma fork_bal:
  assumes r: "fork tr fr k p = ret (r, k1)" and k: "pinv k" and p: "p < length (procs k)" "pstate (proc_at k p) \<noteq> UNUSED" and b: "bal k e"
  shows "bal k1 e"
proof -
  obtain npo k2 where a: "allocproc tr fr k = ret (npo, k2)" using r unfolding fork_def by (auto elim!: rbind_retE)
  show ?thesis
  proof (rule allocproc_ok [OF a])
    assume "npo = None" "k2 = k"
    then show ?thesis using r a b unfolding fork_def by simp
  next
    fix np x assume n: "npo = None" "np < length (procs k)" "sets k np x k2" "ofile x = ofile (proc_at k np)" "ftable k2 = ftable k"
    then have "k1 = k2" using r a unfolding fork_def by simp
    then show ?thesis using bal_keepf [OF keepf_sets [OF n(3,2,5,4)] b] by simp
  next
    fix np tf pt
    let ?x = "(proc_at k np)\<lparr>ppid := nextpid k, pstate := USED, trapframe := tf, pagetable := pt, ctx_ra := fr, ctx_sp := kstack (proc_at k np) + 4096\<rparr>"
    assume npo: "npo = Some np" and np: "np < length (procs k)" "pstate (proc_at k np) = UNUSED" and s: "sets k np ?x k2" and f: "ftable k2 = ftable k"
    have b2: "bal k2 e" by (rule bal_keepf [OF keepf_sets [OF s np(1) f] b]) simp
    have np2: "np < length (procs k2)" "p < length (procs k2)" "p \<noteq> np" "proc_at k2 np = ?x" using s np p by (auto simp: sets_def)
    have o: "\<forall>j<NOFILE. ofile (proc_at k2 np) ! j = None" using pinv_entry [OF k np(1)] np(2) np2(4) by (simp add: entry_ok_def)
    obtain ok m where u: "(if \<not> ok then rbind (freeproc (k2\<lparr>kmem := m\<rparr>) np) (\<lambda>k2. ret (-1, k2)) else fork_fill (k2\<lparr>kmem := m\<rparr>) p np) = ret (r, k1)"
      using r unfolding fork_def a npo by (auto elim!: rbind_retE)
    have b3: "bal (k2\<lparr>kmem := m\<rparr>) e" using bal_keepf [OF _ b2] by simp
    show ?thesis
    proof (cases ok)
      case False
      then have "freeproc (k2\<lparr>kmem := m\<rparr>) np = ret k1" using u by (auto elim!: rbind_retE)
      then show ?thesis using bal_keepf [OF freeproc_keepf b3] np2 by simp
    next
      case True
      then have "fork_fill (k2\<lparr>kmem := m\<rparr>) p np = ret (r, k1)" using u by simp
      then show ?thesis by (rule fork_fill_bal) (use np2 o b3 in simp_all)
    qed
  qed
qed

lemma close_files_bal:
  assumes "close_files k p fds = ret k1" and "p < length (procs k)" and "bal k e" and "set fds \<subseteq> {..<NOFILE}"
  shows "bal k1 e"
  using assms
proof (induction k p fds rule: close_files.induct)
  case (2 k p fd fds)
  show ?case
  proof (cases "ofile (proc_at k p) ! fd")
    case None
    then show ?thesis using 2(1) [OF None] 2(3-6) by simp
  next
    case (Some f)
    then obtain k2 where k2: "fileclose k p f = ret k2" using 2(3) by (auto elim!: rbind_retE)
    have st: "procs k2 = procs k" using fileclose_tab [OF k2] by (simp add: same_tab_def)
    have b2: "bal k2 (e(f := e f - 1))" using fileclose_eff [OF k2 2(4), of e] 2(5) by (simp add: eff_def)
    let ?k = "upd_proc k2 p (\<lambda>x. x\<lparr>ofile := (ofile x)[fd := None]\<rparr>)"
    have "bal ?k e"
    proof (rule bal_set_fd [OF b2])
      show "e = (\<lambda>h. (e(f := e f - 1)) h + (if ofile (proc_at k2 p) ! fd = Some h then 1 else 0) - (if None = Some h then 1 else 0))"
        using Some st by (auto simp: fun_eq_iff)
    qed (use 2(4,6) st in simp_all)
    moreover have "close_files ?k p fds = ret k1" using 2(3) Some k2 by simp
    ultimately show ?thesis using 2(2) [OF Some k2 [unfolded ret_def]] 2(4,6) st by simp
  qed
qed simp

lemma woke_keepf:
  assumes w: "woke k k1" and f: "ftable k1 = ftable k"
  shows "keepf k k1"
proof -
  have "map ofile (procs k1) = map ofile (procs k)"
    using woke_fields [OF w] wokeD(2) [OF w] by (intro nth_equalityI) simp_all
  then show ?thesis using f by (simp add: keepf_def)
qed

lemma exit_bal:
  assumes r: "exit k c status = ret k1" and k: "pinv k" and b: "bal k e"
  shows "bal k1 e"
proof -
  obtain p where c: "cpu_proc k c = Some p" and i: "initproc k \<noteq> Some p" using r by (auto simp: exit_def myproc_def split: option.splits if_splits)
  note p = conjunct1 [OF running [OF k c]]
  obtain i where i: "initproc k = Some i" "i < length (procs k)" "i \<noteq> p" using k i by (auto simp: pinv_def ptab_ok_def kids_ok_def)
  obtain k2 k3 k4 k5 k6 ip q where x: "close_files k p [0..<NOFILE] = ret k2" "on_fs k2 fs_begin = ret k3" "on_fs k3 (\<lambda>s. iput s p ip) = ret k4"
    "on_fs k4 (fs_end p) = ret k5" "reparent (upd_proc k5 p (\<lambda>x. x\<lparr>cwd := None\<rparr>)) p = ret k6"
    "k1 = switch_out (upd_proc (wakeup k6 (Some p) (ProcAt q)) p (\<lambda>x. x\<lparr>xstate := status, pstate := ZOMBIE\<rparr>)) c"
    using r c i unfolding exit_def myproc_def by (auto elim!: rbind_retE simp: Let_def split: option.splits)
  have b2: "bal k2 e" by (rule close_files_bal [OF x(1) p b]) auto
  have "quiet k2 k5" by (rule quiet_trans [OF quiet_trans [OF on_fs_quiet [OF x(2)] on_fs_quiet [OF x(3)]] on_fs_quiet [OF x(4)]])
  then have q5: "keepf k2 k5" "procs k5 = procs k2" "initproc k5 = initproc k2" by (auto simp: quiet_def keepf_def same_tab_def)
  have s2: "length (procs k2) = length (procs k)" "initproc k2 = initproc k" using close_files_ok [OF x(1) p] by (auto simp: sets_def)
  let ?k = "upd_proc k5 p (\<lambda>x. x\<lparr>cwd := None\<rparr>)"
  have "keepf k5 ?k" by (rule keepf_upd_proc) (use p q5 s2 in simp_all)
  then have b5: "bal ?k e" using bal_keepf b2 keepf_trans [OF q5(1)] by blast
  have sub: "set [0..<length (procs ?k)] \<subseteq> {..<length (procs ?k)}" by auto
  have w: "woke ?k k6" "ftable k6 = ftable ?k"
    using reparent_loop_ok [OF x(5) [unfolded reparent_def] sub, of i] i q5 s2 by auto
  let ?k7 = "wakeup k6 (Some p) (ProcAt q)"
  have k7: "keepf ?k ?k7" using woke_keepf [OF woke_trans [OF w(1) wakeup_woke]] w(2) by simp
  have "p < length (procs ?k7)" using woke_fields [OF w(1)] p q5 s2 by simp
  then have "keepf ?k7 k1" unfolding x(6) switch_out_def using keepf_upd_proc [of p ?k7] by simp
  then show ?thesis using bal_keepf [OF keepf_trans [OF k7]] b5 by blast
qed

lemma wait_keepf:
  assumes r: "wait k c kb a = ret (w, k1)" and k: "pinv k"
  shows "keepf k k1"
proof -
  obtain p where c: "cpu_proc k c = Some p" using r by (auto simp: wait_def myproc_def split: option.splits)
  note p = conjunct1 [OF running [OF k c]]
  let ?kids = "filter (\<lambda>pp. parent (proc_at k pp) = Some p) [0..<length (procs k)]"
  have sl: "keepf k (sleep_on k c p (ProcAt p))" unfolding sleep_on_def switch_out_def using keepf_upd_proc [OF p] by simp
  show ?thesis
  proof (cases "find (\<lambda>pp. pstate (proc_at k pp) = ZOMBIE) ?kids")
    case None
    then show ?thesis using r c sl unfolding wait_def myproc_def Let_def by (auto split: if_splits)
  next
    case (Some pp)
    then have "pp \<in> set ?kids" unfolding find_Some_iff by (metis nth_mem)
    then have pp: "pp < length (procs k)" by simp
    obtain ok m where u: "(if \<not> ok then ret (WRet (-1), k\<lparr>kmem := m\<rparr>) else rbind (freeproc (k\<lparr>kmem := m\<rparr>) pp) (\<lambda>k1. ret (WRet (ppid (proc_at k pp)), k1))) = ret (w, k1)"
      using r c Some unfolding wait_def myproc_def Let_def by (auto split: prod.splits)
    show ?thesis
    proof (cases ok)
      case True
      then have "freeproc (k\<lparr>kmem := m\<rparr>) pp = ret k1" using u by (auto elim!: rbind_retE)
      from freeproc_keepf [OF this] show ?thesis using pp by simp
    next
      case False
      then have "k1 = k\<lparr>kmem := m\<rparr>" using u by simp
      then show ?thesis by simp
    qed
  qed
qed

lemma kill_keepf: "kill k pid = (r, k1) \<Longrightarrow> keepf k k1"
  by (auto simp: kill_def find_Some_iff split: option.splits intro!: keepf_upd_proc)

lemma leave_keepf: "p < length (procs k) \<Longrightarrow> ofile (g (proc_at k p)) = ofile (proc_at k p) \<Longrightarrow> keepf k (switch_out (upd_proc k p g) c)"
  unfolding switch_out_def using keepf_upd_proc [of p k g] by simp

lemma scheduler_keepf: "scheduler k c i = (r, k1) \<Longrightarrow> keepf k k1"
  by (auto simp: scheduler_def find_Some_iff split: option.splits intro!: keepf_upd_proc)

lemma sys_exec_eff:
  assumes r: "sys_exec tr k p kb = ret (r, k1)" and p: "p < length (procs k)"
  shows "eff k p e k1 e"
proof -
  obtain u path k2 where a: "argaddr k p 1 = ret u" "argstr k p kb 0 MAXPATH = ret (path, k2)" using r unfolding sys_exec_def by (auto elim!: rbind_retE)
  note q2 = argstr_quiet [OF a(2)]
  show ?thesis
  proof (cases path)
    case None
    then show ?thesis using r a quiet_eff [OF q2 p] unfolding sys_exec_def by simp
  next
    case (Some pa)
    obtain ok argv k3 where f: "fetch_args k2 p kb u 0 [] MAXARG = (ok, argv, k3)" by (metis prod_cases3)
    have "fetch_args k p kb u i as n = (ok, argv, k3) \<Longrightarrow> quiet k k3" for k i as n
    proof (induction n arbitrary: k i as)
      case (Suc n)
      obtain b k4 where b: "fetchaddr k p kb (u + 8 * of_nat i) = (b, k4)" by fastforce
      note q4 = fetchaddr_quiet [OF b]
      show ?case
      proof (cases "b = None \<or> b = Some 0")
        case True
        then show ?thesis using Suc(2) b q4 by auto
      next
        case False
        then obtain v where v: "b = Some v" "v \<noteq> 0" by auto
        obtain a m where m: "kalloc (kmem k4) = (a, m)" by fastforce
        obtain d k5 where d: "fetchstr (k4\<lparr>kmem := m\<rparr>) p a v PGSIZE = (d, k5)" by fastforce
        have q5: "quiet k k5" using quiet_trans [OF q4] fetchstr_quiet [OF d] by simp
        show ?thesis
        proof (cases "a = 0")
          case True
          then show ?thesis using Suc(2) b v m q4 by (auto simp: Let_def)
        next
          case a: False
          show ?thesis
          proof (cases d)
            case None
            then show ?thesis using Suc(2) b v m a d q5 by (auto simp: Let_def)
          next
            case s: (Some y)
            then have "fetch_args k5 p kb u (i + 1) (as @ [a]) n = (ok, argv, k3)" using Suc(2) b v m a d by (simp add: Let_def)
            from quiet_trans [OF q5 Suc(1) [OF this]] show ?thesis .
          qed
        qed
      qed
    qed simp
    from quiet_trans [OF q2 this [OF f]] have q3: "quiet k k3" .
    note e3 = quiet_eff [OF q3 p, of e]
    obtain r1 k4 m where k4: "(if ok then exec tr k3 p kb pa argv else ret (-1, k3)) = ret (r1, k4)" "k1 = k4\<lparr>kmem := m\<rparr>"
      using r a Some f unfolding sys_exec_def by (auto elim!: rbind_retE)
    have "eff k3 p e k4 e"
    proof (cases ok)
      case True
      then show ?thesis using exec_eff [OF _ eff_procs [OF e3 p]] k4(1) by simp
    next
      case False
      then show ?thesis using k4(1) quiet_eff [OF quiet_refl eff_procs [OF e3 p]] by simp
    qed
    from eff_trans [OF e3 this p] show ?thesis using eff_quiet [OF _ _ p] k4(2) by simp
  qed
qed

lemma sys_sbrk_eff:
  assumes r: "sys_sbrk k p = ret (r, k1)" and p: "p < length (procs k)"
  shows "eff k p e k1 e"
proof -
  obtain n g where g: "growproc k p n = ret (g, k1)" using r unfolding sys_sbrk_def Let_def by (auto elim!: rbind_retE)
  show ?thesis
  proof (rule growproc_ok [OF g])
    fix sz assume s: "sets k p ((proc_at k p)\<lparr>psz := sz\<rparr>) k1" "nextpid k1 = nextpid k" "ftable k1 = ftable k"
    have "priv k p k1" unfolding priv_def
      by (intro conjI exI [of _ sz] exI [of _ "pagetable (proc_at k p)"] exI [of _ "ofile (proc_at k p)"] exI [of _ "cwd (proc_at k p)"] exI [of _ "pname (proc_at k p)"])
        (use s in simp_all)
    moreover have "keepf k k1" by (rule keepf_sets [OF s(1) p s(3)]) simp
    ultimately show ?thesis using bal_keepf s by (auto simp: eff_def sets_def)
  qed
qed

section \<open>System calls\<close>

definition kinv :: "kern \<Rightarrow> bool" where
  "kinv k \<longleftrightarrow> pinv k \<and> bal k (\<lambda>_. 0)"

lemma kinv_keepf: "kinv k \<Longrightarrow> keepf k k1 \<Longrightarrow> pinv k1 \<Longrightarrow> kinv k1"
  using bal_keepf by (auto simp: kinv_def)

lemma kinv_eff: "kinv k \<Longrightarrow> cpu_proc k c = Some p \<Longrightarrow> eff k p (\<lambda>_. 0) k1 (\<lambda>_. 0) \<Longrightarrow> kinv k1"
  using priv_pinv by (auto simp: kinv_def eff_def)

lemma kinv_quiet: "kinv k \<Longrightarrow> quiet k k1 \<Longrightarrow> kinv k1"
  by (rule kinv_keepf) (auto simp: quiet_def keepf_def same_tab_def kinv_def intro: pinv_same)

lemma sleep_keepf: "pinv k \<Longrightarrow> sleep k c ch = ret k1 \<Longrightarrow> keepf k k1"
  using running by (auto simp: sleep_def sleep_on_def myproc_def intro!: leave_keepf split: option.splits)

lemma yield_keepf: "pinv k \<Longrightarrow> yield k c = ret k1 \<Longrightarrow> keepf k k1"
  using running by (auto simp: yield_def myproc_def intro!: leave_keepf split: option.splits)

lemma sleep_kinv: "kinv k \<Longrightarrow> sleep k c (Addr a) = ret k1 \<Longrightarrow> kinv k1"
  using kinv_keepf sleep_keepf sleep_pinv kinv_def by blast

lemma yield_kinv: "kinv k \<Longrightarrow> yield k c = ret k1 \<Longrightarrow> kinv k1"
  using kinv_keepf yield_keepf yield_pinv kinv_def by blast

lemma returns_ret: "returns x = ret (r, k1) \<Longrightarrow> \<exists>i. x = ret (i, k1)"
  by (auto simp: returns_def elim!: rbind_retE)

lemma of_file_ret: "of_file x = ret (r, k1) \<Longrightarrow> \<exists>i. x = ret (i, k1)"
  by (auto simp: of_file_def elim!: rbind_retE)

lemma syscalls_kinv:
  assumes k: "kinv k" and c: "cpu_proc k c = Some p" and s: "syscalls tr fr tk ticks k c p kb num = Some x" and x: "x = ret (r, k1)"
  shows "kinv k1"
proof -
  have k': "pinv k" "bal k (\<lambda>_. 0)" using k by (simp_all add: kinv_def)
  have p: "p < length (procs k)" "pstate (proc_at k p) \<noteq> UNUSED" using running [OF k'(1) c] by simp_all
  note E = kinv_eff [OF k c] and Q = kinv_quiet [OF k]
  have cases: "kinv k1" if "returns (sys_fork tr fr k p) = ret (r, k1)"
    using returns_ret [OF that] fork_bal [OF _ k'(1) p k'(2)] fork_pinv [OF k'(1) c] by (auto simp: sys_fork_def kinv_def)
  moreover have "kinv k1" if "rbind (sys_exit k c p) (\<lambda>k1. ret (SExit, k1)) = ret (r, k1)"
    using that exit_bal [OF _ k'] exit_pinv [OF k'(1)] by (auto simp: sys_exit_def kinv_def elim!: rbind_retE)
  moreover have "kinv k1" if "rbind (sys_wait k c p kb) (\<lambda>(w, k1). ret (case w of WRet i \<Rightarrow> SRet i | WSleep \<Rightarrow> SSleep, k1)) = ret (r, k1)"
    using that kinv_keepf [OF k wait_keepf [OF _ k'(1)] wait_pinv [OF k'(1)]] by (auto simp: sys_wait_def elim!: rbind_retE)
  moreover have "kinv k1" if "rbind (sys_sleep k c p tk ticks ticks) (\<lambda>(r, k1). ret (case r of Some i \<Rightarrow> SRet i | None \<Rightarrow> SSleep, k1)) = ret (r, k1)"
    using that k sleep_kinv [OF k] by (auto simp: sys_sleep_def Let_def elim!: rbind_retE split: if_splits)
  moreover have "kinv k1" if "returns (sys_kill k p) = ret (r, k1)"
    using returns_ret [OF that] kinv_keepf [OF k kill_keepf kill_pinv [OF k'(1)]] by (auto simp: sys_kill_def elim!: rbind_retE)
  moreover have "kinv k1" if "of_file (sys_read k p kb) = ret (r, k1)" using of_file_ret [OF that] sys_read_quiet Q by blast
  moreover have "kinv k1" if "of_file (sys_write k p kb) = ret (r, k1)" using of_file_ret [OF that] sys_write_quiet Q by blast
  moreover have "kinv k1" if "returns y = ret (r, k1)" and "y \<in> {sys_fstat k p kb, sys_mknod k p kb, sys_unlink k p kb, sys_link k p kb, sys_mkdir k p kb}" for y
    using returns_ret [OF that(1)] that(2)
    by (auto intro!: Q intro: sys_fstat_quiet [OF sym] sys_mknod_quiet [OF sym] sys_unlink_quiet [OF sym] sys_link_quiet [OF sym] sys_mkdir_quiet [OF sym])
  moreover have "kinv k1" if "returns y = ret (r, k1)"
    and "y \<in> {sys_pipe k p kb, sys_exec tr k p kb, sys_chdir k p kb, sys_dup k p, sys_sbrk k p, sys_open k p kb, sys_close k p}" for y
    using returns_ret [OF that(1)] that(2)
    by (auto intro!: E intro: sys_pipe_eff [OF sym p(1)] sys_exec_eff [OF sym p(1)] sys_chdir_eff [OF sym p(1)] sys_dup_eff [OF sym p(1)]
      sys_sbrk_eff [OF sym p(1)] sys_open_eff [OF sym p(1)] sys_close_eff [OF sym p(1)])
  moreover have "kinv k1" if "returns (ret (i, k)) = ret (r, k1)" for i using that k by (simp add: returns_def)
  ultimately show ?thesis using s x unfolding syscalls_def by (simp split: if_splits)
qed

lemma syscall_kinv:
  assumes k: "kinv k" and c: "cpu_proc k c = Some p" and r: "syscall tr fr tk ticks k c p kb = ret (r, k1)"
  shows "kinv k1"
proof (cases "syscalls tr fr tk ticks k c p kb (sint (ucast (get_tf k p TF_A7) :: uint32))")
  case None
  then have "k1 = set_tf k p TF_A0 (-1)" using r by (simp add: syscall_def Let_def)
  then show ?thesis using kinv_quiet [OF k] by simp
next
  case (Some x)
  then obtain k2 where x: "x = ret (r, k2)" "k1 = (case r of SRet i \<Rightarrow> set_tf k2 p TF_A0 (of_int i) | _ \<Rightarrow> k2)"
    using r by (auto simp: syscall_def Let_def elim!: rbind_retE)
  have "kinv k2" by (rule syscalls_kinv [OF k c Some x(1)])
  moreover have "quiet k2 k1" unfolding x(2) by (cases r) simp_all
  ultimately show ?thesis by (rule kinv_quiet)
qed

section \<open>Runs\<close>

text \<open>
  A step of the kernel: a system call of the process that processor \<open>c\<close> runs, the scheduler, an interrupt, the rest of a
  call that has slept, or anything a process does to memory, devices and its private fields other than its descriptors.
\<close>

inductive kstep :: "uint64 \<Rightarrow> uint64 \<Rightarrow> kern \<Rightarrow> kern \<Rightarrow> bool" for trampoline forkret where
  call: "myproc k c = Some p \<Longrightarrow> syscall trampoline forkret tk ticks k c p kb = ret (r, k1) \<Longrightarrow> kstep trampoline forkret k k1"
| sched: "myproc k c = None \<Longrightarrow> scheduler k c i = (r, k1) \<Longrightarrow> kstep trampoline forkret k k1"
| yield: "yield k c = ret k1 \<Longrightarrow> kstep trampoline forkret k k1"
| sleep: "sleep k c (Addr a) = ret k1 \<Longrightarrow> kstep trampoline forkret k k1"
| woken: "myproc k c = Some p \<Longrightarrow> kstep trampoline forkret k (woken k p)"
| wakeup: "kstep trampoline forkret k (wakeup k (myproc k c) ch)"
| setkilled: "myproc k c = Some p \<Longrightarrow> kstep trampoline forkret k (setkilled k p)"
| wait: "wait k c kb addr = ret (w, k1) \<Longrightarrow> kstep trampoline forkret k k1"
| work: "myproc k c = Some p \<Longrightarrow> pt \<noteq> 0 \<Longrightarrow> tf \<noteq> 0 \<Longrightarrow> nextpid k1 = nextpid k \<Longrightarrow> map fref (ftable k1) = map fref (ftable k) \<Longrightarrow>
     sets k p ((proc_at k p)\<lparr>psz := sz, pagetable := pt, trapframe := tf, cwd := d, pname := nm\<rparr>) k1 \<Longrightarrow> kstep trampoline forkret k k1"

lemma kstep_kinv:
  assumes "kstep tr fr k k1" and "kinv k"
  shows "kinv k1"
  using assms
proof (induction rule: kstep.induct)
  case (call k c p tk ticks kb r k1)
  then show ?case using syscall_kinv by (simp add: myproc_def)
next
  case (sched k c i r k1)
  then have "keepf k k1" "pinv k1" using scheduler_keepf [OF sched(2)] scheduler_pinv [OF _ _ sched(2)] by (simp_all add: myproc_def kinv_def)
  then show ?case by (rule kinv_keepf [OF sched(3)])
next
  case (woken k c p)
  then have "pstep tr fr k (woken k p)" "p < length (procs k)" using pstep.woken running by (auto simp: myproc_def kinv_def)
  then show ?case using kinv_keepf [OF woken(2), of "woken k p"] keepf_upd_proc pstep_pinv woken(2) by (auto simp: kinv_def woken_def)
next
  case (setkilled k c p)
  then have "pstep tr fr k (setkilled k p)" "p < length (procs k)" using pstep.setkilled running by (auto simp: myproc_def kinv_def)
  then show ?case using kinv_keepf [OF setkilled(2), of "setkilled k p"] keepf_upd_proc pstep_pinv setkilled(2) by (auto simp: kinv_def setkilled_def)
next
  case (wakeup k c ch)
  then show ?case using kinv_keepf [OF _ woke_keepf [OF wakeup_woke]] wakeup_pinv by (simp add: kinv_def)
next
  case (wait k c kb a w k1)
  then have "keepf k k1" "pinv k1" using wait_keepf [OF wait(1)] wait_pinv [OF _ wait(1)] by (simp_all add: kinv_def)
  then show ?case by (rule kinv_keepf [OF wait(2)])
next
  case (work k c p pt tf k1 nm d sz)
  let ?x = "(proc_at k p)\<lparr>psz := sz, pagetable := pt, trapframe := tf, cwd := d, pname := nm\<rparr>"
  have k: "pinv k" "cpu_proc k c = Some p" using work(1,7) by (simp_all add: kinv_def myproc_def)
  note r = running [OF k]
  have "cpus_ok k1" using cpus_keep [of k p k1 ?x] work(6) k(1) r by (simp add: pinv_def ptab_ok_def sets_def)
  moreover have "entry_ok (nextpid k) ?x" using pinv_entry [OF k(1) conjunct1 [OF r]] r work(2,3) by (simp add: entry_ok_def)
  ultimately have "pinv k1" using pinv_replace [OF k(1) conjunct1 [OF r], of k1 ?x] work(4,6) r by (simp add: living_def sets_def)
  moreover have "map ofile (procs k1) = map ofile (procs k)"
    using work(6) r list_update_id [of "map ofile (procs k)" p] by (simp add: sets_def map_update)
  ultimately show ?case using kinv_keepf [OF work(7)] work(5) by (simp add: keepf_def)
qed (auto intro: yield_kinv sleep_kinv)

lemma ksteps_kinv: "(kstep tr fr)\<^sup>*\<^sup>* k k1 \<Longrightarrow> kinv k \<Longrightarrow> kinv k1"
  by (induction rule: rtranclp_induct) (auto intro: kstep_kinv)

section \<open>The first process opens a pipe\<close>

lemma allocproc_ftable: "allocproc tr fr k = ret (r, k1) \<Longrightarrow> ftable k1 = ftable k"
  by (erule allocproc_ok) simp_all

lemma userinit_ftable: "userinit tr fr ic k pid = ret k1 \<Longrightarrow> ftable k1 = ftable k"
  unfolding userinit_def by (auto elim!: rbind_retE dest!: allocproc_ftable split: option.splits simp: set_tf_def upd_proc_def Let_def)

lemma boot_kinv:
  assumes b: "boot_tab k0" and f: "\<forall>x\<in>set (ftable k0). fref x = 0" and u: "userinit tr fr ic (procinit k0) pid = ret k"
  shows "kinv k"
proof (rule userinit_ok [OF u])
  note B = procinit_boot [OF b]
  have ft: "ftable k = ftable k0" using userinit_ftable [OF u] by (simp add: procinit_def)
  fix p x assume p: "p < length (procs (procinit k0))" "procs k = (procs (procinit k0))[p := x]" "ofile x = ofile (proc_at (procinit k0) p)"
  have "ofile (proc_at k q) = replicate NOFILE None" if "q < length (procs k)" for q
    using that p B(1) B(2) [of q] by (cases "q = p") (simp_all add: proc0_def)
  then have o: "ofile y = replicate NOFILE None" if "y \<in> set (procs k)" for y using that by (auto simp: in_set_conv_nth)
  then have "nrefs k i = 0" for i unfolding nrefs_def by (simp add: count_list_0_iff)
  then have "bal k (\<lambda>_. 0)" using o f ft by (simp add: bal_def)
  then show ?thesis using userinit_pinv [OF b u] by (simp add: kinv_def)
qed

lemma kalloc_uvm:
  assumes inv: "uvm_inv s pt own (m # qs) U" and k: "kalloc s = (m, s1)"
  shows "uvm_inv s1 pt own qs U" and "view s1 pt = view s pt" and "m \<noteq> 0"
proof -
  let ?s2 = "s1\<lparr>ram := memset (ram s1) m 0 PGSIZE\<rparr>"
  note z = zero_frame [OF inv k]
  have "\<forall>q\<in>dom own \<union> set qs. \<forall>x\<in>page q. ram s1 x = ram ?s2 x"
  proof (intro ballI)
    fix q x assume q: "q \<in> dom own \<union> set qs" and x: "x \<in> page q"
    have "page_ok s q" "q \<noteq> m"
      using q uvm_invD(1) [OF inv] own_page_ok [of s pt own "m # qs" q] km.pages [of s "m # qs" q] z(6,8) by (auto simp: pt_inv_def)
    then show "ram s1 x = ram ?s2 x" using page_disjoint [OF _ z(5) _ x] by (simp add: memset_frame)
  qed
  then show "uvm_inv s1 pt own qs U" "view s1 pt = view s pt" using uvm_write [OF z(1), of "ram s1"] z(2) by simp_all
  show "m \<noteq> 0" by (rule z(7))
qed

lemma apart_view: "view t pt = view s pt \<Longrightarrow> kbuf_apart t pt own ps U a n = kbuf_apart s pt own ps U a n"
  by (simp add: kbuf_apart_def held_def frame_def)

lemma write_apart:
  assumes inv: "uvm_inv s pt own ps U" and a: "kbuf_apart s pt own ps U a n" and m: "\<And>x. x < a \<or> a + n \<le> x \<Longrightarrow> m x = ram s x"
  shows "uvm_inv (s\<lparr>ram := m\<rparr>) pt own ps U" and "view (s\<lparr>ram := m\<rparr>) pt = view s pt"
proof -
  have same: "\<forall>q\<in>dom own \<union> set ps. \<forall>x\<in>page q. m x = ram s x"
  proof (intro ballI)
    fix q x assume "q \<in> dom own \<union> set ps" and x: "x \<in> page q"
    then have "q \<in> held s pt own ps U" by (auto simp: held_def)
    then have "\<not> (a \<le> x \<and> x < a + n)" using a x unfolding kbuf_apart_def by blast
    then show "m x = ram s x" using m [of x] by linarith
  qed
  show "uvm_inv (s\<lparr>ram := m\<rparr>) pt own ps U" "view (s\<lparr>ram := m\<rparr>) pt = view s pt" by (rule uvm_write [OF inv same])+
qed

lemma put_int_ok:
  assumes pt: "pagetable (proc_at k p) = pt" and inv: "uvm_inv (kmem k) pt own ps U" and r: "urange (kmem k) pt U PTE_WU (unat a) 4"
    and kb: "kbuf_apart (kmem k) pt own ps U kb 4"
  obtains m where "put_int k p kb a n = (True, k\<lparr>kmem := m\<rparr>)" "uvm_inv m pt own ps U" "view m pt = view (kmem k) pt"
proof -
  let ?s = "(kmem k)\<lparr>ram := store (ram (kmem k)) kb (le32 (of_nat n))\<rparr>"
  have w: "uvm_inv ?s pt own ps U" "view ?s pt = view (kmem k) pt" by (rule write_apart [OF inv kb]; auto simp: store_def le32_def)+
  have "urange ?s pt U PTE_WU (unat a) (unat (4 :: uint64))" "kbuf_apart ?s pt own ps U kb (unat (4 :: uint64))"
    using r kb w(2) apart_view [OF w(2)] by (simp_all add: urange_def)
  then obtain t where "copyout ?s pt a kb 4 = (True, t)" "uvm_inv t pt own ps U" "view t pt = view ?s pt"
    using copyout_ok [OF w(1), of a 4 kb] by blast
  then show ?thesis using that [of t] w(2) pt by (simp add: put_int_def)
qed

lemma filealloc_at: "f < length (ftable k) \<Longrightarrow> fref (ftable k ! f) = 0 \<Longrightarrow> \<forall>g<f. fref (ftable k ! g) \<noteq> 0 \<Longrightarrow>
    filealloc k = (Some f, upd_file k f (\<lambda>x. x\<lparr>fref := 1\<rparr>))"
  using find_Some_iff [of "\<lambda>f. fref (ftable k ! f) = 0" "[0..<length (ftable k)]" f] by (auto simp: filealloc_def)

lemma fdalloc_at0: "f < NOFILE \<Longrightarrow> ofile (proc_at k p) ! f = None \<Longrightarrow> \<forall>g<f. ofile (proc_at k p) ! g \<noteq> None \<Longrightarrow>
    fdalloc k p x = (Some f, upd_proc k p (\<lambda>y. y\<lparr>ofile := (ofile y)[f := Some x]\<rparr>))"
  using find_Some_iff [of "\<lambda>fd. ofile (proc_at k p) ! fd = None" "[0..<NOFILE]" f] by (auto simp: fdalloc_def)

lemma pipealloc_first:
  assumes f: "ftable k = replicate NFILE z" "fref z = 0" and inv: "uvm_inv (kmem k) pt own (m # qs) U"
  obtains k1 where "pipealloc k p = ret (Some (0, 1), k1)" "procs k1 = procs k" "uvm_inv (kmem k1) pt own qs U" "view (kmem k1) pt = view (kmem k) pt"
proof -
  have n: "1 < NFILE" by (simp add: NFILE_def)
  obtain s1 where k: "kalloc (kmem k) = (m, s1)" using km.alloc_some [of "kmem k" m qs] uvm_invD(1) [OF inv] by (auto simp: pt_inv_def)
  note u = kalloc_uvm [OF inv k]
  let ?k1 = "upd_file k 0 (\<lambda>x. x\<lparr>fref := 1\<rparr>)"
  have a: "filealloc k = (Some 0, ?k1)" using f n by (intro filealloc_at) simp_all
  have b: "filealloc ?k1 = (Some 1, upd_file ?k1 1 (\<lambda>x. x\<lparr>fref := 1\<rparr>))" using f n by (intro filealloc_at) (simp_all add: upd_file_def)
  have "\<exists>k1. pipealloc k p = ret (Some (0, 1), k1) \<and> procs k1 = procs k \<and> kmem k1 = s1"
    unfolding pipealloc_def a prod.case option.case b using k u(3) by (simp add: Let_def upd_file_def)
  then show ?thesis using that u(1,2) by blast
qed

lemma sys_pipe_returns:
  assumes p: "p < length (procs k)" "pagetable (proc_at k p) = pt" "ofile (proc_at k p) = replicate NOFILE None" and f: "ftable k = replicate NFILE z" "fref z = 0"
    and inv: "uvm_inv (kmem k) pt own (m # qs) U" and a: "get_tf k p TF_A0 = 0" "urange (kmem k) pt U PTE_WU 0 8"
    and kb: "kbuf_apart (kmem k) pt own (m # qs) U kb 4"
  obtains k1 where "sys_pipe k p kb = ret (0, k1)" "p < length (procs k1)" "ofile (proc_at k1 p) = (replicate NOFILE None)[0 := Some 0, 1 := Some 1]"
proof (rule pipealloc_first [OF f inv, of p])
  fix k1 assume k1: "pipealloc k p = ret (Some (0, 1), k1)" "procs k1 = procs k" "uvm_inv (kmem k1) pt own qs U" "view (kmem k1) pt = view (kmem k) pt"
  have n: "1 < NOFILE" by (simp add: NOFILE_def)
  let ?k2 = "upd_proc k1 p (\<lambda>y. y\<lparr>ofile := (ofile y)[0 := Some 0]\<rparr>)"
  let ?k3 = "upd_proc ?k2 p (\<lambda>y. y\<lparr>ofile := (ofile y)[1 := Some 1]\<rparr>)"
  have fd: "fdalloc k1 p 0 = (Some 0, ?k2)" "fdalloc ?k2 p 1 = (Some 1, ?k3)" using p k1(2) n by (intro fdalloc_at0; simp)+
  have kb1: "kbuf_apart (kmem k1) pt own qs U kb 4" using kb k1(4) unfolding kbuf_apart_def held_def frame_def by auto
  have pt: "pagetable (proc_at ?k3 p) = pt" "kmem ?k3 = kmem k1" using p k1(2) by (simp_all add: upd_proc_def)
  have ur: "urange (kmem k1) pt U PTE_WU (unat (0 :: uint64)) 4" "urange (kmem k1) pt U PTE_WU (unat (4 :: uint64)) 4"
    using a(2) [unfolded urange_def, rule_format, of 0] k1(4) by (simp_all add: urange_def)
  obtain t where t: "put_int ?k3 p kb 0 0 = (True, ?k3\<lparr>kmem := t\<rparr>)" "uvm_inv t pt own qs U" "view t pt = view (kmem k1) pt"
    using put_int_ok [OF pt(1), unfolded pt(2), OF k1(3) ur(1) kb1] by blast
  have pt': "pagetable (proc_at (?k3\<lparr>kmem := t\<rparr>) p) = pt" using pt(1) by simp
  have kt: "kbuf_apart (kmem (?k3\<lparr>kmem := t\<rparr>)) pt own qs U kb 4" "urange (kmem (?k3\<lparr>kmem := t\<rparr>)) pt U PTE_WU (unat (4 :: uint64)) 4"
    using kb1 ur(2) apart_view [OF t(3)] t(3) by (simp_all add: urange_def)
  obtain v where v: "put_int (?k3\<lparr>kmem := t\<rparr>) p kb 4 1 = (True, ?k3\<lparr>kmem := t, kmem := v\<rparr>)"
    by (rule put_int_ok [OF pt' _ kt(2,1)]) (use t(2) in simp_all)
  have "argaddr k p 0 = ret 0" using a(1) by (simp add: argaddr_def argraw_def)
  then have "sys_pipe k p kb = ret (0, ?k3\<lparr>kmem := t, kmem := v\<rparr>)" by (simp add: sys_pipe_def k1(1) fd t(1) v del: One_nat_def)
  then show ?thesis using that p k1(2) by (simp add: upd_proc_def)
qed

lemma held_kend:
  assumes "uvm_inv s pt own ps U" and "q \<in> held s pt own ps U"
  shows "kend s \<le> q"
proof -
  have "page_ok s q"
    using assms(2) uvm_invD(1,5) [OF assms(1)] treeD(1) [of s own q] km.pages [of s ps q] by (auto simp: held_def pt_inv_def)
  then show ?thesis by (simp add: page_ok_def)
qed

lemma low_apart:
  assumes "uvm_inv s pt own ps U" and "a + n \<le> kend s"
  shows "kbuf_apart s pt own ps U a n"
  unfolding kbuf_apart_def page_def using held_kend [OF assms(1)] assms(2) by fastforce

text \<open>A memory with an address space of one page, and a trap frame at \<open>0x1000\<close> with a call of \<^verbatim>\<open>pipe(0)\<close>.\<close>

lemma pipe_memory:
  obtains s pt own m qs where "uvm_inv s pt own (m # qs) {0}" "urange s pt {0} PTE_WU 0 8" "ld64 (ram s) (0x1000 + TF_A7) = 4" "ld64 (ram s) (0x1000 + TF_A0) = 0"
    "kbuf_apart s pt own (m # qs) {0} 0x2000 4" "pt \<noteq> 0"
proof (rule one_page)
  fix s pt own ps assume s: "uvm_inv s pt own ps {0}" "view s pt 0 = user_pte (frame s pt 0) PTE_W" "kend s = 0x87ff8000" "ps \<noteq> []"
  let ?m = "sd64 (sd64 (ram s) (0x1000 + TF_A7) 4) (0x1000 + TF_A0) 0"
  let ?s = "s\<lparr>ram := ?m\<rparr>"
  have "kbuf_apart s pt own ps {0} 0x1000 0x1000" using s(3) by (intro low_apart [OF s(1)]) simp
  note w = write_apart [OF s(1) this, of ?m]
  have o: "?m x = ram s x" if "x < 0x1000 \<or> 0x1000 + 0x1000 \<le> x" for x using that by (auto simp: sd64_def TF_A7_def TF_A0_def)
  have i: "uvm_inv ?s pt own ps {0}" "view ?s pt = view s pt" by (rule w, erule o)+
  have "user_pte m PTE_W AND PTE_WU = PTE_WU" for m
    unfolding user_pte_def PTE_WU_def by (rule bit_word_eqI) (auto simp: bit_simps)
  then have "urange ?s pt {0} PTE_WU 0 8" using s(2) i(2) by (simp add: urange_def)
  moreover have "ld64 ?m (0x1000 + TF_A7) = 4" by (simp add: ld64_sd64_other TF_A7_def TF_A0_def)
  moreover have "kbuf_apart ?s pt own ps {0} 0x2000 4" using s(3) by (intro low_apart [OF i(1)]) simp
  moreover have "pt \<in> held s pt own ps {0}" using uvm_invD(1) [OF s(1)] by (auto simp: held_def pt_inv_def)
  then have "pt \<noteq> 0" using held_kend [OF s(1)] s(3) by fastforce
  ultimately show ?thesis using that [of ?s pt own "hd ps" "tl ps"] i(1) s(4) by simp
qed

lemma pipe_run:
  obtains m k k1 p where "boot_tab (boot1 m)" "userinit 0x80007000 0x80001000 0x80008000 (procinit (boot1 m)) 0 = ret k"
    "(kstep 0x80007000 0x80001000)\<^sup>*\<^sup>* k k1" "p < length (procs k1)" "ofile (proc_at k1 p) ! 0 = Some 0"
proof (rule boot1_userinit, rule pipe_memory)
  fix m ps k s pt own f qs
  assume b: "boot_tab (boot1 m)" and u: "userinit 0x80007000 0x80001000 0x80008000 (procinit (boot1 m)) 0 = ret k"
    and s: "uvm_inv s pt own (f # qs) {0}" "urange s pt {0} PTE_WU 0 8" "ld64 (ram s) (0x1000 + TF_A7) = 4" "ld64 (ram s) (0x1000 + TF_A0) = 0"
      "kbuf_apart s pt own (f # qs) {0} 0x2000 4" "pt \<noteq> 0"
  let ?step = "kstep 0x80007000 0x80001000"
  note B = procinit_boot [OF b]
  have ft: "ftable k = ftable (boot1 m)" using userinit_ftable [OF u] by (simp add: procinit_def)
  show ?thesis
  proof (rule userinit_ok [OF u])
    fix p x assume p: "p < length (procs (procinit (boot1 m)))" and k: "procs k = (procs (procinit (boot1 m)))[p := x]" "cpu_proc k = cpu_proc (procinit (boot1 m))"
      and x: "pstate x = RUNNABLE" "ofile x = ofile (proc_at (procinit (boot1 m)) p)"
    have pn: "p < NPROC" "length (procs k) = NPROC" "proc_at k p = x" using p B(1) k(1) by simp_all
    have o: "ofile x = replicate NOFILE None" using x(2) B(2) [OF pn(1)] by (simp add: proc0_def)
    let ?k1 = "(upd_proc k p (\<lambda>x. x\<lparr>pstate := RUNNING\<rparr>))\<lparr>cpu_proc := (cpu_proc k)(0 \<mapsto> p)\<rparr>"
    have "scheduler k 0 p = (Some p, ?k1)" using pn x(1) find_hd [of "\<lambda>q. pstate (proc_at k q) = RUNNABLE" p NPROC] by (simp add: scheduler_def)
    then have s1: "?step k ?k1" using kstep.sched [of k 0 p "Some p" ?k1] k(2) B(3) by (simp add: myproc_def)
    let ?y = "(proc_at ?k1 p)\<lparr>psz := 4096, pagetable := pt, trapframe := 0x1000, cwd := None, pname := pname x\<rparr>"
    let ?k2 = "upd_proc (?k1\<lparr>kmem := s\<rparr>) p (\<lambda>_. ?y)"
    have s2: "?step ?k1 ?k2"
      by (rule kstep.work [of _ 0 p pt "0x1000" _ "pname x" None "4096"]) (use s(6) in \<open>simp_all add: sets_def myproc_def upd_proc_def\<close>)
    have at2: "proc_at ?k2 p = ?y" "kmem ?k2 = s" "ftable ?k2 = ftable (boot1 m)" "p < length (procs ?k2)" "cpu_proc ?k2 0 = Some p" "ofile (proc_at ?k2 p) = replicate NOFILE None"
      using pn ft o by (simp_all add: upd_proc_def)
    obtain k3 where k3: "sys_pipe ?k2 p 0x2000 = ret (0, k3)" "p < length (procs k3)" "ofile (proc_at k3 p) = (replicate NOFILE None)[0 := Some 0, 1 := Some 1]"
      by (rule sys_pipe_returns [OF at2(4) _ at2(6), of pt]) (use at2 s in \<open>auto simp: get_tf_def boot1_def\<close>)
    let ?k4 = "set_tf k3 p TF_A0 0"
    have "get_tf ?k2 p TF_A7 = 4" using at2(1,2) s(3) by (simp add: get_tf_def)
    then have "syscall 0x80007000 0x80001000 0 0 ?k2 0 p 0x2000 = ret (SRet 0, ?k4)" using k3(1) by (simp add: syscall_def syscalls_def returns_def)
    then have s3: "?step ?k2 ?k4" using at2(5) by (intro kstep.call) (simp_all add: myproc_def)
    have "?step\<^sup>*\<^sup>* k ?k4" using s1 s2 s3 by (meson rtranclp.rtrancl_into_rtrancl rtranclp.rtrancl_refl)
    moreover have "ofile (proc_at ?k4 p) ! 0 = Some 0" "p < length (procs ?k4)" using k3(2,3) by (simp_all add: set_tf_def NOFILE_def)
    ultimately show ?thesis using that [OF b u] by blast
  qed
qed

section \<open>The reference counts\<close>

lemma nrefs_pos: "p < length (procs k) \<Longrightarrow> Some f \<in> set (ofile (proc_at k p)) \<Longrightarrow> 0 < nrefs k f"
  unfolding nrefs_def by (auto simp: sum_list_eq_0_iff count_list_0_iff neq0_conv [symmetric] simp del: neq0_conv)

text \<open>
  C3. In every run from boot in which the processors make any system calls in any order, sleep, wake and are scheduled, the
  reference count of each entry of the file table is the number of descriptors of all processes that refer to it.  So a
  file that a descriptor refers to is never given out again by \<^verbatim>\<open>filealloc\<close>, and \<^verbatim>\<open>filedup\<close> and \<^verbatim>\<open>fileclose\<close> do not panic on
  its count; a file that no descriptor refers to is free.  The process table is well formed throughout.
\<close>

theorem file_references:
  assumes "boot_tab k0" and "\<forall>x\<in>set (ftable k0). fref x = 0" and "userinit trampoline forkret initcode (procinit k0) pid = ret k"
    and "(kstep trampoline forkret)\<^sup>*\<^sup>* k k1"
  shows "ptab_ok k1 \<and> (\<forall>f<length (ftable k1). fref (ftable k1 ! f) = int (nrefs k1 f)) \<and>
    (\<forall>p<length (procs k1). \<forall>f. Some f \<in> set (ofile (proc_at k1 p)) \<longrightarrow>
       f < length (ftable k1) \<and> 1 \<le> fref (ftable k1 ! f) \<and> fst (filealloc k1) \<noteq> Some f)"
proof -
  have inv: "pinv k1" "bal k1 (\<lambda>_. 0)" using ksteps_kinv [OF assms(4) boot_kinv [OF assms(1-3)]] by (simp_all add: kinv_def)
  then have n: "\<forall>f<length (ftable k1). fref (ftable k1 ! f) = int (nrefs k1 f)" by (simp add: bal_def)
  have "f < length (ftable k1) \<and> 1 \<le> fref (ftable k1 ! f) \<and> fst (filealloc k1) \<noteq> Some f"
    if p: "p < length (procs k1)" "Some f \<in> set (ofile (proc_at k1 p))" for p f
  proof -
    have f: "f < length (ftable k1)" using inv(2) p by (auto simp: bal_def)
    have r: "1 \<le> fref (ftable k1 ! f)" using n f nrefs_pos [OF p] by simp
    then have "fst (filealloc k1) \<noteq> Some f" by (auto simp: filealloc_def find_Some_iff split: option.splits)
    then show ?thesis using f r by simp
  qed
  moreover have "ptab_ok k1" using inv(1) by (simp add: pinv_def)
  ultimately show ?thesis using n by blast
qed

theorem file_references_witness:
  "\<exists>m k k1 p. userinit 0x80007000 0x80001000 0x80008000 (procinit (boot1 m)) 0 = ret k \<and> (kstep 0x80007000 0x80001000)\<^sup>*\<^sup>* k k1 \<and>
     ofile (proc_at k1 p) ! 0 = Some 0 \<and> 1 \<le> fref (ftable k1 ! 0) \<and> fref (ftable k1 ! 0) = int (nrefs k1 0)"
proof (rule pipe_run)
  fix m k k1 p assume r: "boot_tab (boot1 m)" "userinit 0x80007000 0x80001000 0x80008000 (procinit (boot1 m)) 0 = ret k"
    "(kstep 0x80007000 0x80001000)\<^sup>*\<^sup>* k k1" "p < length (procs k1)" "ofile (proc_at k1 p) ! 0 = Some 0"
  have "\<forall>x\<in>set (ftable (boot1 m)). fref x = 0" by (simp add: boot1_def)
  note c = file_references [OF r(1) this r(2,3)]
  have "length (ofile (proc_at k1 p)) = NOFILE" using c r(4) by (auto simp: ptab_ok_def entry_ok_def)
  then have "Some 0 \<in> set (ofile (proc_at k1 p))" using r(5) nth_mem [of 0 "ofile (proc_at k1 p)"] by (simp add: NOFILE_def)
  then have "1 \<le> fref (ftable k1 ! 0)" "fref (ftable k1 ! 0) = int (nrefs k1 0)" using c r(4) by blast+
  then show ?thesis using r by blast
qed

end
