(* ===== verification/Spec2Isabelle.thy ===== *)
theory Spec2Isabelle
  imports BuddySpec CString Spinlock VmSpec Pipe Grep Printf Console FsSpec VirtioSpec ProcSpec FileSpec
begin

text \<open>
  \<^bold>\<open>A verification of the xv6 kernel for RISC-V and its user programs.\<close>

  The program is a small Unix-like kernel written in C (\<^verbatim>\<open>kernel/\<close>) with user programs (\<^verbatim>\<open>user/\<close>) and a tool that builds the
  initial file system image (\<^verbatim>\<open>mkfs/\<close>).  Processes make system calls (\<^verbatim>\<open>syscall.c\<close>, \<^verbatim>\<open>sysfile.c\<close>, \<^verbatim>\<open>sysproc.c\<close>, \<^verbatim>\<open>exec.c\<close>); these work on the process
  table (\<^verbatim>\<open>proc.c\<close>) and on open files (\<^verbatim>\<open>file.c\<close>), which are pipes (\<^verbatim>\<open>pipe.c\<close>), the console (\<^verbatim>\<open>console.c\<close> over \<^verbatim>\<open>uart.c\<close>) or files on the disk
  (\<^verbatim>\<open>fs.c\<close> over \<^verbatim>\<open>log.c\<close> over \<^verbatim>\<open>bio.c\<close> over \<^verbatim>\<open>virtio_disk.c\<close>); memory comes from \<^verbatim>\<open>kalloc.c\<close> and is mapped by \<^verbatim>\<open>vm.c\<close>.  The buddy allocator (\<^verbatim>\<open>buddy.c\<close>
  over \<^verbatim>\<open>list.c\<close>) is a part of its own.

  \<^bold>\<open>Conventions.\<close>  \<open>Prelude\<close> fixes them.  A C function that can panic or read outside an object returns a \<open>result\<close>: \<open>Inl (Panic msg)\<close>,
  \<open>Inl (Undef what)\<close> or \<open>Inr value\<close>.  Where a function can also wait for another process without a value to return, it returns an
  \<open>outcome\<close>: \<open>None\<close> is the wait, \<open>ret\<close> and \<open>halt\<close> are the values.  State is passed explicitly, as records that follow the source's
  structs and static variables; pointers into static arrays are indices, integers have their widths where they can wrap.  A function
  that holds a lock over its whole body is one atomic operation; a call that sleeps ends in a value that says so and is resumed by
  the next operation.  The linker's symbols, the devices' registers and the clock are arguments.

  \<^bold>\<open>Memory.\<close>
  \<^item> \<open>CString\<close>: \<^verbatim>\<open>kernel/string.c\<close> on a memory of bytes; that the copies are the copies of the old contents, overlap included.
  \<^item> \<open>ListC\<close>: \<^verbatim>\<open>kernel/list.c\<close>, circular doubly linked lists over a heap of \<open>next\<close> and \<open>prev\<close> fields, and the contract \<open>list_store\<close> under
    which a client keeps a family of separate lists.
  \<^item> \<open>Buddy\<close>: \<^verbatim>\<open>kernel/buddy.c\<close>, every operation.  \<open>BuddyInv\<close>: its invariant and the single steps that keep it.  \<open>BuddyCorrect\<close>: the loops
    of allocation and release.  \<open>BuddyInit\<close>: that initialisation establishes the invariant.  \<open>BuddySpec\<close>: the contract of each
    operation, and that held blocks never overlap and nothing leaks in any sequence of calls.
  \<^item> \<open>PhysMem\<close>, \<open>Kalloc\<close>: physical memory and \<^verbatim>\<open>kernel/kalloc.c\<close>; \<open>page_allocator\<close> is the contract that page tables rely on.
  \<^item> \<open>Vm\<close>: \<^verbatim>\<open>kernel/vm.c\<close>.  \<open>VmInv\<close>: page tables as trees of pages that share nothing.  \<open>VmMap\<close>: mapping and unmapping refine updates of a
    map from page numbers to entries.  \<open>VmUser\<close>: user address spaces and the copies between user and kernel.  \<open>VmSpec\<close>: the contracts.

  \<^bold>\<open>Locks, pipes and the console.\<close>
  \<^item> \<open>Spinlock\<close>: \<^verbatim>\<open>kernel/spinlock.c\<close> and \<^verbatim>\<open>kernel/sleeplock.c\<close>; mutual exclusion over all interleavings of the single accesses to the lock.
  \<^item> \<open>Ring\<close>: the contract \<open>ring\<close> of a ring buffer with counters that wrap, used by \<open>Pipe\<close> (\<^verbatim>\<open>kernel/pipe.c\<close>: what is read is what was
    written, in order), \<open>Console\<close> (\<^verbatim>\<open>kernel/uart.c\<close> and \<^verbatim>\<open>kernel/console.c\<close>: the line editor over lists) and the disk driver.
  \<^item> \<open>Printf\<close>: \<^verbatim>\<open>kernel/printf.c\<close>, \<^verbatim>\<open>user/printf.c\<close>, and \<^verbatim>\<open>atoi\<close>.

  \<^bold>\<open>The disk and the file system.\<close>
  \<^item> \<open>Virtio\<close>, \<open>VirtioSpec\<close>: \<^verbatim>\<open>kernel/virtio_disk.c\<close> with an abstract device; every request is one atomic transfer, whatever the order of
    processes, device and interrupts.  This is what \<open>Bio\<close> assumes of a transfer.
  \<^item> \<open>Bio\<close>: \<^verbatim>\<open>kernel/bio.c\<close>, and the view of the cache as a map from blocks to contents.
  \<^item> \<open>Log\<close>, \<open>LogSpec\<close>: \<^verbatim>\<open>kernel/log.c\<close>; a crash after any prefix of the writes of a commit is recovered to the state before or after it.
  \<^item> \<open>Fs\<close>: \<^verbatim>\<open>kernel/fs.c\<close>.  \<open>FsAlloc\<close>: blocks.  \<open>FsFile\<close>: inodes and the contents of files.  \<open>FsIO\<close>: reading and writing, where \<open>sink\<close> is the
    contract of the memory that data is copied to.  \<open>FsDir\<close>: directories.  \<open>FsSpec\<close>: the contracts.

  \<^bold>\<open>Processes and system calls.\<close>
  \<^item> \<open>File\<close>: \<^verbatim>\<open>kernel/file.c\<close> and \<^verbatim>\<open>pipealloc\<close>.  \<open>Proc\<close>: \<^verbatim>\<open>kernel/proc.c\<close>.  \<open>ProcInv\<close>: the invariant of the process table.  \<open>ProcSpec\<close>: that it holds
    in every run from the first process on, and that no exit is lost.
  \<^item> \<open>Syscall\<close>, \<open>Sysfile\<close>, \<open>Exec\<close>, \<open>Sysproc\<close>: \<^verbatim>\<open>kernel/syscall.c\<close>, \<^verbatim>\<open>kernel/sysfile.c\<close>, \<^verbatim>\<open>kernel/exec.c\<close> with \<^verbatim>\<open>sys_exec\<close>, and \<^verbatim>\<open>kernel/sysproc.c\<close> with the
    dispatch.  A system call is one step of the model, up to where it returns or sleeps.
  \<^item> \<open>FileRef\<close>: what each call does to the references to open files and to the process table.  \<open>FileSpec\<close>: in every run of system calls
    the reference counts are the numbers of descriptors.

  \<^bold>\<open>User programs.\<close>  \<open>Grep\<close>: \<^verbatim>\<open>user/grep.c\<close>; the matcher decides the language of its pattern, and exactly the matching lines are written.

  \<^bold>\<open>Bounds and fuel.\<close>  Loops that the source bounds are total functions.  \<^verbatim>\<open>firstk\<close>, \<^verbatim>\<open>strlen\<close>, the polls of the UART and the walks over
  linked buffers are partial, and that they return is proved.  \<open>loadseg_loop\<close> has fuel \<open>2 ^ 20 + 1\<close>: a 32-bit size has at most \<open>2 ^ 20\<close>
  pages, and a larger count means that the index has wrapped and the loop does not end.  \<open>exec_load\<close> and \<open>fetch_args\<close> count down the
  number of headers and the size of \<^verbatim>\<open>argv\<close>.  The theorems on \<^verbatim>\<open>bd_init\<close> are for ranges of \<open>2 ^ 11\<close> to \<open>2 ^ 31\<close> bytes.

  \<^bold>\<open>Simplifications.\<close>  The file system's operations are sequential: a lock that another process holds is the outcome \<open>None\<close>.  \<^verbatim>\<open>fork\<close>, \<^verbatim>\<open>exit\<close>
  and each system call are one step although others may run between their critical sections.  The contents of a pipe are apart
  from the page that holds its struct.  A system call has one kernel buffer at \<open>kb\<close>.  The fields of ELF headers that the kernel does
  not read are left out.  Memory accesses are sequentially consistent.

  \<^bold>\<open>Not modelled.\<close>  Assembly (\<^verbatim>\<open>entry.S\<close>, \<^verbatim>\<open>swtch.S\<close>, \<^verbatim>\<open>trampoline.S\<close>, \<^verbatim>\<open>kernelvec.S\<close>) and the C code around it that sets control registers (\<^verbatim>\<open>start.c\<close>,
  \<^verbatim>\<open>trap.c\<close>, \<^verbatim>\<open>plic.c\<close>, \<^verbatim>\<open>main.c\<close>): what they call is modelled.  \<^verbatim>\<open>mkfs.c\<close> runs on the host.  The shell, the small user programs, the
  user allocator and the test programs.
\<close>

end
